(* ===== verification/Prelude.thy ===== *)
theory Prelude
  imports Complex_Main "HOL-Library.Word"
begin

text \<open>
  Shared vocabulary of the development: the machine types the simulator uses, the
  error values that stand for \<open>panic\<close>, \<open>fatal\<close>, \<open>assert\<close>, memory-unsafe reads, trapping
  divisions, uncaught exceptions and undefined arithmetic of the C++ sources, the error monad that sequences fallible steps, little-endian byte
  strings, byte arrays that are read and written at an offset, and the arithmetic
  lemmas on wrap-around that several components need.
\<close>

section \<open>Machine types\<close>

type_synonym byte = "8 word"
type_synonym addr = "64 word"
type_synonym tick = nat

named_theorems salam_defs "definitions that component proofs unfold together"
named_theorems salam_inv "preservation lemmas of the component invariants"

section \<open>Failures as values\<close>

datatype error =
    Panic string
  | Fatal string
  | AssertFail string
  | OutOfBounds
  | DivByZero
  | Uncaught string
  | Undefined string

type_synonym 'a result = "error + 'a"

definition bind_res :: "'a result \<Rightarrow> ('a \<Rightarrow> 'b result) \<Rightarrow> 'b result" where
  "bind_res r f = (case r of Inl e \<Rightarrow> Inl e | Inr x \<Rightarrow> f x)"

definition panic_if :: "bool \<Rightarrow> string \<Rightarrow> unit result" where
  "panic_if c msg = (if c then Inl (Panic msg) else Inr ())"

definition assert_that :: "bool \<Rightarrow> string \<Rightarrow> unit result" where
  "assert_that c msg = (if c then Inr () else Inl (AssertFail msg))"

lemma bind_res_Inr [simp]: "bind_res (Inr x) f = f x"
  by (simp add: bind_res_def)

lemma bind_res_Inl [simp]: "bind_res (Inl e) f = Inl e"
  by (simp add: bind_res_def)

lemma bind_res_eq_Inr_iff: "bind_res r f = Inr y \<longleftrightarrow> (\<exists>x. r = Inr x \<and> f x = Inr y)"
  by (cases r) simp_all

lemma bind_res_assoc: "bind_res (bind_res r f) g = bind_res r (\<lambda>x. bind_res (f x) g)"
  by (cases r) simp_all

lemma panic_if_simps [simp]:
  "panic_if False m = Inr ()" "panic_if True m = Inl (Panic m)"
  by (simp_all add: panic_if_def)

lemma assert_that_simps [simp]:
  "assert_that True m = Inr ()" "assert_that False m = Inl (AssertFail m)"
  by (simp_all add: assert_that_def)

lemma panic_if_eq_Inr_iff [simp]: "panic_if c m = Inr u \<longleftrightarrow> \<not> c"
  by (simp add: panic_if_def)

lemma assert_that_eq_Inr_iff [simp]: "assert_that c m = Inr u \<longleftrightarrow> c"
  by (simp add: assert_that_def)

section \<open>Unsigned and signed 32-bit wrap-around on nat and int\<close>

definition u32 :: "nat \<Rightarrow> nat" where
  "u32 n = n mod 2 ^ 32"

definition u32_sub :: "nat \<Rightarrow> nat \<Rightarrow> nat" where
  "u32_sub a b = (a + 2 ^ 32 - b mod 2 ^ 32) mod 2 ^ 32"

definition s32 :: "int \<Rightarrow> int" where
  "s32 x = (x + 2 ^ 31) mod 2 ^ 32 - 2 ^ 31"

lemma u32_id [simp]: "n < 2 ^ 32 \<Longrightarrow> u32 n = n"
  by (simp add: u32_def)

lemma u32_sub_id: "b \<le> a \<Longrightarrow> a < 2 ^ 32 \<Longrightarrow> u32_sub a b = a - b"
proof -
  assume "b \<le> a" "a < 2 ^ 32"
  then have "a + 2 ^ 32 - b mod 2 ^ 32 = (a - b) + 2 ^ 32" by simp
  moreover have "a - b < 2 ^ 32" using \<open>a < 2 ^ 32\<close> by simp
  ultimately show ?thesis by (simp add: u32_sub_def)
qed

lemma s32_id: "- (2 ^ 31) \<le> x \<Longrightarrow> x < 2 ^ 31 \<Longrightarrow> s32 x = x"
  by (simp add: s32_def)

lemma mod_below_twice: "a < 2 * c \<Longrightarrow> a mod c = (if a < c then a else a - c)" for a c :: nat
  by (simp add: le_mod_geq)

lemma div_below_twice: "a < 2 * c \<Longrightarrow> a div c = (if a < c then 0 else 1)" for a c :: nat
  by (auto simp: div_nat_eqI)

section \<open>Little-endian byte strings\<close>

fun le_val :: "byte list \<Rightarrow> nat" where
  "le_val [] = 0"
| "le_val (b # bs) = unat b + 256 * le_val bs"

fun le_bytes :: "nat \<Rightarrow> nat \<Rightarrow> byte list" where
  "le_bytes 0 v = []"
| "le_bytes (Suc n) v = word_of_nat v # le_bytes n (v div 256)"

lemma length_le_bytes [simp]: "length (le_bytes n v) = n"
  by (induction n arbitrary: v) auto

lemma unat_byte_lt: "unat (b :: byte) < 256"
  using unsigned_less [of b] by simp

lemma le_val_bound: "le_val bs < 256 ^ length bs"
proof (induction bs)
  case Nil
  then show ?case by simp
next
  case (Cons b bs)
  from Cons have "le_val bs + 1 \<le> 256 ^ length bs" by simp
  then have "256 * (le_val bs + 1) \<le> 256 * 256 ^ length bs" by (rule mult_le_mono2)
  with unat_byte_lt [of b] show ?case by simp
qed

lemma le_val_le_bytes: "le_val (le_bytes n v) = v mod 256 ^ n"
proof (induction n arbitrary: v)
  case 0
  then show ?case by simp
next
  case (Suc n)
  have "v mod (256 * 256 ^ n) = 256 * (v div 256 mod 256 ^ n) + v mod 256"
    by (rule mod_mult2_eq)
  with Suc show ?case by (simp add: unat_of_nat)
qed

lemma le_bytes_le_val: "le_bytes (length bs) (le_val bs) = bs"
proof (induction bs)
  case Nil
  then show ?case by simp
next
  case (Cons b bs)
  have "(unat b + 256 * le_val bs) div 256 = le_val bs"
    using unat_byte_lt [of b] by simp
  moreover have "(word_of_nat (256 * le_val bs) :: byte) = 0"
    by (simp add: word_of_nat_eq_0_iff del: of_nat_mult)
  then have "(word_of_nat (unat b + 256 * le_val bs) :: byte) = b"
    by (simp del: of_nat_mult)
  ultimately show ?case using Cons by simp
qed

section \<open>Byte arrays addressed by an offset\<close>

definition get_bytes :: "nat \<Rightarrow> nat \<Rightarrow> 'a list \<Rightarrow> 'a list result" where
  "get_bytes off len m = (if off + len \<le> length m then Inr (take len (drop off m)) else Inl OutOfBounds)"

definition put_bytes :: "nat \<Rightarrow> 'a list \<Rightarrow> 'a list \<Rightarrow> 'a list result" where
  "put_bytes off xs m =
     (if off + length xs \<le> length m then Inr (take off m @ xs @ drop (off + length xs) m)
      else Inl OutOfBounds)"

lemma length_put_bytes: "put_bytes off xs m = Inr m' \<Longrightarrow> length m' = length m"
  by (auto simp: put_bytes_def split: if_splits)

lemma get_put_same: "put_bytes off xs m = Inr m' \<Longrightarrow> get_bytes off (length xs) m' = Inr xs"
  by (auto simp: put_bytes_def get_bytes_def split: if_splits)

lemma nth_put_bytes:
  assumes "put_bytes off xs m = Inr m'" and "i < length m"
  shows "m' ! i = (if off \<le> i \<and> i < off + length xs then xs ! (i - off) else m ! i)"
  using assms by (auto simp: put_bytes_def nth_append min_def split: if_splits)

lemma length_get_bytes: "get_bytes off len m = Inr xs \<Longrightarrow> length xs = len"
  by (auto simp: get_bytes_def split: if_splits)

end
