(* ===== verification/Addr_Range.thy ===== *)
theory Addr_Range
  imports Prelude
begin

unbundle bit_operations_syntax

text \<open>
  Address ranges, \<open>src/base/addr_range.hh\<close>: half-open intervals of 64-bit addresses that may
  be interleaved by a vector of XOR masks. The communication interface, the DMA engines and
  the scratchpad decide by them which port an address belongs to.
\<close>

record addr_range =
  ar_start :: addr
  ar_end :: addr
  ar_masks :: "addr list"
  ar_intlvMatch :: nat

type_synonym addr_range_list = "addr_range list"

definition popCount :: "addr \<Rightarrow> nat" where
  "popCount v = length (filter (bit v) [0..<64])"

definition ctz64 :: "addr \<Rightarrow> nat" where
  "ctz64 v = length (takeWhile (\<lambda>i. \<not> bit v i) [0..<64])"

definition AddrRange :: "addr \<Rightarrow> addr \<Rightarrow> addr_range" where
  "AddrRange s e = \<lparr> ar_start = s, ar_end = e, ar_masks = [], ar_intlvMatch = 0 \<rparr>"

definition AddrRange_masks :: "addr \<Rightarrow> addr \<Rightarrow> addr list \<Rightarrow> nat \<Rightarrow> addr_range result" where
  "AddrRange_masks s e masks m =
     (if masks \<noteq> [] \<and> m \<ge> 2 ^ length masks
      then Inl (Fatal ''Match value does not fit in interleaving bits'')
      else Inr \<lparr> ar_start = s, ar_end = e, ar_masks = masks, ar_intlvMatch = m \<rparr>)"

definition RangeEx :: "addr \<Rightarrow> addr \<Rightarrow> addr_range" where
  "RangeEx s e = AddrRange s e"

definition RangeIn :: "addr \<Rightarrow> addr \<Rightarrow> addr_range" where
  "RangeIn s e = AddrRange s (e + 1)"

definition RangeSize :: "addr \<Rightarrow> addr \<Rightarrow> addr_range" where
  "RangeSize s sz = AddrRange s (s + sz)"

definition ar_interleaved :: "addr_range \<Rightarrow> bool" where
  "ar_interleaved r \<longleftrightarrow> length (ar_masks r) > 0"

definition ar_size :: "addr_range \<Rightarrow> addr" where
  "ar_size r = drop_bit (length (ar_masks r)) (ar_end r - ar_start r)"

definition ar_valid :: "addr_range \<Rightarrow> bool" where
  "ar_valid r \<longleftrightarrow> ar_start r \<le> ar_end r"

text \<open>
  \<open>granularity\<close> collects the masks in a variable declared \<open>auto combined_mask = 0\<close>, an
  \<open>int\<close>: only the low 32 bits of the masks are kept, sign-extended when the union is passed
  to \<open>ctz64\<close>.
\<close>

definition combined_mask :: "addr list \<Rightarrow> addr" where
  "combined_mask masks =
     signed_take_bit 31 (foldl (\<lambda>c m. signed_take_bit 31 (c OR m)) 0 masks)"

definition ar_granularity :: "addr_range \<Rightarrow> addr" where
  "ar_granularity r =
     (if ar_interleaved r then push_bit (ctz64 (combined_mask (ar_masks r))) 1 else ar_size r)"

definition mergesWith :: "addr_range \<Rightarrow> addr_range \<Rightarrow> bool" where
  "mergesWith q r \<longleftrightarrow> ar_start r = ar_start q \<and> ar_end r = ar_end q \<and> ar_masks r = ar_masks q"

fun ar_sel :: "nat \<Rightarrow> addr list \<Rightarrow> addr \<Rightarrow> nat" where
  "ar_sel i [] a = 0"
| "ar_sel i (m # ms) a = push_bit i (popCount (a AND m) mod 2) OR ar_sel (Suc i) ms a"

definition ar_contains :: "addr_range \<Rightarrow> addr \<Rightarrow> bool" where
  "ar_contains r a \<longleftrightarrow>
     (if a \<ge> ar_start r \<and> a < ar_end r then ar_sel 0 (ar_masks r) a = ar_intlvMatch r else False)"

definition ar_intersects :: "addr_range \<Rightarrow> addr_range \<Rightarrow> bool result" where
  "ar_intersects q r =
     (if ar_start q \<ge> ar_end r \<or> ar_end q \<le> ar_start r then Inr False
      else if \<not> ar_interleaved q \<and> \<not> ar_interleaved r then Inr True
      else if ar_size r = 1 then Inr (ar_contains q (ar_start r))
      else if mergesWith q r then Inr (ar_intlvMatch q = ar_intlvMatch r)
      else Inl (Panic ''Cannot test intersection''))"

definition ar_isSubset :: "addr_range \<Rightarrow> addr_range \<Rightarrow> bool result" where
  "ar_isSubset q r =
     (if ar_interleaved q then Inl (Panic ''Cannot test subset of interleaved range'')
      else if ar_interleaved r
        then Inr (ar_contains r (ar_start q) \<and> ar_contains r (ar_end q - 1) \<and>
                  ar_size q \<le> ar_granularity r)
      else Inr (ar_start q \<ge> ar_start r \<and> ar_end q \<le> ar_end r))"

definition ranges_contain :: "addr_range_list \<Rightarrow> addr \<Rightarrow> bool" where
  "ranges_contain rs a \<longleftrightarrow> list_ex (\<lambda>r. ar_contains r a) rs"

section \<open>Containment\<close>

lemma AddrRange_contains [simp]: "ar_contains (AddrRange s e) a \<longleftrightarrow> s \<le> a \<and> a < e"
  by (auto simp: ar_contains_def AddrRange_def)

lemma AddrRange_not_interleaved [simp]: "\<not> ar_interleaved (AddrRange s e)"
  by (simp add: ar_interleaved_def AddrRange_def)

lemma RangeSize_contains_offset:
  assumes "unat s + unat sz < 2 ^ 64"
  shows "ar_contains (RangeSize s sz) a \<longleftrightarrow> s \<le> a \<and> unat (a - s) < unat sz"
proof -
  have e: "unat (s + sz) = unat s + unat sz"
    using assms by (subst unat_add_lem [symmetric]) simp
  have "s \<le> a \<Longrightarrow> unat (a - s) = unat a - unat s" by (rule unat_sub)
  then show ?thesis
    using e by (auto simp: RangeSize_def word_less_nat_alt word_le_nat_alt)
qed

lemma or_below: "x < 2 ^ n \<Longrightarrow> y < 2 ^ n \<Longrightarrow> x OR y < 2 ^ n" for x y n :: nat
  by (metis take_bit_nat_eq_self_iff take_bit_or)

lemma ar_sel_bound: "ar_sel i ms a < 2 ^ (i + length ms)"
proof (induction ms arbitrary: i)
  case Nil
  then show ?case by simp
next
  case (Cons m ms)
  have p: "popCount (a AND m) mod 2 \<le> 1" by simp
  have "push_bit i (popCount (a AND m) mod 2) \<le> 2 ^ i"
    using mult_le_mono1 [OF p, of "2 ^ i"] by (simp add: push_bit_eq_mult)
  moreover have "(2::nat) ^ i < 2 ^ (i + length (m # ms))"
    by (rule power_strict_increasing) simp_all
  ultimately have "push_bit i (popCount (a AND m) mod 2) < 2 ^ (i + length (m # ms))"
    by (rule le_less_trans)
  moreover have "ar_sel (Suc i) ms a < 2 ^ (i + length (m # ms))" using Cons [of "Suc i"] by simp
  ultimately show ?case unfolding ar_sel.simps by (rule or_below)
qed



text \<open>
  On ranges without interleaving the two set tests are exact: \<open>isSubset\<close> of a non-empty
  range is inclusion of the address sets, \<open>intersects\<close> of non-empty ranges is a common
  address, and neither panics.
\<close>

theorem plain_range_tests_exact:
  assumes "s1 < e1" and "s2 < e2"
  shows "ar_isSubset (AddrRange s1 e1) (AddrRange s2 e2) =
      Inr (\<forall>a. ar_contains (AddrRange s1 e1) a \<longrightarrow> ar_contains (AddrRange s2 e2) a)
    \<and> ar_intersects (AddrRange s1 e1) (AddrRange s2 e2) =
      Inr (\<exists>a. ar_contains (AddrRange s1 e1) a \<and> ar_contains (AddrRange s2 e2) a)"
proof
  have "unat (e1 - 1) = unat e1 - 1" using assms(1) by (intro unat_minus_one) auto
  then have last: "s1 \<le> e1 - 1" "e1 - 1 < e1" "e1 - 1 < e2 \<longleftrightarrow> e1 \<le> e2"
    using assms(1) by (auto simp: word_less_nat_alt word_le_nat_alt)
  have "s2 \<le> s1 \<and> e1 \<le> e2 \<longleftrightarrow> (\<forall>a. s1 \<le> a \<and> a < e1 \<longrightarrow> s2 \<le> a \<and> a < e2)"
  proof
    assume "\<forall>a. s1 \<le> a \<and> a < e1 \<longrightarrow> s2 \<le> a \<and> a < e2"
    then have "s2 \<le> s1" "e1 - 1 < e2" using assms(1) last by blast+
    then show "s2 \<le> s1 \<and> e1 \<le> e2" using last by simp
  qed auto
  then show "ar_isSubset (AddrRange s1 e1) (AddrRange s2 e2) =
      Inr (\<forall>a. ar_contains (AddrRange s1 e1) a \<longrightarrow> ar_contains (AddrRange s2 e2) a)"
    by (simp add: ar_isSubset_def) (simp add: AddrRange_def)
next
  have "\<not> (e2 \<le> s1 \<or> e1 \<le> s2) \<longleftrightarrow> (\<exists>a. (s1 \<le> a \<and> a < e1) \<and> s2 \<le> a \<and> a < e2)"
  proof
    assume "\<not> (e2 \<le> s1 \<or> e1 \<le> s2)"
    then have "s1 \<le> max s1 s2 \<and> max s1 s2 < e1 \<and> s2 \<le> max s1 s2 \<and> max s1 s2 < e2"
      using assms by (auto simp: max_def)
    then show "\<exists>a. (s1 \<le> a \<and> a < e1) \<and> s2 \<le> a \<and> a < e2" by blast
  qed auto
  moreover have "ar_intersects (AddrRange s1 e1) (AddrRange s2 e2) = Inr (\<not> (e2 \<le> s1 \<or> e1 \<le> s2))"
    by (simp add: ar_intersects_def) (simp add: AddrRange_def)
  ultimately show "ar_intersects (AddrRange s1 e1) (AddrRange s2 e2) =
      Inr (\<exists>a. ar_contains (AddrRange s1 e1) a \<and> ar_contains (AddrRange s2 e2) a)"
    by (simp only: AddrRange_contains)
qed

theorem plain_range_tests_exact_witness:
  "ar_isSubset (AddrRange 16 32) (AddrRange 0 32) =
      Inr (\<forall>a. ar_contains (AddrRange 16 32) a \<longrightarrow> ar_contains (AddrRange 0 32) a)
    \<and> ar_intersects (AddrRange 16 32) (AddrRange 0 32) =
      Inr (\<exists>a. ar_contains (AddrRange 16 32) a \<and> ar_contains (AddrRange 0 32) a)"
  by (rule plain_range_tests_exact) simp_all

end
