(* ===== verification/Packet.thy ===== *)
theory Packet
  imports Addr_Range
begin

text \<open>
  What the accelerator library uses of the simulation kernel: memory packets with the
  command table of \<open>src/mem/packet.cc\<close>, their data accessors, and single events of
  \<open>src/sim/eventq_impl.hh\<close>. An event is either idle or scheduled at a tick; a peer's answer
  to a timing request or response is an argument of the operations that send one.
\<close>

section \<open>Memory commands\<close>

datatype cmd_attr =
    IsRead | IsWrite | IsUpgrade | IsInvalidate | IsClean | NeedsWritable | IsRequest | IsResponse
  | NeedsResponse | IsEviction | IsSWPrefetch | IsHWPrefetch | IsLlsc | HasData | IsError | IsPrint
  | IsFlush | FromCache

datatype mem_cmd =
    InvalidCmd | ReadReq | ReadResp | ReadRespWithInvalidate | WriteReq | WriteResp | WritebackDirty
  | WritebackClean | WriteClean | CleanEvict | SoftPFReq | SoftPFExReq | HardPFReq | SoftPFResp
  | HardPFResp | WriteLineReq | UpgradeReq | SCUpgradeReq | UpgradeResp | SCUpgradeFailReq
  | UpgradeFailResp | ReadExReq | ReadExResp | ReadCleanReq | ReadSharedReq | LoadLockedReq
  | StoreCondReq | StoreCondFailReq | StoreCondResp | SwapReq | SwapResp | MemFenceReq | MemFenceResp
  | CleanSharedReq | CleanSharedResp | CleanInvalidReq | CleanInvalidResp | InvalidDestError
  | BadAddressError | FunctionalReadError | FunctionalWriteError | PrintReq | FlushReq
  | InvalidateReq | InvalidateResp

fun commandInfo :: "mem_cmd \<Rightarrow> cmd_attr list \<times> mem_cmd" where
  "commandInfo InvalidCmd = ([], InvalidCmd)"
| "commandInfo ReadReq = ([IsRead, IsRequest, NeedsResponse], ReadResp)"
| "commandInfo ReadResp = ([IsRead, IsResponse, HasData], InvalidCmd)"
| "commandInfo ReadRespWithInvalidate = ([IsRead, IsResponse, HasData, IsInvalidate], InvalidCmd)"
| "commandInfo WriteReq = ([IsWrite, NeedsWritable, IsRequest, NeedsResponse, HasData], WriteResp)"
| "commandInfo WriteResp = ([IsWrite, IsResponse], InvalidCmd)"
| "commandInfo WritebackDirty = ([IsWrite, IsRequest, IsEviction, HasData, FromCache], InvalidCmd)"
| "commandInfo WritebackClean = ([IsWrite, IsRequest, IsEviction, HasData, FromCache], InvalidCmd)"
| "commandInfo WriteClean = ([IsWrite, IsRequest, HasData, FromCache], InvalidCmd)"
| "commandInfo CleanEvict = ([IsRequest, IsEviction, FromCache], InvalidCmd)"
| "commandInfo SoftPFReq = ([IsRead, IsRequest, IsSWPrefetch, NeedsResponse], SoftPFResp)"
| "commandInfo SoftPFExReq =
     ([IsRead, NeedsWritable, IsInvalidate, IsRequest, IsSWPrefetch, NeedsResponse], SoftPFResp)"
| "commandInfo HardPFReq = ([IsRead, IsRequest, IsHWPrefetch, NeedsResponse, FromCache], HardPFResp)"
| "commandInfo SoftPFResp = ([IsRead, IsResponse, IsSWPrefetch, HasData], InvalidCmd)"
| "commandInfo HardPFResp = ([IsRead, IsResponse, IsHWPrefetch, HasData], InvalidCmd)"
| "commandInfo WriteLineReq = ([IsWrite, NeedsWritable, IsRequest, NeedsResponse, HasData], WriteResp)"
| "commandInfo UpgradeReq =
     ([IsInvalidate, NeedsWritable, IsUpgrade, IsRequest, NeedsResponse, FromCache], UpgradeResp)"
| "commandInfo SCUpgradeReq =
     ([IsInvalidate, NeedsWritable, IsUpgrade, IsLlsc, IsRequest, NeedsResponse, FromCache], UpgradeResp)"
| "commandInfo UpgradeResp = ([IsUpgrade, IsResponse], InvalidCmd)"
| "commandInfo SCUpgradeFailReq =
     ([IsRead, NeedsWritable, IsInvalidate, IsLlsc, IsRequest, NeedsResponse, FromCache], UpgradeFailResp)"
| "commandInfo UpgradeFailResp = ([IsRead, IsResponse, HasData], InvalidCmd)"
| "commandInfo ReadExReq =
     ([IsRead, NeedsWritable, IsInvalidate, IsRequest, NeedsResponse, FromCache], ReadExResp)"
| "commandInfo ReadExResp = ([IsRead, IsResponse, HasData], InvalidCmd)"
| "commandInfo ReadCleanReq = ([IsRead, IsRequest, NeedsResponse, FromCache], ReadResp)"
| "commandInfo ReadSharedReq = ([IsRead, IsRequest, NeedsResponse, FromCache], ReadResp)"
| "commandInfo LoadLockedReq = ([IsRead, IsLlsc, IsRequest, NeedsResponse], ReadResp)"
| "commandInfo StoreCondReq =
     ([IsWrite, NeedsWritable, IsLlsc, IsRequest, NeedsResponse, HasData], StoreCondResp)"
| "commandInfo StoreCondFailReq =
     ([IsWrite, NeedsWritable, IsLlsc, IsRequest, NeedsResponse, HasData], StoreCondResp)"
| "commandInfo StoreCondResp = ([IsWrite, IsLlsc, IsResponse], InvalidCmd)"
| "commandInfo SwapReq =
     ([IsRead, IsWrite, NeedsWritable, IsRequest, HasData, NeedsResponse], SwapResp)"
| "commandInfo SwapResp = ([IsRead, IsWrite, IsResponse, HasData], InvalidCmd)"
| "commandInfo MemFenceReq = ([IsRequest, NeedsResponse], MemFenceResp)"
| "commandInfo MemFenceResp = ([IsResponse], InvalidCmd)"
| "commandInfo CleanSharedReq = ([IsRequest, IsClean, NeedsResponse, FromCache], CleanSharedResp)"
| "commandInfo CleanSharedResp = ([IsResponse, IsClean], InvalidCmd)"
| "commandInfo CleanInvalidReq =
     ([IsRequest, IsInvalidate, IsClean, NeedsResponse, FromCache], CleanInvalidResp)"
| "commandInfo CleanInvalidResp = ([IsResponse, IsInvalidate, IsClean], InvalidCmd)"
| "commandInfo InvalidDestError = ([IsResponse, IsError], InvalidCmd)"
| "commandInfo BadAddressError = ([IsResponse, IsError], InvalidCmd)"
| "commandInfo FunctionalReadError = ([IsRead, IsResponse, IsError], InvalidCmd)"
| "commandInfo FunctionalWriteError = ([IsWrite, IsResponse, IsError], InvalidCmd)"
| "commandInfo PrintReq = ([IsRequest, IsPrint], InvalidCmd)"
| "commandInfo FlushReq = ([IsRequest, IsFlush, NeedsWritable], InvalidCmd)"
| "commandInfo InvalidateReq =
     ([IsInvalidate, IsRequest, NeedsWritable, NeedsResponse, FromCache], InvalidateResp)"
| "commandInfo InvalidateResp = ([IsInvalidate, IsResponse], InvalidCmd)"

definition testCmdAttrib :: "mem_cmd \<Rightarrow> cmd_attr \<Rightarrow> bool" where
  "testCmdAttrib c a \<longleftrightarrow> List.member (fst (commandInfo c)) a"

definition responseCommand :: "mem_cmd \<Rightarrow> mem_cmd" where
  "responseCommand c = snd (commandInfo c)"

text \<open>
  The command table is closed under responses: the command a request is turned into is a
  response, never asks for a response itself, and carries the read and write attributes of
  the request it answers (prefetches and upgrades included).
\<close>

theorem response_command_sound:
  assumes "testCmdAttrib c NeedsResponse"
  shows "testCmdAttrib c IsRequest \<and> testCmdAttrib (responseCommand c) IsResponse
    \<and> \<not> testCmdAttrib (responseCommand c) NeedsResponse
    \<and> \<not> testCmdAttrib (responseCommand c) IsRequest
    \<and> (testCmdAttrib (responseCommand c) IsRead = testCmdAttrib c IsRead)
    \<and> (testCmdAttrib (responseCommand c) IsWrite = testCmdAttrib c IsWrite)"
  using assms by (cases c) (simp_all add: testCmdAttrib_def responseCommand_def)

theorem response_command_sound_witness:
  "testCmdAttrib SwapReq IsRequest \<and> testCmdAttrib (responseCommand SwapReq) IsResponse
    \<and> \<not> testCmdAttrib (responseCommand SwapReq) NeedsResponse
    \<and> \<not> testCmdAttrib (responseCommand SwapReq) IsRequest
    \<and> (testCmdAttrib (responseCommand SwapReq) IsRead = testCmdAttrib SwapReq IsRead)
    \<and> (testCmdAttrib (responseCommand SwapReq) IsWrite = testCmdAttrib SwapReq IsWrite)"
  by (rule response_command_sound) (simp add: testCmdAttrib_def)

section \<open>Packets\<close>

datatype byte_order = BigEndianByteOrder | LittleEndianByteOrder

text \<open>
  \<open>pkt_id\<close> stands for the packet's pointer; \<open>pkt_byteEnable\<close> is the byte-enable vector of its
  request, empty for an unmasked access; \<open>pkt_atomicOp\<close> and the fields below it are the
  attributes of its request that a memory looks at (an extra datum or a context that is not
  set is \<open>None\<close>).
\<close>

record packet =
  pkt_id :: nat
  pkt_cmd :: mem_cmd
  pkt_addr :: addr
  pkt_size :: nat
  pkt_data :: "byte list"
  pkt_byteEnable :: "bool list"
  pkt_headerDelay :: tick
  pkt_payloadDelay :: tick
  pkt_cacheResponding :: bool
  pkt_secure :: bool
  pkt_atomicOp :: "(byte list \<Rightarrow> byte list) option"
  pkt_condSwap :: bool
  pkt_extraData :: "nat option"
  pkt_contextId :: "nat option"
  pkt_instFetch :: bool

definition pkt_isRead :: "packet \<Rightarrow> bool" where
  "pkt_isRead p \<longleftrightarrow> testCmdAttrib (pkt_cmd p) IsRead"

definition pkt_isWrite :: "packet \<Rightarrow> bool" where
  "pkt_isWrite p \<longleftrightarrow> testCmdAttrib (pkt_cmd p) IsWrite"

definition pkt_isResponse :: "packet \<Rightarrow> bool" where
  "pkt_isResponse p \<longleftrightarrow> testCmdAttrib (pkt_cmd p) IsResponse"

definition pkt_needsResponse :: "packet \<Rightarrow> bool" where
  "pkt_needsResponse p \<longleftrightarrow> testCmdAttrib (pkt_cmd p) NeedsResponse"

definition pkt_isLLSC :: "packet \<Rightarrow> bool" where
  "pkt_isLLSC p \<longleftrightarrow> testCmdAttrib (pkt_cmd p) IsLlsc"

definition matchAddr :: "packet \<Rightarrow> packet \<Rightarrow> bool" where
  "matchAddr p q \<longleftrightarrow> pkt_addr p = pkt_addr q \<and> pkt_secure p = pkt_secure q"

definition makeResponse :: "packet \<Rightarrow> packet result" where
  "makeResponse p =
     bind_res (assert_that (pkt_needsResponse p) ''needsResponse()'')
       (\<lambda>_. bind_res (assert_that (testCmdAttrib (pkt_cmd p) IsRequest) ''isRequest()'')
         (\<lambda>_. Inr (p\<lparr> pkt_cmd := responseCommand (pkt_cmd p) \<rparr>)))"

definition isMaskedWrite :: "packet \<Rightarrow> bool" where
  "isMaskedWrite p \<longleftrightarrow> pkt_cmd p = WriteReq \<and> pkt_byteEnable p \<noteq> []"

fun merge_enabled :: "bool list \<Rightarrow> byte list \<Rightarrow> byte list \<Rightarrow> byte list" where
  "merge_enabled (e # es) (x # xs) (y # ys) = (if e then x else y) # merge_enabled es xs ys"
| "merge_enabled _ _ ys = ys"

text \<open>\<open>writeData(p)\<close> with \<open>p\<close> pointing \<open>off\<close> bytes into the array \<open>m\<close>.\<close>

definition writeData :: "packet \<Rightarrow> nat \<Rightarrow> byte list \<Rightarrow> byte list result" where
  "writeData p off m =
     (if \<not> isMaskedWrite p then put_bytes off (take (pkt_size p) (pkt_data p)) m
      else bind_res (assert_that (length (pkt_byteEnable p) = pkt_size p) ''getByteEnable().size() == getSize()'')
        (\<lambda>_. bind_res (get_bytes off (pkt_size p) m)
          (\<lambda>old. put_bytes off (merge_enabled (pkt_byteEnable p) (pkt_data p) old) m)))"

definition setData :: "packet \<Rightarrow> byte list \<Rightarrow> packet" where
  "setData p xs = p\<lparr> pkt_data := take (pkt_size p) xs \<rparr>"

text \<open>\<open>set<T>(v, endian)\<close> for a \<open>T\<close> of \<open>n\<close> bytes, on a little-endian host.\<close>

definition pkt_set :: "nat \<Rightarrow> nat \<Rightarrow> byte_order \<Rightarrow> packet \<Rightarrow> packet" where
  "pkt_set n v endian p =
     p\<lparr> pkt_data := (case endian of BigEndianByteOrder \<Rightarrow> rev (le_bytes n v)
                     | LittleEndianByteOrder \<Rightarrow> le_bytes n v) \<rparr>"

definition pkt_wf :: "packet \<Rightarrow> bool" where
  "pkt_wf p \<longleftrightarrow> length (pkt_data p) = pkt_size p"

text \<open>
  The switch on \<open>pkt->getSize()\<close> with which every register-file and stream read answers: the
  low bytes of \<open>data\<close>, for the sizes the device supports, and a panic for any other size.
\<close>

definition set_sized :: "nat list \<Rightarrow> nat \<Rightarrow> byte_order \<Rightarrow> packet \<Rightarrow> packet result" where
  "set_sized sizes v endian p =
     (if List.member sizes (pkt_size p) then Inr (pkt_set (pkt_size p) v endian p)
      else Inl (Panic ''Read size too big?''))"

lemma merge_enabled_length [simp]: "length (merge_enabled es xs ys) = length ys"
  by (induction es xs ys rule: merge_enabled.induct) auto

lemma writeData_length: "writeData p off m = Inr m' \<Longrightarrow> length m' = length m"
  by (auto simp: writeData_def bind_res_eq_Inr_iff dest: length_put_bytes split: if_splits)

lemma writeData_unmasked:
  "\<not> isMaskedWrite p \<Longrightarrow> pkt_wf p \<Longrightarrow> off + pkt_size p \<le> length m \<Longrightarrow>
   writeData p off m = Inr (take off m @ pkt_data p @ drop (off + pkt_size p) m)"
  by (simp add: writeData_def put_bytes_def pkt_wf_def)

lemma makeResponse_ok:
  "pkt_needsResponse p \<Longrightarrow> makeResponse p = Inr (p\<lparr> pkt_cmd := responseCommand (pkt_cmd p) \<rparr>)
    \<and> pkt_isResponse (p\<lparr> pkt_cmd := responseCommand (pkt_cmd p) \<rparr>)"
  by (cases "pkt_cmd p")
    (simp_all add: makeResponse_def pkt_needsResponse_def pkt_isResponse_def testCmdAttrib_def responseCommand_def)

section \<open>Events\<close>

type_synonym event = "tick option"

definition ev_schedule :: "tick \<Rightarrow> event \<Rightarrow> tick \<Rightarrow> event result" where
  "ev_schedule now ev when =
     bind_res (assert_that (when \<ge> now) ''when >= getCurTick()'')
       (\<lambda>_. bind_res (assert_that (ev = None) ''!event->scheduled()'') (\<lambda>_. Inr (Some when)))"

definition ev_reschedule :: "tick \<Rightarrow> event \<Rightarrow> tick \<Rightarrow> bool \<Rightarrow> event result" where
  "ev_reschedule now ev when always =
     bind_res (assert_that (when \<ge> now) ''when >= getCurTick()'')
       (\<lambda>_. bind_res (assert_that (always \<or> ev \<noteq> None) ''always || event->scheduled()'')
         (\<lambda>_. Inr (Some when)))"

text \<open>The idiom \<open>if (!ev.scheduled()) schedule(ev, curTick() + d)\<close> cannot trip the kernel's asserts.\<close>

definition sched_idle :: "tick \<Rightarrow> nat \<Rightarrow> event \<Rightarrow> event" where
  "sched_idle now d ev = (case ev of None \<Rightarrow> Some (now + d) | Some t \<Rightarrow> Some t)"

lemma sched_idle_safe:
  "ev = None \<Longrightarrow> ev_schedule now ev (now + d) = Inr (sched_idle now d ev)"
  by (simp add: ev_schedule_def sched_idle_def)

lemma sched_idle_scheduled [simp]: "sched_idle now d ev \<noteq> None"
  by (simp add: sched_idle_def split: option.splits)

end
