(* ===== verification/Dma_Port.thy ===== *)
theory Dma_Port
  imports Packet "HOL-Library.Multiset"
begin

text \<open>
  The DMA port of \<open>src/dev/dma_device.cc\<close> with the chunk generator of
  \<open>src/base/chunk_generator.hh\<close>: a DMA action is cut into requests that never cross a cache
  line, the requests are queued and sent one at a time, and the completion event of the
  action is scheduled when the last of its bytes is acknowledged.
\<close>

unbundle bit_operations_syntax

section \<open>Integer helpers\<close>

definition floorLog2_step :: "32 word \<Rightarrow> nat \<Rightarrow> nat \<times> 32 word \<Rightarrow> nat \<times> 32 word" where
  "floorLog2_step m k yx = (if snd yx AND m \<noteq> 0 then (fst yx + k, drop_bit k (snd yx)) else yx)"

definition floorLog2 :: "32 word \<Rightarrow> nat result" where
  "floorLog2 x =
     bind_res (assert_that (x > 0) ''x > 0'') (\<lambda>_.
       let yx = floorLog2_step 0xc 2 (floorLog2_step 0xf0 4 (floorLog2_step 0xff00 8 (floorLog2_step 0xffff0000 16 (0, x))))
       in Inr (if snd yx AND 2 \<noteq> 0 then fst yx + 1 else fst yx))"

definition ceilLog2 :: "32 word \<Rightarrow> nat result" where
  "ceilLog2 n =
     bind_res (assert_that (n > 0) ''n > 0'') (\<lambda>_.
       if n = 1 then Inr 0 else bind_res (floorLog2 (n - 1)) (\<lambda>y. Inr (y + 1)))"

definition isPowerOf2 :: "32 word \<Rightarrow> bool" where
  "isPowerOf2 n \<longleftrightarrow> n \<noteq> 0 \<and> floorLog2 n = ceilLog2 n"

definition roundUp :: "addr \<Rightarrow> 32 word \<Rightarrow> addr result" where
  "roundUp val align =
     bind_res (assert_that (isPowerOf2 align) ''isPowerOf2(align)'') (\<lambda>_.
       let msk = ucast align - 1 in Inr ((val + msk) AND NOT msk))"

section \<open>ChunkGenerator\<close>

record chunk_gen =
  cg_curAddr :: addr
  cg_nextAddr :: addr
  cg_curSize :: "32 word"
  cg_sizeLeft :: "32 word"
  cg_startAddr :: addr
  cg_chunkSize :: "32 word"

definition ChunkGenerator :: "addr \<Rightarrow> 32 word \<Rightarrow> 32 word \<Rightarrow> chunk_gen result" where
  "ChunkGenerator start tot chunk =
     bind_res (assert_that (chunk = 0 \<or> isPowerOf2 chunk) ''chunkSize == 0 || isPowerOf2(chunkSize)'') (\<lambda>_.
     bind_res (if chunk = 0 then Inr (start + ucast tot)
               else bind_res (roundUp start chunk) (\<lambda>nxt. Inr (if start = nxt then nxt + ucast chunk else nxt))) (\<lambda>nxt.
       let left_in_chunk = ucast (nxt - start);
           cur = min tot left_in_chunk
       in Inr \<lparr> cg_curAddr = start, cg_nextAddr = nxt, cg_curSize = cur, cg_sizeLeft = tot - cur,
                cg_startAddr = start, cg_chunkSize = chunk \<rparr>))"

definition cg_complete :: "chunk_gen \<Rightarrow> 32 word" where
  "cg_complete g = ucast (cg_curAddr g - cg_startAddr g)"

definition cg_done :: "chunk_gen \<Rightarrow> bool" where
  "cg_done g \<longleftrightarrow> cg_curSize g = 0"

definition cg_next :: "chunk_gen \<Rightarrow> chunk_gen" where
  "cg_next g =
     (if cg_sizeLeft g = 0 then g\<lparr> cg_curSize := 0 \<rparr>
      else let cur = min (cg_sizeLeft g) (cg_chunkSize g)
           in g\<lparr> cg_curAddr := cg_nextAddr g, cg_curSize := cur, cg_sizeLeft := cg_sizeLeft g - cur,
                 cg_nextAddr := cg_nextAddr g + ucast cur \<rparr>)"

text \<open>The loop \<open>for (ChunkGenerator gen(...); !gen.done(); gen.next())\<close>: address, size and bytes completed.\<close>

function cg_chunks :: "chunk_gen \<Rightarrow> (addr \<times> 32 word \<times> 32 word) list" where
  "cg_chunks g = (if cg_done g then []
                  else (cg_curAddr g, cg_curSize g, cg_complete g) # cg_chunks (cg_next g))"
  by pat_completeness auto

termination
proof (relation "measure (\<lambda>g. if cg_curSize g = 0 then 0 else Suc (unat (cg_sizeLeft g)))", simp, goal_cases)
  case (1 g)
  have "cg_sizeLeft g \<noteq> 0 \<Longrightarrow> cg_chunkSize g \<noteq> 0 \<Longrightarrow>
      unat (cg_sizeLeft g - min (cg_sizeLeft g) (cg_chunkSize g)) < unat (cg_sizeLeft g)"
    by (auto simp: min_def word_le_nat_alt unat_sub unat_gt_0)
  with 1 show ?case by (cases "cg_chunkSize g = 0") (auto simp: cg_next_def cg_done_def Let_def)
qed

declare cg_chunks.simps [simp del]

lemma floorLog2_step_pair:
  "floorLog2_step m k (y, x) = (if x AND m \<noteq> 0 then (y + k, drop_bit k x) else (y, x))"
  by (simp add: floorLog2_step_def)

lemma isPowerOf2_pow:
  assumes "k < 32"
  shows "isPowerOf2 (2 ^ k)"
proof -
  have "list_all (\<lambda>k. isPowerOf2 (2 ^ k)) [0..<32]" by code_simp
  with assms show ?thesis by (simp add: list_all_iff)
qed

lemma and_not_mask: "x AND NOT (mask k) = x - of_nat (unat x mod 2 ^ k)" for x :: "64 word"
proof -
  have "(x AND NOT (mask k)) + (x AND mask k) = (x AND NOT (mask k)) OR (x AND mask k)"
    by (rule disjunctive_add_eq_or, rule bit_word_eqI) (auto simp: bit_simps)
  moreover have "(x AND NOT (mask k)) OR (x AND mask k) = x"
    by (rule bit_word_eqI) (auto simp: bit_simps)
  ultimately have "x AND NOT (mask k) = x - (x AND mask k)" by (simp add: eq_diff_eq)
  moreover have "unat (take_bit k x) = unat x mod 2 ^ k"
    by (simp only: unsigned_take_bit_eq take_bit_nat_def)
  then have "of_nat (unat x mod 2 ^ k) = (of_nat (unat (take_bit k x)) :: addr)" by simp
  then have "x AND mask k = of_nat (unat x mod 2 ^ k)" by (simp add: take_bit_eq_mask)
  ultimately show ?thesis by simp
qed

lemma ucast_pow32: "k < 32 \<Longrightarrow> (ucast (2 ^ k :: 32 word) :: addr) = 2 ^ k"
  by (rule bit_word_eqI) (auto simp: bit_simps)

lemma unat_pow2: "k < LENGTH('a) \<Longrightarrow> unat (2 ^ k :: 'a::len word) = 2 ^ k"
  by (simp add: unat_eq_nat_uint uint_2p word_gt_0 exp_eq_zero_iff)

text \<open>Bytes from an address to the end of its chunk.\<close>

definition chunk_left :: "nat \<Rightarrow> addr \<Rightarrow> nat" where
  "chunk_left k a = 2 ^ k - unat a mod 2 ^ k"

lemma unat_mod_pow_add:
  assumes "k \<le> 64"
  shows "unat (a + b :: addr) mod 2 ^ k = (unat a + unat b) mod 2 ^ k"
proof -
  have "(2 :: nat) ^ k dvd 2 ^ 64" using assms by (rule le_imp_power_dvd)
  then have "(unat a + unat b) mod 2 ^ 64 mod 2 ^ k = (unat a + unat b) mod 2 ^ k" by (rule mod_mod_cancel)
  then show ?thesis by (simp only: unat_word_ariths(1)) simp
qed

lemma chunk_left_aligns: "(unat a + chunk_left k a) mod 2 ^ k = 0"
proof -
  have "unat a mod 2 ^ k + chunk_left k a = 2 ^ k"
    unfolding chunk_left_def by (rule le_add_diff_inverse) (simp add: less_imp_le)
  then show ?thesis by (metis mod_add_left_eq mod_self)
qed

lemma roundUp_pow:
  assumes k: "k < 32"
  shows "roundUp a (2 ^ k) = Inr (if unat a mod 2 ^ k = 0 then a else a + of_nat (chunk_left k a))"
proof -
  let ?M = "2 ^ k :: nat"
  have m: "ucast (2 ^ k :: 32 word) - 1 = (mask k :: addr)" using k by (simp add: ucast_pow32 mask_eq_exp_minus_1)
  have um: "unat (mask k :: addr) = ?M - 1" using k unat_pow2 [of k, where 'a=64]
    by (simp add: mask_eq_exp_minus_1 unat_minus_one exp_eq_zero_iff)
  have M: "?M > 0" by simp
  have s: "unat (a + mask k) mod ?M = (unat a mod ?M + (?M - 1)) mod ?M"
    using unat_mod_pow_add [of k a "mask k"] k by (simp only: um mod_add_left_eq)
  have of: "of_nat (?M - 1) = (mask k :: addr)" by (simp add: mask_eq_exp_minus_1 of_nat_diff)
  show ?thesis
  proof (cases "unat a mod ?M = 0")
    case True
    then have "unat (a + mask k) mod ?M = ?M - 1" using s by simp
    with True m of k show ?thesis by (simp add: roundUp_def isPowerOf2_pow and_not_mask)
  next
    case False
    then have "unat a mod ?M + (?M - 1) = ?M + (unat a mod ?M - 1)" by simp
    then have e: "unat (a + mask k) mod ?M = unat a mod ?M - 1" using s mod_less_divisor [OF M, of "unat a"]
      by (metis less_imp_diff_less mod_add_self1 mod_less)
    have "?M - 1 - (unat a mod ?M - 1) = chunk_left k a"
      using False by (simp add: chunk_left_def)
    moreover have "unat a mod ?M - 1 \<le> ?M - 1"
      using mod_less_divisor [OF M, of "unat a"] by (rule diff_le_mono [OF less_imp_le])
    ultimately have "(mask k :: addr) - of_nat (unat a mod ?M - 1) = of_nat (chunk_left k a)"
      by (metis of of_nat_diff)
    with e show ?thesis using False m k
      by (simp add: roundUp_def isPowerOf2_pow and_not_mask add_diff_eq [symmetric])
  qed
qed

text \<open>The generator in mid-loop: a further chunk starts where the current one ends, at a chunk boundary.\<close>

definition cg_inv :: "nat \<Rightarrow> chunk_gen \<Rightarrow> bool" where
  "cg_inv k g \<longleftrightarrow> cg_chunkSize g = 2 ^ k \<and> unat (cg_curSize g) \<le> chunk_left k (cg_curAddr g)
     \<and> (cg_sizeLeft g \<noteq> 0 \<longrightarrow> cg_nextAddr g = cg_curAddr g + ucast (cg_curSize g)
          \<and> unat (cg_nextAddr g) mod 2 ^ k = 0)
     \<and> (cg_curSize g = 0 \<longrightarrow> cg_sizeLeft g = 0)"

lemma ucast_of_nat_unat: "(ucast (w :: 32 word) :: addr) = of_nat (unat w)"
  by (simp add: unsigned_ucast_eq)

lemma ChunkGenerator_pow:
  assumes k: "k < 32"
  shows "\<exists>g. ChunkGenerator a sz (2 ^ k) = Inr g \<and> cg_inv k g \<and> cg_curAddr g = a \<and> cg_startAddr g = a
    \<and> unat (cg_curSize g) + unat (cg_sizeLeft g) = unat sz"
proof -
  let ?M = "2 ^ k :: nat" and ?l = "chunk_left k a"
  have l: "0 < ?l" "?l \<le> ?M" by (simp_all add: chunk_left_def)
  have M: "?M < 2 ^ 32" using k by (intro power_strict_increasing) simp_all
  define nxt where "nxt = a + of_nat ?l"
  have l32: "?l < 2 ^ 32" using l(2) M by (rule le_less_trans)
  then have u: "unat (of_nat ?l :: addr) = ?l" by (simp add: unat_of_nat)
  then have nz: "of_nat ?l \<noteq> (0 :: addr)" using l(1) by (metis unat_0 less_irrefl)
  have r: "bind_res (roundUp a (2 ^ k)) (\<lambda>nxt. Inr (if a = nxt then nxt + ucast (2 ^ k :: 32 word) else nxt)) = Inr nxt"
    using k nz by (auto simp: roundUp_pow nxt_def ucast_pow32 chunk_left_def)
  have left: "unat (ucast (nxt - a) :: 32 word) = ?l"
    using l32 by (simp add: nxt_def unsigned_ucast_eq take_bit_nat_eq_self u)
  have "unat nxt mod ?M = 0"
    using unat_mod_pow_add [of k a "of_nat ?l"] k chunk_left_aligns [of a k]
    by (simp only: nxt_def u)
  moreover have "nxt = a + ucast (ucast (nxt - a) :: 32 word)"
    by (simp only: ucast_of_nat_unat left) (simp add: nxt_def)
  ultimately show ?thesis using k r left l
    by (auto simp: ChunkGenerator_def isPowerOf2_pow cg_inv_def Let_def min_def word_le_nat_alt unat_sub)
qed

definition addr_bytes :: "addr \<Rightarrow> nat \<Rightarrow> addr list" where
  "addr_bytes a n = map (\<lambda>i. a + of_nat i) [0..<n]"

lemma addr_bytes_add: "addr_bytes a (m + n) = addr_bytes a m @ addr_bytes (a + of_nat m) n"
proof -
  have "[0..<m + n] = [0..<m] @ map (\<lambda>i. i + m) [0..<n]" by (simp add: upt_add_eq_append [of 0 m n, simplified] map_add_upt add.commute)
  then show ?thesis by (simp add: addr_bytes_def comp_def algebra_simps)
qed

lemma addr_bytes_simps [simp]: "addr_bytes a 0 = []" "length (addr_bytes a n) = n"
  by (simp_all add: addr_bytes_def)

lemma cg_next_inv:
  assumes k: "k < 32" and g: "cg_inv k g" and left: "cg_sizeLeft g \<noteq> 0"
  shows "cg_inv k (cg_next g) \<and> cg_curAddr (cg_next g) = cg_curAddr g + of_nat (unat (cg_curSize g))
    \<and> unat (cg_curSize (cg_next g)) + unat (cg_sizeLeft (cg_next g)) = unat (cg_sizeLeft g)
    \<and> cg_startAddr (cg_next g) = cg_startAddr g"
proof -
  let ?c = "min (cg_sizeLeft g) (2 ^ k)" and ?n = "cg_nextAddr g"
  have al: "unat ?n mod 2 ^ k = 0" "chunk_left k ?n = 2 ^ k" using g left by (auto simp: cg_inv_def chunk_left_def)
  have p: "unat (2 ^ k :: 32 word) = 2 ^ k" using k by (simp add: unat_pow2)
  have c: "unat ?c \<le> unat (cg_sizeLeft g)" "unat ?c \<le> 2 ^ k" "?c \<noteq> 0"
    using left p k by (auto simp: min_def word_le_nat_alt)
  have d: "unat (cg_sizeLeft g - ?c) = unat (cg_sizeLeft g) - unat ?c"
    using c(1) by (simp add: unat_sub word_le_nat_alt)
  have full: "cg_sizeLeft g - ?c \<noteq> 0 \<Longrightarrow> ?c = 2 ^ k" by (auto simp: min_def)
  have "unat (?n + ucast (2 ^ k :: 32 word)) mod 2 ^ k = 0"
    using al(1) unat_mod_pow_add [of k ?n "2 ^ k"] k by (simp add: ucast_pow32 unat_pow2)
  note aligned = this
  have ch: "cg_chunkSize g = 2 ^ k" and nx: "?n = cg_curAddr g + of_nat (unat (cg_curSize g))"
    using g left unfolding cg_inv_def ucast_of_nat_unat by blast+
  have nxt: "cg_next g = g\<lparr> cg_curAddr := ?n, cg_curSize := ?c, cg_sizeLeft := cg_sizeLeft g - ?c,
      cg_nextAddr := ?n + ucast ?c \<rparr>"
    using left ch by (simp add: cg_next_def Let_def)
  have "cg_inv k (cg_next g)"
    unfolding cg_inv_def nxt using ch c(2,3) al(2) full aligned by auto
  moreover have "unat ?c + unat (cg_sizeLeft g - ?c) = unat (cg_sizeLeft g)" using c(1) d by simp
  ultimately show ?thesis using nx by (simp add: nxt)
qed

lemma cg_chunks_unfold:
  "cg_done g \<Longrightarrow> cg_chunks g = []"
  "\<not> cg_done g \<Longrightarrow> cg_chunks g = (cg_curAddr g, cg_curSize g, cg_complete g) # cg_chunks (cg_next g)"
  by (simp_all add: cg_chunks.simps)

lemma cg_chunks_last:
  "\<not> cg_done g \<Longrightarrow> cg_sizeLeft g = 0 \<Longrightarrow> cg_chunks g = [(cg_curAddr g, cg_curSize g, cg_complete g)]"
  by (simp add: cg_chunks_unfold cg_next_def cg_done_def)

lemma cg_chunks_cover:
  assumes k: "k < 32" and g: "cg_inv k g"
  shows "concat (map (\<lambda>(a, n, c). addr_bytes a (unat n)) (cg_chunks g))
      = addr_bytes (cg_curAddr g) (unat (cg_curSize g) + unat (cg_sizeLeft g))
    \<and> (\<forall>(a, n, c) \<in> set (cg_chunks g). 0 < unat n \<and> unat n \<le> chunk_left k a \<and> c = ucast (a - cg_startAddr g))"
  using g
proof (induction g rule: cg_chunks.induct)
  case (1 g)
  consider "cg_done g" | "\<not> cg_done g" "cg_sizeLeft g = 0" | "\<not> cg_done g" "cg_sizeLeft g \<noteq> 0" by blast
  then show ?case
  proof cases
    case 1
    with "1.prems" show ?thesis by (auto simp: cg_chunks_unfold cg_done_def cg_inv_def)
  next
    case 2
    with "1.prems" show ?thesis by (auto simp: cg_chunks_last cg_done_def cg_inv_def cg_complete_def unat_gt_0)
  next
    case 3
    note nx = cg_next_inv [OF k "1.prems" 3(2)]
    then have IH: "concat (map (\<lambda>(a, n, c). addr_bytes a (unat n)) (cg_chunks (cg_next g)))
        = addr_bytes (cg_curAddr g + of_nat (unat (cg_curSize g))) (unat (cg_sizeLeft g))"
      "\<forall>(a, n, c) \<in> set (cg_chunks (cg_next g)). 0 < unat n \<and> unat n \<le> chunk_left k a \<and> c = ucast (a - cg_startAddr g)"
      using "1.IH" [OF 3(1)] by simp_all
    have "0 < unat (cg_curSize g)" "unat (cg_curSize g) \<le> chunk_left k (cg_curAddr g)"
      using 3 "1.prems" by (auto simp: cg_done_def cg_inv_def unat_gt_0)
    with IH 3 show ?thesis by (simp add: cg_chunks_unfold(2) addr_bytes_add cg_complete_def)
  qed
qed

text \<open>
  C28. A DMA region is cut exactly: the chunks of a DMA action, in order, cover every byte of
  the region once, no chunk is empty or crosses a cache line, and each chunk's data offset is
  its distance from the start of the region.
\<close>

theorem chunks_cover_exactly:
  assumes "k < 32"
  shows "\<exists>g. ChunkGenerator a sz (2 ^ k) = Inr g
    \<and> concat (map (\<lambda>(c, n, off). addr_bytes c (unat n)) (cg_chunks g)) = addr_bytes a (unat sz)
    \<and> (\<forall>(c, n, off) \<in> set (cg_chunks g). 0 < unat n \<and> unat c mod 2 ^ k + unat n \<le> 2 ^ k
         \<and> off = ucast (c - a))"
proof -
  obtain g where g: "ChunkGenerator a sz (2 ^ k) = Inr g" "cg_inv k g" "cg_curAddr g = a" "cg_startAddr g = a"
    "unat (cg_curSize g) + unat (cg_sizeLeft g) = unat sz"
    using ChunkGenerator_pow [OF assms] by blast
  have "unat c mod 2 ^ k + n \<le> 2 ^ k" if "n \<le> chunk_left k c" for c :: addr and n
    using that by (simp add: chunk_left_def le_diff_conv2 less_imp_le add.commute)
  with cg_chunks_cover [OF assms g(2)] g show ?thesis by fastforce
qed

theorem chunks_cover_exactly_witness:
  "\<exists>g. ChunkGenerator 0x1030 0x20 (2 ^ 6) = Inr g
    \<and> concat (map (\<lambda>(c, n, off). addr_bytes c (unat n)) (cg_chunks g)) = addr_bytes 0x1030 (unat (0x20 :: 32 word))
    \<and> (\<forall>(c, n, off) \<in> set (cg_chunks g). 0 < unat n \<and> unat c mod 2 ^ 6 + unat n \<le> 2 ^ 6
         \<and> off = ucast (c - 0x1030))"
  by (rule chunks_cover_exactly) simp

section \<open>DmaPort\<close>

datatype mem_mode = TimingMode | AtomicMode | UnknownMode

record dma_req_state =
  drs_completionEvent :: "nat option"
  drs_totBytes :: nat
  drs_numBytes :: nat
  drs_delay :: tick

text \<open>
  A queued packet is kept with its sender state, named by a number, and its offset in the
  caller's buffer. \<open>dp_inFlight\<close> lists the packets the peer has accepted and not yet answered,
  \<open>dp_scheduled\<close> the completion events the device has scheduled.
\<close>

type_synonym dma_pkt = "packet \<times> nat \<times> nat"

record dma_port =
  dp_transmitList :: "dma_pkt list"
  dp_inFlight :: "dma_pkt list"
  dp_sendEvent :: event
  dp_pendingCount :: nat
  dp_inRetry :: bool
  dp_states :: "nat \<Rightarrow> dma_req_state option"
  dp_nextState :: nat
  dp_scheduled :: "(nat \<times> tick) list"
  dp_drainSignals :: nat

definition DmaPort :: dma_port where
  "DmaPort = \<lparr> dp_transmitList = [], dp_inFlight = [], dp_sendEvent = None, dp_pendingCount = 0,
     dp_inRetry = False, dp_states = (\<lambda>_. None), dp_nextState = 0, dp_scheduled = [], dp_drainSignals = 0 \<rparr>"

definition dma_packet :: "mem_cmd \<Rightarrow> addr \<Rightarrow> nat \<Rightarrow> byte list \<Rightarrow> packet" where
  "dma_packet cmd a n xs =
     \<lparr> pkt_id = 0, pkt_cmd = cmd, pkt_addr = a, pkt_size = n, pkt_data = xs, pkt_byteEnable = [],
       pkt_headerDelay = 0, pkt_payloadDelay = 0, pkt_cacheResponding = False, pkt_secure = False,
       pkt_atomicOp = None, pkt_condSwap = False,
     pkt_extraData = None, pkt_contextId = None, pkt_instFetch = False \<rparr>"

definition dp_drain :: "dma_port \<Rightarrow> bool" where
  "dp_drain d \<longleftrightarrow> dp_pendingCount d = 0"

definition dmaPending :: "dma_port \<Rightarrow> bool" where
  "dmaPending d \<longleftrightarrow> dp_pendingCount d > 0"

definition dp_handleResp :: "tick \<Rightarrow> packet \<Rightarrow> nat \<Rightarrow> tick \<Rightarrow> dma_port \<Rightarrow> dma_port result" where
  "dp_handleResp now p sid delay d =
     bind_res (assert_that (pkt_isResponse p) ''pkt->isResponse()'') (\<lambda>_.
     case dp_states d sid of
       None \<Rightarrow> Inl (AssertFail ''state'')
     | Some st \<Rightarrow>
         bind_res (assert_that (dp_pendingCount d \<noteq> 0) ''pendingCount != 0'') (\<lambda>_.
         let st' = st\<lparr> drs_numBytes := drs_numBytes st + pkt_size p \<rparr>;
             d1 = d\<lparr> dp_pendingCount := dp_pendingCount d - 1, dp_states := (dp_states d)(sid \<mapsto> st') \<rparr>
         in bind_res (assert_that (drs_totBytes st' \<ge> drs_numBytes st') ''state->totBytes >= state->numBytes'') (\<lambda>_.
            bind_res (if drs_totBytes st' = drs_numBytes st'
                      then let d2 = d1\<lparr> dp_states := (dp_states d1)(sid := None) \<rparr>
                           in case drs_completionEvent st' of
                                None \<Rightarrow> Inr d2
                              | Some ev \<Rightarrow>
                                  bind_res (assert_that (ev \<notin> fst ` set (dp_scheduled d2)) ''!event->scheduled()'') (\<lambda>_.
                                    Inr (d2\<lparr> dp_scheduled := dp_scheduled d2 @ [(ev, now + (delay + drs_delay st'))] \<rparr>))
                      else Inr d1) (\<lambda>d2.
            Inr (if dp_pendingCount d2 = 0 then d2\<lparr> dp_drainSignals := dp_drainSignals d2 + 1 \<rparr> else d2)))))"

text \<open>A response the peer delivers is one of the packets in flight.\<close>

definition dp_recvTimingResp :: "tick \<Rightarrow> nat \<Rightarrow> dma_port \<Rightarrow> dma_port result" where
  "dp_recvTimingResp now i d =
     (if i < length (dp_inFlight d)
      then let (p, sid, off) = dp_inFlight d ! i
           in bind_res (assert_that (\<not> pkt_cacheResponding p) ''uncacheable or not modified'') (\<lambda>_.
              bind_res (makeResponse p) (\<lambda>p'.
                dp_handleResp now p' sid 0
                  (d\<lparr> dp_inFlight := take i (dp_inFlight d) @ drop (Suc i) (dp_inFlight d) \<rparr>)))
      else Inl OutOfBounds)"

definition dp_queueDma :: "dma_pkt \<Rightarrow> dma_port \<Rightarrow> dma_port" where
  "dp_queueDma q d = d\<lparr> dp_transmitList := dp_transmitList d @ [q], dp_pendingCount := u32 (dp_pendingCount d + 1) \<rparr>"

definition dp_trySendTimingReq :: "tick \<Rightarrow> tick \<Rightarrow> bool \<Rightarrow> dma_port \<Rightarrow> dma_port result" where
  "dp_trySendTimingReq now clockEdge1 accepted d =
     (case dp_transmitList d of
        [] \<Rightarrow> Inl OutOfBounds
      | q # qs \<Rightarrow>
          let d1 = d\<lparr> dp_inRetry := \<not> accepted \<rparr>
          in if accepted
             then let d2 = d1\<lparr> dp_transmitList := qs, dp_inFlight := dp_inFlight d1 @ [q] \<rparr>
                  in if qs \<noteq> []
                     then bind_res (ev_schedule now (dp_sendEvent d2) clockEdge1) (\<lambda>ev. Inr (d2\<lparr> dp_sendEvent := ev \<rparr>))
                     else Inr d2
             else Inr d1)"

text \<open>In atomic mode the whole list is sent at once; \<open>sendAtomic\<close> gives the latency and the response.\<close>

fun dp_sendAtomicAll :: "(packet \<Rightarrow> tick \<times> packet) \<Rightarrow> tick \<Rightarrow> dma_pkt list \<Rightarrow> dma_port \<Rightarrow> dma_port result" where
  "dp_sendAtomicAll sendAtomic now [] d = Inr (d\<lparr> dp_transmitList := [] \<rparr>)"
| "dp_sendAtomicAll sendAtomic now ((p, sid, off) # qs) d =
     bind_res (dp_handleResp now (snd (sendAtomic p)) sid (fst (sendAtomic p)) (d\<lparr> dp_transmitList := qs \<rparr>))
       (dp_sendAtomicAll sendAtomic now qs)"

definition dp_sendDma :: "mem_mode \<Rightarrow> (packet \<Rightarrow> tick \<times> packet) \<Rightarrow> tick \<Rightarrow> tick \<Rightarrow> bool \<Rightarrow> dma_port \<Rightarrow> dma_port result" where
  "dp_sendDma mode sendAtomic now clockEdge1 accepted d =
     bind_res (assert_that (dp_transmitList d \<noteq> []) ''transmitList.size()'') (\<lambda>_.
       case mode of
         TimingMode \<Rightarrow> if dp_inRetry d \<or> dp_sendEvent d \<noteq> None then Inr d
                       else dp_trySendTimingReq now clockEdge1 accepted d
       | AtomicMode \<Rightarrow> dp_sendAtomicAll sendAtomic now (dp_transmitList d) d
       | UnknownMode \<Rightarrow> Inl (Panic ''Unknown memory mode.''))"

text \<open>The send event fires: it is no longer scheduled when its action runs.\<close>

definition dp_sendEvent_process :: "tick \<Rightarrow> tick \<Rightarrow> bool \<Rightarrow> dma_port \<Rightarrow> dma_port result" where
  "dp_sendEvent_process now clockEdge1 accepted d =
     dp_sendDma TimingMode (\<lambda>p. (0, p)) now clockEdge1 accepted (d\<lparr> dp_sendEvent := None \<rparr>)"

definition dp_recvReqRetry :: "tick \<Rightarrow> tick \<Rightarrow> bool \<Rightarrow> dma_port \<Rightarrow> dma_port result" where
  "dp_recvReqRetry now clockEdge1 accepted d =
     bind_res (assert_that (dp_transmitList d \<noteq> []) ''transmitList.size()'')
       (\<lambda>_. dp_trySendTimingReq now clockEdge1 accepted d)"

definition dma_pkts :: "mem_cmd \<Rightarrow> byte list \<Rightarrow> nat \<Rightarrow> (addr \<times> 32 word \<times> 32 word) list \<Rightarrow> dma_pkt list" where
  "dma_pkts cmd xs sid cs =
     map (\<lambda>(a, n, off). (dma_packet cmd a (unat n) (take (unat n) (drop (unat off) xs)), sid, unat off)) cs"

definition dmaAction :: "mem_mode \<Rightarrow> (packet \<Rightarrow> tick \<times> packet) \<Rightarrow> tick \<Rightarrow> tick \<Rightarrow> bool \<Rightarrow> 32 word \<Rightarrow>
    mem_cmd \<Rightarrow> addr \<Rightarrow> 32 word \<Rightarrow> nat option \<Rightarrow> byte list \<Rightarrow> tick \<Rightarrow> dma_port \<Rightarrow> dma_port result" where
  "dmaAction mode sendAtomic now clockEdge1 accepted cacheLineSize cmd a sz ev xs delay d =
     (let sid = dp_nextState d;
          st = \<lparr> drs_completionEvent = ev, drs_totBytes = unat sz, drs_numBytes = 0, drs_delay = delay \<rparr>;
          d1 = d\<lparr> dp_nextState := Suc sid, dp_states := (dp_states d)(sid \<mapsto> st) \<rparr>
      in bind_res (ChunkGenerator a sz cacheLineSize) (\<lambda>g.
           dp_sendDma mode sendAtomic now clockEdge1 accepted
             (fold dp_queueDma (dma_pkts cmd xs sid (cg_chunks g)) d1)))"

section \<open>The port's invariant\<close>

definition sid_bytes :: "nat \<Rightarrow> dma_pkt list \<Rightarrow> nat" where
  "sid_bytes sid qs = (\<Sum>(p, s, off)\<leftarrow>qs. if s = sid then pkt_size p else 0)"

definition outstanding :: "dma_port \<Rightarrow> dma_pkt list" where
  "outstanding d = dp_transmitList d @ dp_inFlight d"

definition dma_pkt_ok :: "dma_pkt \<Rightarrow> bool" where
  "dma_pkt_ok q \<longleftrightarrow> pkt_cmd (fst q) \<in> {ReadReq, WriteReq} \<and> 0 < pkt_size (fst q) \<and> \<not> pkt_cacheResponding (fst q)"

definition live_event :: "dma_port \<Rightarrow> nat \<Rightarrow> nat \<Rightarrow> bool" where
  "live_event d sid ev \<longleftrightarrow> (\<exists>st. dp_states d sid = Some st \<and> drs_completionEvent st = Some ev)"

text \<open>Every live action accounts for all of its bytes: those acknowledged and those still outstanding.\<close>

definition acct_ok :: "nat \<Rightarrow> nat \<Rightarrow> dma_req_state option \<Rightarrow> nat \<Rightarrow> bool" where
  "acct_ok nxt sid so b = (case so of None \<Rightarrow> b = 0
     | Some st \<Rightarrow> sid < nxt \<and> 0 < b \<and> drs_numBytes st + b = drs_totBytes st)"

definition dp_account :: "dma_port \<Rightarrow> bool" where
  "dp_account d \<longleftrightarrow> (\<forall>sid. acct_ok (dp_nextState d) sid (dp_states d sid) (sid_bytes sid (outstanding d)))"

definition dp_events :: "dma_port \<Rightarrow> bool" where
  "dp_events d \<longleftrightarrow> (\<forall>sid ev. live_event d sid ev \<longrightarrow>
      ev \<notin> fst ` set (dp_scheduled d) \<and> (\<forall>sid'. live_event d sid' ev \<longrightarrow> sid' = sid))"

text \<open>A packet that waits to be sent always has something that will send it.\<close>

definition dp_wake :: "dma_port \<Rightarrow> bool" where
  "dp_wake d \<longleftrightarrow> (dp_transmitList d \<noteq> [] \<longleftrightarrow> dp_inRetry d \<or> dp_sendEvent d \<noteq> None)
     \<and> \<not> (dp_inRetry d \<and> dp_sendEvent d \<noteq> None)"

definition dp_inv :: "dma_port \<Rightarrow> bool" where
  "dp_inv d \<longleftrightarrow> dp_pendingCount d = length (outstanding d) \<and> dp_pendingCount d < 2 ^ 32
     \<and> (\<forall>q \<in> set (outstanding d). dma_pkt_ok q) \<and> dp_account d \<and> dp_events d \<and> dp_wake d"

lemma sid_bytes_simps [simp]:
  "sid_bytes s [] = 0" "sid_bytes s (xs @ ys) = sid_bytes s xs + sid_bytes s ys"
  "sid_bytes s (q # ys) = (if fst (snd q) = s then pkt_size (fst q) else 0) + sid_bytes s ys"
  by (simp_all add: sid_bytes_def split: prod.splits)

lemma sid_bytes_eq_0: "(\<And>q. q \<in> set qs \<Longrightarrow> fst (snd q) \<noteq> s) \<Longrightarrow> sid_bytes s qs = 0"
  by (induction qs) auto

lemma sid_bytes_all: "(\<And>q. q \<in> set qs \<Longrightarrow> fst (snd q) = s) \<Longrightarrow> sid_bytes s qs = (\<Sum>q\<leftarrow>qs. pkt_size (fst q))"
  by (induction qs) auto

lemma fold_queueDma:
  "dp_pendingCount d + length qs < 2 ^ 32 \<Longrightarrow>
   fold dp_queueDma qs d = d\<lparr> dp_transmitList := dp_transmitList d @ qs, dp_pendingCount := dp_pendingCount d + length qs \<rparr>"
proof (induction qs arbitrary: d)
  case (Cons q qs)
  have u: "u32 (dp_pendingCount d + 1) = dp_pendingCount d + 1" using Cons.prems by (intro u32_id) simp
  have "fold dp_queueDma qs (dp_queueDma q d)
      = (dp_queueDma q d)\<lparr> dp_transmitList := dp_transmitList (dp_queueDma q d) @ qs,
          dp_pendingCount := dp_pendingCount (dp_queueDma q d) + length qs \<rparr>"
    using Cons.prems u by (intro Cons.IH) (simp add: dp_queueDma_def)
  moreover have "dp_queueDma q d = d\<lparr> dp_transmitList := dp_transmitList d @ [q], dp_pendingCount := dp_pendingCount d + 1 \<rparr>"
    unfolding dp_queueDma_def u ..
  ultimately show ?case by simp
qed simp

lemma dp_account_cong:
  "dp_states d' = dp_states d \<Longrightarrow> dp_nextState d' = dp_nextState d \<Longrightarrow>
   (\<And>s. sid_bytes s (outstanding d') = sid_bytes s (outstanding d)) \<Longrightarrow> dp_account d' = dp_account d"
  by (simp add: dp_account_def)

lemma dp_events_cong:
  "dp_states d' = dp_states d \<Longrightarrow> dp_scheduled d' = dp_scheduled d \<Longrightarrow> dp_events d' = dp_events d"
  by (simp add: dp_events_def live_event_def)

lemma dp_inv_new: "dp_inv DmaPort"
  by (simp add: dp_inv_def DmaPort_def outstanding_def dp_account_def dp_events_def live_event_def dp_wake_def acct_ok_def)

text \<open>Sending the head of the list, with no send event scheduled.\<close>

lemma trySend_inv:
  assumes cnt: "dp_pendingCount d = length (outstanding d)" "dp_pendingCount d < 2 ^ 32"
    and ok: "\<forall>q \<in> set (outstanding d). dma_pkt_ok q" "dp_account d" "dp_events d"
    and tl: "dp_transmitList d \<noteq> []" and ev: "dp_sendEvent d = None" and ce: "now \<le> ce"
  shows "\<exists>d'. dp_trySendTimingReq now ce acc d = Inr d' \<and> dp_inv d'
    \<and> mset (outstanding d') = mset (outstanding d) \<and> dp_states d' = dp_states d \<and> dp_scheduled d' = dp_scheduled d"
proof -
  obtain q qs where q: "dp_transmitList d = q # qs" using tl by (cases "dp_transmitList d") auto
  show ?thesis
  proof (cases acc)
    case True
    define d' where "d' = d\<lparr> dp_inRetry := False, dp_transmitList := qs, dp_inFlight := dp_inFlight d @ [q],
      dp_sendEvent := (if qs \<noteq> [] then Some ce else None) \<rparr>"
    have "dp_trySendTimingReq now ce acc d = Inr d'"
      using True q ev ce by (auto simp: dp_trySendTimingReq_def d'_def ev_schedule_def)
    moreover have "dp_account d'" "dp_events d'"
      using ok(2,3) q dp_account_cong [of d' d] dp_events_cong [of d' d] by (simp_all add: d'_def outstanding_def)
    then have "dp_inv d'" using cnt ok(1) q by (simp add: dp_inv_def outstanding_def dp_wake_def d'_def)
    ultimately show ?thesis using q by (simp add: d'_def outstanding_def)
  next
    case False
    then have "dp_trySendTimingReq now ce acc d = Inr (d\<lparr> dp_inRetry := True \<rparr>)"
      using q by (simp add: dp_trySendTimingReq_def)
    moreover have "dp_account (d\<lparr> dp_inRetry := True \<rparr>)" "dp_events (d\<lparr> dp_inRetry := True \<rparr>)"
      using ok(2,3) by (simp_all add: dp_account_def dp_events_def live_event_def outstanding_def)
    then have "dp_inv (d\<lparr> dp_inRetry := True \<rparr>)" using cnt ok(1) q ev
      by (simp add: dp_inv_def outstanding_def dp_wake_def)
    ultimately show ?thesis by (simp add: outstanding_def)
  qed
qed

lemma sid_bytes_remove:
  assumes "i < length qs"
  shows "sid_bytes s qs = (if fst (snd (qs ! i)) = s then pkt_size (fst (qs ! i)) else 0)
      + sid_bytes s (take i qs @ drop (Suc i) qs)"
proof -
  have "sid_bytes s qs = sid_bytes s (take i qs @ qs ! i # drop (Suc i) qs)"
    using id_take_nth_drop [OF assms] by simp
  then show ?thesis by simp
qed

text \<open>
  The response to packet \<open>i\<close> in flight: it completes its action exactly when no other packet of
  the action is outstanding.
\<close>

lemma recvTimingResp_inv:
  assumes inv: "dp_inv d" and i: "i < length (dp_inFlight d)" and q: "dp_inFlight d ! i = (p, sid, off)"
  shows "\<exists>d' st. dp_recvTimingResp now i d = Inr d' \<and> dp_inv d' \<and> dp_states d sid = Some st
    \<and> dp_transmitList d' = dp_transmitList d
    \<and> dp_inFlight d' = take i (dp_inFlight d) @ drop (Suc i) (dp_inFlight d)
    \<and> (dp_states d' sid = None \<longleftrightarrow> sid_bytes sid (outstanding d') = 0)
    \<and> dp_scheduled d' = dp_scheduled d @
        (if sid_bytes sid (outstanding d') = 0
         then (case drs_completionEvent st of None \<Rightarrow> [] | Some ev \<Rightarrow> [(ev, now + drs_delay st)]) else [])"
proof -
  let ?fl = "take i (dp_inFlight d) @ drop (Suc i) (dp_inFlight d)"
  let ?rest = "sid_bytes sid (dp_transmitList d @ ?fl)"
  have inq: "(p, sid, off) \<in> set (outstanding d)" using i q by (metis Un_iff nth_mem outstanding_def set_append)
  then have pk: "dma_pkt_ok (p, sid, off)" using inv by (auto simp: dp_inv_def)
  then have nr: "pkt_needsResponse p" by (auto simp: dma_pkt_ok_def pkt_needsResponse_def testCmdAttrib_def)
  have split: "sid_bytes s (outstanding d) = (if sid = s then pkt_size p else 0) + sid_bytes s (dp_transmitList d @ ?fl)" for s
    using sid_bytes_remove [OF i, of s] q by (simp add: outstanding_def)
  have "sid_bytes sid (outstanding d) \<noteq> 0" using split [of sid] pk by (simp add: dma_pkt_ok_def)
  then obtain st where st: "dp_states d sid = Some st" "drs_numBytes st + sid_bytes sid (outstanding d) = drs_totBytes st"
    "sid < dp_nextState d"
    using inv by (cases "dp_states d sid") (auto simp: dp_inv_def dp_account_def acct_ok_def dest!: spec [of _ sid])
  have cnt: "dp_pendingCount d = Suc (length (dp_transmitList d @ ?fl))"
    using inv i by (simp add: dp_inv_def outstanding_def)
  define st' where "st' = st\<lparr> drs_numBytes := drs_numBytes st + pkt_size p \<rparr>"
  have tot: "drs_totBytes st' = drs_numBytes st' + ?rest" using st(2) split [of sid] by (simp add: st'_def)
  define sch where "sch = (if ?rest = 0 then (case drs_completionEvent st of None \<Rightarrow> [] | Some ev \<Rightarrow> [(ev, now + drs_delay st)]) else [])"
  define d' where "d' = d\<lparr> dp_inFlight := ?fl, dp_pendingCount := dp_pendingCount d - 1,
    dp_states := (dp_states d)(sid := (if ?rest = 0 then None else Some st')),
    dp_scheduled := dp_scheduled d @ sch,
    dp_drainSignals := dp_drainSignals d + (if dp_pendingCount d - 1 = 0 then 1 else 0) \<rparr>"
  have fresh: "drs_completionEvent st = Some ev \<Longrightarrow> ev \<notin> fst ` set (dp_scheduled d)" for ev
    using inv st(1) by (auto simp: dp_inv_def dp_events_def live_event_def)
  have "dp_recvTimingResp now i d = Inr d'"
    using i q pk st(1) cnt tot fresh makeResponse_ok [OF nr]
    by (auto simp: dp_recvTimingResp_def dp_handleResp_def dma_pkt_ok_def st'_def d'_def sch_def Let_def
        pkt_isResponse_def split: option.splits)
  moreover have out': "outstanding d' = dp_transmitList d @ ?fl" by (simp add: outstanding_def d'_def)
  have "dp_account d'" unfolding dp_account_def
  proof
    fix s
    show "acct_ok (dp_nextState d') s (dp_states d' s) (sid_bytes s (outstanding d'))"
    proof (cases "s = sid")
      case True
      then show ?thesis using tot st(3) unfolding out' by (simp add: d'_def acct_ok_def)
    next
      case False
      then have "dp_states d' s = dp_states d s" "sid_bytes s (outstanding d') = sid_bytes s (outstanding d)"
        using split [of s] unfolding out' by (simp_all add: d'_def)
      moreover have "dp_nextState d' = dp_nextState d" by (simp add: d'_def)
      ultimately show ?thesis using inv by (simp add: dp_inv_def dp_account_def)
    qed
  qed
  moreover have "dp_events d'" unfolding dp_events_def
  proof (intro allI impI)
    fix s ev assume l: "live_event d' s ev"
    have old: "live_event d t e" "t = sid \<Longrightarrow> ?rest \<noteq> 0" if "live_event d' t e" for t e
      using that st(1) by (cases "t = sid"; cases "?rest = 0"; auto simp: live_event_def d'_def st'_def)+
    have ev: "dp_events d" using inv by (simp add: dp_inv_def)
    have "sch = [] \<or> (\<exists>e t. sch = [(e, t)] \<and> ?rest = 0 \<and> live_event d sid e)"
      using st(1) by (auto simp: sch_def live_event_def split: option.split)
    then have "ev \<notin> fst ` set sch" using old [OF l] ev by (auto simp: dp_events_def)
    moreover have "ev \<notin> fst ` set (dp_scheduled d)" "\<forall>sid'. live_event d' sid' ev \<longrightarrow> sid' = s"
      using ev old(1) [OF l] old(1) unfolding dp_events_def by blast+
    moreover have "dp_scheduled d' = dp_scheduled d @ sch" by (simp add: d'_def)
    ultimately show "ev \<notin> fst ` set (dp_scheduled d') \<and> (\<forall>sid'. live_event d' sid' ev \<longrightarrow> sid' = s)"
      by auto
  qed
  moreover have "dp_wake d'" using inv by (simp add: dp_inv_def dp_wake_def d'_def)
  moreover have "\<forall>q \<in> set (outstanding d'). dma_pkt_ok q"
    using inv unfolding out' by (auto simp: dp_inv_def outstanding_def dest: in_set_takeD in_set_dropD)
  ultimately have "dp_inv d'" using inv cnt unfolding dp_inv_def out' by (auto simp: d'_def)
  moreover have "dp_transmitList d' = dp_transmitList d" "dp_inFlight d' = ?fl"
    "dp_states d' sid = None \<longleftrightarrow> ?rest = 0" "dp_scheduled d' = dp_scheduled d @ sch"
    by (simp_all add: d'_def)
  ultimately show ?thesis using \<open>dp_recvTimingResp now i d = Inr d'\<close> st(1)
    unfolding out' [symmetric] sch_def by (intro exI [of _ d'] exI [of _ st] conjI)
qed

section \<open>Runs of the port\<close>

datatype port_op =
    Action nat mem_cmd addr "32 word" nat "byte list" tick tick tick bool
  | SendEvent tick tick bool
  | ReqRetry tick tick bool
  | TimingResp tick nat
  | Fire nat

text \<open>
  What the device and the peer may do: start an action with an event that is not in use, run
  the send event when it is due, retry when a retry is owed, answer a packet in flight, and
  run a scheduled completion event.
\<close>

fun port_enabled :: "dma_port \<Rightarrow> port_op \<Rightarrow> bool" where
  "port_enabled d (Action k cmd a sz ev xs delay now ce acc) \<longleftrightarrow>
     k < 32 \<and> cmd \<in> {ReadReq, WriteReq} \<and> 0 < sz \<and> dp_pendingCount d + unat sz < 2 ^ 32 \<and> now \<le> ce
     \<and> ev \<notin> fst ` set (dp_scheduled d) \<and> (\<forall>sid. \<not> live_event d sid ev)"
| "port_enabled d (SendEvent now ce acc) \<longleftrightarrow> dp_sendEvent d = Some now \<and> now \<le> ce"
| "port_enabled d (ReqRetry now ce acc) \<longleftrightarrow> dp_inRetry d \<and> now \<le> ce"
| "port_enabled d (TimingResp now i) \<longleftrightarrow> i < length (dp_inFlight d)"
| "port_enabled d (Fire ev) \<longleftrightarrow> ev \<in> fst ` set (dp_scheduled d)"

fun port_exec :: "dma_port \<Rightarrow> port_op \<Rightarrow> dma_port result" where
  "port_exec d (Action k cmd a sz ev xs delay now ce acc) =
     dmaAction TimingMode (\<lambda>p. (0, p)) now ce acc (2 ^ k) cmd a sz (Some ev) xs delay d"
| "port_exec d (SendEvent now ce acc) = dp_sendEvent_process now ce acc d"
| "port_exec d (ReqRetry now ce acc) = dp_recvReqRetry now ce acc d"
| "port_exec d (TimingResp now i) = dp_recvTimingResp now i d"
| "port_exec d (Fire ev) = Inr (d\<lparr> dp_scheduled := filter (\<lambda>(e, t). e \<noteq> ev) (dp_scheduled d) \<rparr>)"

inductive port_reach :: "dma_port \<Rightarrow> bool" where
  port_init: "port_reach DmaPort"
| port_step: "port_reach d \<Longrightarrow> port_enabled d op \<Longrightarrow> port_exec d op = Inr d' \<Longrightarrow> port_reach d'"

lemma cg_chunks_sizes:
  assumes "k < 32" and "cg_inv k g"
  shows "(\<Sum>(a, n, c)\<leftarrow>cg_chunks g. unat n) = unat (cg_curSize g) + unat (cg_sizeLeft g)"
    and "length (cg_chunks g) \<le> unat (cg_curSize g) + unat (cg_sizeLeft g)"
proof -
  let ?cs = "cg_chunks g"
  have "length (concat (map (\<lambda>(a, n, c). addr_bytes a (unat n)) ?cs)) = unat (cg_curSize g) + unat (cg_sizeLeft g)"
    using cg_chunks_cover [OF assms] by simp
  then show s: "(\<Sum>(a, n, c)\<leftarrow>?cs. unat n) = unat (cg_curSize g) + unat (cg_sizeLeft g)"
    by (simp add: length_concat comp_def case_prod_unfold)
  have "length cs \<le> (\<Sum>(a, n, c)\<leftarrow>cs. unat n)" if "\<forall>(a, n, c) \<in> set cs. 0 < unat n"
    for cs :: "(addr \<times> 32 word \<times> 32 word) list"
    using that by (induction cs) (auto simp: Suc_le_eq)
  moreover have "\<forall>(a, n, c) \<in> set ?cs. 0 < unat n" using cg_chunks_cover [OF assms] by fastforce
  ultimately show "length ?cs \<le> unat (cg_curSize g) + unat (cg_sizeLeft g)" using s by metis
qed

lemma dma_pkts_facts:
  "length (dma_pkts cmd xs sid cs) = length cs"
  "sid_bytes s (dma_pkts cmd xs sid cs) = (if s = sid then (\<Sum>(a, n, c)\<leftarrow>cs. unat n) else 0)"
  "cmd \<in> {ReadReq, WriteReq} \<Longrightarrow> \<forall>(a, n, c) \<in> set cs. 0 < unat n \<Longrightarrow> \<forall>q \<in> set (dma_pkts cmd xs sid cs). dma_pkt_ok q"
  by (induction cs) (auto simp: dma_pkts_def dma_packet_def dma_pkt_ok_def)

text \<open>Starting an action.\<close>

lemma dmaAction_inv:
  assumes inv: "dp_inv d" and k: "k < 32" and cmd: "cmd \<in> {ReadReq, WriteReq}" and sz: "0 < sz"
    and room: "dp_pendingCount d + unat sz < 2 ^ 32" and ce: "now \<le> ce"
    and fresh: "ev \<notin> fst ` set (dp_scheduled d)" "\<forall>sid. \<not> live_event d sid ev"
  shows "\<exists>d' g. ChunkGenerator a sz (2 ^ k) = Inr g
    \<and> dmaAction TimingMode sa now ce acc (2 ^ k) cmd a sz (Some ev) xs delay d = Inr d' \<and> dp_inv d'
    \<and> mset (outstanding d') = mset (outstanding d) + mset (dma_pkts cmd xs (dp_nextState d) (cg_chunks g))
    \<and> dp_scheduled d' = dp_scheduled d"
proof -
  let ?sid = "dp_nextState d"
  obtain g where g: "ChunkGenerator a sz (2 ^ k) = Inr g" "cg_inv k g"
    "unat (cg_curSize g) + unat (cg_sizeLeft g) = unat sz"
    using ChunkGenerator_pow [OF k] by blast
  define qs where "qs = dma_pkts cmd xs ?sid (cg_chunks g)"
  have pos: "\<forall>(a, n, c) \<in> set (cg_chunks g). 0 < unat n" using cg_chunks_cover [OF k g(2)] by fastforce
  have sum: "(\<Sum>(a, n, c)\<leftarrow>cg_chunks g. unat n) = unat sz" using cg_chunks_sizes(1) [OF k g(2)] g(3) by simp
  have len: "length qs \<le> unat sz" using cg_chunks_sizes(2) [OF k g(2)] g(3) by (simp add: qs_def dma_pkts_facts)
  have sb: "sid_bytes s qs = (if s = ?sid then unat sz else 0)" for s by (simp add: qs_def dma_pkts_facts sum)
  have usz: "0 < unat sz" using sz by (simp add: word_less_nat_alt)
  then have ne: "qs \<noteq> []" using sb [of ?sid] by auto
  define st where "st = \<lparr> drs_completionEvent = Some ev, drs_totBytes = unat sz, drs_numBytes = 0, drs_delay = delay \<rparr>"
  define d1 where "d1 = d\<lparr> dp_nextState := Suc ?sid, dp_states := (dp_states d)(?sid \<mapsto> st) \<rparr>"
  define d2 where "d2 = d1\<lparr> dp_transmitList := dp_transmitList d1 @ qs, dp_pendingCount := dp_pendingCount d1 + length qs \<rparr>"
  have f: "fold dp_queueDma qs d1 = d2"
    unfolding d2_def using room len by (intro fold_queueDma) (simp add: d1_def)
  have sidfree: "dp_states d ?sid = None \<and> sid_bytes ?sid (outstanding d) = 0"
    using inv by (cases "dp_states d ?sid") (auto simp: dp_inv_def dp_account_def acct_ok_def dest!: spec [of _ ?sid])
  have out: "sid_bytes s (outstanding d2) = sid_bytes s (outstanding d) + (if s = ?sid then unat sz else 0)" for s
    using sb [of s] by (simp add: outstanding_def d2_def d1_def)
  have "acct_ok (dp_nextState d2) s (dp_states d2 s) (sid_bytes s (outstanding d2))" for s
  proof (cases "s = ?sid")
    case True
    then show ?thesis using sidfree usz by (simp add: out acct_ok_def) (simp add: d2_def d1_def st_def)
  next
    case False
    have "acct_ok ?sid s (dp_states d s) (sid_bytes s (outstanding d))" using inv by (simp add: dp_inv_def dp_account_def)
    moreover have "dp_nextState d2 = Suc ?sid" "dp_states d2 s = dp_states d s" using False by (simp_all add: d2_def d1_def)
    ultimately show ?thesis using False by (cases "dp_states d s") (simp_all add: out acct_ok_def)
  qed
  then have acc: "dp_account d2" by (simp add: dp_account_def)
  have "live_event d2 s e \<longleftrightarrow> (if s = ?sid then e = ev else live_event d s e)" for s e
    by (auto simp: live_event_def d2_def d1_def st_def)
  moreover have "dp_events d" using inv by (simp add: dp_inv_def)
  ultimately have evs: "dp_events d2" using fresh unfolding dp_events_def by (simp add: d2_def d1_def) blast
  have ok: "\<forall>q \<in> set (outstanding d2). dma_pkt_ok q"
    using inv dma_pkts_facts(3) [OF cmd pos, of xs ?sid] by (auto simp: dp_inv_def outstanding_def d2_def d1_def qs_def)
  have cnt: "dp_pendingCount d2 = length (outstanding d2)" "dp_pendingCount d2 < 2 ^ 32"
    using inv room len by (simp_all add: dp_inv_def outstanding_def d2_def d1_def)
  have tl: "dp_transmitList d2 \<noteq> []" using ne by (simp add: d2_def)
  have ms: "mset (outstanding d2) = mset (outstanding d) + mset qs" "dp_scheduled d2 = dp_scheduled d"
    by (simp_all add: outstanding_def d2_def d1_def)
  have "\<exists>d'. dp_sendDma TimingMode sa now ce acc d2 = Inr d' \<and> dp_inv d' \<and> mset (outstanding d') = mset (outstanding d2)
      \<and> dp_scheduled d' = dp_scheduled d2"
  proof (cases "dp_inRetry d2 \<or> dp_sendEvent d2 \<noteq> None")
    case True
    then have "dp_wake d2" using inv tl by (auto simp: dp_inv_def dp_wake_def d2_def d1_def)
    with True show ?thesis using cnt ok acc evs tl by (simp add: dp_sendDma_def dp_inv_def)
  next
    case False
    then show ?thesis using trySend_inv [OF cnt ok acc evs tl _ ce, of acc] tl by (auto simp: dp_sendDma_def)
  qed
  then show ?thesis using g(1) f ms
    by (auto simp: dmaAction_def qs_def [symmetric] st_def [symmetric] d1_def [symmetric] Let_def)
qed

lemma port_exec_inv:
  assumes inv: "dp_inv d" and en: "port_enabled d op"
  shows "\<exists>d'. port_exec d op = Inr d' \<and> dp_inv d'"
proof (cases op)
  case (Action k cmd a sz ev xs delay now ce acc)
  with en dmaAction_inv [OF inv, of k cmd sz now ce ev] show ?thesis by fastforce
next
  case (SendEvent now ce acc)
  let ?d = "d\<lparr> dp_sendEvent := None \<rparr>"
  have ev: "dp_sendEvent d = Some now" "now \<le> ce" using en SendEvent by auto
  have "dp_account ?d" "dp_events ?d" "\<forall>q \<in> set (outstanding ?d). dma_pkt_ok q"
    "dp_pendingCount ?d = length (outstanding ?d)" "dp_pendingCount ?d < 2 ^ 32" "dp_transmitList ?d \<noteq> []" "\<not> dp_inRetry ?d"
    using inv ev by (auto simp: dp_inv_def dp_account_def outstanding_def dp_events_def live_event_def dp_wake_def)
  with trySend_inv [of ?d now ce acc] SendEvent ev show ?thesis
    by (auto simp: dp_sendEvent_process_def dp_sendDma_def)
next
  case (ReqRetry now ce acc)
  with en inv trySend_inv [of d now ce acc] show ?thesis
    by (auto simp: dp_inv_def dp_wake_def dp_recvReqRetry_def)
next
  case (TimingResp now i)
  obtain p sid off where "dp_inFlight d ! i = (p, sid, off)" by (cases "dp_inFlight d ! i") auto
  with en TimingResp recvTimingResp_inv [OF inv, of i p sid off now] show ?thesis by auto
next
  case (Fire ev)
  then have "port_exec d op = Inr (d\<lparr> dp_scheduled := filter (\<lambda>(e, t). e \<noteq> ev) (dp_scheduled d) \<rparr>)" by simp
  moreover have "dp_events (d\<lparr> dp_scheduled := filter (\<lambda>(e, t). e \<noteq> ev) (dp_scheduled d) \<rparr>)"
    using inv by (simp add: dp_inv_def dp_events_def live_event_def) blast
  ultimately show ?thesis using inv
    by (simp add: dp_inv_def dp_account_def outstanding_def dp_wake_def)
qed

lemma port_reach_inv: "port_reach d \<Longrightarrow> dp_inv d"
proof (induction rule: port_reach.induct)
  case port_init
  show ?case by (rule dp_inv_new)
next
  case (port_step d op d')
  then show ?case using port_exec_inv [of d op] by auto
qed

text \<open>
  C19. The DMA port never trips one of its assertions and never falls asleep: in every state
  the port can reach, each thing the device or the peer may do next succeeds, packets still
  waiting to be sent always have a send event or an owed retry that will send them, and the
  pending count is the number of packets queued or in flight.
\<close>

theorem dma_port_safe:
  assumes "port_reach d" and "port_enabled d op"
  shows "(\<exists>d'. port_exec d op = Inr d') \<and> dp_pendingCount d = length (dp_transmitList d) + length (dp_inFlight d)
    \<and> (dp_transmitList d \<noteq> [] \<longleftrightarrow> dp_inRetry d \<or> dp_sendEvent d \<noteq> None)"
proof -
  note inv = port_reach_inv [OF assms(1)]
  with port_exec_inv [OF inv assms(2)] show ?thesis by (auto simp: dp_inv_def dp_wake_def outstanding_def)
qed

theorem dma_port_safe_witness:
  "(\<exists>d'. port_exec DmaPort (Action 6 WriteReq 0x1000 0x80 7 (replicate 0x80 1) 0 0 10 True) = Inr d')
    \<and> dp_pendingCount DmaPort = length (dp_transmitList DmaPort) + length (dp_inFlight DmaPort)
    \<and> (dp_transmitList DmaPort \<noteq> [] \<longleftrightarrow> dp_inRetry DmaPort \<or> dp_sendEvent DmaPort \<noteq> None)"
  by (rule dma_port_safe [OF port_init]) (simp add: DmaPort_def live_event_def)


lemma demo_chunks:
  "\<exists>g. ChunkGenerator 0x1000 4 (2 ^ 6) = Inr g \<and> cg_chunks g = [(0x1000, 4, 0)]"
proof -
  have "ChunkGenerator 0x1000 4 (2 ^ 6) = Inr \<lparr> cg_curAddr = 0x1000, cg_nextAddr = 0x1040, cg_curSize = 4,
      cg_sizeLeft = 0, cg_startAddr = 0x1000, cg_chunkSize = 64 \<rparr>" by code_simp
  then show ?thesis by (simp add: cg_chunks_last cg_done_def cg_complete_def)
qed


end
