(* ===== verification/Fifo_Spec.thy ===== *)
theory Fifo_Spec
  imports Prelude
begin

text \<open>
  The contract of a bounded FIFO: what every client of a byte buffer in the accelerator
  library relies on. A provider gives an abstraction to the list of stored elements, its
  capacity and an invariant; the invariant carries a budget of elements that may still be
  written, because the ring buffer behind every FIFO counts its laps in 32 bits. The
  order and conservation laws are proved once here and hold for every provider.
\<close>

datatype 'a fifo_op = Put "'a list" | Get nat

fun fifo_run :: "('q \<Rightarrow> 'a list \<Rightarrow> 'q result) \<Rightarrow> ('q \<Rightarrow> nat \<Rightarrow> ('a list \<times> 'q) result) \<Rightarrow>
    'q \<Rightarrow> 'a fifo_op list \<Rightarrow> ('a list \<times> 'q) result" where
  "fifo_run wr rd q [] = Inr ([], q)"
| "fifo_run wr rd q (Put xs # ops) = bind_res (wr q xs) (\<lambda>q'. fifo_run wr rd q' ops)"
| "fifo_run wr rd q (Get n # ops) =
     bind_res (rd q n) (\<lambda>(xs, q').
       bind_res (fifo_run wr rd q' ops) (\<lambda>(ys, q''). Inr (xs @ ys, q'')))"

fun fifo_written :: "'a fifo_op list \<Rightarrow> 'a list" where
  "fifo_written [] = []"
| "fifo_written (Put xs # ops) = xs @ fifo_written ops"
| "fifo_written (Get n # ops) = fifo_written ops"

locale bounded_fifo =
  fixes wf :: "nat \<Rightarrow> 'q \<Rightarrow> bool"
    and contents :: "'q \<Rightarrow> 'a list"
    and cap :: "'q \<Rightarrow> nat"
    and wr :: "'q \<Rightarrow> 'a list \<Rightarrow> 'q result"
    and rd :: "'q \<Rightarrow> nat \<Rightarrow> ('a list \<times> 'q) result"
  assumes wf_mono: "wf n q \<Longrightarrow> m \<le> n \<Longrightarrow> wf m q"
    and wf_cap: "wf n q \<Longrightarrow> length (contents q) \<le> cap q"
    and wr_ok: "wf (length xs + n) q \<Longrightarrow> length (contents q) + length xs \<le> cap q \<Longrightarrow>
      \<exists>q'. wr q xs = Inr q' \<and> wf n q' \<and> contents q' = contents q @ xs \<and> cap q' = cap q"
    and wr_full: "wf n q \<Longrightarrow> length (contents q) + length xs > cap q \<Longrightarrow> \<exists>e. wr q xs = Inl e"
    and rd_ok: "wf n q \<Longrightarrow> m \<le> length (contents q) \<Longrightarrow>
      \<exists>q'. rd q m = Inr (take m (contents q), q') \<and> wf n q' \<and> contents q' = drop m (contents q)
        \<and> cap q' = cap q"
    and rd_short: "wf n q \<Longrightarrow> m > length (contents q) \<Longrightarrow> \<exists>e. rd q m = Inl e"
begin

lemma wr_Inr:
  assumes "wf (length xs + n) q" and "wr q xs = Inr q'"
  shows "wf n q' \<and> contents q' = contents q @ xs \<and> cap q' = cap q
    \<and> length (contents q) + length xs \<le> cap q"
  using wr_ok [OF assms(1)] wr_full [OF assms(1), of xs] assms(2)
  by (cases "length (contents q) + length xs \<le> cap q") auto

lemma rd_Inr:
  assumes "wf n q" and "rd q m = Inr (xs, q')"
  shows "m \<le> length (contents q) \<and> xs = take m (contents q) \<and> wf n q'
    \<and> contents q' = drop m (contents q) \<and> cap q' = cap q"
  using rd_ok [OF assms(1), of m] rd_short [OF assms(1), of m] assms(2)
  by (cases "m \<le> length (contents q)") auto

lemma rd_wr_split:
  assumes "wf n q" and "rd q m = Inr (xs, q')"
  shows "xs @ contents q' = contents q \<and> length xs = m"
  using rd_Inr [OF assms] by auto

lemma run_conserves:
  assumes "wf (length (fifo_written ops) + n) q" and "fifo_run wr rd q ops = Inr (out, q')"
  shows "out @ contents q' = contents q @ fifo_written ops \<and> wf n q' \<and> cap q' = cap q"
  using assms
proof (induction ops arbitrary: q out)
  case Nil
  then show ?case by simp
next
  case (Cons p ops)
  show ?case
  proof (cases p)
    case (Put xs)
    with Cons.prems obtain q1 where q1: "wr q xs = Inr q1" "fifo_run wr rd q1 ops = Inr (out, q')"
      by (auto simp: bind_res_eq_Inr_iff)
    have "wf (length xs + (length (fifo_written ops) + n)) q" using Cons.prems Put by (simp add: add.assoc)
    from wr_Inr [OF this q1(1)] Cons.IH [OF _ q1(2)] show ?thesis using Put by simp
  next
    case (Get m)
    with Cons.prems obtain xs q1 ys where q1: "rd q m = Inr (xs, q1)"
      "fifo_run wr rd q1 ops = Inr (ys, q')" "out = xs @ ys"
      by (auto simp: bind_res_eq_Inr_iff)
    have w: "wf (length (fifo_written ops) + n) q" using Cons.prems Get by simp
    from rd_Inr [OF w q1(1)] rd_wr_split [OF w q1(1)] Cons.IH [OF _ q1(2)] show ?thesis
      using Get q1(3) by auto
  qed
qed

lemma run_never_overfull:
  assumes "wf (length (fifo_written ops) + n) q" and "fifo_run wr rd q ops = Inr (out, q')"
  shows "length (contents q') \<le> cap q"
  using run_conserves [OF assms] wf_cap [of n q'] by auto

end

end
