(* ===== verification/Circular_Queue.thy ===== *)
theory Circular_Queue
  imports Fifo_Spec
begin

text \<open>
  The ring buffer of \<open>src/base/circular_queue.hh\<close> and the byte FIFO of
  \<open>src/base/circlebuf.hh\<close> on top of it, which the stream buffer and both DMA FIFOs of
  the accelerator library store their bytes in. Indices and the lap counter are
  \<open>uint32_t\<close>: they are natural numbers with the wrap-around written out.
\<close>

section \<open>CircularQueue\<close>

record 'a cqueue =
  cq_data :: "'a list"
  cq_capacity :: nat
  cq_head :: nat
  cq_tail :: nat
  cq_empty :: bool
  cq_round :: nat

record cq_iter =
  it_idx :: nat
  it_round :: nat

definition moduloAdd :: "nat \<Rightarrow> nat \<Rightarrow> nat \<Rightarrow> nat" where
  "moduloAdd op1 op2 sz = u32 (op1 + op2) mod sz"

definition cq_sub :: "nat \<Rightarrow> nat \<Rightarrow> nat \<Rightarrow> int" where
  "cq_sub op1 op2 sz =
     (if op1 > op2 then s32 (int ((op1 - op2) mod sz)) else s32 (- int ((op2 - op1) mod sz)))"

definition moduloSub :: "nat \<Rightarrow> nat \<Rightarrow> nat \<Rightarrow> nat" where
  "moduloSub op1 op2 sz =
     (let ret = cq_sub op1 op2 sz in if ret \<ge> 0 then nat ret else u32 (nat (ret + int sz)))"

definition cq_increase :: "nat \<Rightarrow> nat \<Rightarrow> nat \<Rightarrow> nat" where
  "cq_increase cap v delta = moduloAdd v delta cap"

definition cq_decrease :: "nat \<Rightarrow> nat \<Rightarrow> nat" where
  "cq_decrease cap v = (if v \<noteq> 0 then v else cap) - 1"

definition CircularQueue :: "'a \<Rightarrow> nat \<Rightarrow> 'a cqueue" where
  "CircularQueue dflt sz =
     \<lparr> cq_data = replicate sz dflt, cq_capacity = sz, cq_head = 1, cq_tail = 0,
       cq_empty = True, cq_round = 0 \<rparr>"

definition cq_flush :: "'a cqueue \<Rightarrow> 'a cqueue" where
  "cq_flush q = q\<lparr> cq_head := 1, cq_round := 0, cq_tail := 0, cq_empty := True \<rparr>"

definition cq_size :: "'a cqueue \<Rightarrow> nat" where
  "cq_size q =
     (if cq_empty q then 0
      else if cq_head q \<le> cq_tail q then u32 (cq_tail q - cq_head q + 1)
      else u32 (cq_capacity q - cq_head q + cq_tail q + 1))"

definition cq_full :: "'a cqueue \<Rightarrow> bool" where
  "cq_full q \<longleftrightarrow> \<not> cq_empty q \<and>
     (u32 (cq_tail q + 1) = cq_head q \<or> (u32 (cq_tail q + 1) = cq_capacity q \<and> cq_head q = 0))"

definition iter_inc :: "'a cqueue \<Rightarrow> cq_iter \<Rightarrow> cq_iter" where
  "iter_inc q it =
     (let i = cq_increase (cq_capacity q) (it_idx it) 1
      in \<lparr> it_idx = i, it_round = (if i = 0 then u32 (it_round it + 1) else it_round it) \<rparr>)"

definition iter_add :: "'a cqueue \<Rightarrow> cq_iter \<Rightarrow> nat \<Rightarrow> cq_iter" where
  "iter_add q it t =
     \<lparr> it_idx = moduloAdd (it_idx it) t (cq_capacity q),
       it_round = u32 (it_round it + (t + it_idx it) div cq_capacity q) \<rparr>"

definition iter_diff :: "'a cqueue \<Rightarrow> cq_iter \<Rightarrow> cq_iter \<Rightarrow> int" where
  "iter_diff q a b =
     (let ret = cq_sub (it_idx a) (it_idx b) (cq_capacity q)
      in if it_round a \<noteq> it_round b
         then s32 (ret + int (u32_sub (it_round a) (it_round b) * cq_capacity q)) else ret)"

definition iter_less :: "cq_iter \<Rightarrow> cq_iter \<Rightarrow> bool" where
  "iter_less a b \<longleftrightarrow> it_round a < it_round b \<or> (it_round a = it_round b \<and> it_idx a < it_idx b)"

definition iter_le :: "cq_iter \<Rightarrow> cq_iter \<Rightarrow> bool" where
  "iter_le a b \<longleftrightarrow> \<not> iter_less b a"

definition cq_end :: "'a cqueue \<Rightarrow> cq_iter" where
  "cq_end q =
     (let poi = moduloAdd (cq_tail q) 1 (cq_capacity q)
      in \<lparr> it_idx = poi, it_round = (if poi = 0 then u32 (cq_round q + 1) else cq_round q) \<rparr>)"

definition cq_begin :: "'a cqueue \<Rightarrow> cq_iter" where
  "cq_begin q =
     (if cq_empty q then cq_end q
      else if cq_head q > cq_tail q then \<lparr> it_idx = cq_head q, it_round = u32_sub (cq_round q) 1 \<rparr>
      else \<lparr> it_idx = cq_head q, it_round = cq_round q \<rparr>)"

definition pop_front :: "'a cqueue \<Rightarrow> nat \<Rightarrow> 'a cqueue result" where
  "pop_front q n =
     (if n = 0 then Inr q
      else let hIt = iter_add q (cq_begin q) n
           in bind_res (assert_that (iter_le hIt (cq_end q)) ''hIt <= end()'')
                (\<lambda>_. Inr (q\<lparr> cq_empty := (hIt = cq_end q), cq_head := it_idx hIt \<rparr>)))"

definition advance_tail1 :: "'a cqueue \<Rightarrow> 'a cqueue" where
  "advance_tail1 q =
     (let t = cq_increase (cq_capacity q) (cq_tail q) 1;
          r = (if t = 0 then u32 (cq_round q + 1) else cq_round q);
          h = (if t = cq_head q \<and> \<not> cq_empty q
               then cq_increase (cq_capacity q) (cq_head q) 1 else cq_head q)
      in q\<lparr> cq_tail := t, cq_round := r, cq_head := h, cq_empty := False \<rparr>)"

fun advance_tail :: "'a cqueue \<Rightarrow> nat \<Rightarrow> 'a cqueue" where
  "advance_tail q 0 = q"
| "advance_tail q (Suc n) = advance_tail (advance_tail1 q) n"

definition push_back :: "'a cqueue \<Rightarrow> 'a \<Rightarrow> 'a cqueue" where
  "push_back q v = (let q' = advance_tail1 q in q'\<lparr> cq_data := (cq_data q')[cq_tail q' := v] \<rparr>)"

definition pop_back :: "'a cqueue \<Rightarrow> 'a cqueue result" where
  "pop_back q =
     bind_res (assert_that (\<not> cq_empty q) ''!_empty'')
       (\<lambda>_. Inr (q\<lparr> cq_empty := (cq_head q = cq_tail q),
                    cq_round := (if cq_tail q = 0 then u32_sub (cq_round q) 1 else cq_round q),
                    cq_tail := cq_decrease (cq_capacity q) (cq_tail q) \<rparr>))"

section \<open>CircleBuf\<close>

text \<open>
  \<open>std::copy\<close> over the ring's random-access iterators runs \<open>last - first\<close> times, reading or
  writing the slot the iterator points at and incrementing it. A slot outside the backing
  vector is an out-of-bounds access.
\<close>

fun copy_out :: "'a cqueue \<Rightarrow> cq_iter \<Rightarrow> nat \<Rightarrow> 'a list result" where
  "copy_out q it 0 = Inr []"
| "copy_out q it (Suc n) =
     (if it_idx it < length (cq_data q)
      then bind_res (copy_out q (iter_inc q it) n) (\<lambda>xs. Inr (cq_data q ! it_idx it # xs))
      else Inl OutOfBounds)"

fun copy_in :: "'a cqueue \<Rightarrow> cq_iter \<Rightarrow> 'a list \<Rightarrow> 'a cqueue result" where
  "copy_in q it [] = Inr q"
| "copy_in q it (x # xs) =
     (if it_idx it < length (cq_data q)
      then copy_in (q\<lparr> cq_data := (cq_data q)[it_idx it := x] \<rparr>) (iter_inc q it) xs
      else Inl OutOfBounds)"

definition cb_peek :: "'a cqueue \<Rightarrow> nat \<Rightarrow> nat \<Rightarrow> 'a list result" where
  "cb_peek q off len =
     bind_res (panic_if (off + len > cq_size q) ''Trying to read past end of circular buffer.'')
       (\<lambda>_. let first = iter_add q (cq_begin q) off;
                last = iter_add q first len
            in copy_out q first (nat (iter_diff q last first)))"

definition cb_read :: "'a cqueue \<Rightarrow> nat \<Rightarrow> ('a list \<times> 'a cqueue) result" where
  "cb_read q len =
     bind_res (cb_peek q 0 len) (\<lambda>xs. bind_res (pop_front q len) (\<lambda>q'. Inr (xs, q')))"

definition cb_write :: "'a cqueue \<Rightarrow> 'a list \<Rightarrow> 'a cqueue result" where
  "cb_write q src =
     (let src' = (if length src > cq_capacity q then drop (length src - cq_capacity q) src else src)
      in bind_res (copy_in q (cq_end q) src') (\<lambda>q'. Inr (advance_tail q' (length src'))))"

section \<open>Fifo\<close>

definition fifo_write :: "'a cqueue \<Rightarrow> 'a list \<Rightarrow> 'a cqueue result" where
  "fifo_write q src =
     bind_res (panic_if (cq_size q + length src > cq_capacity q) ''Trying to overfill FIFO buffer.'')
       (\<lambda>_. cb_write q src)"

definition fifo_read :: "'a cqueue \<Rightarrow> nat \<Rightarrow> ('a list \<times> 'a cqueue) result" where
  "fifo_read q len = cb_read q len"


section \<open>Abstraction to a list and the ring's invariant\<close>

text \<open>
  The ring holds the bytes from \<open>_head\<close> to \<open>_tail\<close>, circularly. The invariant takes a budget
  \<open>n\<close>: the number of elements that may still be written before the \<open>uint32_t\<close> lap counter
  could wrap. Writing spends the budget, reading does not.
\<close>

definition cq_list :: "'a cqueue \<Rightarrow> 'a list" where
  "cq_list q = map (\<lambda>i. cq_data q ! ((cq_head q + i) mod cq_capacity q)) [0..<cq_size q]"

definition cq_wf :: "nat \<Rightarrow> 'a cqueue \<Rightarrow> bool" where
  "cq_wf n q \<longleftrightarrow>
     2 \<le> cq_capacity q \<and> cq_capacity q < 2 ^ 31 \<and> length (cq_data q) = cq_capacity q \<and>
     cq_head q < cq_capacity q \<and> cq_tail q < cq_capacity q \<and>
     (cq_empty q \<longrightarrow> cq_head q = (cq_tail q + 1) mod cq_capacity q) \<and>
     (\<not> cq_empty q \<and> cq_head q > cq_tail q \<longrightarrow> 1 \<le> cq_round q) \<and>
     cq_round q + n + 1 < 2 ^ 32"

lemma cq_wf_mono: "cq_wf n q \<Longrightarrow> m \<le> n \<Longrightarrow> cq_wf m q"
  by (auto simp: cq_wf_def)

lemma moduloAdd_small:
  "a < c \<Longrightarrow> b \<le> c \<Longrightarrow> c < 2 ^ 31 \<Longrightarrow> moduloAdd a b c = (if a + b < c then a + b else a + b - c)"
  by (simp add: moduloAdd_def u32_def mod_below_twice)

lemma cq_size_eq:
  "cq_wf n q \<Longrightarrow> cq_size q =
     (if cq_empty q then 0
      else if cq_head q \<le> cq_tail q then cq_tail q - cq_head q + 1
      else cq_capacity q - cq_head q + cq_tail q + 1)"
  by (auto simp: cq_wf_def cq_size_def u32_def)

lemma cq_size_le: "cq_wf n q \<Longrightarrow> cq_size q \<le> cq_capacity q"
  by (auto simp: cq_size_eq) (auto simp: cq_wf_def)

lemma length_cq_list [simp]: "length (cq_list q) = cq_size q"
  by (simp add: cq_list_def)

lemma nth_cq_list: "i < cq_size q \<Longrightarrow> cq_list q ! i = cq_data q ! ((cq_head q + i) mod cq_capacity q)"
  by (simp add: cq_list_def)

lemma cq_wf_new: "2 \<le> sz \<Longrightarrow> sz < 2 ^ 31 \<Longrightarrow> n + 1 < 2 ^ 32 \<Longrightarrow> cq_wf n (CircularQueue d sz)"
  by (auto simp: cq_wf_def CircularQueue_def)

lemma cq_list_new [simp]: "cq_list (CircularQueue d sz) = []"
  by (simp add: cq_list_def CircularQueue_def cq_size_def)

lemma cq_flush_props:
  "cq_wf m q \<Longrightarrow> n + 1 < 2 ^ 32 \<Longrightarrow> cq_wf n (cq_flush q) \<and> cq_list (cq_flush q) = []"
  by (auto simp: cq_wf_def cq_flush_def cq_list_def cq_size_def)

subsection \<open>Iterators as positions\<close>

text \<open>
  Under the invariant an iterator \<open>k\<close> steps past \<open>begin()\<close> has a closed form; every iterator
  operation the FIFO uses is computed through it.
\<close>

definition iter_base :: "'a cqueue \<Rightarrow> nat" where
  "iter_base q =
     (if cq_empty q then (if cq_tail q + 1 = cq_capacity q then cq_round q + 1 else cq_round q)
      else if cq_head q > cq_tail q then cq_round q - 1 else cq_round q)"

definition iter_at :: "'a cqueue \<Rightarrow> nat \<Rightarrow> cq_iter" where
  "iter_at q k =
     \<lparr> it_idx = (cq_head q + k) mod cq_capacity q,
       it_round = iter_base q + (cq_head q + k) div cq_capacity q \<rparr>"

lemma cq_begin_eq: "cq_wf n q \<Longrightarrow> cq_begin q = iter_at q 0"
  by (auto simp: cq_begin_def cq_end_def iter_at_def iter_base_def Let_def cq_wf_def moduloAdd_small u32_sub_id
      mod_below_twice div_below_twice u32_def)

lemma cq_end_eq: "cq_wf n q \<Longrightarrow> cq_end q = iter_at q (cq_size q)"
  by (auto simp: cq_size_eq) (auto simp: cq_end_def iter_at_def iter_base_def Let_def cq_wf_def moduloAdd_small
      mod_below_twice div_below_twice u32_def)


lemma iter_at_round_le:
  "cq_wf n q \<Longrightarrow> k \<le> cq_size q \<Longrightarrow> it_round (iter_at q k) \<le> cq_round q + 1"
  by (auto simp: cq_size_eq split: if_splits)
    (auto simp: iter_at_def iter_base_def cq_wf_def div_below_twice)

lemma iter_at_round_le_cap:
  "cq_wf n q \<Longrightarrow> k \<le> cq_capacity q \<Longrightarrow> it_round (iter_at q k) \<le> cq_round q + 2"
  by (auto simp: iter_at_def iter_base_def cq_wf_def div_below_twice split: if_splits)

lemma iter_at_round_mono: "j \<le> k \<Longrightarrow> it_round (iter_at q j) \<le> it_round (iter_at q k)"
  by (simp add: iter_at_def div_le_mono)

lemma div_split: "0 < c \<Longrightarrow> (p + t) div c = p div c + (t + p mod c) div c" for c p t :: nat
proof -
  assume "0 < c"
  have "p + t = (t + p mod c) + (p div c) * c" by simp
  then show ?thesis using \<open>0 < c\<close> by (metis div_mult_self1 add.commute gr_implies_not0)
qed

lemma below_31_sum: "a < c \<Longrightarrow> b \<le> c \<Longrightarrow> c < 2 ^ 31 \<Longrightarrow> a + b < 2 ^ 32" for a b c :: nat
  by simp

lemma iter_add_at:
  assumes wf: "cq_wf n q" and t: "t \<le> cq_capacity q"
    and r: "it_round (iter_at q (k + t)) < 2 ^ 32"
  shows "iter_add q (iter_at q k) t = iter_at q (k + t)"
proof -
  let ?c = "cq_capacity q" and ?p = "cq_head q + k"
  from wf have c: "0 < ?c" "?c < 2 ^ 31" by (auto simp: cq_wf_def)
  have "?p mod ?c < ?c" using c(1) by (rule mod_less_divisor)
  then have "?p mod ?c + t < 2 ^ 32" using t c(2) by (rule below_31_sum)
  then have "moduloAdd (?p mod ?c) t ?c = (?p + t) mod ?c"
    by (simp add: moduloAdd_def mod_add_left_eq)
  then show ?thesis using r div_split [of ?c ?p t] c
    by (simp add: iter_add_def iter_at_def add.assoc)
qed

lemma iter_inc_at:
  assumes wf: "cq_wf n q" and r: "it_round (iter_at q (Suc k)) < 2 ^ 32"
  shows "iter_inc q (iter_at q k) = iter_at q (Suc k)"
proof -
  let ?c = "cq_capacity q" and ?p = "cq_head q + k"
  from wf have c: "2 \<le> ?c" "?c < 2 ^ 31" by (auto simp: cq_wf_def)
  have lt: "?p mod ?c < ?c" using c by (intro mod_less_divisor) simp
  then have "?p mod ?c + 1 < 2 ^ 32" using c by (intro below_31_sum) simp_all
  then have m: "moduloAdd (?p mod ?c) 1 ?c = Suc ?p mod ?c"
    by (simp add: moduloAdd_def mod_Suc_eq)
  have d: "Suc ?p div ?c = ?p div ?c + (if Suc ?p mod ?c = 0 then 1 else 0)"
    using c by (auto simp: div_Suc dvd_eq_mod_eq_0)
  show ?thesis using r m d
    by (auto simp: iter_inc_def cq_increase_def iter_at_def Let_def)
qed

lemma cq_sub_small: "i < c \<Longrightarrow> j < c \<Longrightarrow> c < 2 ^ 31 \<Longrightarrow> cq_sub i j c = int i - int j"
  by (auto simp: cq_sub_def s32_id)

lemma iter_diff_at:
  assumes wf: "cq_wf n q" and t: "t \<le> cq_capacity q"
    and r: "it_round (iter_at q (k + t)) < 2 ^ 32"
  shows "iter_diff q (iter_at q (k + t)) (iter_at q k) = int t"
proof -
  let ?c = "cq_capacity q" and ?p = "cq_head q + k"
  let ?i = "(?p + t) mod ?c" and ?j = "?p mod ?c"
  from wf have c: "0 < ?c" "?c < 2 ^ 31" by (auto simp: cq_wf_def)
  have lt: "?i < ?c" "?j < ?c" using c by simp_all
  have s: "cq_sub ?i ?j ?c = int ?i - int ?j"
    using lt c(2) by (rule cq_sub_small)
  define d where "d = (?p + t) div ?c - ?p div ?c"
  have le: "?p div ?c \<le> (?p + t) div ?c" by (simp add: div_le_mono)
  have A: "?i + ?c * ((?p + t) div ?c) = ?p + t" and B: "?j + ?c * (?p div ?c) = ?p"
    by (rule mod_mult_div_eq)+
  have "(?p + t) div ?c = ?p div ?c + d" using le by (simp add: d_def)
  then have "?c * ((?p + t) div ?c) = ?c * (?p div ?c) + ?c * d" by (simp only: distrib_left)
  with A B have "?i + ?c * d = ?j + t" by linarith
  then have "int (?i + ?c * d) = int (?j + t)" by (rule arg_cong)
  then have key: "int ?i - int ?j + int ?c * int d = int t" by (simp only: of_nat_add of_nat_mult)
  have rnd: "it_round (iter_at q (k + t)) = it_round (iter_at q k) + d"
    using le by (simp add: iter_at_def d_def add.assoc)
  have us: "u32_sub (it_round (iter_at q (k + t))) (it_round (iter_at q k)) = d"
    using r rnd by (simp add: u32_sub_id)
  have idx: "it_idx (iter_at q (k + t)) = ?i" "it_idx (iter_at q k) = ?j"
    by (simp_all add: iter_at_def add.assoc)
  have "s32 (int t) = int t" using t c by (simp add: s32_id)
  then show ?thesis using s us idx rnd key
    by (auto simp: iter_diff_def Let_def mult.commute)
qed

lemma iter_le_at:
  assumes wf: "cq_wf n q"
  shows "iter_le (iter_at q a) (iter_at q b) \<longleftrightarrow> a \<le> b"
proof -
  let ?c = "cq_capacity q"
  have c: "0 < ?c" using wf by (simp add: cq_wf_def)
  have *: "iter_less (iter_at q x) (iter_at q y)" if "x < y" for x y
  proof -
    have "(cq_head q + x) div ?c \<le> (cq_head q + y) div ?c" using that by (simp add: div_le_mono)
    moreover have "(cq_head q + x) mod ?c < (cq_head q + y) mod ?c"
      if "(cq_head q + x) div ?c = (cq_head q + y) div ?c"
      using \<open>x < y\<close> that by (metis add_less_cancel_left mod_mult_div_eq add_less_cancel_right)
    ultimately show ?thesis by (auto simp: iter_less_def iter_at_def)
  qed
  have asym: "iter_less u v \<Longrightarrow> \<not> iter_less v u" for u v by (auto simp: iter_less_def)
  have irr: "\<not> iter_less u u" for u by (simp add: iter_less_def)
  show ?thesis unfolding iter_le_def using * asym irr by (metis linorder_not_le nat_less_le)
qed

lemma iter_at_inj: "cq_wf n q \<Longrightarrow> iter_at q a = iter_at q b \<longleftrightarrow> a = b"
  using iter_le_at [of n q a b] iter_le_at [of n q b a]
  by (metis iter_le_def iter_less_def less_irrefl order_antisym)

subsection \<open>Reading\<close>

lemma copy_out_at:
  assumes wf: "cq_wf n q" and r: "it_round (iter_at q (k + m)) < 2 ^ 32"
  shows "copy_out q (iter_at q k) m =
    Inr (map (\<lambda>i. cq_data q ! ((cq_head q + i) mod cq_capacity q)) [k..<k + m])"
  using r
proof (induction m arbitrary: k)
  case 0
  then show ?case by simp
next
  case (Suc m)
  have idx: "it_idx (iter_at q k) = (cq_head q + k) mod cq_capacity q"
    by (simp add: iter_at_def)
  have lt: "(cq_head q + k) mod cq_capacity q < length (cq_data q)"
    using wf by (auto simp: cq_wf_def)
  have "it_round (iter_at q (Suc k)) < 2 ^ 32"
    using Suc.prems iter_at_round_mono [of "Suc k" "k + Suc m" q] by simp
  then have inc: "iter_inc q (iter_at q k) = iter_at q (Suc k)" by (rule iter_inc_at [OF wf])
  have "copy_out q (iter_at q (Suc k)) m =
    Inr (map (\<lambda>i. cq_data q ! ((cq_head q + i) mod cq_capacity q)) [Suc k..<Suc k + m])"
    using Suc.prems by (intro Suc.IH) simp
  then show ?case using idx lt inc by (simp add: upt_conv_Cons del: upt_Suc)
qed

lemma pop_front_spec:
  assumes wf: "cq_wf n q" and m: "m \<le> cq_size q"
  shows "\<exists>q'. pop_front q m = Inr q' \<and> cq_wf n q' \<and> cq_list q' = drop m (cq_list q)
    \<and> cq_capacity q' = cq_capacity q"
proof (cases "m = 0")
  case True
  then show ?thesis using wf by (simp add: pop_front_def)
next
  case False
  let ?c = "cq_capacity q"
  have c: "2 \<le> ?c" "?c < 2 ^ 31" "cq_head q < ?c" "cq_tail q < ?c" using wf by (auto simp: cq_wf_def)
  have ne: "\<not> cq_empty q" using False m by (auto simp: cq_size_def)
  have mc: "m \<le> ?c" using m cq_size_le [OF wf] by simp
  have "it_round (iter_at q (0 + m)) < 2 ^ 32"
    using iter_at_round_le [OF wf m] wf by (simp add: cq_wf_def)
  then have hit: "iter_add q (cq_begin q) m = iter_at q m"
    using iter_add_at [OF wf mc] by (simp add: cq_begin_eq [OF wf])
  define q' where "q' = q\<lparr> cq_empty := (m = cq_size q), cq_head := (cq_head q + m) mod ?c \<rparr>"
  have pop: "pop_front q m = Inr q'"
    using False m hit iter_le_at [OF wf, of m "cq_size q"] iter_at_inj [OF wf, of m "cq_size q"]
    by (simp add: pop_front_def Let_def cq_end_eq [OF wf] q'_def)
      (simp add: iter_at_def)
  have md: "(cq_head q + m) mod ?c = (if cq_head q + m < ?c then cq_head q + m else cq_head q + m - ?c)"
    using c mc by (intro mod_below_twice) simp
  have wf': "cq_wf n q'"
    using wf ne False m md c mod_below_twice [of "cq_tail q + 1" ?c]
    by (auto simp: cq_wf_def q'_def cq_size_eq [OF wf] split: if_splits)
  have sz: "cq_size q' = cq_size q - m"
    unfolding cq_size_eq [OF wf'] using ne False m md c
    by (auto simp: q'_def cq_size_eq [OF wf] split: if_splits)
  have "cq_list q' = drop m (cq_list q)"
  proof (rule nth_equalityI)
    show "length (cq_list q') = length (drop m (cq_list q))" using sz by simp
  next
    fix i assume "i < length (cq_list q')"
    then have i: "i < cq_size q'" "m + i < cq_size q" using sz by simp_all
    have "((cq_head q + m) mod ?c + i) mod ?c = (cq_head q + (m + i)) mod ?c"
      by (simp add: mod_add_left_eq add.assoc)
    then show "cq_list q' ! i = drop m (cq_list q) ! i"
      using i by (simp add: nth_cq_list) (simp add: q'_def)
  qed
  then show ?thesis using pop wf' by (auto simp: q'_def)
qed

lemma cb_peek_spec:
  assumes wf: "cq_wf n q" and m: "off + m \<le> cq_size q"
  shows "cb_peek q off m = Inr (take m (drop off (cq_list q)))"
proof -
  have r: "it_round (iter_at q (off + m)) < 2 ^ 32" "it_round (iter_at q (0 + off)) < 2 ^ 32"
    using iter_at_round_le [OF wf, of "off + m"] iter_at_round_le [OF wf, of off] m wf
    by (simp_all add: cq_wf_def)
  have le: "off \<le> cq_capacity q" "m \<le> cq_capacity q" using m cq_size_le [OF wf] by simp_all
  have a: "iter_add q (iter_at q 0) off = iter_at q off"
    using iter_add_at [OF wf le(1), of 0] r(2) by simp
  have "[off..<off + m] = take m (drop off [0..<cq_size q])" using m by simp
  then have "map (\<lambda>i. cq_data q ! ((cq_head q + i) mod cq_capacity q)) [off..<off + m]
      = take m (drop off (cq_list q))"
    by (simp add: cq_list_def take_map drop_map)
  then show ?thesis
    using m a iter_add_at [OF wf le(2) r(1)] iter_diff_at [OF wf le(2) r(1)] copy_out_at [OF wf r(1)]
    by (simp add: cb_peek_def cq_begin_eq [OF wf] Let_def)
qed

lemma fifo_read_spec:
  assumes wf: "cq_wf n q" and m: "m \<le> cq_size q"
  shows "\<exists>q'. fifo_read q m = Inr (take m (cq_list q), q') \<and> cq_wf n q'
    \<and> cq_list q' = drop m (cq_list q) \<and> cq_capacity q' = cq_capacity q"
  using pop_front_spec [OF assms] cb_peek_spec [OF wf, of 0 m] m
  by (auto simp: fifo_read_def cb_read_def)

subsection \<open>Writing\<close>

fun ring_put :: "'a list \<Rightarrow> nat \<Rightarrow> nat \<Rightarrow> 'a list \<Rightarrow> 'a list" where
  "ring_put d c p [] = d"
| "ring_put d c p (x # xs) = ring_put (d[p mod c := x]) c (Suc p) xs"

lemma length_ring_put [simp]: "length (ring_put d c p xs) = length d"
  by (induction xs arbitrary: d p) auto

lemma mod_shift_neq: "0 < t \<Longrightarrow> t < c \<Longrightarrow> (p + t) mod c \<noteq> p mod c" for p t c :: nat
  by (metis add_0 add_cancel_right_right diff_add_inverse mod_eq_dvd_iff_nat mod_less
      dvd_imp_le le_add1 linorder_not_le)

lemma nth_ring_put_other:
  "length xs \<le> t \<Longrightarrow> t < c \<Longrightarrow> length d = c \<Longrightarrow> ring_put d c p xs ! ((p + t) mod c) = d ! ((p + t) mod c)"
proof (induction xs arbitrary: d p t)
  case Nil
  then show ?case by simp
next
  case (Cons x xs)
  then obtain u where t: "t = Suc u" by (cases t) auto
  have "ring_put (d[p mod c := x]) c (Suc p) xs ! ((Suc p + u) mod c) = d[p mod c := x] ! ((Suc p + u) mod c)"
    using Cons.prems t by (intro Cons.IH) simp_all
  moreover have "(p + t) mod c \<noteq> p mod c" using Cons.prems t by (intro mod_shift_neq) simp_all
  ultimately show ?case using t by simp
qed

lemma nth_ring_put_in:
  "i < length xs \<Longrightarrow> length xs \<le> c \<Longrightarrow> length d = c \<Longrightarrow> ring_put d c p xs ! ((p + i) mod c) = xs ! i"
proof (induction xs arbitrary: d p i)
  case Nil
  then show ?case by simp
next
  case (Cons x xs)
  show ?case
  proof (cases i)
    case 0
    have "ring_put (d[p mod c := x]) c (Suc p) xs ! ((Suc p + (c - 1)) mod c)
        = d[p mod c := x] ! ((Suc p + (c - 1)) mod c)"
      using Cons.prems by (intro nth_ring_put_other) auto
    moreover have "Suc p + (c - 1) = p + c" using Cons.prems by simp
    then have "(Suc p + (c - 1)) mod c = p mod c" by simp
    moreover have "p mod c < c" using Cons.prems by (intro mod_less_divisor) auto
    ultimately show ?thesis using 0 Cons.prems by simp
  next
    case (Suc j)
    then have "ring_put (d[p mod c := x]) c (Suc p) xs ! ((Suc p + j) mod c) = xs ! j"
      using Cons.prems by (intro Cons.IH) simp_all
    then show ?thesis using Suc by simp
  qed
qed

lemma iter_inc_data [simp]: "iter_inc (q\<lparr>cq_data := d\<rparr>) it = iter_inc q it"
  by (simp add: iter_inc_def)

lemma copy_in_at:
  assumes wf: "cq_wf n q" and r: "it_round (iter_at q (k + length xs)) < 2 ^ 32"
    and d: "length d = cq_capacity q"
  shows "copy_in (q\<lparr>cq_data := d\<rparr>) (iter_at q k) xs =
    Inr (q\<lparr>cq_data := ring_put d (cq_capacity q) (cq_head q + k) xs\<rparr>)"
  using r d
proof (induction xs arbitrary: k d)
  case Nil
  then show ?case by simp
next
  case (Cons x xs)
  let ?i = "(cq_head q + k) mod cq_capacity q"
  have idx: "it_idx (iter_at q k) = ?i" by (simp add: iter_at_def)
  have lt: "?i < length d" using wf Cons.prems(2) by (auto simp: cq_wf_def)
  have "it_round (iter_at q (Suc k)) < 2 ^ 32"
    using Cons.prems iter_at_round_mono [of "Suc k" "k + length (x # xs)" q] by simp
  then have inc: "iter_inc q (iter_at q k) = iter_at q (Suc k)" by (rule iter_inc_at [OF wf])
  have "copy_in (q\<lparr>cq_data := d[?i := x]\<rparr>) (iter_at q (Suc k)) xs =
      Inr (q\<lparr>cq_data := ring_put (d[?i := x]) (cq_capacity q) (cq_head q + Suc k) xs\<rparr>)"
    using Cons.prems by (intro Cons.IH) simp_all
  then show ?case using idx lt inc by simp
qed

lemma advance_tail1_spec:
  assumes wf: "cq_wf (Suc n) q" and room: "cq_size q < cq_capacity q"
  shows "cq_wf n (advance_tail1 q) \<and> cq_size (advance_tail1 q) = Suc (cq_size q)
    \<and> cq_head (advance_tail1 q) = cq_head q \<and> cq_data (advance_tail1 q) = cq_data q
    \<and> cq_capacity (advance_tail1 q) = cq_capacity q"
proof -
  let ?c = "cq_capacity q" and ?t = "if cq_tail q + 1 < cq_capacity q then cq_tail q + 1 else 0"
  have c: "2 \<le> ?c" "?c < 2 ^ 31" "cq_tail q < ?c" "cq_head q < ?c" "cq_round q + Suc n + 1 < 2 ^ 32"
    using wf by (auto simp: cq_wf_def)
  have t: "moduloAdd (cq_tail q) 1 ?c = ?t" using c by (auto simp: moduloAdd_small)
  have nh: "\<not> (?t = cq_head q \<and> \<not> cq_empty q)"
    using room c by (auto simp: cq_size_eq [OF wf] split: if_splits)
  have eq: "advance_tail1 q = q\<lparr> cq_tail := ?t,
      cq_round := (if ?t = 0 then cq_round q + 1 else cq_round q), cq_empty := False \<rparr>"
    using t nh c by (auto simp: advance_tail1_def cq_increase_def Let_def)
  have wf': "cq_wf n (advance_tail1 q)"
    using wf c nh by (auto simp: eq cq_wf_def mod_below_twice split: if_splits)
  moreover have "cq_size (advance_tail1 q) = Suc (cq_size q)"
    unfolding cq_size_eq [OF wf'] cq_size_eq [OF wf] using wf c nh
    by (auto simp: eq cq_wf_def mod_below_twice split: if_splits)
  ultimately show ?thesis by (simp add: eq)
qed

lemma advance_tail_spec:
  "cq_wf (m + n) q \<Longrightarrow> cq_size q + m \<le> cq_capacity q \<Longrightarrow>
   cq_wf n (advance_tail q m) \<and> cq_size (advance_tail q m) = cq_size q + m
    \<and> cq_head (advance_tail q m) = cq_head q \<and> cq_data (advance_tail q m) = cq_data q
    \<and> cq_capacity (advance_tail q m) = cq_capacity q"
proof (induction m arbitrary: q)
  case 0
  then show ?case by simp
next
  case (Suc m)
  then have "cq_wf (Suc (m + n)) q" "cq_size q < cq_capacity q" by simp_all
  from advance_tail1_spec [OF this] Suc.prems Suc.IH [of "advance_tail1 q"] show ?case by simp
qed

lemma fifo_write_spec:
  assumes wf: "cq_wf (length xs + n) q" and room: "cq_size q + length xs \<le> cq_capacity q"
  shows "\<exists>q'. fifo_write q xs = Inr q' \<and> cq_wf n q' \<and> cq_list q' = cq_list q @ xs
    \<and> cq_capacity q' = cq_capacity q"
proof -
  let ?c = "cq_capacity q" and ?s = "cq_size q"
  define d where "d = ring_put (cq_data q) ?c (cq_head q + ?s) xs"
  define q1 where "q1 = q\<lparr>cq_data := d\<rparr>"
  have r: "it_round (iter_at q (?s + length xs)) < 2 ^ 32"
  proof (cases xs)
    case Nil
    then show ?thesis using iter_at_round_le [OF wf, of ?s] wf by (simp add: cq_wf_def)
  next
    case (Cons x ys)
    then show ?thesis using iter_at_round_le_cap [OF wf room] wf by (simp add: cq_wf_def)
  qed
  have len: "length (cq_data q) = ?c" using wf by (simp add: cq_wf_def)
  have "copy_in (q\<lparr>cq_data := cq_data q\<rparr>) (iter_at q ?s) xs = Inr q1"
    unfolding q1_def d_def by (rule copy_in_at [OF wf r len])
  then have ci: "copy_in q (cq_end q) xs = Inr q1" by (simp add: cq_end_eq [OF wf])
  have wf1: "cq_wf (length xs + n) q1" using wf by (simp add: q1_def d_def cq_wf_def)
  have sz1: "cq_size q1 = ?s" by (simp add: q1_def cq_size_def)
  define q' where "q' = advance_tail q1 (length xs)"
  have adv: "cq_wf n q'" "cq_size q' = ?s + length xs" "cq_head q' = cq_head q" "cq_data q' = d"
    "cq_capacity q' = ?c"
    using advance_tail_spec [OF wf1] room sz1 by (simp_all add: q'_def q1_def)
  have fw: "fifo_write q xs = Inr q'"
    using room ci by (simp add: fifo_write_def cb_write_def Let_def q'_def)
  have "cq_list q' = cq_list q @ xs"
  proof (rule nth_equalityI)
    show "length (cq_list q') = length (cq_list q @ xs)" using adv by simp
  next
    fix i assume "i < length (cq_list q')"
    then have i: "i < ?s + length xs" using adv by simp
    show "cq_list q' ! i = (cq_list q @ xs) ! i"
    proof (cases "i < ?s")
      case True
      let ?t = "i + ?c - ?s"
      have "cq_head q + ?s + ?t = cq_head q + i + ?c" using True room by simp
      then have "(cq_head q + ?s + ?t) mod ?c = (cq_head q + i) mod ?c" by (simp only: mod_add_self2)
      moreover have "d ! ((cq_head q + ?s + ?t) mod ?c) = cq_data q ! ((cq_head q + ?s + ?t) mod ?c)"
        unfolding d_def using True room len by (intro nth_ring_put_other) simp_all
      ultimately show ?thesis using True i adv by (simp add: nth_cq_list nth_append)
    next
      case False
      then have "d ! ((cq_head q + ?s + (i - ?s)) mod ?c) = xs ! (i - ?s)"
        unfolding d_def using i room len by (intro nth_ring_put_in) simp_all
      then show ?thesis using False i adv by (simp add: nth_cq_list nth_append)
    qed
  qed
  then show ?thesis using fw adv by auto
qed

lemma fifo_write_overfull:
  "cq_size q + length xs > cq_capacity q \<Longrightarrow>
   fifo_write q xs = Inl (Panic ''Trying to overfill FIFO buffer.'')"
  by (simp add: fifo_write_def)

lemma fifo_read_underrun:
  "m > cq_size q \<Longrightarrow> fifo_read q m = Inl (Panic ''Trying to read past end of circular buffer.'')"
  by (simp add: fifo_read_def cb_read_def cb_peek_def)

section \<open>The FIFO contract\<close>

interpretation cq: bounded_fifo cq_wf cq_list cq_capacity fifo_write fifo_read
proof (unfold_locales, goal_cases)
  case (1 n q m)
  then show ?case by (rule cq_wf_mono)
next
  case (2 n q)
  then show ?case by (simp add: cq_size_le)
next
  case (3 xs n q)
  then show ?case using fifo_write_spec [of xs n q] by simp
next
  case (4 n q xs)
  then show ?case using fifo_write_overfull [of q xs] by simp
next
  case (5 n q m)
  then show ?case using fifo_read_spec [of n q m] by simp
next
  case (6 n q m)
  then show ?case using fifo_read_underrun [of q m] by simp
qed

lemma replicate_numeral [simp]: "replicate (numeral v) x = x # replicate (pred_numeral v) x"
  by (simp add: numeral_eq_Suc)

lemma copy_out_numeral [simp]: "copy_out q it (numeral v) =
     (if it_idx it < length (cq_data q)
      then bind_res (copy_out q (iter_inc q it) (pred_numeral v)) (\<lambda>xs. Inr (cq_data q ! it_idx it # xs))
      else Inl OutOfBounds)"
  by (simp add: numeral_eq_Suc)

lemma advance_tail_numeral [simp]:
  "advance_tail q (numeral v) = advance_tail (advance_tail1 q) (pred_numeral v)"
  by (simp add: numeral_eq_Suc)

lemma list_update_numeral [simp]: "(x # xs)[numeral v := y] = x # xs[pred_numeral v := y]"
  by (simp add: numeral_eq_Suc)

lemmas fifo_eval = CircularQueue_def fifo_write_def fifo_read_def cb_write_def cb_read_def cb_peek_def
  pop_front_def cq_begin_def cq_end_def cq_size_def iter_add_def iter_diff_def iter_inc_def
  iter_le_def iter_less_def moduloAdd_def cq_sub_def cq_increase_def advance_tail1_def
  u32_def u32_sub_def s32_def


text \<open>The run of the witness, operation by operation; the third one wraps around the ring.\<close>

abbreviation ring3 :: "nat list \<Rightarrow> nat \<Rightarrow> nat \<Rightarrow> nat \<Rightarrow> nat cqueue" where
  "ring3 d h t r \<equiv>
     \<lparr> cq_data = d, cq_capacity = 3, cq_head = h, cq_tail = t, cq_empty = False, cq_round = r \<rparr>"

lemma ring3_run:
  "fifo_write (CircularQueue 0 3) [10, 11] = Inr (ring3 [0, 10, 11] 1 2 0)"
  "fifo_read (ring3 [0, 10, 11] 1 2 0) 1 = Inr ([10], ring3 [0, 10, 11] 2 2 0)"
  "fifo_write (ring3 [0, 10, 11] 2 2 0) [12, 13] = Inr (ring3 [12, 13, 11] 2 1 1)"
  "fifo_read (ring3 [12, 13, 11] 2 1 1) 2 = Inr ([11, 12], ring3 [12, 13, 11] 1 1 1)"
  by (simp_all add: fifo_eval)


end
