(* ===== verification/Stream_Buffer.thy ===== *)
theory Stream_Buffer
  imports Packet Circular_Queue
begin

text \<open>
  The AXI-stream like FIFO device of \<open>src/hwacc/stream_buffer.cc\<close> and the stream ports of
  \<open>src/hwacc/stream_port.hh\<close>: a slave port that refuses a transfer its device cannot serve,
  throttles by bandwidth and remembers whom to retry, and the master-side check. The
  device behind a slave port is a contract, \<open>stream_device\<close>, which the stream buffer and
  the streaming DMA implement.
\<close>

section \<open>StreamBuffer\<close>

record stream_buffer =
  sb_buffer :: "byte cqueue"
  sb_fifoSize :: nat
  sb_endian :: byte_order
  sb_streamAddr :: addr
  sb_streamSize :: addr
  sb_streamDelay :: tick
  sb_bandwidth :: rat

definition StreamBuffer :: "nat \<Rightarrow> byte_order \<Rightarrow> addr \<Rightarrow> addr \<Rightarrow> tick \<Rightarrow> rat \<Rightarrow> stream_buffer" where
  "StreamBuffer sz endian a asz lat bw =
     \<lparr> sb_buffer = CircularQueue 0 sz, sb_fifoSize = sz, sb_endian = endian, sb_streamAddr = a,
       sb_streamSize = asz, sb_streamDelay = lat, sb_bandwidth = bw \<rparr>"

definition sb_size :: "stream_buffer \<Rightarrow> nat" where
  "sb_size s = cq_size (sb_buffer s)"

definition sb_flush :: "stream_buffer \<Rightarrow> stream_buffer" where
  "sb_flush s = s\<lparr> sb_buffer := cq_flush (sb_buffer s) \<rparr>"

definition canReadStream :: "stream_buffer \<Rightarrow> nat \<Rightarrow> bool" where
  "canReadStream s len \<longleftrightarrow> cq_size (sb_buffer s) \<ge> len"

definition canWriteStream :: "stream_buffer \<Rightarrow> nat \<Rightarrow> bool" where
  "canWriteStream s len \<longleftrightarrow> cq_size (sb_buffer s) + len \<le> sb_fifoSize s"

definition tryReadStream :: "stream_buffer \<Rightarrow> nat \<Rightarrow> (byte list \<times> stream_buffer) option result" where
  "tryReadStream s len =
     (if cq_size (sb_buffer s) \<ge> len
      then bind_res (fifo_read (sb_buffer s) len) (\<lambda>(xs, q). Inr (Some (xs, s\<lparr> sb_buffer := q \<rparr>)))
      else Inr None)"

definition tryWriteStream :: "stream_buffer \<Rightarrow> byte list \<Rightarrow> stream_buffer option result" where
  "tryWriteStream s src =
     (if cq_size (sb_buffer s) + length src \<le> sb_fifoSize s
      then bind_res (fifo_write (sb_buffer s) src) (\<lambda>q. Inr (Some (s\<lparr> sb_buffer := q \<rparr>)))
      else Inr None)"

definition readStream :: "stream_buffer \<Rightarrow> nat \<Rightarrow> (byte list \<times> stream_buffer) result" where
  "readStream s len =
     bind_res (tryReadStream s len)
       (\<lambda>r. case r of None \<Rightarrow> Inl (Panic ''Buffer underrun in StreamBuffer::readStream()'') | Some x \<Rightarrow> Inr x)"

definition writeStream :: "stream_buffer \<Rightarrow> byte list \<Rightarrow> stream_buffer result" where
  "writeStream s src =
     bind_res (tryWriteStream s src)
       (\<lambda>r. case r of None \<Rightarrow> Inl (Panic ''Buffer overrun in StreamBuffer::writeStream()'') | Some x \<Rightarrow> Inr x)"

definition sb_tvalid :: "stream_buffer \<Rightarrow> nat \<Rightarrow> bool \<Rightarrow> bool" where
  "sb_tvalid s len isRd = (if isRd then canReadStream s len else canWriteStream s len)"

definition sb_tvalid_pkt :: "stream_buffer \<Rightarrow> packet \<Rightarrow> bool" where
  "sb_tvalid_pkt s p = sb_tvalid s (pkt_size p) (pkt_isRead p)"

text \<open>\<open>Tick duration = pkt->getSize() * bandwidth\<close>: a product truncated to a tick count.\<close>

definition xfer_duration :: "nat \<Rightarrow> rat \<Rightarrow> tick" where
  "xfer_duration sz bw = nat \<lfloor>of_nat sz * bw\<rfloor>"

text \<open>
  \<open>streamRead\<close> loads a \<open>uint64_t\<close> from a buffer of \<open>getSize()\<close> bytes; for a shorter packet the
  bytes past the buffer never reach the packet, since only its low \<open>getSize()\<close> bytes are set.
\<close>

definition sb_streamRead :: "stream_buffer \<Rightarrow> packet \<Rightarrow> (tick \<times> packet \<times> stream_buffer) result" where
  "sb_streamRead s p =
     bind_res (readStream s (pkt_size p)) (\<lambda>(buff, s').
     bind_res (set_sized [1, 2, 4, 8] (le_val (take 8 buff)) (sb_endian s) p) (\<lambda>p'.
     bind_res (makeResponse p') (\<lambda>p''. Inr (xfer_duration (pkt_size p) (sb_bandwidth s), p'', s'))))"

definition sb_streamWrite :: "stream_buffer \<Rightarrow> packet \<Rightarrow> (tick \<times> packet \<times> stream_buffer) result" where
  "sb_streamWrite s p =
     bind_res (writeData p 0 (replicate (pkt_size p) 0)) (\<lambda>d.
     bind_res (writeStream s d) (\<lambda>s'.
     bind_res (makeResponse p) (\<lambda>p'. Inr (sb_streamDelay s, p', s'))))"

definition sb_getStreamAddrRanges :: "stream_buffer \<Rightarrow> addr_range_list result" where
  "sb_getStreamAddrRanges s =
     bind_res (assert_that (sb_streamSize s \<noteq> 0) ''streamSize != 0'')
       (\<lambda>_. Inr [RangeSize (sb_streamAddr s) (sb_streamSize s)])"

text \<open>Checkpointing: the bytes are written out oldest first and read back into a flushed FIFO.\<close>

definition fifo_arrayParamOut :: "byte cqueue \<Rightarrow> byte list result" where
  "fifo_arrayParamOut q = cb_peek q 0 (cq_size q)"

definition fifo_arrayParamIn :: "byte list \<Rightarrow> byte cqueue \<Rightarrow> byte cqueue result" where
  "fifo_arrayParamIn temp q =
     (if cq_capacity q < length temp then Inl (Fatal ''Trying to unserialize data into too small FIFO'')
      else fifo_write (cq_flush q) temp)"

definition sb_serialize :: "stream_buffer \<Rightarrow> byte list result" where
  "sb_serialize s = fifo_arrayParamOut (sb_buffer s)"

definition sb_unserialize :: "byte list \<Rightarrow> stream_buffer \<Rightarrow> stream_buffer result" where
  "sb_unserialize cp s =
     bind_res (fifo_arrayParamIn cp (sb_buffer s)) (\<lambda>q. Inr (s\<lparr> sb_buffer := q \<rparr>))"

section \<open>StreamSlavePort\<close>

record stream_port =
  sp_isBusy :: bool
  sp_retryReq :: bool
  sp_releaseEvent :: event
  sp_respQueue :: "(packet \<times> tick) list"
  sp_retriesSent :: nat

definition StreamSlavePort :: stream_port where
  "StreamSlavePort = \<lparr> sp_isBusy = False, sp_retryReq = False, sp_releaseEvent = None,
     sp_respQueue = [], sp_retriesSent = 0 \<rparr>"

definition sp_release :: "stream_port \<Rightarrow> stream_port result" where
  "sp_release sp =
     bind_res (assert_that (sp_isBusy sp) ''isBusy'')
       (\<lambda>_. let sp' = sp\<lparr> sp_isBusy := False, sp_releaseEvent := None \<rparr>
            in Inr (if sp_retryReq sp'
                    then sp'\<lparr> sp_retryReq := False, sp_retriesSent := sp_retriesSent sp' + 1 \<rparr>
                    else sp'))"

text \<open>
  The device behind the port is given by its two accesses, \<open>srd\<close> and \<open>swr\<close>, and its validity
  check \<open>tv\<close>: the template argument \<open>Device\<close> of \<open>StreamSlavePortT\<close>.
\<close>

definition sp_recvAtomic ::
  "('d \<Rightarrow> packet \<Rightarrow> (tick \<times> packet \<times> 'd) result) \<Rightarrow> ('d \<Rightarrow> packet \<Rightarrow> (tick \<times> packet \<times> 'd) result) \<Rightarrow>
   'd \<Rightarrow> packet \<Rightarrow> (tick \<times> packet \<times> 'd) result" where
  "sp_recvAtomic srd swr dev p =
     (let receive_delay = pkt_headerDelay p + pkt_payloadDelay p;
          p0 = p\<lparr> pkt_headerDelay := 0, pkt_payloadDelay := 0 \<rparr>
      in bind_res (if pkt_isRead p0 then srd dev p0 else swr dev p0) (\<lambda>(delay, p', dev').
         bind_res (assert_that (pkt_isResponse p' \<or> testCmdAttrib (pkt_cmd p') IsError)
                     ''pkt->isResponse() || pkt->isError()'')
           (\<lambda>_. Inr (delay + receive_delay, p', dev'))))"

definition sp_recvTimingReq ::
  "('d \<Rightarrow> packet \<Rightarrow> bool) \<Rightarrow> ('d \<Rightarrow> packet \<Rightarrow> (tick \<times> packet \<times> 'd) result) \<Rightarrow>
   ('d \<Rightarrow> packet \<Rightarrow> (tick \<times> packet \<times> 'd) result) \<Rightarrow> ('d \<Rightarrow> rat) \<Rightarrow>
   tick \<Rightarrow> stream_port \<Rightarrow> 'd \<Rightarrow> packet \<Rightarrow> (bool \<times> stream_port \<times> 'd) result" where
  "sp_recvTimingReq tv srd swr bw now sp dev p =
     (if sp_retryReq sp then Inr (False, sp, dev)
      else if sp_isBusy sp then Inr (False, sp\<lparr> sp_retryReq := True \<rparr>, dev)
      else if \<not> tv dev p then Inr (False, sp, dev)
      else if pkt_cacheResponding p
        then Inl (Panic ''SimpleTimingPort should never see packets with the cacheResponding flag set'')
      else let duration = xfer_duration (pkt_size p) (bw dev)
           in bind_res (if duration \<noteq> 0
                        then bind_res (ev_schedule now (sp_releaseEvent sp) (now + duration))
                               (\<lambda>ev. Inr (sp\<lparr> sp_releaseEvent := ev, sp_isBusy := True \<rparr>))
                        else Inr sp) (\<lambda>sp1.
              bind_res (sp_recvAtomic srd swr dev p) (\<lambda>(latency, p', dev').
                if pkt_needsResponse p
                then bind_res (assert_that (pkt_isResponse p') ''pkt->isResponse()'')
                       (\<lambda>_. Inr (True, sp1\<lparr> sp_respQueue := sp_respQueue sp1 @ [(p', now + latency)] \<rparr>, dev'))
                else Inr (True, sp1, dev'))))"

text \<open>The stream buffer's own ports.\<close>

definition sb_recvTimingReq :: "tick \<Rightarrow> stream_port \<Rightarrow> stream_buffer \<Rightarrow> packet \<Rightarrow>
    (bool \<times> stream_port \<times> stream_buffer) result" where
  "sb_recvTimingReq = sp_recvTimingReq sb_tvalid_pkt sb_streamRead sb_streamWrite sb_bandwidth"

text \<open>
  The master side: \<open>streamValid\<close> asks the bound stream slave, and answers yes when the peer is
  not a stream slave.
\<close>

definition streamValid :: "('d \<Rightarrow> nat \<Rightarrow> bool \<Rightarrow> bool) \<Rightarrow> 'd option \<Rightarrow> nat \<Rightarrow> bool \<Rightarrow> bool" where
  "streamValid tv slave len isRd = (case slave of Some d \<Rightarrow> tv d len isRd | None \<Rightarrow> True)"

section \<open>The stream buffer is a bounded FIFO\<close>

definition sb_wf :: "nat \<Rightarrow> stream_buffer \<Rightarrow> bool" where
  "sb_wf n s \<longleftrightarrow> cq_wf n (sb_buffer s) \<and> sb_fifoSize s = cq_capacity (sb_buffer s)"

definition sb_list :: "stream_buffer \<Rightarrow> byte list" where
  "sb_list s = cq_list (sb_buffer s)"

lemma sb_wf_new: "2 \<le> sz \<Longrightarrow> sz < 2 ^ 31 \<Longrightarrow> n + 1 < 2 ^ 32 \<Longrightarrow> sb_wf n (StreamBuffer sz e a asz lat bw)"
  by (simp add: sb_wf_def StreamBuffer_def cq_wf_new) (simp add: CircularQueue_def)

interpretation sb: bounded_fifo sb_wf sb_list sb_fifoSize writeStream readStream
proof (unfold_locales, goal_cases)
  case (1 n q m)
  then show ?case by (auto simp: sb_wf_def intro: cq_wf_mono)
next
  case (2 n q)
  then show ?case by (auto simp: sb_wf_def sb_list_def intro: cq_size_le)
next
  case (3 xs n q)
  then show ?case using cq.wr_ok [of xs n "sb_buffer q"]
    by (auto simp: sb_wf_def sb_list_def writeStream_def tryWriteStream_def)
next
  case (4 n q xs)
  then show ?case by (auto simp: sb_wf_def sb_list_def writeStream_def tryWriteStream_def)
next
  case (5 n q m)
  then show ?case using cq.rd_ok [of n "sb_buffer q" m]
    by (auto simp: sb_wf_def sb_list_def readStream_def tryReadStream_def)
next
  case (6 n q m)
  then show ?case by (auto simp: sb_wf_def sb_list_def readStream_def tryReadStream_def)
qed

text \<open>
  C27. A stream buffer never loses, duplicates or reorders bytes: whatever sequence of stream
  writes and reads succeeds on a fresh buffer, the bytes read, followed by the bytes still
  buffered, are the bytes written.
\<close>

theorem stream_buffer_in_order:
  assumes "2 \<le> sz" and "sz < 2 ^ 31" and "length (fifo_written ops) + 1 < 2 ^ 32"
    and "fifo_run writeStream readStream (StreamBuffer sz e a asz lat bw) ops = Inr (out, s')"
  shows "out @ sb_list s' = fifo_written ops"
proof -
  have "sb_wf (length (fifo_written ops) + 0) (StreamBuffer sz e a asz lat bw)"
    using assms(1-3) by (simp add: sb_wf_new)
  from sb.run_conserves [OF this assms(4)] show ?thesis
    by (simp add: sb_list_def StreamBuffer_def)
qed

theorem stream_buffer_in_order_witness:
  "\<exists>out s'. fifo_run writeStream readStream (StreamBuffer 4 LittleEndianByteOrder 0 64 5 1)
       [Put [1, 2], Get 1] = Inr (out, s') \<and> out @ sb_list s' = fifo_written [Put [1, 2], Get 1]"
proof -
  let ?s = "StreamBuffer 4 LittleEndianByteOrder 0 64 5 1"
  have w: "sb_wf (length [1, 2 :: byte] + 0) ?s" by (rule sb_wf_new) simp_all
  obtain s1 where s1: "writeStream ?s [1, 2] = Inr s1" "sb_wf 0 s1" "sb_list s1 = sb_list ?s @ [1, 2]"
    using sb.wr_ok [OF w] by (auto simp: sb_list_def StreamBuffer_def)
  obtain s2 where s2: "readStream s1 1 = Inr (take 1 (sb_list s1), s2)"
    using sb.rd_ok [OF s1(2), of 1] s1(3) by auto
  have run: "fifo_run writeStream readStream ?s [Put [1, 2], Get 1] = Inr (take 1 (sb_list s1), s2)"
    using s1(1) s2 by simp
  then show ?thesis using stream_buffer_in_order [OF _ _ _ run] by auto
qed

text \<open>
  C38. Checkpointing a stream buffer is a round trip: restoring a checkpoint into any buffer
  whose capacity suffices gives the buffered bytes back in order; into a smaller one it is
  refused with the fatal error, never truncated.
\<close>

theorem stream_buffer_checkpoint:
  assumes s: "sb_wf n s" and t: "sb_wf m t"
  shows "\<exists>cp. sb_serialize s = Inr cp \<and>
    (if length (sb_list s) \<le> cq_capacity (sb_buffer t)
     then \<exists>t'. sb_unserialize cp t = Inr t' \<and> sb_list t' = sb_list s \<and> sb_wf 0 t'
     else sb_unserialize cp t = Inl (Fatal ''Trying to unserialize data into too small FIFO''))"
proof -
  have ser: "sb_serialize s = Inr (sb_list s)"
    using s cb_peek_spec [of n "sb_buffer s" 0 "cq_size (sb_buffer s)"]
    by (simp add: sb_serialize_def fifo_arrayParamOut_def sb_wf_def sb_list_def)
  have cap: "length (sb_list s) + 1 < 2 ^ 32"
    using s cq_size_le [of n "sb_buffer s"] by (auto simp: sb_wf_def sb_list_def cq_wf_def)
  have fl: "cq_wf (length (sb_list s) + 0) (cq_flush (sb_buffer t))" "cq_list (cq_flush (sb_buffer t)) = []"
    using cq_flush_props [of m "sb_buffer t" "length (sb_list s)"] t cap by (auto simp: sb_wf_def)
  have c: "cq_capacity (cq_flush (sb_buffer t)) = cq_capacity (sb_buffer t)" by (simp add: cq_flush_def)
  show ?thesis
  proof (cases "length (sb_list s) \<le> cq_capacity (sb_buffer t)")
    case True
    then obtain q where "fifo_write (cq_flush (sb_buffer t)) (sb_list s) = Inr q" "cq_wf 0 q"
      "cq_list q = sb_list s" "cq_capacity q = cq_capacity (sb_buffer t)"
      using cq.wr_ok [OF fl(1)] fl(2) c by auto
    with True ser t show ?thesis
      by (simp add: sb_unserialize_def fifo_arrayParamIn_def) (simp add: sb_list_def sb_wf_def)
  qed (simp add: ser sb_unserialize_def fifo_arrayParamIn_def)
qed

theorem stream_buffer_checkpoint_witness:
  "\<exists>cp. sb_serialize (StreamBuffer 4 LittleEndianByteOrder 0 64 5 1) = Inr cp \<and>
    (if length (sb_list (StreamBuffer 4 LittleEndianByteOrder 0 64 5 1))
          \<le> cq_capacity (sb_buffer (StreamBuffer 8 LittleEndianByteOrder 0 64 5 1))
     then \<exists>t'. sb_unserialize cp (StreamBuffer 8 LittleEndianByteOrder 0 64 5 1) = Inr t'
            \<and> sb_list t' = sb_list (StreamBuffer 4 LittleEndianByteOrder 0 64 5 1) \<and> sb_wf 0 t'
     else sb_unserialize cp (StreamBuffer 8 LittleEndianByteOrder 0 64 5 1)
            = Inl (Fatal ''Trying to unserialize data into too small FIFO''))"
  by (rule stream_buffer_checkpoint [of 0 _ 0]; rule sb_wf_new; simp)

section \<open>Stream ports over any stream device\<close>

definition sp_inv :: "stream_port \<Rightarrow> bool" where
  "sp_inv sp \<longleftrightarrow> (sp_retryReq sp \<longrightarrow> sp_isBusy sp) \<and> (sp_isBusy sp \<longleftrightarrow> sp_releaseEvent sp \<noteq> None)"

text \<open>The packets the accelerators put on a stream: unmasked word-sized reads and any writes.\<close>

definition stream_pkt :: "packet \<Rightarrow> bool" where
  "stream_pkt p \<longleftrightarrow> pkt_wf p \<and> \<not> pkt_cacheResponding p \<and> pkt_byteEnable p = [] \<and>
     (pkt_cmd p = WriteReq \<or> (pkt_cmd p = ReadReq \<and> pkt_size p \<in> {1, 2, 4, 8}))"

lemma stream_pkt_facts:
  assumes "stream_pkt p"
  shows "pkt_needsResponse p" "pkt_isRead p \<longleftrightarrow> pkt_cmd p = ReadReq" "\<not> isMaskedWrite p"
    "pkt_wf p" "\<not> pkt_cacheResponding p"
  using assms
  by (auto simp: stream_pkt_def pkt_needsResponse_def pkt_isRead_def testCmdAttrib_def isMaskedWrite_def)

locale stream_device =
  fixes dinv :: "nat \<Rightarrow> 'd \<Rightarrow> bool"
    and tv :: "'d \<Rightarrow> packet \<Rightarrow> bool"
    and srd :: "'d \<Rightarrow> packet \<Rightarrow> (tick \<times> packet \<times> 'd) result"
    and swr :: "'d \<Rightarrow> packet \<Rightarrow> (tick \<times> packet \<times> 'd) result"
    and bw :: "'d \<Rightarrow> rat"
  assumes dinv_mono: "dinv n d \<Longrightarrow> m \<le> n \<Longrightarrow> dinv m d"
    and tv_delay: "tv d (p\<lparr>pkt_headerDelay := 0, pkt_payloadDelay := 0\<rparr>) = tv d p"
    and srd_ok: "dinv n d \<Longrightarrow> stream_pkt p \<Longrightarrow> pkt_cmd p = ReadReq \<Longrightarrow> tv d p \<Longrightarrow>
      \<exists>t p' d'. srd d p = Inr (t, p', d') \<and> pkt_isResponse p' \<and> dinv n d'"
    and swr_ok: "dinv (pkt_size p + n) d \<Longrightarrow> stream_pkt p \<Longrightarrow> pkt_cmd p = WriteReq \<Longrightarrow> tv d p \<Longrightarrow>
      \<exists>t p' d'. swr d p = Inr (t, p', d') \<and> pkt_isResponse p' \<and> dinv n d'"
begin

lemma recvAtomic_ok:
  assumes "dinv (pkt_size p + n) d" and p: "stream_pkt p" and "tv d p"
  shows "\<exists>t p' d'. sp_recvAtomic srd swr d p = Inr (t, p', d') \<and> pkt_isResponse p' \<and> dinv n d'"
proof -
  let ?p = "p\<lparr>pkt_headerDelay := 0, pkt_payloadDelay := 0\<rparr>"
  have q: "stream_pkt ?p" "pkt_cmd ?p = pkt_cmd p" "pkt_size ?p = pkt_size p" "tv d ?p"
    using p assms(3) by (simp_all add: stream_pkt_def pkt_wf_def tv_delay)
  have dn: "dinv n d" using assms(1) by (rule dinv_mono) simp
  have "\<exists>t p' d'. (if pkt_isRead ?p then srd d ?p else swr d ?p) = Inr (t, p', d')
      \<and> pkt_isResponse p' \<and> dinv n d'"
    using srd_ok [OF dn q(1)] swr_ok [of ?p n d, OF _ q(1)] q assms(1) p
      stream_pkt_facts(2) [OF q(1)] by (auto simp: stream_pkt_def)
  then show ?thesis by (auto simp: sp_recvAtomic_def Let_def)
qed

lemma recvTimingReq_ok:
  assumes sp: "sp_inv sp" and d: "dinv (pkt_size p + n) d" and p: "stream_pkt p"
  shows "\<exists>b sp' d'. sp_recvTimingReq tv srd swr bw now sp d p = Inr (b, sp', d')
    \<and> sp_inv sp' \<and> dinv n d' \<and> (b \<longleftrightarrow> \<not> sp_isBusy sp \<and> tv d p)"
proof (cases "sp_isBusy sp \<or> \<not> tv d p")
  case True
  have "dinv n d" using d by (rule dinv_mono) simp
  with True sp show ?thesis by (auto simp: sp_recvTimingReq_def sp_inv_def)
next
  case False
  then have idle: "\<not> sp_isBusy sp" "tv d p" "\<not> sp_retryReq sp" "sp_releaseEvent sp = None"
    using sp by (auto simp: sp_inv_def)
  from recvAtomic_ok [OF d p idle(2)] obtain t p' d' where
    "sp_recvAtomic srd swr d p = Inr (t, p', d')" "pkt_isResponse p'" "dinv n d'" by blast
  with idle stream_pkt_facts [OF p] show ?thesis
    by (auto simp: sp_recvTimingReq_def Let_def ev_schedule_def sp_inv_def)
qed

end

lemma sp_release_inv: "sp_inv sp \<Longrightarrow> sp_isBusy sp \<Longrightarrow> \<exists>sp'. sp_release sp = Inr sp' \<and> sp_inv sp'"
  by (auto simp: sp_release_def sp_inv_def Let_def)

lemma sb_streamRead_spec:
  assumes s: "sb_wf n s" and p: "stream_pkt p" "pkt_cmd p = ReadReq" and v: "sb_tvalid_pkt s p"
  shows "\<exists>t p' s'. sb_streamRead s p = Inr (t, p', s') \<and> pkt_isResponse p' \<and> sb_wf n s'
    \<and> sb_list s' = drop (pkt_size p) (sb_list s)
    \<and> (sb_endian s = LittleEndianByteOrder \<longrightarrow> pkt_data p' = take (pkt_size p) (sb_list s))"
proof -
  let ?n = "pkt_size p" and ?xs = "take (pkt_size p) (sb_list s)"
  have len: "?n \<le> length (sb_list s)" "?n \<in> {1, 2, 4, 8}"
    using p v stream_pkt_facts(2) [OF p(1)]
    by (auto simp: sb_tvalid_pkt_def sb_tvalid_def canReadStream_def sb_list_def stream_pkt_def)
  obtain s' where s': "readStream s ?n = Inr (?xs, s')" "sb_wf n s'" "sb_list s' = drop ?n (sb_list s)"
    using sb.rd_ok [OF s len(1)] by auto
  have x8: "take 8 ?xs = ?xs" using len by auto
  have le: "le_bytes ?n (le_val ?xs) = ?xs" using le_bytes_le_val [of ?xs] len(1) by simp
  define p1 where "p1 = pkt_set ?n (le_val ?xs) (sb_endian s) p"
  have st: "set_sized [1, 2, 4, 8] (le_val (take 8 ?xs)) (sb_endian s) p = Inr p1"
    using len x8 by (auto simp: set_sized_def p1_def)
  have "pkt_needsResponse p1" using stream_pkt_facts(1) [OF p(1)]
    by (simp add: p1_def pkt_set_def pkt_needsResponse_def)
  from makeResponse_ok [OF this] have mr:
    "makeResponse p1 = Inr (p1\<lparr>pkt_cmd := responseCommand (pkt_cmd p1)\<rparr>)"
    "pkt_isResponse (p1\<lparr>pkt_cmd := responseCommand (pkt_cmd p1)\<rparr>)" by blast+
  have "sb_endian s = LittleEndianByteOrder \<Longrightarrow> pkt_data p1 = ?xs"
    using le by (simp add: p1_def pkt_set_def)
  with s' st mr show ?thesis by (simp add: sb_streamRead_def)
qed

lemma sb_streamWrite_spec:
  assumes s: "sb_wf (pkt_size p + n) s" and p: "stream_pkt p" "pkt_cmd p = WriteReq" and v: "sb_tvalid_pkt s p"
  shows "\<exists>t p' s'. sb_streamWrite s p = Inr (t, p', s') \<and> pkt_isResponse p' \<and> sb_wf n s'
    \<and> sb_list s' = sb_list s @ pkt_data p \<and> sb_endian s' = sb_endian s"
proof -
  have wd: "writeData p 0 (replicate (pkt_size p) 0) = Inr (pkt_data p)"
    using writeData_unmasked [OF stream_pkt_facts(3,4) [OF p(1)], of 0] by simp
  have l: "length (pkt_data p) = pkt_size p" using stream_pkt_facts(4) [OF p(1)] by (simp add: pkt_wf_def)
  have room: "length (sb_list s) + length (pkt_data p) \<le> sb_fifoSize s"
    using v p stream_pkt_facts(2) [OF p(1)] l
    by (auto simp: sb_tvalid_pkt_def sb_tvalid_def canWriteStream_def sb_list_def)
  obtain s' where s': "writeStream s (pkt_data p) = Inr s'" "sb_wf n s'" "sb_list s' = sb_list s @ pkt_data p"
    using sb.wr_ok [OF _ room] s l by auto
  have "sb_endian s' = sb_endian s" using s'(1)
    by (auto simp: writeStream_def tryWriteStream_def bind_res_eq_Inr_iff split: if_splits option.splits)
  with wd s' makeResponse_ok [OF stream_pkt_facts(1) [OF p(1)]] show ?thesis
    by (simp add: sb_streamWrite_def)
qed

interpretation sb_dev: stream_device sb_wf sb_tvalid_pkt sb_streamRead sb_streamWrite sb_bandwidth
proof (unfold_locales, goal_cases)
  case (1 n d m)
  then show ?case by (rule sb.wf_mono)
next
  case (2 d p)
  then show ?case by (simp add: sb_tvalid_pkt_def pkt_isRead_def)
next
  case (3 n d p)
  then show ?case using sb_streamRead_spec [of n d p] by blast
next
  case (4 p n d)
  then show ?case using sb_streamWrite_spec [of p n d] by blast
qed

text \<open>
  The stream port's flow control is safe over the stream buffer: for every stream packet a
  timing request is answered without a panic, assertion or out-of-bounds access, the port's
  busy, retry and release-event flags stay consistent, and the request is accepted exactly
  when the port is idle and the buffer can serve the transfer.
\<close>

theorem stream_port_flow_control:
  assumes "sp_inv sp" and "sb_wf (pkt_size p + n) s" and "stream_pkt p"
  shows "\<exists>b sp' s'. sb_recvTimingReq now sp s p = Inr (b, sp', s') \<and> sp_inv sp' \<and> sb_wf n s'
    \<and> (b \<longleftrightarrow> \<not> sp_isBusy sp \<and> sb_tvalid s (pkt_size p) (pkt_isRead p))"
  using sb_dev.recvTimingReq_ok [OF assms]
  by (simp add: sb_recvTimingReq_def sb_tvalid_pkt_def)

abbreviation demo_pkt :: "mem_cmd \<Rightarrow> byte list \<Rightarrow> packet" where
  "demo_pkt c d \<equiv> \<lparr> pkt_id = 0, pkt_cmd = c, pkt_addr = 0, pkt_size = length d, pkt_data = d,
     pkt_byteEnable = [], pkt_headerDelay = 0, pkt_payloadDelay = 0, pkt_cacheResponding = False,
     pkt_secure = False, pkt_atomicOp = None, pkt_condSwap = False,
     pkt_extraData = None, pkt_contextId = None, pkt_instFetch = False \<rparr>"

theorem stream_port_flow_control_witness:
  "\<exists>b sp' s'. sb_recvTimingReq 0 StreamSlavePort (StreamBuffer 4 LittleEndianByteOrder 0 64 5 1)
      (demo_pkt WriteReq [7, 8]) = Inr (b, sp', s') \<and> sp_inv sp' \<and> sb_wf 0 s'
    \<and> (b \<longleftrightarrow> \<not> sp_isBusy StreamSlavePort
         \<and> sb_tvalid (StreamBuffer 4 LittleEndianByteOrder 0 64 5 1)
              (pkt_size (demo_pkt WriteReq [7, 8])) (pkt_isRead (demo_pkt WriteReq [7, 8])))"
proof (rule stream_port_flow_control)
  show "sp_inv StreamSlavePort" by (simp add: sp_inv_def StreamSlavePort_def)
  show "sb_wf (pkt_size (demo_pkt WriteReq [7, 8]) + 0) (StreamBuffer 4 LittleEndianByteOrder 0 64 5 1)"
    by (rule sb_wf_new) simp_all
  show "stream_pkt (demo_pkt WriteReq [7, 8])" by (simp add: stream_pkt_def pkt_wf_def)
qed

text \<open>
  A request the device cannot serve yet is refused without being remembered: the port is
  left idle with no retry owed and no release event pending, so nothing in the port will ever
  tell the sender to try again (contrast the busy case, which records the retry).
\<close>

theorem stream_port_invalid_refused_silently:
  assumes "sp_inv sp" and "\<not> sp_isBusy sp" and "\<not> sb_tvalid s (pkt_size p) (pkt_isRead p)"
  shows "sb_recvTimingReq now sp s p = Inr (False, sp, s)
    \<and> \<not> sp_retryReq sp \<and> sp_releaseEvent sp = None
    \<and> sb_recvTimingReq now (sp\<lparr>sp_isBusy := True\<rparr>) s p
        = Inr (False, sp\<lparr>sp_isBusy := True, sp_retryReq := True\<rparr>, s)"
  using assms by (auto simp: sb_recvTimingReq_def sp_recvTimingReq_def sp_inv_def sb_tvalid_pkt_def)

theorem stream_port_invalid_refused_silently_witness:
  "sb_recvTimingReq 0 StreamSlavePort (StreamBuffer 4 LittleEndianByteOrder 0 64 5 1)
       (demo_pkt ReadReq [0]) = Inr (False, StreamSlavePort, StreamBuffer 4 LittleEndianByteOrder 0 64 5 1)
    \<and> \<not> sp_retryReq StreamSlavePort \<and> sp_releaseEvent StreamSlavePort = None
    \<and> sb_recvTimingReq 0 (StreamSlavePort\<lparr>sp_isBusy := True\<rparr>) (StreamBuffer 4 LittleEndianByteOrder 0 64 5 1)
         (demo_pkt ReadReq [0])
        = Inr (False, StreamSlavePort\<lparr>sp_isBusy := True, sp_retryReq := True\<rparr>,
               StreamBuffer 4 LittleEndianByteOrder 0 64 5 1)"
  by (rule stream_port_invalid_refused_silently)
    (simp_all add: sp_inv_def StreamSlavePort_def sb_tvalid_def canReadStream_def StreamBuffer_def
      CircularQueue_def cq_size_def pkt_isRead_def testCmdAttrib_def)

text \<open>
  A word written to an empty stream buffer through one port comes back unchanged through
  the other, for the word sizes a read supports and a little-endian guest.
\<close>

theorem stream_word_roundtrip:
  assumes "sb_wf (pkt_size w + n) s" and "sb_list s = []" and "sb_endian s = LittleEndianByteOrder"
    and "stream_pkt w" and "pkt_cmd w = WriteReq" and "sb_tvalid s (pkt_size w) False"
    and "stream_pkt r" and "pkt_cmd r = ReadReq" and "pkt_size r = pkt_size w"
  shows "\<exists>t w' s1 u r' s2. sb_streamWrite s w = Inr (t, w', s1) \<and> sb_streamRead s1 r = Inr (u, r', s2)
    \<and> pkt_data r' = pkt_data w \<and> sb_list s2 = []"
proof -
  have v: "sb_tvalid_pkt s w"
    using assms(5,6) stream_pkt_facts(2) [OF assms(4)] by (simp add: sb_tvalid_pkt_def)
  obtain t w' s1 where s1: "sb_streamWrite s w = Inr (t, w', s1)" "sb_wf n s1"
    "sb_list s1 = pkt_data w" "sb_endian s1 = LittleEndianByteOrder"
    using sb_streamWrite_spec [OF assms(1,4,5) v] assms(2,3) by auto
  have l: "length (pkt_data w) = pkt_size w" using stream_pkt_facts(4) [OF assms(4)] by (simp add: pkt_wf_def)
  then have "sb_tvalid_pkt s1 r"
    using assms(8,9) stream_pkt_facts(2) [OF assms(7)] s1(3)
    by (simp add: sb_tvalid_pkt_def sb_tvalid_def canReadStream_def sb_list_def) (metis length_cq_list order_refl)
  from sb_streamRead_spec [OF s1(2) assms(7,8) this] s1 l assms(9) show ?thesis by auto
qed

theorem stream_word_roundtrip_witness:
  "\<exists>t w' s1 u r' s2. sb_streamWrite (StreamBuffer 4 LittleEndianByteOrder 0 64 5 1) (demo_pkt WriteReq [7, 8])
      = Inr (t, w', s1) \<and> sb_streamRead s1 (demo_pkt ReadReq [0, 0]) = Inr (u, r', s2)
    \<and> pkt_data r' = pkt_data (demo_pkt WriteReq [7, 8]) \<and> sb_list s2 = []"
proof (rule stream_word_roundtrip)
  show "sb_wf (pkt_size (demo_pkt WriteReq [7, 8]) + 0) (StreamBuffer 4 LittleEndianByteOrder 0 64 5 1)"
    by (rule sb_wf_new) simp_all
qed (simp_all add: sb_list_def StreamBuffer_def stream_pkt_def pkt_wf_def sb_tvalid_def canWriteStream_def
      cq_size_def CircularQueue_def cq_list_def)

end
