(* ===== verification/Dma_Fifo.thy ===== *)
theory Dma_Fifo
  imports Packet Circular_Queue
begin

text \<open>
  The DMA engines behind every transfer: \<open>DmaReadFifo\<close> of \<open>src/dev/dma_device.cc\<close>, which
  prefetches a memory block into a FIFO, and \<open>DmaWriteFifo\<close> of \<open>src/hwacc/dma_write_fifo.cc\<close>,
  which drains a FIFO into a memory block. Both keep a pool of request events; requests may
  be answered in any order, and the FIFOs restore the order. The two classes have the same
  fields, so one record holds either. The calls of \<open>port.dmaAction\<close> are recorded in order in
  \<open>df_actions\<close>; executing them is the business of \<open>Dma_Port\<close>, and a call has no effect on the
  FIFO that makes it before its completion event runs.
\<close>

section \<open>Requests\<close>

datatype drain_state = Running | Draining | Drained | Resuming

record dma_event =
  de_id :: nat
  de_done :: bool
  de_canceled :: bool
  de_requestSize :: nat
  de_data :: "byte list"

record dma_act =
  da_cmd :: mem_cmd
  da_addr :: addr
  da_size :: nat
  da_event :: nat
  da_data :: "byte list"

record dma_fifo =
  df_maxReqSize :: nat
  df_fifoSize :: nat
  df_buffer :: "byte cqueue"
  df_nextAddr :: addr
  df_endAddr :: addr
  df_pending :: "dma_event list"
  df_free :: "dma_event list"
  df_drainState :: drain_state
  df_bypassCaches :: bool
  df_cacheLineSize :: nat
  df_actions :: "dma_act list"
  df_endOfBlockCalls :: nat
  df_idleCalls :: nat

definition DmaDoneEvent :: "nat \<Rightarrow> nat \<Rightarrow> dma_event" where
  "DmaDoneEvent max_size i = \<lparr> de_id = i, de_done = False, de_canceled = False, de_requestSize = 0,
     de_data = replicate max_size 0 \<rparr>"

definition de_cancel :: "dma_event \<Rightarrow> dma_event" where
  "de_cancel e = e\<lparr> de_canceled := True \<rparr>"

definition de_reset :: "nat \<Rightarrow> dma_event \<Rightarrow> dma_event result" where
  "de_reset sz e =
     bind_res (assert_that (sz \<le> length (de_data e)) ''size <= _data.size()'')
       (\<lambda>_. Inr (e\<lparr> de_done := False, de_canceled := False, de_requestSize := sz \<rparr>))"

definition dma_fifo_new :: "nat \<Rightarrow> nat \<Rightarrow> nat \<Rightarrow> bool \<Rightarrow> nat \<Rightarrow> dma_fifo" where
  "dma_fifo_new sz max_req_size max_pending bypass cls =
     \<lparr> df_maxReqSize = max_req_size, df_fifoSize = sz, df_buffer = CircularQueue 0 sz,
       df_nextAddr = 0, df_endAddr = 0, df_pending = [],
       df_free = map (DmaDoneEvent max_req_size) [0..<max_pending], df_drainState = Running,
       df_bypassCaches = bypass, df_cacheLineSize = cls, df_actions = [], df_endOfBlockCalls = 0,
       df_idleCalls = 0 \<rparr>"

definition atEndOfBlock :: "dma_fifo \<Rightarrow> bool" where
  "atEndOfBlock f \<longleftrightarrow> df_nextAddr f = df_endAddr f"

definition isActive :: "dma_fifo \<Rightarrow> bool" where
  "isActive f \<longleftrightarrow> \<not> (df_pending f = [] \<and> atEndOfBlock f)"

definition df_size :: "dma_fifo \<Rightarrow> nat" where
  "df_size f = cq_size (df_buffer f)"

definition df_flush :: "dma_fifo \<Rightarrow> dma_fifo" where
  "df_flush f = f\<lparr> df_buffer := cq_flush (df_buffer f) \<rparr>"

definition signalDrainDone :: "dma_fifo \<Rightarrow> dma_fifo" where
  "signalDrainDone f = (if df_drainState f = Draining then f\<lparr> df_drainState := Drained \<rparr> else f)"

definition df_drain :: "dma_fifo \<Rightarrow> dma_fifo" where
  "df_drain f = f\<lparr> df_drainState := (if df_pending f = [] then Drained else Draining) \<rparr>"

definition size_pending :: "dma_fifo \<Rightarrow> nat" where
  "size_pending f = sum_list (map de_requestSize (df_pending f))"

text \<open>The size of the next request: \<open>std::min(maxReqSize, endAddr - nextAddr)\<close>.\<close>

definition next_req_size :: "dma_fifo \<Rightarrow> nat" where
  "next_req_size f = min (df_maxReqSize f) (unat (df_endAddr f - df_nextAddr f))"

text \<open>\<open>onEndOfBlock\<close> is called once, when the last request of a block has just been sent.\<close>

definition end_of_block_call :: "bool \<Rightarrow> dma_fifo \<Rightarrow> dma_fifo" where
  "end_of_block_call old_eob f =
     (if \<not> old_eob \<and> atEndOfBlock f then f\<lparr> df_endOfBlockCalls := df_endOfBlockCalls f + 1 \<rparr> else f)"

section \<open>DmaReadFifo\<close>

text \<open>
  The loop of \<open>resumeFillTiming\<close>, with the free requests and \<open>size_pending\<close> as its variables;
  every round pops the first free request.
\<close>

fun fill_loop :: "nat \<Rightarrow> dma_event list \<Rightarrow> dma_fifo \<Rightarrow> dma_fifo result" where
  "fill_loop sp [] f = Inr f"
| "fill_loop sp (e # es) f =
     (if atEndOfBlock f then Inr f
      else let req = next_req_size f
           in if cq_size (df_buffer f) + sp + req > df_fifoSize f then Inr f
              else bind_res (de_reset req e) (\<lambda>e'.
                fill_loop (sp + req) es
                  (f\<lparr> df_free := es,
                      df_actions := df_actions f @
                        [\<lparr> da_cmd = ReadReq, da_addr = df_nextAddr f, da_size = req, da_event = de_id e', da_data = de_data e' \<rparr>],
                      df_nextAddr := df_nextAddr f + of_nat req,
                      df_pending := df_pending f @ [e'] \<rparr>)))"

definition resumeFillTiming :: "dma_fifo \<Rightarrow> dma_fifo result" where
  "resumeFillTiming f = fill_loop (size_pending f) (df_free f) f"

text \<open>The bypass path copies directly: \<open>readBlob\<close> is the memory the proxy reads.\<close>

definition resumeFillFunctional :: "(addr \<Rightarrow> nat \<Rightarrow> byte list) \<Rightarrow> dma_fifo \<Rightarrow> dma_fifo result" where
  "resumeFillFunctional readBlob f =
     (let fifo_space = cq_capacity (df_buffer f) - cq_size (df_buffer f);
          kvm_watermark = df_cacheLineSize f
      in if fifo_space \<ge> kvm_watermark \<or> cq_capacity (df_buffer f) < kvm_watermark
         then let block_remaining = unat (df_endAddr f - df_nextAddr f);
                  xfer_size = min fifo_space block_remaining
              in bind_res (assert_that (df_pending f = []) ''pendingRequests.empty()'') (\<lambda>_.
                 bind_res (fifo_write (df_buffer f) (readBlob (df_nextAddr f) xfer_size)) (\<lambda>q.
                   Inr (f\<lparr> df_buffer := q, df_nextAddr := df_nextAddr f + of_nat xfer_size \<rparr>)))
         else Inr f)"

definition resumeFill :: "(addr \<Rightarrow> nat \<Rightarrow> byte list) \<Rightarrow> dma_fifo \<Rightarrow> dma_fifo result" where
  "resumeFill readBlob f =
     (if df_drainState f = Draining then Inr f
      else bind_res (if df_bypassCaches f then resumeFillFunctional readBlob f else resumeFillTiming f)
             (\<lambda>f'. Inr (end_of_block_call (atEndOfBlock f) f')))"

definition tryGet :: "(addr \<Rightarrow> nat \<Rightarrow> byte list) \<Rightarrow> nat \<Rightarrow> dma_fifo \<Rightarrow> (byte list \<times> dma_fifo) option result" where
  "tryGet readBlob len f =
     (if cq_size (df_buffer f) \<ge> len
      then bind_res (fifo_read (df_buffer f) len) (\<lambda>(xs, q).
           bind_res (resumeFill readBlob (f\<lparr> df_buffer := q \<rparr>)) (\<lambda>f'. Inr (Some (xs, f'))))
      else Inr None)"

definition get :: "(addr \<Rightarrow> nat \<Rightarrow> byte list) \<Rightarrow> nat \<Rightarrow> dma_fifo \<Rightarrow> (byte list \<times> dma_fifo) result" where
  "get readBlob len f =
     bind_res (tryGet readBlob len f) (\<lambda>r. case r of
       None \<Rightarrow> Inl (Panic ''Buffer underrun in DmaReadFifo::get()'') | Some x \<Rightarrow> Inr x)"

definition startFill :: "(addr \<Rightarrow> nat \<Rightarrow> byte list) \<Rightarrow> addr \<Rightarrow> addr \<Rightarrow> dma_fifo \<Rightarrow> dma_fifo result" where
  "startFill readBlob start sz f =
     bind_res (assert_that (atEndOfBlock f) ''atEndOfBlock()'')
       (\<lambda>_. resumeFill readBlob (f\<lparr> df_nextAddr := start, df_endAddr := start + sz \<rparr>))"

definition stopFill :: "dma_fifo \<Rightarrow> dma_fifo" where
  "stopFill f = f\<lparr> df_nextAddr := df_endAddr f, df_pending := map de_cancel (df_pending f) \<rparr>"

fun rd_handle_loop :: "dma_event list \<Rightarrow> dma_fifo \<Rightarrow> dma_fifo result" where
  "rd_handle_loop [] f = Inr f"
| "rd_handle_loop (e # es) f =
     (if de_done e
      then bind_res (if \<not> de_canceled e then fifo_write (df_buffer f) (take (de_requestSize e) (de_data e))
                     else Inr (df_buffer f)) (\<lambda>q.
           rd_handle_loop es (f\<lparr> df_pending := es, df_buffer := q, df_free := df_free f @ [e] \<rparr>))
      else Inr f)"

definition rd_handlePending :: "dma_fifo \<Rightarrow> dma_fifo result" where
  "rd_handlePending f =
     bind_res (rd_handle_loop (df_pending f) f)
       (\<lambda>f'. Inr (if df_pending f' = [] then signalDrainDone f' else f'))"

definition idle_call :: "bool \<Rightarrow> dma_fifo \<Rightarrow> dma_fifo" where
  "idle_call old_active f =
     (if old_active \<and> \<not> isActive f then f\<lparr> df_idleCalls := df_idleCalls f + 1 \<rparr> else f)"

definition rd_dmaDone :: "(addr \<Rightarrow> nat \<Rightarrow> byte list) \<Rightarrow> dma_fifo \<Rightarrow> dma_fifo result" where
  "rd_dmaDone readBlob f =
     bind_res (rd_handlePending f) (\<lambda>f1.
     bind_res (resumeFill readBlob f1) (\<lambda>f2. Inr (idle_call (isActive f) f2)))"

text \<open>
  The completion event of pending request \<open>i\<close> runs. For a read the memory system has by then
  stored the response data through the packets' data pointers into the event's buffer.
\<close>

definition df_deliver :: "nat \<Rightarrow> byte list \<Rightarrow> dma_fifo \<Rightarrow> dma_fifo result" where
  "df_deliver i xs f =
     (if i < length (df_pending f)
      then bind_res (put_bytes 0 xs (de_data (df_pending f ! i)))
             (\<lambda>d. Inr (f\<lparr> df_pending := (df_pending f)[i := (df_pending f ! i)\<lparr> de_data := d \<rparr>] \<rparr>))
      else Inl OutOfBounds)"

definition df_mark_done :: "nat \<Rightarrow> dma_fifo \<Rightarrow> dma_fifo result" where
  "df_mark_done i f =
     (if i < length (df_pending f)
      then bind_res (assert_that (\<not> de_done (df_pending f ! i)) ''!_done'')
             (\<lambda>_. Inr (f\<lparr> df_pending := (df_pending f)[i := (df_pending f ! i)\<lparr> de_done := True \<rparr>] \<rparr>))
      else Inl OutOfBounds)"

definition rd_process :: "(addr \<Rightarrow> nat \<Rightarrow> byte list) \<Rightarrow> nat \<Rightarrow> dma_fifo \<Rightarrow> dma_fifo result" where
  "rd_process readBlob i f = bind_res (df_mark_done i f) (rd_dmaDone readBlob)"

section \<open>DmaWriteFifo\<close>

definition canFill :: "nat \<Rightarrow> dma_fifo \<Rightarrow> bool" where
  "canFill len f \<longleftrightarrow> cq_size (df_buffer f) + len \<le> df_fifoSize f"

text \<open>
  The guard \<open>(int64_t)(buffer.size() - size_pending - req_size) < 0\<close>: a 64-bit difference read
  as a signed number.
\<close>

definition empty_guard :: "nat \<Rightarrow> nat \<Rightarrow> nat \<Rightarrow> bool" where
  "empty_guard sz sp req \<longleftrightarrow> sint (of_nat sz - of_nat sp - of_nat req :: 64 word) < 0"

fun empty_loop :: "nat \<Rightarrow> dma_event list \<Rightarrow> dma_fifo \<Rightarrow> dma_fifo result" where
  "empty_loop sp [] f = Inr f"
| "empty_loop sp (e # es) f =
     (if atEndOfBlock f then Inr f
      else let req = next_req_size f
           in if empty_guard (cq_size (df_buffer f)) sp req then Inr f
              else bind_res (de_reset req e) (\<lambda>e1.
                   bind_res (fifo_read (df_buffer f) req) (\<lambda>(xs, q).
                   bind_res (put_bytes 0 xs (de_data e1)) (\<lambda>d.
                     empty_loop (sp + req) es
                       (f\<lparr> df_free := es, df_buffer := q,
                           df_actions := df_actions f @
                             [\<lparr> da_cmd = WriteReq, da_addr = df_nextAddr f, da_size = req, da_event = de_id e1, da_data = d \<rparr>],
                           df_nextAddr := df_nextAddr f + of_nat req,
                           df_pending := df_pending f @ [e1\<lparr> de_data := d \<rparr>] \<rparr>)))))"

definition resumeEmptyTiming :: "dma_fifo \<Rightarrow> dma_fifo result" where
  "resumeEmptyTiming f = empty_loop (size_pending f) (df_free f) f"

text \<open>The bypass path is the read FIFO's, word for word: it reads the block into the buffer.\<close>

definition resumeEmptyFunctional :: "(addr \<Rightarrow> nat \<Rightarrow> byte list) \<Rightarrow> dma_fifo \<Rightarrow> dma_fifo result" where
  "resumeEmptyFunctional readBlob f =
     (let fifo_space = cq_capacity (df_buffer f) - cq_size (df_buffer f);
          kvm_watermark = df_cacheLineSize f
      in if fifo_space \<ge> kvm_watermark \<or> cq_capacity (df_buffer f) < kvm_watermark
         then let block_remaining = unat (df_endAddr f - df_nextAddr f);
                  xfer_size = min fifo_space block_remaining
              in bind_res (assert_that (df_pending f = []) ''pendingRequests.empty()'') (\<lambda>_.
                 bind_res (fifo_write (df_buffer f) (readBlob (df_nextAddr f) xfer_size)) (\<lambda>q.
                   Inr (f\<lparr> df_buffer := q, df_nextAddr := df_nextAddr f + of_nat xfer_size \<rparr>)))
         else Inr f)"

definition resumeEmpty :: "(addr \<Rightarrow> nat \<Rightarrow> byte list) \<Rightarrow> dma_fifo \<Rightarrow> dma_fifo result" where
  "resumeEmpty readBlob f =
     (if df_drainState f = Draining then Inr f
      else bind_res (if df_bypassCaches f then resumeEmptyFunctional readBlob f else resumeEmptyTiming f)
             (\<lambda>f'. Inr (end_of_block_call (atEndOfBlock f) f')))"

definition tryFill :: "(addr \<Rightarrow> nat \<Rightarrow> byte list) \<Rightarrow> byte list \<Rightarrow> dma_fifo \<Rightarrow> dma_fifo option result" where
  "tryFill readBlob src f =
     (if cq_size (df_buffer f) + length src \<le> df_fifoSize f
      then bind_res (fifo_write (df_buffer f) src) (\<lambda>q.
           bind_res (resumeEmpty readBlob (f\<lparr> df_buffer := q \<rparr>)) (\<lambda>f'. Inr (Some f')))
      else Inr None)"

definition fill :: "(addr \<Rightarrow> nat \<Rightarrow> byte list) \<Rightarrow> byte list \<Rightarrow> dma_fifo \<Rightarrow> dma_fifo result" where
  "fill readBlob src f =
     bind_res (tryFill readBlob src f) (\<lambda>r. case r of
       None \<Rightarrow> Inl (Panic ''Buffer overrun in DmaWriteFifo::fill()'') | Some f' \<Rightarrow> Inr f')"

definition startEmpty :: "(addr \<Rightarrow> nat \<Rightarrow> byte list) \<Rightarrow> addr \<Rightarrow> addr \<Rightarrow> dma_fifo \<Rightarrow> dma_fifo result" where
  "startEmpty readBlob start sz f =
     bind_res (assert_that (atEndOfBlock f) ''atEndOfBlock()'')
       (\<lambda>_. resumeEmpty readBlob (f\<lparr> df_nextAddr := start, df_endAddr := start + sz \<rparr>))"

definition stopEmpty :: "dma_fifo \<Rightarrow> dma_fifo" where
  "stopEmpty f = f\<lparr> df_nextAddr := df_endAddr f, df_pending := map de_cancel (df_pending f) \<rparr>"

fun wr_handle_loop :: "dma_event list \<Rightarrow> dma_fifo \<Rightarrow> dma_fifo result" where
  "wr_handle_loop [] f = Inr f"
| "wr_handle_loop (e # es) f =
     (if de_done e
      then bind_res (if de_canceled e then fifo_write (df_buffer f) (take (de_requestSize e) (de_data e))
                     else Inr (df_buffer f)) (\<lambda>q.
           wr_handle_loop es (f\<lparr> df_pending := es, df_buffer := q, df_free := df_free f @ [e] \<rparr>))
      else Inr f)"

definition wr_handlePending :: "dma_fifo \<Rightarrow> dma_fifo result" where
  "wr_handlePending f =
     bind_res (wr_handle_loop (df_pending f) f)
       (\<lambda>f'. Inr (if df_pending f' = [] then signalDrainDone f' else f'))"

definition wr_dmaDone :: "(addr \<Rightarrow> nat \<Rightarrow> byte list) \<Rightarrow> dma_fifo \<Rightarrow> dma_fifo result" where
  "wr_dmaDone readBlob f =
     bind_res (wr_handlePending f) (\<lambda>f1.
     bind_res (resumeEmpty readBlob f1) (\<lambda>f2. Inr (idle_call (isActive f) f2)))"

definition wr_process :: "(addr \<Rightarrow> nat \<Rightarrow> byte list) \<Rightarrow> nat \<Rightarrow> dma_fifo \<Rightarrow> dma_fifo result" where
  "wr_process readBlob i f = bind_res (df_mark_done i f) (wr_dmaDone readBlob)"

end
