(* ===== verification/Dma_Read_Fifo.thy ===== *)
theory Dma_Read_Fifo
  imports Dma_Fifo
begin

text \<open>
  Correctness of \<open>DmaReadFifo\<close>: the stream a read FIFO delivers is the memory block it was
  started on, in order and complete, although requests are issued ahead, bounded by the free
  space, and answered in any order; and its consumer is never left waiting for nothing.
\<close>

section \<open>Memory and requests in order\<close>

definition mem_slice :: "(addr \<Rightarrow> byte) \<Rightarrow> addr \<Rightarrow> nat \<Rightarrow> byte list" where
  "mem_slice m a n = map (\<lambda>i. m (a + of_nat i)) [0..<n]"

lemma length_mem_slice [simp]: "length (mem_slice m a n) = n"
  by (simp add: mem_slice_def)

lemma mem_slice_0 [simp]: "mem_slice m a 0 = []"
  by (simp add: mem_slice_def)

lemma mem_slice_add: "mem_slice m a (k + n) = mem_slice m a k @ mem_slice m (a + of_nat k) n"
  by (rule nth_equalityI) (auto simp: mem_slice_def nth_append algebra_simps)

lemma take_mem_slice: "k \<le> n \<Longrightarrow> take k (mem_slice m a n) = mem_slice m a k"
  by (metis append_eq_conv_conj le_add_diff_inverse length_mem_slice mem_slice_add)

lemma drop_mem_slice: "k \<le> n \<Longrightarrow> drop k (mem_slice m a n) = mem_slice m (a + of_nat k) (n - k)"
  by (metis append_eq_conv_conj le_add_diff_inverse length_mem_slice mem_slice_add)

text \<open>
  The requests pending at a read FIFO against the actions that started them: consecutive
  addresses from \<open>a\<close>, and the data of a finished request is what memory holds there.
\<close>

fun reqs_ok :: "(addr \<Rightarrow> byte) \<Rightarrow> addr \<Rightarrow> dma_event list \<Rightarrow> dma_act list \<Rightarrow> bool" where
  "reqs_ok m a [] [] \<longleftrightarrow> True"
| "reqs_ok m a (e # es) (x # xs) \<longleftrightarrow> de_id e = da_event x \<and> de_requestSize e = da_size x \<and> da_addr x = a
     \<and> da_cmd x = ReadReq \<and> 0 < da_size x \<and> da_size x \<le> length (de_data e) \<and> \<not> de_canceled e
     \<and> (de_done e \<longrightarrow> take (da_size x) (de_data e) = mem_slice m a (da_size x))
     \<and> reqs_ok m (a + of_nat (da_size x)) es xs"
| "reqs_ok m a _ _ \<longleftrightarrow> False"

lemma reqs_ok_length: "reqs_ok m a es xs \<Longrightarrow> length xs = length es"
  by (induction m a es xs rule: reqs_ok.induct) auto

lemma reqs_ok_snoc:
  "reqs_ok m a es xs \<Longrightarrow> reqs_ok m a (es @ [e]) (xs @ [x]) \<longleftrightarrow>
     reqs_ok m (a + of_nat (sum_list (map de_requestSize es))) [e] [x]"
  by (induction m a es xs rule: reqs_ok.induct) (auto simp: algebra_simps)

lemma reqs_ok_done:
  assumes "reqs_ok m a es xs" and "i < length es"
    and "length d = length (de_data (es ! i))" and "take (da_size (xs ! i)) d = mem_slice m (da_addr (xs ! i)) (da_size (xs ! i))"
  shows "reqs_ok m a (es[i := (es ! i)\<lparr> de_data := d, de_done := True \<rparr>]) xs"
  using assms
proof (induction m a es xs arbitrary: i rule: reqs_ok.induct)
  case (2 m a e es x xs)
  then show ?case by (cases i) auto
qed auto

section \<open>Invariant of the read FIFO\<close>

definition df_cfg :: "dma_fifo \<Rightarrow> bool" where
  "df_cfg f \<longleftrightarrow> 0 < df_maxReqSize f \<and> df_maxReqSize f \<le> df_fifoSize f \<and> df_fifoSize f = cq_capacity (df_buffer f)
     \<and> \<not> df_bypassCaches f \<and> df_free f @ df_pending f \<noteq> [] \<and> (\<forall>e \<in> set (df_free f) \<union> set (df_pending f). length (de_data e) = df_maxReqSize f)"

text \<open>
  After every operation the FIFO has asked for all it may: \<open>fill_saturated\<close>; and it has taken in
  every answered request at the head of the queue: \<open>head_open\<close>.
\<close>

definition fill_saturated :: "dma_fifo \<Rightarrow> bool" where
  "fill_saturated f \<longleftrightarrow> df_free f = [] \<or> atEndOfBlock f \<or> df_size f + size_pending f + next_req_size f > df_fifoSize f"

definition head_open :: "dma_fifo \<Rightarrow> bool" where
  "head_open f \<longleftrightarrow> df_pending f = [] \<or> \<not> de_done (hd (df_pending f))"

definition rd_ready :: "dma_fifo \<Rightarrow> bool" where
  "rd_ready f \<longleftrightarrow> df_drainState f = Running \<and> fill_saturated f \<and> head_open f"

definition block_left :: "dma_fifo \<Rightarrow> nat" where
  "block_left f = unat (df_endAddr f - df_nextAddr f)"

text \<open>
  The address of the first byte that is pending, and the stream the FIFO will deliver: what
  it buffers, then what memory holds from there to the end of the block.
\<close>

definition fetch_pos :: "dma_fifo \<Rightarrow> addr" where
  "fetch_pos f = df_nextAddr f - of_nat (size_pending f)"

definition rd_stream :: "(addr \<Rightarrow> byte) \<Rightarrow> dma_fifo \<Rightarrow> byte list" where
  "rd_stream m f = cq_list (df_buffer f) @ mem_slice m (fetch_pos f) (size_pending f + block_left f)"

text \<open>\<open>n\<close> bounds the bytes of later blocks, for the ring's lap counter.\<close>

definition rd_inv :: "(addr \<Rightarrow> byte) \<Rightarrow> nat \<Rightarrow> dma_fifo \<Rightarrow> bool" where
  "rd_inv m n f \<longleftrightarrow> df_cfg f \<and> cq_wf (size_pending f + block_left f + n) (df_buffer f)
     \<and> df_size f + size_pending f \<le> df_fifoSize f
     \<and> (\<exists>pre acts. df_actions f = pre @ acts \<and> reqs_ok m (fetch_pos f) (df_pending f) acts)"

lemma rd_invI:
  assumes "df_cfg f" and "cq_wf (size_pending f + block_left f + n) (df_buffer f)"
    and "df_size f + size_pending f \<le> df_fifoSize f"
    and "df_actions f = pre @ acts" and "reqs_ok m (fetch_pos f) (df_pending f) acts"
  shows "rd_inv m n f"
  using assms unfolding rd_inv_def by blast

lemma rd_invD:
  assumes "rd_inv m n f"
  shows "df_cfg f" "cq_wf (size_pending f + block_left f + n) (df_buffer f)"
    "df_size f + size_pending f \<le> df_fifoSize f"
    "\<exists>pre acts. df_actions f = pre @ acts \<and> reqs_ok m (fetch_pos f) (df_pending f) acts"
  using assms unfolding rd_inv_def by blast+

lemma block_left_0: "block_left f = 0 \<longleftrightarrow> atEndOfBlock f"
  by (simp add: block_left_def atEndOfBlock_def unat_eq_0) auto

lemma next_req_size_bounds:
  "next_req_size f \<le> block_left f" "next_req_size f \<le> df_maxReqSize f"
  "0 < df_maxReqSize f \<Longrightarrow> \<not> atEndOfBlock f \<Longrightarrow> 0 < next_req_size f"
  using block_left_0 [of f] by (auto simp: next_req_size_def block_left_def)

lemma unat_sub_of_nat: "n \<le> unat (b - a) \<Longrightarrow> unat (b - (a + of_nat n)) = unat (b - a) - n" for a b :: addr
proof -
  assume n: "n \<le> unat (b - a)"
  have "unat (b - a) < 2 ^ 64" using unsigned_less [of "b - a"] by simp
  with n have "n < 2 ^ 64" by (rule le_less_trans)
  then have u: "unat (of_nat n :: addr) = n" by (simp add: unat_of_nat)
  have "b - (a + of_nat n) = (b - a) - of_nat n" by simp
  moreover have "of_nat n \<le> b - a" using n u by (simp add: word_le_nat_alt)
  ultimately show ?thesis using u by (simp only: unat_sub)
qed

lemma de_reset_ok: "sz \<le> length (de_data e) \<Longrightarrow>
    de_reset sz e = Inr (e\<lparr> de_done := False, de_canceled := False, de_requestSize := sz \<rparr>)"
  by (simp add: de_reset_def)

text \<open>One round of the prefetch loop.\<close>

lemma rd_inv_issue:
  assumes inv: "rd_inv m n f" and fr: "df_free f = e # es" and eob: "\<not> atEndOfBlock f"
    and room: "df_size f + size_pending f + next_req_size f \<le> df_fifoSize f"
    and e': "e' = e\<lparr> de_done := False, de_canceled := False, de_requestSize := next_req_size f \<rparr>"
    and f': "f' = f\<lparr> df_free := es,
       df_actions := df_actions f @ [\<lparr> da_cmd = ReadReq, da_addr = df_nextAddr f, da_size = next_req_size f,
          da_event = de_id e', da_data = de_data e' \<rparr>],
       df_nextAddr := df_nextAddr f + of_nat (next_req_size f), df_pending := df_pending f @ [e'] \<rparr>"
  shows "rd_inv m n f' \<and> size_pending f' = size_pending f + next_req_size f \<and> rd_stream m f' = rd_stream m f"
proof -
  let ?r = "next_req_size f"
  note iv = rd_invD [OF inv]
  have r: "0 < ?r" "?r \<le> block_left f" "?r \<le> df_maxReqSize f"
    using next_req_size_bounds [of f] iv(1) eob by (auto simp: df_cfg_def)
  have sp: "size_pending f' = size_pending f + ?r" by (simp add: size_pending_def f' e')
  have bl: "block_left f' = block_left f - ?r" using r(2) by (simp add: block_left_def f' unat_sub_of_nat)
  have fp: "fetch_pos f' = fetch_pos f" by (simp add: fetch_pos_def sp) (simp add: f')
  obtain pre acts where a: "df_actions f = pre @ acts" "reqs_ok m (fetch_pos f) (df_pending f) acts"
    using iv(4) by blast
  have nx: "df_nextAddr f = fetch_pos f + of_nat (sum_list (map de_requestSize (df_pending f)))"
    by (simp add: fetch_pos_def size_pending_def)
  let ?x = "\<lparr> da_cmd = ReadReq, da_addr = df_nextAddr f, da_size = ?r, da_event = de_id e', da_data = de_data e' \<rparr>"
  have "length (de_data e) = df_maxReqSize f" using iv(1) fr by (auto simp: df_cfg_def)
  then have ok: "reqs_ok m (fetch_pos f) (df_pending f @ [e']) (acts @ [?x])"
    using reqs_ok_snoc [OF a(2), of e' ?x] r nx by (simp add: e')
  have fld: "df_actions f' = pre @ (acts @ [?x])" "df_size f' = df_size f" "df_pending f' = df_pending f @ [e']"
    "df_buffer f' = df_buffer f" "df_fifoSize f' = df_fifoSize f"
    using a(1) by (simp_all add: f' df_size_def)
  have bud: "size_pending f' + block_left f' = size_pending f + block_left f" using sp bl r(2) by simp
  have "rd_inv m n f'"
  proof (rule rd_invI [OF _ _ _ fld(1)])
    show "df_cfg f'" using iv(1) fr by (auto simp: df_cfg_def f' e')
    show "cq_wf (size_pending f' + block_left f' + n) (df_buffer f')" using iv(2) by (simp only: bud fld)
    show "df_size f' + size_pending f' \<le> df_fifoSize f'" using room by (simp add: fld sp)
    show "reqs_ok m (fetch_pos f') (df_pending f') (acts @ [?x])" using ok by (simp only: fp fld)
  qed
  moreover have "rd_stream m f' = rd_stream m f" unfolding rd_stream_def by (simp only: fp bud fld)
  ultimately show ?thesis using sp by blast
qed

lemma fill_loop_inv:
  assumes "rd_inv m n f" and "df_free f = es" and "sp = size_pending f"
  shows "\<exists>f'. fill_loop sp es f = Inr f' \<and> rd_inv m n f' \<and> df_buffer f' = df_buffer f
    \<and> rd_stream m f' = rd_stream m f \<and> df_drainState f' = df_drainState f
    \<and> fill_saturated f' \<and> (head_open f \<longrightarrow> head_open f') \<and> df_maxReqSize f' = df_maxReqSize f \<and> df_fifoSize f' = df_fifoSize f"
  using assms
proof (induction es arbitrary: f sp)
  case Nil
  then show ?case by (simp add: fill_saturated_def)
next
  case (Cons e es)
  consider "atEndOfBlock f" | "\<not> atEndOfBlock f" "df_size f + sp + next_req_size f > df_fifoSize f"
    | "\<not> atEndOfBlock f" "df_size f + sp + next_req_size f \<le> df_fifoSize f" by linarith
  then show ?case
  proof cases
    case 3
    let ?e = "e\<lparr> de_done := False, de_canceled := False, de_requestSize := next_req_size f \<rparr>"
    let ?f = "f\<lparr> df_free := es,
       df_actions := df_actions f @ [\<lparr> da_cmd = ReadReq, da_addr = df_nextAddr f, da_size = next_req_size f,
          da_event = de_id ?e, da_data = de_data ?e \<rparr>],
       df_nextAddr := df_nextAddr f + of_nat (next_req_size f), df_pending := df_pending f @ [?e] \<rparr>"
    have len: "next_req_size f \<le> length (de_data e)"
      using Cons.prems next_req_size_bounds(2) [of f] by (auto simp: rd_inv_def df_cfg_def)
    have step: "rd_inv m n ?f \<and> size_pending ?f = sp + next_req_size f \<and> rd_stream m ?f = rd_stream m f"
      using rd_inv_issue [OF Cons.prems(1,2) 3(1) _ refl refl] 3(2) Cons.prems(3) by simp
    have "fill_loop sp (e # es) f = fill_loop (sp + next_req_size f) es ?f"
      using 3 len by (simp add: de_reset_ok df_size_def Let_def)
    moreover have "head_open f \<longrightarrow> head_open ?f" by (cases "df_pending f") (auto simp: head_open_def)
    ultimately show ?thesis using step Cons.IH [of ?f "sp + next_req_size f"] by auto
  qed (use Cons.prems in \<open>auto simp: df_size_def fill_saturated_def\<close>)
qed

text \<open>The first pending request has finished: its data continue the buffer.\<close>

lemma rd_inv_pop:
  assumes inv: "rd_inv m n f" and p: "df_pending f = e # es" and d: "de_done e"
    and f': "\<And>q. f' q = f\<lparr> df_pending := es, df_buffer := q, df_free := df_free f @ [e] \<rparr>"
  shows "\<exists>q. fifo_write (df_buffer f) (take (de_requestSize e) (de_data e)) = Inr q
    \<and> rd_inv m n (f' q) \<and> rd_stream m (f' q) = rd_stream m f"
proof -
  let ?r = "de_requestSize e" and ?s = "sum_list (map de_requestSize es)"
  note iv = rd_invD [OF inv]
  obtain pre acts where a: "df_actions f = pre @ acts" "reqs_ok m (fetch_pos f) (e # es) acts"
    using iv(4) p by auto
  obtain x xs where x: "acts = x # xs" using a(2) by (cases acts) auto
  have e: "take ?r (de_data e) = mem_slice m (fetch_pos f) ?r" "?r \<le> length (de_data e)"
    "reqs_ok m (fetch_pos f + of_nat ?r) es xs"
    using a(2) x d by auto
  have sp: "size_pending f = ?r + ?s" by (simp add: size_pending_def p)
  have len: "length (take ?r (de_data e)) = ?r" using e(2) by simp
  have cap: "df_fifoSize f = cq_capacity (df_buffer f)" using iv(1) by (simp add: df_cfg_def)
  have "cq_wf (length (take ?r (de_data e)) + (?s + block_left f + n)) (df_buffer f)"
    using iv(2) sp len by (simp add: ac_simps)
  moreover have "length (cq_list (df_buffer f)) + length (take ?r (de_data e)) \<le> cq_capacity (df_buffer f)"
    using iv(3) sp len cap by (simp add: df_size_def)
  ultimately obtain q where q: "fifo_write (df_buffer f) (take ?r (de_data e)) = Inr q"
    "cq_wf (?s + block_left f + n) q" "cq_list q = cq_list (df_buffer f) @ take ?r (de_data e)"
    "cq_capacity q = cq_capacity (df_buffer f)"
    using cq.wr_ok by blast
  have sz: "cq_size q = df_size f + ?r" using q(3) len length_cq_list [of q] by (simp add: df_size_def)
  have fld: "df_size (f' q) = df_size f + ?r" "df_pending (f' q) = es" "df_actions (f' q) = (pre @ [x]) @ xs"
    "df_fifoSize (f' q) = df_fifoSize f" "df_buffer (f' q) = q" "size_pending (f' q) = ?s" "block_left (f' q) = block_left f"
    using sz a(1) x by (simp_all add: f' df_size_def size_pending_def block_left_def)
  have fp: "fetch_pos (f' q) = fetch_pos f + of_nat ?r" by (simp add: fetch_pos_def fld(6) sp) (simp add: f')
  have "rd_inv m n (f' q)"
  proof (rule rd_invI [OF _ _ _ fld(3)])
    show "df_cfg (f' q)" using iv(1) p q(4) by (auto simp: df_cfg_def f')
    show "df_size (f' q) + size_pending (f' q) \<le> df_fifoSize (f' q)" using iv(3) sp by (simp add: fld)
  qed (use q(2) e(3) in \<open>simp_all only: fld fp\<close>)
  moreover have "rd_stream m (f' q) = rd_stream m f"
    using q(3) e(1) by (simp add: rd_stream_def fp fld sp add.assoc mem_slice_add)
  ultimately show ?thesis using q(1) by blast
qed

lemma rd_handle_loop_inv:
  assumes "rd_inv m n f" and "df_pending f = es"
  shows "\<exists>f'. rd_handle_loop es f = Inr f' \<and> rd_inv m n f' \<and> rd_stream m f' = rd_stream m f
    \<and> head_open f' \<and> df_drainState f' = df_drainState f
    \<and> df_maxReqSize f' = df_maxReqSize f \<and> df_fifoSize f' = df_fifoSize f"
  using assms
proof (induction es arbitrary: f)
  case Nil
  then show ?case by (simp add: head_open_def)
next
  case (Cons e es)
  show ?case
  proof (cases "de_done e")
    case True
    let ?f = "\<lambda>q. f\<lparr> df_pending := es, df_buffer := q, df_free := df_free f @ [e] \<rparr>"
    obtain q where q: "fifo_write (df_buffer f) (take (de_requestSize e) (de_data e)) = Inr q"
      "rd_inv m n (?f q)" "rd_stream m (?f q) = rd_stream m f"
      using rd_inv_pop [OF Cons.prems True, of ?f] by blast
    have "\<not> de_canceled e"
      using rd_invD(4) [OF Cons.prems(1)] Cons.prems(2) by (auto elim: reqs_ok.elims)
    with q True Cons.IH [OF q(2)] show ?thesis by auto
  qed (use Cons.prems in \<open>auto simp: head_open_def\<close>)
qed

lemma rd_inv_unaffected [simp]:
  "rd_inv m n (f\<lparr> df_drainState := ds \<rparr>) = rd_inv m n f"
  "rd_inv m n (f\<lparr> df_endOfBlockCalls := c \<rparr>) = rd_inv m n f"
  "rd_inv m n (f\<lparr> df_idleCalls := c \<rparr>) = rd_inv m n f"
  "rd_stream m (f\<lparr> df_drainState := ds \<rparr>) = rd_stream m f"
  "rd_stream m (f\<lparr> df_endOfBlockCalls := c \<rparr>) = rd_stream m f"
  "rd_stream m (f\<lparr> df_idleCalls := c \<rparr>) = rd_stream m f"
  by (simp_all add: rd_inv_def rd_stream_def df_cfg_def size_pending_def block_left_def df_size_def fetch_pos_def)

lemma rd_inv_mono: "rd_inv m n f \<Longrightarrow> k \<le> n \<Longrightarrow> rd_inv m k f"
  unfolding rd_inv_def using cq_wf_mono by (meson add_left_mono)

lemma ready_unaffected [simp]:
  "fill_saturated (f\<lparr> df_drainState := ds \<rparr>) = fill_saturated f"
  "fill_saturated (f\<lparr> df_endOfBlockCalls := c \<rparr>) = fill_saturated f"
  "fill_saturated (f\<lparr> df_idleCalls := c \<rparr>) = fill_saturated f"
  "head_open (f\<lparr> df_drainState := ds \<rparr>) = head_open f"
  "head_open (f\<lparr> df_endOfBlockCalls := c \<rparr>) = head_open f"
  "head_open (f\<lparr> df_idleCalls := c \<rparr>) = head_open f"
  by (simp_all add: fill_saturated_def head_open_def atEndOfBlock_def df_size_def size_pending_def next_req_size_def)

definition same_cfg :: "dma_fifo \<Rightarrow> dma_fifo \<Rightarrow> bool" where
  "same_cfg f f' \<longleftrightarrow> df_maxReqSize f' = df_maxReqSize f \<and> df_fifoSize f' = df_fifoSize f"

lemma resumeFill_inv:
  assumes "rd_inv m n f"
  shows "\<exists>f'. resumeFill rb f = Inr f' \<and> rd_inv m n f' \<and> rd_stream m f' = rd_stream m f
    \<and> same_cfg f f' \<and> (df_drainState f = Running \<and> head_open f \<longrightarrow> rd_ready f')"
proof -
  have "\<not> df_bypassCaches f" using assms by (simp add: rd_inv_def df_cfg_def)
  with assms fill_loop_inv [OF assms refl refl] show ?thesis
    by (auto simp: resumeFill_def resumeFillTiming_def end_of_block_call_def rd_ready_def same_cfg_def)
qed

lemma tryGet_inv:
  assumes inv: "rd_inv m n f"
  shows "if df_size f < len then tryGet rb len f = Inr None
    else \<exists>f'. tryGet rb len f = Inr (Some (take len (rd_stream m f), f')) \<and> rd_inv m n f'
      \<and> rd_stream m f' = drop len (rd_stream m f) \<and> same_cfg f f' \<and> (rd_ready f \<longrightarrow> rd_ready f')"
proof (cases "df_size f < len")
  case True
  then show ?thesis by (simp add: tryGet_def df_size_def)
next
  case False
  note iv = rd_invD [OF inv]
  obtain q where q: "fifo_read (df_buffer f) len = Inr (take len (cq_list (df_buffer f)), q)"
    "cq_wf (size_pending f + block_left f + n) q" "cq_list q = drop len (cq_list (df_buffer f))"
    "cq_capacity q = cq_capacity (df_buffer f)"
    using cq.rd_ok [OF iv(2), of len] False by (auto simp: df_size_def)
  let ?f = "f\<lparr> df_buffer := q \<rparr>"
  have sz: "cq_size q \<le> df_size f" using q(3) length_cq_list [of q] by (simp add: df_size_def)
  have same: "size_pending ?f = size_pending f" "block_left ?f = block_left f" "fetch_pos ?f = fetch_pos f"
    by (simp_all add: size_pending_def block_left_def fetch_pos_def)
  have "rd_inv m n ?f"
    using inv q(2,4) sz unfolding rd_inv_def same by (auto simp: df_cfg_def df_size_def)
  moreover have "rd_stream m ?f = drop len (rd_stream m f)"
    using False q(3) by (simp add: rd_stream_def same df_size_def)
  ultimately obtain f' where "resumeFill rb ?f = Inr f'" "rd_inv m n f'" "rd_stream m f' = drop len (rd_stream m f)"
    "same_cfg f f'" "rd_ready f \<longrightarrow> rd_ready f'"
    using resumeFill_inv [of m n ?f rb] by (auto simp: rd_ready_def head_open_def same_cfg_def)
  with q(1) False show ?thesis by (simp add: tryGet_def df_size_def rd_stream_def)
qed

text \<open>The memory system answers pending request \<open>i\<close>: it reads the address of the action that started it.\<close>

definition act_of :: "dma_fifo \<Rightarrow> nat \<Rightarrow> dma_act" where
  "act_of f i = df_actions f ! (length (df_actions f) - length (df_pending f) + i)"

definition rd_answer :: "(addr \<Rightarrow> byte) \<Rightarrow> (addr \<Rightarrow> nat \<Rightarrow> byte list) \<Rightarrow> nat \<Rightarrow> dma_fifo \<Rightarrow> dma_fifo result" where
  "rd_answer m rb i f =
     bind_res (df_deliver i (mem_slice m (da_addr (act_of f i)) (da_size (act_of f i))) f) (rd_process rb i)"

lemma act_of_pending:
  assumes "df_actions f = pre @ acts" and "reqs_ok m a (df_pending f) acts" and "i < length (df_pending f)"
  shows "act_of f i = acts ! i"
  using assms(1,3) reqs_ok_length [OF assms(2)] by (simp add: act_of_def nth_append)

lemma reqs_ok_nth:
  "reqs_ok m a es xs \<Longrightarrow> i < length es \<Longrightarrow> da_size (xs ! i) \<le> length (de_data (es ! i))
     \<and> de_requestSize (es ! i) = da_size (xs ! i)"
proof (induction m a es xs arbitrary: i rule: reqs_ok.induct)
  case (2 m a e es x xs)
  then show ?case by (cases i) auto
qed auto

lemma sum_list_update_same:
  "i < length xs \<Longrightarrow> g (y :: 'a) = (g (xs ! i) :: nat) \<Longrightarrow> sum_list (map g (xs[i := y])) = sum_list (map g xs)"
  by (metis list_update_id map_update)

lemma rd_answer_inv:
  assumes inv: "rd_inv m n f" and i: "i < length (df_pending f)" "\<not> de_done (df_pending f ! i)"
  shows "\<exists>f'. rd_answer m rb i f = Inr f' \<and> rd_inv m n f' \<and> rd_stream m f' = rd_stream m f
    \<and> same_cfg f f' \<and> (rd_ready f \<longrightarrow> rd_ready f')"
proof -
  let ?e = "df_pending f ! i" and ?x = "act_of f i"
  note iv = rd_invD [OF inv]
  obtain pre acts where a: "df_actions f = pre @ acts" "reqs_ok m (fetch_pos f) (df_pending f) acts"
    using iv(4) by blast
  have x: "?x = acts ! i" using act_of_pending [OF a i(1)] .
  have sz: "da_size ?x \<le> length (de_data ?e)" using reqs_ok_nth [OF a(2) i(1)] x by simp
  define d where "d = mem_slice m (da_addr ?x) (da_size ?x) @ drop (da_size ?x) (de_data ?e)"
  have d: "length d = length (de_data ?e)" "take (da_size ?x) d = mem_slice m (da_addr ?x) (da_size ?x)"
    using sz by (simp_all add: d_def)
  define e' where "e' = ?e\<lparr> de_data := d, de_done := True \<rparr>"
  define f1 where "f1 = f\<lparr> df_pending := (df_pending f)[i := e'] \<rparr>"
  have "df_deliver i (mem_slice m (da_addr ?x) (da_size ?x)) f = Inr (f\<lparr> df_pending := (df_pending f)[i := ?e\<lparr> de_data := d \<rparr>] \<rparr>)"
    using i(1) sz by (simp add: df_deliver_def put_bytes_def d_def)
  moreover have "df_mark_done i (f\<lparr> df_pending := (df_pending f)[i := ?e\<lparr> de_data := d \<rparr>] \<rparr>) = Inr f1"
    using i by (simp add: df_mark_done_def f1_def e'_def)
  ultimately have run: "rd_answer m rb i f = rd_dmaDone rb f1" by (simp add: rd_answer_def rd_process_def)
  have same: "size_pending f1 = size_pending f" "block_left f1 = block_left f" "df_size f1 = df_size f" "fetch_pos f1 = fetch_pos f"
    using i(1) by (simp_all add: size_pending_def block_left_def df_size_def fetch_pos_def f1_def e'_def sum_list_update_same)
  have "\<forall>e \<in> set (df_pending f1). length (de_data e) = df_maxReqSize f"
    using iv(1) i(1) d(1) by (auto simp: f1_def e'_def df_cfg_def dest!: set_update_subset_insert [THEN subsetD])
  then have "df_cfg f1" using iv(1) by (auto simp: df_cfg_def f1_def)
  moreover have "reqs_ok m (fetch_pos f) (df_pending f1) acts"
    using reqs_ok_done [OF a(2) i(1) d(1)] d(2) x by (simp add: f1_def e'_def)
  ultimately have inv1: "rd_inv m n f1" using iv(2,3) a(1) unfolding rd_inv_def same by (auto simp: f1_def)
  have st1: "rd_stream m f1 = rd_stream m f" unfolding rd_stream_def same by (simp add: f1_def)
  obtain f2 where f2: "rd_handle_loop (df_pending f1) f1 = Inr f2" "rd_inv m n f2" "rd_stream m f2 = rd_stream m f1"
    "head_open f2" "df_drainState f2 = df_drainState f1" "df_maxReqSize f2 = df_maxReqSize f1" "df_fifoSize f2 = df_fifoSize f1"
    using rd_handle_loop_inv [OF inv1 refl] by blast
  define f3 where "f3 = (if df_pending f2 = [] then signalDrainDone f2 else f2)"
  have f3: "rd_inv m n f3" "rd_stream m f3 = rd_stream m f" "head_open f3" "rd_ready f \<longrightarrow> df_drainState f3 = Running"
    "same_cfg f f3"
    using f2 st1 by (auto simp: f3_def signalDrainDone_def rd_ready_def f1_def same_cfg_def)
  have "rd_answer m rb i f = bind_res (resumeFill rb f3) (\<lambda>f4. Inr (idle_call (isActive f1) f4))"
    using f2(1) by (simp add: run rd_dmaDone_def rd_handlePending_def f3_def)
  with resumeFill_inv [OF f3(1), of rb] f3 show ?thesis
    by (auto simp: idle_call_def rd_ready_def same_cfg_def)
qed

lemma startFill_inv:
  assumes cfg: "df_cfg f" and wf: "cq_wf (unat sz + n) (df_buffer f)" and idle: "\<not> isActive f"
  shows "\<exists>f'. startFill rb start sz f = Inr f' \<and> rd_inv m n f' \<and> rd_stream m f' = cq_list (df_buffer f) @ mem_slice m start (unat sz)
    \<and> same_cfg f f' \<and> (df_drainState f = Running \<longrightarrow> rd_ready f')"
proof -
  let ?f = "f\<lparr> df_nextAddr := start, df_endAddr := start + sz \<rparr>"
  have p: "df_pending f = []" "atEndOfBlock f" using idle by (auto simp: isActive_def)
  have s: "size_pending ?f = 0" "block_left ?f = unat sz" "fetch_pos ?f = start" "df_size ?f = cq_size (df_buffer f)"
    using p by (simp_all add: size_pending_def block_left_def fetch_pos_def df_size_def)
  have "rd_inv m n ?f"
    by (rule rd_invI [where pre = "df_actions f" and acts = "[]"])
      (use cfg wf p cq_size_le [OF wf] in \<open>auto simp: s df_cfg_def\<close>)
  moreover have "rd_stream m ?f = cq_list (df_buffer f) @ mem_slice m start (unat sz)" by (simp add: rd_stream_def s)
  ultimately show ?thesis using p resumeFill_inv [of m n ?f rb]
    by (simp add: startFill_def head_open_def same_cfg_def)
qed

lemma dma_fifo_new_cfg:
  "0 < mr \<Longrightarrow> mr \<le> sz \<Longrightarrow> 0 < mp \<Longrightarrow> df_cfg (dma_fifo_new sz mr mp False cls)"
  "\<not> isActive (dma_fifo_new sz mr mp b cls)"
  by (auto simp: df_cfg_def dma_fifo_new_def CircularQueue_def DmaDoneEvent_def isActive_def atEndOfBlock_def)

datatype rd_op = RGet nat | RAnswer nat

fun rd_run :: "(addr \<Rightarrow> byte) \<Rightarrow> (addr \<Rightarrow> nat \<Rightarrow> byte list) \<Rightarrow> dma_fifo \<Rightarrow> rd_op list \<Rightarrow> (byte list \<times> dma_fifo) result" where
  "rd_run m rb f [] = Inr ([], f)"
| "rd_run m rb f (RGet len # ops) =
     bind_res (tryGet rb len f) (\<lambda>r. case r of
       None \<Rightarrow> rd_run m rb f ops
     | Some (xs, f') \<Rightarrow> bind_res (rd_run m rb f' ops) (\<lambda>(ys, f''). Inr (xs @ ys, f'')))"
| "rd_run m rb f (RAnswer i # ops) =
     (if i < length (df_pending f) \<and> \<not> de_done (df_pending f ! i)
      then bind_res (rd_answer m rb i f) (\<lambda>f'. rd_run m rb f' ops)
      else rd_run m rb f ops)"

lemma same_cfg_refl [simp]: "same_cfg f f"
  by (simp add: same_cfg_def)

lemma same_cfg_trans: "same_cfg f g \<Longrightarrow> same_cfg g h \<Longrightarrow> same_cfg f h"
  by (simp add: same_cfg_def)

lemma rd_run_inv:
  "rd_inv m n f \<Longrightarrow> rd_ready f \<Longrightarrow> \<exists>out f'. rd_run m rb f ops = Inr (out, f') \<and> rd_inv m n f'
     \<and> out @ rd_stream m f' = rd_stream m f \<and> rd_ready f' \<and> same_cfg f f'"
proof (induction ops arbitrary: f)
  case (Cons p ops)
  show ?case
  proof (cases p)
    case (RGet len)
    show ?thesis
    proof (cases "df_size f < len")
      case True
      then show ?thesis using Cons tryGet_inv [OF Cons.prems(1), of len rb] RGet by auto
    next
      case False
      then obtain f1 where f1: "tryGet rb len f = Inr (Some (take len (rd_stream m f), f1))" "rd_inv m n f1"
        "rd_stream m f1 = drop len (rd_stream m f)" "rd_ready f1" "same_cfg f f1"
        using tryGet_inv [OF Cons.prems(1), of len rb] Cons.prems(2) by auto
      from Cons.IH [OF f1(2,4)] obtain out f' where "rd_run m rb f1 ops = Inr (out, f')" "rd_inv m n f'"
        "out @ rd_stream m f' = drop len (rd_stream m f)" "rd_ready f'" "same_cfg f1 f'" using f1(3) by auto
      with f1(1,5) RGet show ?thesis by (auto intro: same_cfg_trans)
    qed
  next
    case (RAnswer i)
    show ?thesis
    proof (cases "i < length (df_pending f) \<and> \<not> de_done (df_pending f ! i)")
      case True
      then obtain f1 where f1: "rd_answer m rb i f = Inr f1" "rd_inv m n f1" "rd_stream m f1 = rd_stream m f"
        "rd_ready f1" "same_cfg f f1"
        using rd_answer_inv [OF Cons.prems(1), of i rb] Cons.prems(2) by auto
      with Cons.IH [OF f1(2,4)] True RAnswer show ?thesis by (auto intro: same_cfg_trans)
    qed (use Cons RAnswer in auto)
  qed
qed simp

lemma rd_start_run:
  assumes "0 < mr" and "mr \<le> fs" and "2 \<le> fs" and "fs < 2 ^ 31" and "0 < mp" and "unat sz + 1 < 2 ^ 32"
  shows "\<exists>f0 out f'. startFill rb start sz (dma_fifo_new fs mr mp False cls) = Inr f0
    \<and> rd_run m rb f0 ops = Inr (out, f') \<and> rd_inv m 0 f' \<and> rd_ready f'
    \<and> out @ rd_stream m f' = mem_slice m start (unat sz) \<and> df_maxReqSize f' = mr \<and> df_fifoSize f' = fs"
proof -
  let ?f = "dma_fifo_new fs mr mp False cls"
  have b: "df_buffer ?f = CircularQueue 0 fs" "df_drainState ?f = Running" "df_maxReqSize ?f = mr" "df_fifoSize ?f = fs"
    by (simp_all add: dma_fifo_new_def)
  have "cq_wf (unat sz + 0) (df_buffer ?f)" unfolding b using assms by (intro cq_wf_new) simp_all
  then obtain f0 where f0: "startFill rb start sz ?f = Inr f0" "rd_inv m 0 f0" "rd_stream m f0 = mem_slice m start (unat sz)"
    "rd_ready f0" "same_cfg ?f f0"
    using startFill_inv [of ?f sz 0 rb start m] dma_fifo_new_cfg(1) [of mr fs mp cls] dma_fifo_new_cfg(2) assms b by auto
  from rd_run_inv [OF f0(2,4), of rb ops] f0 b show ?thesis by (auto simp: same_cfg_def)
qed

text \<open>
  C11. A read FIFO delivers the memory block in order, whatever the order in which memory
  answers its requests: for every interleaving of reads and answers no operation fails, and
  the bytes delivered are a prefix of the block, whose remainder is exactly what the FIFO
  still holds or will fetch; once the FIFO is idle the buffer holds all of the remainder.
\<close>

theorem dma_read_fifo_in_order:
  assumes "0 < mr" and "mr \<le> fs" and "2 \<le> fs" and "fs < 2 ^ 31" and "0 < mp" and "unat sz + 1 < 2 ^ 32"
  shows "\<exists>f0 out f'. startFill rb start sz (dma_fifo_new fs mr mp False cls) = Inr f0
    \<and> rd_run m rb f0 ops = Inr (out, f') \<and> out @ rd_stream m f' = mem_slice m start (unat sz)
    \<and> (\<not> isActive f' \<longrightarrow> out @ cq_list (df_buffer f') = mem_slice m start (unat sz))"
proof -
  obtain f0 out f' where r: "startFill rb start sz (dma_fifo_new fs mr mp False cls) = Inr f0"
    "rd_run m rb f0 ops = Inr (out, f')" "out @ rd_stream m f' = mem_slice m start (unat sz)"
    using rd_start_run [OF assms, of rb start cls m ops] by blast
  moreover have "\<not> isActive f' \<Longrightarrow> rd_stream m f' = cq_list (df_buffer f')"
    using block_left_0 [of f'] by (simp add: rd_stream_def isActive_def size_pending_def)
  ultimately show ?thesis by auto
qed

theorem dma_read_fifo_in_order_witness:
  "\<exists>f0 out f'. startFill (\<lambda>a n. []) 0x100 40 (dma_fifo_new 32 16 2 False 64) = Inr f0
    \<and> rd_run ucast (\<lambda>a n. []) f0 [RAnswer 1, RGet 4, RAnswer 0, RGet 20] = Inr (out, f')
    \<and> out @ rd_stream ucast f' = mem_slice ucast 0x100 (unat (40 :: addr))
    \<and> (\<not> isActive f' \<longrightarrow> out @ cq_list (df_buffer f') = mem_slice ucast 0x100 (unat (40 :: addr)))"
  by (rule dma_read_fifo_in_order) simp_all

lemma rd_refusal_waits:
  assumes inv: "rd_inv m n f" and rdy: "rd_ready f" and short: "df_size f < len"
    and more: "len \<le> length (rd_stream m f)" and len: "len + df_maxReqSize f \<le> df_fifoSize f + 1"
  shows "df_pending f \<noteq> [] \<and> \<not> de_done (hd (df_pending f))"
proof -
  have "df_pending f \<noteq> []"
  proof
    assume p: "df_pending f = []"
    then have sp: "size_pending f = 0" by (simp add: size_pending_def)
    have "df_free f \<noteq> []" using rd_invD(1) [OF inv] p by (auto simp: df_cfg_def)
    moreover have "\<not> atEndOfBlock f"
      using more short sp block_left_0 [of f] by (auto simp: rd_stream_def df_size_def)
    ultimately have "df_size f + next_req_size f > df_fifoSize f" using rdy sp by (simp add: rd_ready_def fill_saturated_def)
    with next_req_size_bounds(2) [of f] short len show False by simp
  qed
  with rdy show ?thesis by (simp add: rd_ready_def head_open_def)
qed

text \<open>
  C31. A read FIFO never deadlocks its consumer: when a read of at most
  \<open>fifoSize - maxReqSize + 1\<close> bytes of the block is refused, the FIFO has a request in flight,
  and that request is unanswered, so an answer will come.
\<close>

theorem dma_read_fifo_not_stuck:
  assumes "0 < mr" and "mr \<le> fs" and "2 \<le> fs" and "fs < 2 ^ 31" and "0 < mp" and "unat sz + 1 < 2 ^ 32"
    and "startFill rb start sz (dma_fifo_new fs mr mp False cls) = Inr f0" and "rd_run m rb f0 ops = Inr (out, f')"
    and "tryGet rb len f' = Inr None" and "length out + len \<le> unat sz" and "len + mr \<le> fs + 1"
  shows "df_pending f' \<noteq> [] \<and> \<not> de_done (hd (df_pending f'))"
proof -
  have r: "rd_inv m 0 f'" "rd_ready f'" "out @ rd_stream m f' = mem_slice m start (unat sz)"
    "df_maxReqSize f' = mr" "df_fifoSize f' = fs"
    using rd_start_run [OF assms(1-6), of rb start cls m ops] assms(7,8) by auto
  have "df_size f' < len" using tryGet_inv [OF r(1), of len rb] assms(9) by (auto split: if_splits)
  moreover have "len \<le> length (rd_stream m f')" using r(3) assms(10) by (metis length_append length_mem_slice add_le_cancel_left)
  ultimately show ?thesis using rd_refusal_waits [OF r(1,2)] r(4,5) assms(11) by simp
qed

theorem dma_read_fifo_not_stuck_witness:
  "\<exists>f0. startFill (\<lambda>a n. []) 0x100 8 (dma_fifo_new 4 2 1 False 64) = Inr f0
    \<and> tryGet (\<lambda>a n. []) 1 f0 = Inr None \<and> df_pending f0 \<noteq> [] \<and> \<not> de_done (hd (df_pending f0))"
proof -
  obtain f0 where f0: "startFill (\<lambda>a n. []) 0x100 8 (dma_fifo_new 4 2 1 False 64) = Inr f0" "tryGet (\<lambda>a n. []) 1 f0 = Inr None"
    by (simp add: startFill_def resumeFill_def resumeFillTiming_def dma_fifo_new_def atEndOfBlock_def next_req_size_def
        de_reset_def DmaDoneEvent_def size_pending_def cq_size_def CircularQueue_def end_of_block_call_def tryGet_def Let_def)
  have "df_pending f0 \<noteq> [] \<and> \<not> de_done (hd (df_pending f0))"
    by (rule dma_read_fifo_not_stuck [OF _ _ _ _ _ _ f0(1) _ f0(2), where ops = "[]" and out = "[]" and m = "\<lambda>_. 0"]) simp_all
  with f0 show ?thesis by blast
qed

end
