(* ===== verification/Dma_Write_Fifo.thy ===== *)
theory Dma_Write_Fifo
  imports Dma_Read_Fifo
begin

text \<open>
  Correctness of \<open>DmaWriteFifo\<close>: the write requests it issues carry the bytes it was given, in
  order, to consecutive addresses of its block, and it finishes once the block is complete.
\<close>

section \<open>Invariant of the write FIFO\<close>

lemma empty_guard_iff:
  assumes "a < 2 ^ 40" "b < 2 ^ 40" "c < 2 ^ 40"
  shows "empty_guard a b c \<longleftrightarrow> a < b + c"
proof -
  let ?k = "int a - int b - int c"
  have "(of_nat a - of_nat b - of_nat c :: 64 word) = word_of_int ?k" by simp
  moreover have "sint (word_of_int ?k :: 64 word) = ?k"
  proof -
    have "signed_take_bit (LENGTH(64) - 1) ?k = ?k"
      by (rule signed_take_bit_int_eq_self) (use assms in simp_all)
    then show ?thesis by (simp only: sint_sbintrunc')
  qed
  ultimately show ?thesis by (simp only: empty_guard_def) auto
qed

text \<open>Write actions at consecutive addresses from \<open>a\<close>, and the bytes they carry.\<close>

fun acts_at :: "addr \<Rightarrow> dma_act list \<Rightarrow> bool" where
  "acts_at a [] \<longleftrightarrow> True"
| "acts_at a (x # xs) \<longleftrightarrow> da_cmd x = WriteReq \<and> da_addr x = a \<and> 0 < da_size x \<and> da_size x \<le> length (da_data x)
     \<and> acts_at (a + of_nat (da_size x)) xs"

definition acts_data :: "dma_act list \<Rightarrow> byte list" where
  "acts_data xs = concat (map (\<lambda>x. take (da_size x) (da_data x)) xs)"

lemma acts_data_simps [simp]:
  "acts_data [] = []" "acts_data (xs @ ys) = acts_data xs @ acts_data ys"
  "acts_data (x # xs) = take (da_size x) (da_data x) @ acts_data xs"
  by (simp_all add: acts_data_def)

lemma acts_at_append: "acts_at a (xs @ ys) \<longleftrightarrow> acts_at a xs \<and> acts_at (a + of_nat (length (acts_data xs))) ys"
  by (induction xs arbitrary: a) (auto simp: algebra_simps)

text \<open>
  \<open>wr_inv pre d0 L w n f\<close>: since the block of \<open>L\<close> bytes at \<open>d0\<close> was started, after the actions
  \<open>pre\<close>, the bytes \<open>w\<close> were filled in; the actions issued since carry the first of them to
  consecutive addresses and the buffer holds the rest.
\<close>

definition wr_inv :: "dma_act list \<Rightarrow> addr \<Rightarrow> nat \<Rightarrow> byte list \<Rightarrow> nat \<Rightarrow> dma_fifo \<Rightarrow> bool" where
  "wr_inv pre d0 L w n f \<longleftrightarrow> df_cfg f \<and> cq_wf n (df_buffer f) \<and> size_pending f \<le> df_fifoSize f
     \<and> (\<forall>e \<in> set (df_pending f). \<not> de_canceled e)
     \<and> (\<exists>acts. df_actions f = pre @ acts \<and> acts_at d0 acts \<and> acts_data acts @ cq_list (df_buffer f) = w
          \<and> df_nextAddr f = d0 + of_nat (length (acts_data acts)) \<and> length (acts_data acts) + block_left f = L)"

lemma wr_invI:
  assumes "df_cfg f" and "cq_wf n (df_buffer f)" and "size_pending f \<le> df_fifoSize f"
    and "\<forall>e \<in> set (df_pending f). \<not> de_canceled e" and "df_actions f = pre @ acts" and "acts_at d0 acts"
    and "acts_data acts @ cq_list (df_buffer f) = w" and "df_nextAddr f = d0 + of_nat (length (acts_data acts))"
    and "length (acts_data acts) + block_left f = L"
  shows "wr_inv pre d0 L w n f"
  using assms unfolding wr_inv_def by blast

lemma wr_invE:
  assumes "wr_inv pre d0 L w n f"
  obtains acts where "df_cfg f" and "cq_wf n (df_buffer f)" and "size_pending f \<le> df_fifoSize f"
    and "\<forall>e \<in> set (df_pending f). \<not> de_canceled e" and "df_actions f = pre @ acts" and "acts_at d0 acts"
    and "acts_data acts @ cq_list (df_buffer f) = w" and "df_nextAddr f = d0 + of_nat (length (acts_data acts))"
    and "length (acts_data acts) + block_left f = L"
  using assms unfolding wr_inv_def by blast

definition empty_saturated :: "dma_fifo \<Rightarrow> bool" where
  "empty_saturated f \<longleftrightarrow> df_free f = [] \<or> atEndOfBlock f \<or> df_size f < size_pending f + next_req_size f"

definition wr_ready :: "dma_fifo \<Rightarrow> bool" where
  "wr_ready f \<longleftrightarrow> df_drainState f = Running \<and> empty_saturated f \<and> head_open f"

lemma cq_cap_small: "cq_wf n q \<Longrightarrow> cq_capacity q < 2 ^ 31"
  by (simp add: cq_wf_def)

lemma wr_inv_issue:
  assumes inv: "wr_inv pre d0 L w n f" and fr: "df_free f = e # es" and eob: "\<not> atEndOfBlock f"
    and room: "size_pending f + next_req_size f \<le> df_size f"
    and e1: "e1 = e\<lparr> de_done := False, de_canceled := False, de_requestSize := next_req_size f \<rparr>"
    and f': "\<And>q d. f' q d = f\<lparr> df_free := es, df_buffer := q,
       df_actions := df_actions f @ [\<lparr> da_cmd = WriteReq, da_addr = df_nextAddr f, da_size = next_req_size f,
          da_event = de_id e1, da_data = d \<rparr>],
       df_nextAddr := df_nextAddr f + of_nat (next_req_size f), df_pending := df_pending f @ [e1\<lparr> de_data := d \<rparr>] \<rparr>"
  shows "\<exists>xs q d. fifo_read (df_buffer f) (next_req_size f) = Inr (xs, q) \<and> put_bytes 0 xs (de_data e1) = Inr d
    \<and> wr_inv pre d0 L w n (f' q d) \<and> size_pending (f' q d) = size_pending f + next_req_size f"
  using inv
proof (rule wr_invE)
  let ?r = "next_req_size f"
  fix acts
  assume cfg: "df_cfg f" and wf: "cq_wf n (df_buffer f)" and "size_pending f \<le> df_fifoSize f"
    and can: "\<forall>e \<in> set (df_pending f). \<not> de_canceled e" and act: "df_actions f = pre @ acts" "acts_at d0 acts"
    and w: "acts_data acts @ cq_list (df_buffer f) = w" and nx: "df_nextAddr f = d0 + of_nat (length (acts_data acts))"
    and L: "length (acts_data acts) + block_left f = L"
  have r: "0 < ?r" "?r \<le> block_left f" "?r \<le> df_maxReqSize f"
    using next_req_size_bounds [of f] cfg eob by (auto simp: df_cfg_def)
  have le: "?r \<le> length (cq_list (df_buffer f))" using room by (simp add: df_size_def)
  obtain q where q: "fifo_read (df_buffer f) ?r = Inr (take ?r (cq_list (df_buffer f)), q)" "cq_wf n q"
    "cq_list q = drop ?r (cq_list (df_buffer f))" "cq_capacity q = cq_capacity (df_buffer f)"
    using cq.rd_ok [OF wf le] by auto
  let ?xs = "take ?r (cq_list (df_buffer f))"
  have xs: "length ?xs = ?r" using le by simp
  have len: "length (de_data e1) = df_maxReqSize f" using cfg fr by (auto simp: df_cfg_def e1)
  define d where "d = ?xs @ drop ?r (de_data e1)"
  have d: "put_bytes 0 ?xs (de_data e1) = Inr d" "length d = df_maxReqSize f" "take ?r d = ?xs"
    using xs len r(3) by (simp_all add: put_bytes_def d_def)
  let ?x = "\<lparr> da_cmd = WriteReq, da_addr = df_nextAddr f, da_size = ?r, da_event = de_id e1, da_data = d \<rparr>"
  let ?f = "f' q d"
  have fld: "df_actions ?f = pre @ (acts @ [?x])" "df_buffer ?f = q" "df_fifoSize ?f = df_fifoSize f"
    "df_nextAddr ?f = df_nextAddr f + of_nat ?r" "df_pending ?f = df_pending f @ [e1\<lparr> de_data := d \<rparr>]"
    using act(1) by (simp_all add: f')
  have sp: "size_pending ?f = size_pending f + ?r" by (simp add: size_pending_def fld) (simp add: e1)
  have bl: "block_left ?f = block_left f - ?r" using r(2) by (simp add: block_left_def f' unat_sub_of_nat)
  have ad: "acts_data (acts @ [?x]) = acts_data acts @ ?xs" using d(3) by simp
  have "wr_inv pre d0 L w n ?f"
  proof (rule wr_invI [OF _ _ _ _ fld(1)])
    show "df_cfg ?f" using cfg fr q(4) d(2) by (auto simp: df_cfg_def f' e1)
    have "df_size f \<le> df_fifoSize f" using cfg cq_size_le [OF wf] by (simp add: df_cfg_def df_size_def)
    then show "size_pending ?f \<le> df_fifoSize ?f" using room by (simp add: sp fld)
    show "\<forall>e \<in> set (df_pending ?f). \<not> de_canceled e" using can by (auto simp: fld e1)
    show "acts_at d0 (acts @ [?x])" using act(2) nx r(1,3) d(2) by (simp add: acts_at_append)
    show "acts_data (acts @ [?x]) @ cq_list (df_buffer ?f) = w" using w by (simp only: ad fld q(3) append_assoc append_take_drop_id)
    show "df_nextAddr ?f = d0 + of_nat (length (acts_data (acts @ [?x])))" unfolding ad using nx xs by (simp add: fld)
    show "length (acts_data (acts @ [?x])) + block_left ?f = L" unfolding ad using L r(2) xs by (simp add: bl)
  qed (simp add: fld q(2))
  with q(1) d(1) sp show ?thesis by blast
qed

lemma empty_loop_inv:
  assumes "wr_inv pre d0 L w n f" and "df_free f = es" and "sp = size_pending f"
  shows "\<exists>f'. empty_loop sp es f = Inr f' \<and> wr_inv pre d0 L w n f' \<and> df_drainState f' = df_drainState f
    \<and> empty_saturated f' \<and> (head_open f \<longrightarrow> head_open f') \<and> same_cfg f f'"
  using assms
proof (induction es arbitrary: f sp)
  case Nil
  then show ?case by (simp add: empty_saturated_def)
next
  case (Cons e es)
  have small: "df_size f < 2 ^ 40" "sp < 2 ^ 40" "next_req_size f < 2 ^ 40" "df_cfg f"
  proof -
    have c: "df_cfg f" "cq_wf n (df_buffer f)" "size_pending f \<le> df_fifoSize f"
      using Cons.prems(1) by (auto elim: wr_invE)
    have "df_fifoSize f < 2 ^ 31" using c cq_cap_small [of n "df_buffer f"] by (simp add: df_cfg_def)
    moreover have "df_size f \<le> df_fifoSize f" "next_req_size f \<le> df_fifoSize f"
      using c cq_size_le [OF c(2)] next_req_size_bounds(2) [of f] by (simp_all add: df_cfg_def df_size_def)
    ultimately show "df_size f < 2 ^ 40" "sp < 2 ^ 40" "next_req_size f < 2 ^ 40" "df_cfg f"
      using c(1,3) Cons.prems(3) by simp_all
  qed
  have g: "empty_guard (cq_size (df_buffer f)) sp (next_req_size f) \<longleftrightarrow> df_size f < sp + next_req_size f"
    using empty_guard_iff [OF small(1-3)] by (simp add: df_size_def)
  consider "atEndOfBlock f" | "\<not> atEndOfBlock f" "df_size f < sp + next_req_size f"
    | "\<not> atEndOfBlock f" "sp + next_req_size f \<le> df_size f" by linarith
  then show ?case
  proof cases
    case 3
    let ?r = "next_req_size f"
    let ?e = "e\<lparr> de_done := False, de_canceled := False, de_requestSize := ?r \<rparr>"
    let ?f = "\<lambda>q d. f\<lparr> df_free := es, df_buffer := q,
       df_actions := df_actions f @ [\<lparr> da_cmd = WriteReq, da_addr = df_nextAddr f, da_size = ?r,
          da_event = de_id ?e, da_data = d \<rparr>],
       df_nextAddr := df_nextAddr f + of_nat ?r, df_pending := df_pending f @ [?e\<lparr> de_data := d \<rparr>] \<rparr>"
    have len: "?r \<le> length (de_data e)"
      using small(4) Cons.prems(2) next_req_size_bounds(2) [of f] by (auto simp: df_cfg_def)
    obtain xs q d where st: "fifo_read (df_buffer f) ?r = Inr (xs, q)" "put_bytes 0 xs (de_data ?e) = Inr d"
      "wr_inv pre d0 L w n (?f q d)" "size_pending (?f q d) = sp + ?r"
      using wr_inv_issue [OF Cons.prems(1,2) 3(1) _ refl, of ?f] 3(2) Cons.prems(3) by auto
    have "empty_loop sp (e # es) f = empty_loop (sp + ?r) es (?f q d)"
      using 3 len st(1,2) g by (simp add: de_reset_ok Let_def)
    moreover have "head_open f \<longrightarrow> head_open (?f q d)" by (cases "df_pending f") (auto simp: head_open_def)
    moreover have "same_cfg f (?f q d)" by (simp add: same_cfg_def)
    ultimately show ?thesis using st(4) Cons.IH [OF st(3)] by (auto intro: same_cfg_trans)
  qed (use Cons.prems g in \<open>auto simp: empty_saturated_def\<close>)
qed

lemma wr_inv_unaffected [simp]:
  "wr_inv pre d0 L w n (f\<lparr> df_drainState := ds \<rparr>) = wr_inv pre d0 L w n f"
  "wr_inv pre d0 L w n (f\<lparr> df_endOfBlockCalls := c \<rparr>) = wr_inv pre d0 L w n f"
  "wr_inv pre d0 L w n (f\<lparr> df_idleCalls := c \<rparr>) = wr_inv pre d0 L w n f"
  "empty_saturated (f\<lparr> df_drainState := ds \<rparr>) = empty_saturated f"
  "empty_saturated (f\<lparr> df_endOfBlockCalls := c \<rparr>) = empty_saturated f"
  "empty_saturated (f\<lparr> df_idleCalls := c \<rparr>) = empty_saturated f"
  by (simp_all add: wr_inv_def empty_saturated_def df_cfg_def size_pending_def block_left_def df_size_def
      atEndOfBlock_def next_req_size_def)

lemma resumeEmpty_inv:
  assumes "wr_inv pre d0 L w n f"
  shows "\<exists>f'. resumeEmpty rb f = Inr f' \<and> wr_inv pre d0 L w n f' \<and> same_cfg f f'
    \<and> (df_drainState f = Running \<and> head_open f \<longrightarrow> wr_ready f')"
proof -
  have "\<not> df_bypassCaches f" using assms by (simp add: wr_inv_def df_cfg_def)
  with assms empty_loop_inv [OF assms refl refl] show ?thesis
    by (auto simp: resumeEmpty_def resumeEmptyTiming_def end_of_block_call_def wr_ready_def same_cfg_def)
qed

lemma fill_inv:
  assumes inv: "wr_inv pre d0 L w (length xs + n) f" and room: "canFill (length xs) f"
  shows "\<exists>f'. fill rb xs f = Inr f' \<and> wr_inv pre d0 L (w @ xs) n f' \<and> same_cfg f f' \<and> (wr_ready f \<longrightarrow> wr_ready f')"
  using inv
proof (rule wr_invE)
  fix acts
  assume cfg: "df_cfg f" and wf: "cq_wf (length xs + n) (df_buffer f)" and sp: "size_pending f \<le> df_fifoSize f"
    and can: "\<forall>e \<in> set (df_pending f). \<not> de_canceled e" and act: "df_actions f = pre @ acts" "acts_at d0 acts"
    and w: "acts_data acts @ cq_list (df_buffer f) = w" and nx: "df_nextAddr f = d0 + of_nat (length (acts_data acts))"
    and L: "length (acts_data acts) + block_left f = L"
  have "length (cq_list (df_buffer f)) + length xs \<le> cq_capacity (df_buffer f)"
    using room cfg by (simp add: canFill_def df_cfg_def)
  then obtain q where q: "fifo_write (df_buffer f) xs = Inr q" "cq_wf n q" "cq_list q = cq_list (df_buffer f) @ xs"
    "cq_capacity q = cq_capacity (df_buffer f)"
    using cq.wr_ok [OF wf] by auto
  let ?f = "f\<lparr> df_buffer := q \<rparr>"
  have "wr_inv pre d0 L (w @ xs) n ?f"
    by (rule wr_invI [where acts = acts])
      (use cfg q sp can act w nx L in \<open>auto simp: df_cfg_def size_pending_def block_left_def\<close>)
  then obtain f' where "resumeEmpty rb ?f = Inr f'" "wr_inv pre d0 L (w @ xs) n f'" "same_cfg f f'" "wr_ready f \<longrightarrow> wr_ready f'"
    using resumeEmpty_inv [of pre d0 L "w @ xs" n ?f rb] by (auto simp: wr_ready_def head_open_def same_cfg_def)
  with q(1) room show ?thesis by (simp add: fill_def tryFill_def canFill_def)
qed

lemma wr_handle_loop_inv:
  assumes "wr_inv pre d0 L w n f" and "df_pending f = es"
  shows "\<exists>f'. wr_handle_loop es f = Inr f' \<and> wr_inv pre d0 L w n f' \<and> head_open f'
    \<and> df_drainState f' = df_drainState f \<and> same_cfg f f'"
  using assms
proof (induction es arbitrary: f)
  case Nil
  then show ?case by (simp add: head_open_def)
next
  case (Cons e es)
  show ?case
  proof (cases "de_done e")
    case True
    let ?f = "f\<lparr> df_pending := es, df_buffer := df_buffer f, df_free := df_free f @ [e] \<rparr>"
    have c: "\<not> de_canceled e" using Cons.prems by (auto elim: wr_invE)
    have "wr_inv pre d0 L w n ?f"
      using Cons.prems unfolding wr_inv_def
      by (auto simp: df_cfg_def size_pending_def block_left_def)
    with c True Cons.IH [of ?f] show ?thesis by (auto simp: same_cfg_def)
  qed (use Cons.prems in \<open>auto simp: head_open_def\<close>)
qed

lemma wr_process_inv:
  assumes inv: "wr_inv pre d0 L w n f" and i: "i < length (df_pending f)" "\<not> de_done (df_pending f ! i)"
  shows "\<exists>f'. wr_process rb i f = Inr f' \<and> wr_inv pre d0 L w n f' \<and> same_cfg f f' \<and> (wr_ready f \<longrightarrow> wr_ready f')"
proof -
  let ?e = "(df_pending f ! i)\<lparr> de_done := True \<rparr>"
  define f1 where "f1 = f\<lparr> df_pending := (df_pending f)[i := ?e] \<rparr>"
  have mark: "df_mark_done i f = Inr f1" using i by (simp add: df_mark_done_def f1_def)
  have same: "size_pending f1 = size_pending f" "block_left f1 = block_left f"
    using i(1) by (simp_all add: size_pending_def block_left_def f1_def sum_list_update_same)
  have mem: "e \<in> set (df_pending f1) \<Longrightarrow> e = ?e \<or> e \<in> set (df_pending f)" for e
    by (auto simp: f1_def dest!: set_update_subset_insert [THEN subsetD])
  have nth: "df_pending f ! i \<in> set (df_pending f)" using i(1) by simp
  have inv1: "wr_inv pre d0 L w n f1"
    using inv
  proof (rule wr_invE)
    fix acts
    assume cfg: "df_cfg f" and wf: "cq_wf n (df_buffer f)" and sp: "size_pending f \<le> df_fifoSize f"
      and can: "\<forall>e \<in> set (df_pending f). \<not> de_canceled e" and act: "df_actions f = pre @ acts" "acts_at d0 acts"
      and w: "acts_data acts @ cq_list (df_buffer f) = w" "df_nextAddr f = d0 + of_nat (length (acts_data acts))"
      and L: "length (acts_data acts) + block_left f = L"
    show ?thesis
    proof (rule wr_invI [where acts = acts])
      have "\<forall>e \<in> set (df_pending f1). length (de_data e) = df_maxReqSize f"
        using cfg nth mem by (fastforce simp: df_cfg_def)
      then show "df_cfg f1" using cfg i(1) by (auto simp: df_cfg_def f1_def)
      show "\<forall>e \<in> set (df_pending f1). \<not> de_canceled e" using can nth mem by fastforce
    qed (use wf sp act w L same in \<open>simp_all add: f1_def\<close>)
  qed
  obtain f2 where f2: "wr_handle_loop (df_pending f1) f1 = Inr f2" "wr_inv pre d0 L w n f2" "head_open f2"
    "df_drainState f2 = df_drainState f1" "same_cfg f1 f2"
    using wr_handle_loop_inv [OF inv1 refl] by blast
  define f3 where "f3 = (if df_pending f2 = [] then signalDrainDone f2 else f2)"
  have f3: "wr_inv pre d0 L w n f3" "head_open f3" "wr_ready f \<longrightarrow> df_drainState f3 = Running" "same_cfg f f3"
    using f2 by (auto simp: f3_def signalDrainDone_def wr_ready_def f1_def same_cfg_def)
  have "wr_process rb i f = bind_res (resumeEmpty rb f3) (\<lambda>f4. Inr (idle_call (isActive f1) f4))"
    using f2(1) by (simp add: wr_process_def mark wr_dmaDone_def wr_handlePending_def f3_def)
  with resumeEmpty_inv [OF f3(1), of rb] f3 show ?thesis
    by (auto simp: idle_call_def wr_ready_def same_cfg_def)
qed

lemma startEmpty_inv:
  assumes cfg: "df_cfg f" and wf: "cq_wf n (df_buffer f)" and idle: "\<not> isActive f"
  shows "\<exists>f'. startEmpty rb start sz f = Inr f' \<and> wr_inv (df_actions f) start (unat sz) (cq_list (df_buffer f)) n f'
    \<and> same_cfg f f' \<and> (df_drainState f = Running \<longrightarrow> wr_ready f')"
proof -
  let ?f = "f\<lparr> df_nextAddr := start, df_endAddr := start + sz \<rparr>"
  have p: "df_pending f = []" "atEndOfBlock f" using idle by (auto simp: isActive_def)
  have "wr_inv (df_actions f) start (unat sz) (cq_list (df_buffer f)) n ?f"
    by (rule wr_invI [where acts = "[]"])
      (use cfg wf p in \<open>auto simp: size_pending_def block_left_def df_cfg_def\<close>)
  then show ?thesis using p resumeEmpty_inv [of "df_actions f" start "unat sz" "cq_list (df_buffer f)" n ?f rb]
    by (simp add: startEmpty_def head_open_def same_cfg_def)
qed

text \<open>The bytes filled in since the actions numbered below \<open>k\<close>: those sent, then those buffered.\<close>

definition wr_filled :: "nat \<Rightarrow> dma_fifo \<Rightarrow> byte list" where
  "wr_filled k f = acts_data (drop k (df_actions f)) @ cq_list (df_buffer f)"

lemma wr_inv_filled: "wr_inv pre d0 L w n f \<Longrightarrow> w = wr_filled (length pre) f"
  by (auto simp: wr_inv_def wr_filled_def)

lemma wr_inv_mono: "wr_inv pre d0 L w n f \<Longrightarrow> k \<le> n \<Longrightarrow> wr_inv pre d0 L w k f"
  unfolding wr_inv_def using cq_wf_mono by blast

lemma wr_inv_sent:
  assumes "wr_inv pre d0 L w n f"
  shows "df_actions f = pre @ drop (length pre) (df_actions f)" "acts_at d0 (drop (length pre) (df_actions f))"
    "acts_data (drop (length pre) (df_actions f)) @ cq_list (df_buffer f) = w"
    "length (acts_data (drop (length pre) (df_actions f))) + block_left f = L"
  using assms by (auto simp: wr_inv_def)

datatype wr_op = WFill "byte list" | WAnswer nat

fun wr_run :: "(addr \<Rightarrow> nat \<Rightarrow> byte list) \<Rightarrow> dma_fifo \<Rightarrow> wr_op list \<Rightarrow> (byte list \<times> dma_fifo) result" where
  "wr_run rb f [] = Inr ([], f)"
| "wr_run rb f (WFill xs # ops) =
     bind_res (tryFill rb xs f) (\<lambda>r. case r of
       None \<Rightarrow> wr_run rb f ops
     | Some f' \<Rightarrow> bind_res (wr_run rb f' ops) (\<lambda>(ys, f''). Inr (xs @ ys, f'')))"
| "wr_run rb f (WAnswer i # ops) =
     (if i < length (df_pending f) \<and> \<not> de_done (df_pending f ! i)
      then bind_res (wr_process rb i f) (\<lambda>f'. wr_run rb f' ops)
      else wr_run rb f ops)"

fun wr_offered :: "wr_op list \<Rightarrow> nat" where
  "wr_offered [] = 0"
| "wr_offered (WFill xs # ops) = length xs + wr_offered ops"
| "wr_offered (WAnswer i # ops) = wr_offered ops"

lemma tryFill_cases:
  assumes inv: "wr_inv pre d0 L w (length xs + n) f"
  shows "if canFill (length xs) f
    then \<exists>f'. tryFill rb xs f = Inr (Some f') \<and> wr_inv pre d0 L (w @ xs) n f' \<and> same_cfg f f' \<and> (wr_ready f \<longrightarrow> wr_ready f')
    else tryFill rb xs f = Inr None"
  using fill_inv [OF inv, of rb]
  by (auto simp: fill_def tryFill_def canFill_def bind_res_eq_Inr_iff split: option.splits)

lemma wr_run_inv:
  "wr_inv pre d0 L w (wr_offered ops + n) f \<Longrightarrow> wr_ready f \<Longrightarrow> \<exists>acc f'. wr_run rb f ops = Inr (acc, f')
     \<and> wr_inv pre d0 L (w @ acc) n f' \<and> wr_ready f' \<and> same_cfg f f'"
proof (induction ops arbitrary: f w)
  case (Cons p ops)
  show ?case
  proof (cases p)
    case (WFill xs)
    have inv: "wr_inv pre d0 L w (length xs + (wr_offered ops + n)) f" using Cons.prems(1) WFill by (simp add: add.assoc)
    show ?thesis
    proof (cases "canFill (length xs) f")
      case True
      then obtain f1 where f1: "tryFill rb xs f = Inr (Some f1)" "wr_inv pre d0 L (w @ xs) (wr_offered ops + n) f1"
        "wr_ready f1" "same_cfg f f1"
        using tryFill_cases [OF inv, of rb] Cons.prems(2) by auto
      with Cons.IH [OF f1(2,3)] WFill show ?thesis by (auto intro: same_cfg_trans)
    next
      case False
      then have "wr_run rb f (p # ops) = wr_run rb f ops" using tryFill_cases [OF inv, of rb] WFill by simp
      with Cons.IH [OF wr_inv_mono [OF inv] Cons.prems(2)] show ?thesis by auto
    qed
  next
    case (WAnswer i)
    show ?thesis
    proof (cases "i < length (df_pending f) \<and> \<not> de_done (df_pending f ! i)")
      case True
      then obtain f1 where f1: "wr_process rb i f = Inr f1" "wr_inv pre d0 L w (wr_offered ops + n) f1"
        "wr_ready f1" "same_cfg f f1"
        using wr_process_inv [of pre d0 L w "wr_offered ops + n" f i rb] Cons.prems WAnswer by auto
      with Cons.IH [OF f1(2,3)] True WAnswer show ?thesis by (auto intro: same_cfg_trans)
    qed (use Cons WAnswer in auto)
  qed
qed simp

lemma wr_start_run:
  assumes "0 < mr" and "mr \<le> fs" and "2 \<le> fs" and "fs < 2 ^ 31" and "0 < mp" and "wr_offered ops + 1 < 2 ^ 32"
  shows "\<exists>f0 acc f'. startEmpty rb start sz (dma_fifo_new fs mr mp False cls) = Inr f0
    \<and> wr_run rb f0 ops = Inr (acc, f') \<and> wr_inv [] start (unat sz) acc 0 f' \<and> wr_ready f'
    \<and> df_maxReqSize f' = mr \<and> df_fifoSize f' = fs"
proof -
  let ?f = "dma_fifo_new fs mr mp False cls"
  have b: "df_buffer ?f = CircularQueue 0 fs" "df_drainState ?f = Running" "df_maxReqSize ?f = mr" "df_fifoSize ?f = fs"
    "df_actions ?f = []"
    by (simp_all add: dma_fifo_new_def)
  have "cq_wf (wr_offered ops + 0) (df_buffer ?f)" unfolding b using assms by (intro cq_wf_new) simp_all
  then obtain f0 where f0: "startEmpty rb start sz ?f = Inr f0" "wr_inv [] start (unat sz) [] (wr_offered ops + 0) f0"
    "wr_ready f0" "same_cfg ?f f0"
    using startEmpty_inv [of ?f "wr_offered ops + 0" rb start sz] dma_fifo_new_cfg(1) [of mr fs mp cls] dma_fifo_new_cfg(2) assms b by auto
  from wr_run_inv [OF f0(2,3), of rb] f0 b show ?thesis by (auto simp: same_cfg_def)
qed

text \<open>
  C12. A write FIFO stores the bytes it was given, in order and once: for every interleaving of
  fills and memory answers no operation fails, the write requests issued go to consecutive
  addresses from the start of the block and carry, with the buffered rest, exactly the bytes
  accepted; when the FIFO is idle the requests cover the block to its last byte.
\<close>

theorem dma_write_fifo_in_order:
  assumes "0 < mr" and "mr \<le> fs" and "2 \<le> fs" and "fs < 2 ^ 31" and "0 < mp" and "wr_offered ops + 1 < 2 ^ 32"
  shows "\<exists>f0 acc f'. startEmpty rb start sz (dma_fifo_new fs mr mp False cls) = Inr f0
    \<and> wr_run rb f0 ops = Inr (acc, f') \<and> acts_at start (df_actions f')
    \<and> acts_data (df_actions f') @ cq_list (df_buffer f') = acc
    \<and> (\<not> isActive f' \<longrightarrow> length (acts_data (df_actions f')) = unat sz)"
proof -
  obtain f0 acc f' where r: "startEmpty rb start sz (dma_fifo_new fs mr mp False cls) = Inr f0"
    "wr_run rb f0 ops = Inr (acc, f')" "wr_inv [] start (unat sz) acc 0 f'"
    using wr_start_run [OF assms, of rb start sz cls] by blast
  with wr_inv_sent [OF r(3)] block_left_0 [of f'] show ?thesis by (auto simp: isActive_def)
qed

theorem dma_write_fifo_in_order_witness:
  "\<exists>f0 acc f'. startEmpty (\<lambda>a n. []) 0x200 12 (dma_fifo_new 16 8 2 False 64) = Inr f0
    \<and> wr_run (\<lambda>a n. []) f0 [WFill [1, 2, 3, 4, 5, 6, 7, 8, 9, 10], WAnswer 0, WFill [11, 12], WAnswer 0] = Inr (acc, f')
    \<and> acts_at 0x200 (df_actions f') \<and> acts_data (df_actions f') @ cq_list (df_buffer f') = acc
    \<and> (\<not> isActive f' \<longrightarrow> length (acts_data (df_actions f')) = unat (12 :: addr))"
  by (rule dma_write_fifo_in_order) simp_all

lemma wr_active_waits:
  assumes inv: "wr_inv pre d0 L w n f" and rdy: "wr_ready f" and full: "L \<le> length w" and act: "isActive f"
  shows "df_pending f \<noteq> [] \<and> \<not> de_done (hd (df_pending f))"
proof -
  have "df_pending f \<noteq> []"
  proof
    assume p: "df_pending f = []"
    then have eob: "\<not> atEndOfBlock f" and sp: "size_pending f = 0" using act by (simp_all add: isActive_def size_pending_def)
    have "df_free f \<noteq> []" using inv p by (auto simp: wr_inv_def df_cfg_def)
    then have "df_size f < next_req_size f" using rdy eob sp by (simp add: wr_ready_def empty_saturated_def)
    moreover have "block_left f \<le> df_size f"
    proof -
      have "length (acts_data (drop (length pre) (df_actions f))) + df_size f = length w"
        using arg_cong [OF wr_inv_sent(3) [OF inv], of length] by (simp add: df_size_def)
      with wr_inv_sent(4) [OF inv] full show ?thesis by simp
    qed
    ultimately show False using next_req_size_bounds(1) [of f] by simp
  qed
  with rdy show ?thesis by (simp add: wr_ready_def head_open_def)
qed

text \<open>
  C32. A write FIFO that has been given its whole block always finishes: as long as it is active
  a request of it is in flight and unanswered, so the last answer leaves it idle.
\<close>

theorem dma_write_fifo_finishes:
  assumes "0 < mr" and "mr \<le> fs" and "2 \<le> fs" and "fs < 2 ^ 31" and "0 < mp" and "wr_offered ops + 1 < 2 ^ 32"
    and "startEmpty rb start sz (dma_fifo_new fs mr mp False cls) = Inr f0" and "wr_run rb f0 ops = Inr (acc, f')"
    and "unat sz \<le> length acc" and "isActive f'"
  shows "df_pending f' \<noteq> [] \<and> \<not> de_done (hd (df_pending f'))"
proof -
  have "wr_inv [] start (unat sz) acc 0 f'" "wr_ready f'"
    using wr_start_run [OF assms(1-6), of rb start sz cls] assms(7,8) by auto
  then show ?thesis using wr_active_waits assms(9,10) by blast
qed

lemma demo_write_run:
  "\<exists>f0 f'. startEmpty (\<lambda>a n. []) 0x200 2 (dma_fifo_new 3 2 1 False 64) = Inr f0
    \<and> wr_run (\<lambda>a n. []) f0 [WFill [7, 9]] = Inr ([7, 9], f') \<and> df_pending f' \<noteq> []"
proof -
  let ?f = "dma_fifo_new 3 2 1 False 64"
  have g: "empty_guard 0 0 2" "\<not> empty_guard 2 0 2" by (simp_all add: empty_guard_iff)
  obtain f0 where f0: "startEmpty (\<lambda>a n. []) 0x200 2 ?f = Inr f0" "f0 = ?f\<lparr> df_nextAddr := 0x200, df_endAddr := 0x202 \<rparr>"
    using g(1) by (simp add: startEmpty_def resumeEmpty_def resumeEmptyTiming_def dma_fifo_new_def atEndOfBlock_def
        next_req_size_def DmaDoneEvent_def size_pending_def cq_size_def CircularQueue_def end_of_block_call_def Let_def)
  have "cq_wf (length [7, 9 :: byte] + 0) (df_buffer f0)" by (simp add: f0(2) dma_fifo_new_def cq_wf_new)
  then obtain q where q: "fifo_write (df_buffer f0) [7, 9] = Inr q" "cq_wf 0 q" "cq_list q = [7, 9]"
    using cq.wr_ok [of "[7, 9 :: byte]" 0 "df_buffer f0"] by (auto simp: f0(2) dma_fifo_new_def CircularQueue_def cq_list_def cq_size_def)
  have sz: "cq_size q = 2" using q(3) length_cq_list [of q] by simp
  obtain q2 where q2: "fifo_read q 2 = Inr ([7, 9], q2)" using cq.rd_ok [OF q(2), of 2] q(3) by auto
  have "\<exists>f'. wr_run (\<lambda>a n. []) f0 [WFill [7, 9]] = Inr ([7, 9], f') \<and> df_pending f' \<noteq> []"
    using q(1) q2 sz g(2)
    by (simp add: tryFill_def f0(2) dma_fifo_new_def resumeEmpty_def resumeEmptyTiming_def atEndOfBlock_def
        next_req_size_def DmaDoneEvent_def size_pending_def de_reset_def put_bytes_def end_of_block_call_def Let_def
        CircularQueue_def cq_size_def)
  with f0 show ?thesis by blast
qed

theorem dma_write_fifo_finishes_witness:
  "\<exists>f0 f'. startEmpty (\<lambda>a n. []) 0x200 2 (dma_fifo_new 3 2 1 False 64) = Inr f0
    \<and> wr_run (\<lambda>a n. []) f0 [WFill [7, 9]] = Inr ([7, 9], f') \<and> df_pending f' \<noteq> [] \<and> \<not> de_done (hd (df_pending f'))"
proof -
  obtain f0 f' where r: "startEmpty (\<lambda>a n. []) 0x200 2 (dma_fifo_new 3 2 1 False 64) = Inr f0"
    "wr_run (\<lambda>a n. []) f0 [WFill [7, 9]] = Inr ([7, 9], f')" "df_pending f' \<noteq> []"
    using demo_write_run by blast
  from dma_write_fifo_finishes [OF _ _ _ _ _ _ r(1,2)] r show ?thesis by (auto simp: isActive_def)
qed

end
