(* ===== verification/Dma_Copy.thy ===== *)
theory Dma_Copy
  imports Dma_Write_Fifo
begin

text \<open>
  The contract between a DMA device and its two FIFOs, as locales: a byte source, a byte
  sink, and the copy step between them. The read and the write FIFO are shown to meet it.
\<close>

section \<open>Sources, sinks and the copy between them\<close>

text \<open>
  What a DMA device relies on: a source that hands out a fixed stream in order, or nothing,
  and a sink that keeps what it is given. A device moves bytes from one to the other in
  steps; the bytes already in the sink followed by those still in the source never change.
\<close>

definition copy_step ::
  "(nat \<Rightarrow> 'f \<Rightarrow> (byte list \<times> 'f) option result) \<Rightarrow> (nat \<Rightarrow> 'g \<Rightarrow> bool) \<Rightarrow> (byte list \<Rightarrow> 'g \<Rightarrow> 'g result) \<Rightarrow>
   nat \<Rightarrow> 'f \<Rightarrow> 'g \<Rightarrow> (bool \<times> 'f \<times> 'g) result" where
  "copy_step try_get can put len f g =
     (if can len g
      then bind_res (try_get len f) (\<lambda>r. case r of
             None \<Rightarrow> Inr (False, f, g)
           | Some (xs, f') \<Rightarrow> bind_res (put xs g) (\<lambda>g'. Inr (True, f', g')))
      else Inr (False, f, g))"

locale byte_source =
  fixes sinv :: "'f \<Rightarrow> bool" and stream :: "'f \<Rightarrow> byte list"
    and try_get :: "nat \<Rightarrow> 'f \<Rightarrow> (byte list \<times> 'f) option result"
  assumes get_some: "sinv f \<Longrightarrow> try_get len f = Inr None \<or> (len \<le> length (stream f) \<and>
      (\<exists>f'. try_get len f = Inr (Some (take len (stream f), f')) \<and> sinv f' \<and> stream f' = drop len (stream f)))"

locale byte_sink =
  fixes kinv :: "nat \<Rightarrow> 'g \<Rightarrow> bool" and filled :: "'g \<Rightarrow> byte list"
    and can :: "nat \<Rightarrow> 'g \<Rightarrow> bool" and put :: "byte list \<Rightarrow> 'g \<Rightarrow> 'g result"
  assumes kinv_mono: "kinv n g \<Longrightarrow> k \<le> n \<Longrightarrow> kinv k g"
    and put_ok: "kinv (length xs + n) g \<Longrightarrow> can (length xs) g \<Longrightarrow>
      \<exists>g'. put xs g = Inr g' \<and> kinv n g' \<and> filled g' = filled g @ xs"

locale byte_copy = byte_source + byte_sink
begin

lemma copy_conserves:
  assumes "sinv f" and "kinv (len + n) g"
  shows "\<exists>b f' g'. copy_step try_get can put len f g = Inr (b, f', g') \<and> sinv f' \<and> kinv n g'
    \<and> filled g' @ stream f' = filled g @ stream f
    \<and> length (stream f') = length (stream f) - (if b then len else 0) \<and> (b \<longrightarrow> len \<le> length (stream f))
    \<and> (b \<longrightarrow> can len g) \<and> (\<not> b \<longrightarrow> f' = f \<and> g' = g)"
proof (cases "can len g \<and> try_get len f \<noteq> Inr None")
  case True
  then obtain f' where f': "len \<le> length (stream f)" "try_get len f = Inr (Some (take len (stream f), f'))" "sinv f'"
    "stream f' = drop len (stream f)"
    using get_some [OF assms(1), of len] by auto
  have "length (take len (stream f)) = len" using f'(1) by simp
  then obtain g' where "put (take len (stream f)) g = Inr g'" "kinv n g'" "filled g' = filled g @ take len (stream f)"
    using put_ok [of "take len (stream f)" n g] True assms(2) by auto
  with f' True show ?thesis by (auto simp: copy_step_def)
next
  case False
  then show ?thesis using assms kinv_mono [OF assms(2), of n] by (auto simp: copy_step_def)
qed

end

text \<open>The read and the write FIFO, with their configuration fixed and all their duties done.\<close>

definition rd_live :: "(addr \<Rightarrow> byte) \<Rightarrow> nat \<Rightarrow> nat \<Rightarrow> nat \<Rightarrow> dma_fifo \<Rightarrow> bool" where
  "rd_live m n mr fs f \<longleftrightarrow> rd_inv m n f \<and> rd_ready f \<and> df_maxReqSize f = mr \<and> df_fifoSize f = fs"

definition wr_live :: "dma_act list \<Rightarrow> addr \<Rightarrow> nat \<Rightarrow> nat \<Rightarrow> nat \<Rightarrow> nat \<Rightarrow> dma_fifo \<Rightarrow> bool" where
  "wr_live pre d0 L mr fs n f \<longleftrightarrow> wr_inv pre d0 L (wr_filled (length pre) f) n f \<and> wr_ready f
     \<and> df_maxReqSize f = mr \<and> df_fifoSize f = fs"

lemma rd_live_answer:
  "rd_live m n mr fs f \<Longrightarrow> i < length (df_pending f) \<Longrightarrow> \<not> de_done (df_pending f ! i) \<Longrightarrow>
   \<exists>f'. rd_answer m rb i f = Inr f' \<and> rd_live m n mr fs f' \<and> rd_stream m f' = rd_stream m f"
  using rd_answer_inv [of m n f i rb] by (auto simp: rd_live_def same_cfg_def)

lemma wr_live_answer:
  "wr_live pre d0 L mr fs n f \<Longrightarrow> i < length (df_pending f) \<Longrightarrow> \<not> de_done (df_pending f ! i) \<Longrightarrow>
   \<exists>f'. wr_process rb i f = Inr f' \<and> wr_live pre d0 L mr fs n f' \<and> wr_filled (length pre) f' = wr_filled (length pre) f"
  using wr_process_inv [of pre d0 L "wr_filled (length pre) f" n f i rb] wr_inv_filled
  unfolding wr_live_def same_cfg_def by metis

lemma rd_live_waits:
  assumes live: "rd_live m n mr fs f" and "df_size f < len" and "len \<le> length (rd_stream m f)" and "len + mr \<le> fs + 1"
  shows "df_pending f \<noteq> [] \<and> \<not> de_done (hd (df_pending f))"
  using rd_refusal_waits [of m n f len] assms by (simp add: rd_live_def)

lemma wr_live_waits:
  assumes live: "wr_live pre d0 L mr fs n f" and full: "\<not> canFill len f" and len: "len + mr \<le> fs + 1"
    and more: "length (wr_filled (length pre) f) < L"
  shows "df_pending f \<noteq> [] \<and> \<not> de_done (hd (df_pending f))"
proof -
  have inv: "wr_inv pre d0 L (wr_filled (length pre) f) n f" and rdy: "wr_ready f" using live by (auto simp: wr_live_def)
  have "df_pending f \<noteq> []"
  proof
    assume p: "df_pending f = []"
    then have sp: "size_pending f = 0" by (simp add: size_pending_def)
    have "df_free f \<noteq> []" using inv p by (auto simp: wr_inv_def df_cfg_def)
    moreover have "\<not> atEndOfBlock f"
      using wr_inv_sent(3,4) [OF inv] more block_left_0 [of f] by (auto simp: wr_filled_def)
    ultimately have "df_size f < next_req_size f" using rdy sp by (simp add: wr_ready_def empty_saturated_def)
    with next_req_size_bounds(2) [of f] full len live show False by (simp add: canFill_def df_size_def wr_live_def)
  qed
  with rdy show ?thesis by (simp add: wr_ready_def head_open_def)
qed

interpretation rdf: byte_source "rd_live m n mr fs" "rd_stream m" "tryGet rb" for m n mr fs rb
proof
  fix f len
  assume live: "rd_live m n mr fs f"
  then have inv: "rd_inv m n f" by (simp add: rd_live_def)
  have "df_size f \<le> length (rd_stream m f)" by (simp add: rd_stream_def df_size_def)
  with tryGet_inv [OF inv, of len rb] live
  show "tryGet rb len f = Inr None \<or> (len \<le> length (rd_stream m f) \<and>
      (\<exists>f'. tryGet rb len f = Inr (Some (take len (rd_stream m f), f')) \<and> rd_live m n mr fs f' \<and> rd_stream m f' = drop len (rd_stream m f)))"
    by (cases "df_size f < len") (auto simp: rd_live_def same_cfg_def)
qed

interpretation wrf: byte_sink "wr_live pre d0 L mr fs" "wr_filled (length pre)" canFill "fill rb" for pre d0 L mr fs rb
proof (unfold_locales, goal_cases)
  case (1 n g k)
  then show ?case by (auto simp: wr_live_def wr_inv_mono)
next
  case (2 xs n g)
  then obtain g' where g': "fill rb xs g = Inr g'" "wr_inv pre d0 L (wr_filled (length pre) g @ xs) n g'" "same_cfg g g'" "wr_ready g'"
    using fill_inv [of pre d0 L "wr_filled (length pre) g" xs n g rb] by (auto simp: wr_live_def)
  with 2 wr_inv_filled [OF g'(2)] show ?case by (auto simp: wr_live_def same_cfg_def)
qed

interpretation dma_copy: byte_copy "rd_live m n mr fs" "rd_stream m" "tryGet rb"
    "wr_live pre d0 L mr fs" "wr_filled (length pre)" canFill "fill rb"
  for m n mr fs rb pre d0 L
  by unfold_locales

end
