(* ===== verification/Noncoherent_Dma.thy ===== *)
theory Noncoherent_Dma
  imports Dma_Copy
begin

text \<open>
  The memory-to-memory DMA engine of \<open>src/hwacc/noncoherent_dma.cc\<close>: a register file with
  flags, source, destination and length, a tick that starts a transfer, moves data from the
  active read FIFO to the active write FIFO and raises an interrupt at the end. The engine
  sits between system memory and an accelerator cluster, so each direction has a FIFO per
  side, chosen by address.
\<close>

unbundle bit_operations_syntax

datatype side = MemSide | AccSide

datatype gic_call = SendInt nat | ClearInt nat

record noncoherent_dma =
  nd_memSideReadFifo :: dma_fifo
  nd_accSideReadFifo :: dma_fifo
  nd_readFifo :: "side option"
  nd_memSideWriteFifo :: dma_fifo
  nd_accSideWriteFifo :: dma_fifo
  nd_writeFifo :: "side option"
  nd_pioAddr :: addr
  nd_pioDelay :: tick
  nd_pioSize :: addr
  nd_maxReqSize :: nat
  nd_intNum :: nat
  nd_clock_period :: nat
  nd_mmreg :: "byte list"
  nd_last_flag :: byte
  nd_activeSrc :: addr
  nd_activeDst :: addr
  nd_writesLeft :: int
  nd_running :: bool
  nd_tickEvent :: event
  nd_gic :: "gic_call list"
  nd_accPortRanges :: addr_range_list

text \<open>\<open>last_flag\<close> and the transfer variables are not initialised by the constructor; they are arguments.\<close>

definition NoncoherentDma :: "addr \<Rightarrow> tick \<Rightarrow> addr \<Rightarrow> nat \<Rightarrow> nat \<Rightarrow> nat \<Rightarrow> nat \<Rightarrow> nat \<Rightarrow> addr_range_list \<Rightarrow>
    bool \<Rightarrow> nat \<Rightarrow> byte \<Rightarrow> addr \<Rightarrow> addr \<Rightarrow> int \<Rightarrow> noncoherent_dma" where
  "NoncoherentDma pioAddr pioDelay pioSize bufferSize maxPending maxReqSize intNum period accRanges bypass cls flag0 src0 dst0 left0 =
     (let ff = dma_fifo_new (bufferSize div 2) maxReqSize maxPending bypass cls
      in \<lparr> nd_memSideReadFifo = ff, nd_accSideReadFifo = ff, nd_readFifo = None,
           nd_memSideWriteFifo = ff, nd_accSideWriteFifo = ff, nd_writeFifo = None,
           nd_pioAddr = pioAddr, nd_pioDelay = pioDelay, nd_pioSize = pioSize, nd_maxReqSize = maxReqSize,
           nd_intNum = intNum, nd_clock_period = period, nd_mmreg = replicate (unat pioSize) 0,
           nd_last_flag = flag0, nd_activeSrc = src0, nd_activeDst = dst0, nd_writesLeft = left0,
           nd_running = False, nd_tickEvent = None, nd_gic = [], nd_accPortRanges = accRanges \<rparr>)"

definition nd_getAddrRanges :: "noncoherent_dma \<Rightarrow> addr_range_list result" where
  "nd_getAddrRanges s =
     bind_res (assert_that (nd_pioSize s \<noteq> 0) ''pioSize != 0'') (\<lambda>_. Inr [RangeSize (nd_pioAddr s) (nd_pioSize s)])"

definition getActiveReadFifo :: "noncoherent_dma \<Rightarrow> side" where
  "getActiveReadFifo s = (if ranges_contain (nd_accPortRanges s) (nd_activeSrc s) then AccSide else MemSide)"

definition getActiveWriteFifo :: "noncoherent_dma \<Rightarrow> side" where
  "getActiveWriteFifo s = (if ranges_contain (nd_accPortRanges s) (nd_activeDst s) then AccSide else MemSide)"

text \<open>The FIFO a side names, and storing it back.\<close>

definition nd_rd :: "side \<Rightarrow> noncoherent_dma \<Rightarrow> dma_fifo" where
  "nd_rd sd s = (case sd of MemSide \<Rightarrow> nd_memSideReadFifo s | AccSide \<Rightarrow> nd_accSideReadFifo s)"

definition nd_wr :: "side \<Rightarrow> noncoherent_dma \<Rightarrow> dma_fifo" where
  "nd_wr sd s = (case sd of MemSide \<Rightarrow> nd_memSideWriteFifo s | AccSide \<Rightarrow> nd_accSideWriteFifo s)"

definition nd_set_rd :: "side \<Rightarrow> dma_fifo \<Rightarrow> noncoherent_dma \<Rightarrow> noncoherent_dma" where
  "nd_set_rd sd f s = (case sd of MemSide \<Rightarrow> s\<lparr> nd_memSideReadFifo := f \<rparr> | AccSide \<Rightarrow> s\<lparr> nd_accSideReadFifo := f \<rparr>)"

definition nd_set_wr :: "side \<Rightarrow> dma_fifo \<Rightarrow> noncoherent_dma \<Rightarrow> noncoherent_dma" where
  "nd_set_wr sd f s = (case sd of MemSide \<Rightarrow> s\<lparr> nd_memSideWriteFifo := f \<rparr> | AccSide \<Rightarrow> s\<lparr> nd_accSideWriteFifo := f \<rparr>)"

text \<open>The registers: flags at 0, source at 1, destination at 9, length (a signed int) at 17.\<close>

definition nd_FLAGS :: "noncoherent_dma \<Rightarrow> byte" where
  "nd_FLAGS s = hd (nd_mmreg s)"

definition nd_set_FLAGS :: "byte \<Rightarrow> noncoherent_dma \<Rightarrow> noncoherent_dma" where
  "nd_set_FLAGS b s = s\<lparr> nd_mmreg := (nd_mmreg s)[0 := b] \<rparr>"

definition nd_SRC :: "noncoherent_dma \<Rightarrow> addr result" where
  "nd_SRC s = bind_res (get_bytes 1 8 (nd_mmreg s)) (\<lambda>bs. Inr (word_of_nat (le_val bs)))"

definition nd_DST :: "noncoherent_dma \<Rightarrow> addr result" where
  "nd_DST s = bind_res (get_bytes 9 8 (nd_mmreg s)) (\<lambda>bs. Inr (word_of_nat (le_val bs)))"

definition nd_LEN :: "noncoherent_dma \<Rightarrow> int result" where
  "nd_LEN s = bind_res (get_bytes 17 4 (nd_mmreg s)) (\<lambda>bs. Inr (s32 (int (le_val bs))))"

text \<open>The first part of \<open>tick\<close>: a start bit on an idle engine starts a transfer.\<close>

definition nd_start :: "(addr \<Rightarrow> nat \<Rightarrow> byte list) \<Rightarrow> noncoherent_dma \<Rightarrow> noncoherent_dma result" where
  "nd_start rb s =
     (if \<not> nd_running s \<and> nd_FLAGS s AND 0x01 = 0x01
      then bind_res (nd_SRC s) (\<lambda>src. bind_res (nd_DST s) (\<lambda>dst. bind_res (nd_LEN s) (\<lambda>len.
           let s1 = (nd_set_FLAGS ((nd_FLAGS s AND 0xFE) OR 0x02) s)
                 \<lparr> nd_running := True, nd_activeSrc := src, nd_activeDst := dst, nd_writesLeft := len \<rparr>;
               rs = getActiveReadFifo s1;
               ws = getActiveWriteFifo s1
           in bind_res (startFill rb src (word_of_int len) (nd_rd rs s1)) (\<lambda>rf.
              bind_res (startEmpty rb dst (word_of_int len) (nd_wr ws s1)) (\<lambda>wf.
                Inr ((nd_set_wr ws wf (nd_set_rd rs rf s1))\<lparr> nd_readFifo := Some rs, nd_writeFifo := Some ws \<rparr>))))))
      else Inr s)"

definition nd_clear :: "noncoherent_dma \<Rightarrow> noncoherent_dma" where
  "nd_clear s =
     (if nd_last_flag s AND 0x04 = 0x04 \<and> nd_FLAGS s AND 0x04 \<noteq> 0x04
      then s\<lparr> nd_gic := nd_gic s @ [ClearInt (nd_intNum s)] \<rparr> else s)"

text \<open>The second part: move a chunk, or finish once the write FIFO is idle.\<close>

definition nd_transfer :: "(addr \<Rightarrow> nat \<Rightarrow> byte list) \<Rightarrow> noncoherent_dma \<Rightarrow> noncoherent_dma result" where
  "nd_transfer rb s =
     (if \<not> nd_running s then Inr s
      else case (nd_readFifo s, nd_writeFifo s) of
        (Some rs, Some ws) \<Rightarrow>
          if nd_writesLeft s > 0
          then let toWrite = min (nd_maxReqSize s) (nat (nd_writesLeft s))
               in bind_res (copy_step (tryGet rb) canFill (fill rb) toWrite (nd_rd rs s) (nd_wr ws s)) (\<lambda>(moved, rf, wf).
                    Inr ((nd_set_wr ws wf (nd_set_rd rs rf s))
                      \<lparr> nd_writesLeft := nd_writesLeft s - (if moved then int toWrite else 0) \<rparr>))
          else if \<not> isActive (nd_wr ws s)
          then Inr ((nd_set_FLAGS ((nd_FLAGS s AND 0xFD) OR 0x04) s)
                 \<lparr> nd_running := False, nd_gic := nd_gic s @ [SendInt (nd_intNum s)] \<rparr>)
          else Inr s
      | _ \<Rightarrow> Inl OutOfBounds)"

definition nd_tick :: "(addr \<Rightarrow> nat \<Rightarrow> byte list) \<Rightarrow> tick \<Rightarrow> noncoherent_dma \<Rightarrow> noncoherent_dma result" where
  "nd_tick rb now s =
     bind_res (get_bytes 0 1 (nd_mmreg s)) (\<lambda>_.
     bind_res (nd_start rb s) (\<lambda>s1.
     bind_res (nd_transfer rb (nd_clear s1)) (\<lambda>s2.
       let s3 = s2\<lparr> nd_last_flag := nd_FLAGS s2 \<rparr>
       in Inr (if nd_running s3
               then s3\<lparr> nd_tickEvent := sched_idle now (nd_clock_period s3 * 1000) (nd_tickEvent s3) \<rparr>
               else s3))))"

text \<open>The tick event runs: it is not scheduled any more when its action starts.\<close>

definition nd_tickEvent_process :: "(addr \<Rightarrow> nat \<Rightarrow> byte list) \<Rightarrow> tick \<Rightarrow> noncoherent_dma \<Rightarrow> noncoherent_dma result" where
  "nd_tickEvent_process rb now s = nd_tick rb now (s\<lparr> nd_tickEvent := None \<rparr>)"

text \<open>
  Register accesses. \<open>read\<close> loads eight bytes at the offset and hands the low ones to the packet;
  the model needs the packet's own bytes to be in range.
\<close>

definition nd_read :: "noncoherent_dma \<Rightarrow> packet \<Rightarrow> (tick \<times> packet) result" where
  "nd_read s p =
     (let off = unat (pkt_addr p - nd_pioAddr s)
      in if \<not> List.member [1, 2, 4, 8] (pkt_size p) then Inl (Panic ''Read size too big?'')
         else bind_res (get_bytes off (pkt_size p) (nd_mmreg s)) (\<lambda>bs.
              bind_res (makeResponse (pkt_set (pkt_size p) (le_val bs) LittleEndianByteOrder p)) (\<lambda>p'.
                Inr (nd_pioDelay s, p'))))"

definition nd_write :: "tick \<Rightarrow> noncoherent_dma \<Rightarrow> packet \<Rightarrow> (tick \<times> packet \<times> noncoherent_dma) result" where
  "nd_write now s p =
     bind_res (writeData p (unat (pkt_addr p - nd_pioAddr s)) (nd_mmreg s)) (\<lambda>mm.
       let s1 = s\<lparr> nd_mmreg := mm, nd_tickEvent := sched_idle now (nd_clock_period s * 1000) (nd_tickEvent s) \<rparr>
       in bind_res (makeResponse p) (\<lambda>p'. Inr (nd_pioDelay s, p', s1)))"

section \<open>Invariant of a transfer\<close>

lemma nd_set_fifo_simps [simp]:
  "nd_rd sd (nd_set_rd sd f s) = f" "nd_wr sd (nd_set_wr sd f s) = f"
  "nd_rd sd' (nd_set_wr sd f s) = nd_rd sd' s" "nd_wr sd' (nd_set_rd sd f s) = nd_wr sd' s"
  "nd_running (nd_set_rd sd f s) = nd_running s" "nd_running (nd_set_wr sd f s) = nd_running s"
  "nd_readFifo (nd_set_rd sd f s) = nd_readFifo s" "nd_readFifo (nd_set_wr sd f s) = nd_readFifo s"
  "nd_writeFifo (nd_set_rd sd f s) = nd_writeFifo s" "nd_writeFifo (nd_set_wr sd f s) = nd_writeFifo s"
  "nd_mmreg (nd_set_rd sd f s) = nd_mmreg s" "nd_mmreg (nd_set_wr sd f s) = nd_mmreg s"
  "nd_maxReqSize (nd_set_rd sd f s) = nd_maxReqSize s" "nd_maxReqSize (nd_set_wr sd f s) = nd_maxReqSize s"
  "nd_writesLeft (nd_set_rd sd f s) = nd_writesLeft s" "nd_writesLeft (nd_set_wr sd f s) = nd_writesLeft s"
  "nd_gic (nd_set_rd sd f s) = nd_gic s" "nd_gic (nd_set_wr sd f s) = nd_gic s"
  by (cases sd; cases sd'; simp add: nd_rd_def nd_wr_def nd_set_rd_def nd_set_wr_def)+

lemma nd_fifo_unaffected [simp]:
  "nd_rd sd (s\<lparr> nd_writesLeft := x \<rparr>) = nd_rd sd s" "nd_wr sd (s\<lparr> nd_writesLeft := x \<rparr>) = nd_wr sd s"
  "nd_rd sd (s\<lparr> nd_gic := g \<rparr>) = nd_rd sd s" "nd_wr sd (s\<lparr> nd_gic := g \<rparr>) = nd_wr sd s"
  "nd_rd sd (s\<lparr> nd_last_flag := b \<rparr>) = nd_rd sd s" "nd_wr sd (s\<lparr> nd_last_flag := b \<rparr>) = nd_wr sd s"
  "nd_rd sd (s\<lparr> nd_tickEvent := ev \<rparr>) = nd_rd sd s" "nd_wr sd (s\<lparr> nd_tickEvent := ev \<rparr>) = nd_wr sd s"
  "nd_rd sd (s\<lparr> nd_running := r \<rparr>) = nd_rd sd s" "nd_wr sd (s\<lparr> nd_running := r \<rparr>) = nd_wr sd s"
  "nd_rd sd (s\<lparr> nd_mmreg := mm \<rparr>) = nd_rd sd s" "nd_wr sd (s\<lparr> nd_mmreg := mm \<rparr>) = nd_wr sd s"
  "nd_rd sd (s\<lparr> nd_readFifo := x1 \<rparr>) = nd_rd sd s" "nd_wr sd (s\<lparr> nd_readFifo := x1 \<rparr>) = nd_wr sd s"
  "nd_rd sd (s\<lparr> nd_writeFifo := x1 \<rparr>) = nd_rd sd s" "nd_wr sd (s\<lparr> nd_writeFifo := x1 \<rparr>) = nd_wr sd s"
  "nd_rd sd (s\<lparr> nd_activeSrc := a \<rparr>) = nd_rd sd s" "nd_wr sd (s\<lparr> nd_activeSrc := a \<rparr>) = nd_wr sd s"
  "nd_rd sd (s\<lparr> nd_activeDst := a \<rparr>) = nd_rd sd s" "nd_wr sd (s\<lparr> nd_activeDst := a \<rparr>) = nd_wr sd s"
  "nd_rd sd (nd_set_FLAGS fl s) = nd_rd sd s" "nd_wr sd (nd_set_FLAGS fl s) = nd_wr sd s"
  by (cases sd; simp add: nd_rd_def nd_wr_def nd_set_FLAGS_def)+

record xfer =
  xf_src :: addr
  xf_dst :: addr
  xf_len :: nat
  xf_pre :: "dma_act list"
  xf_rs :: side
  xf_ws :: side

text \<open>
  The state of a running transfer \<open>x\<close>: what the write FIFO was given, followed by what the read
  FIFO will still deliver, is the source block; \<open>writesLeft\<close> is the length of the latter.
\<close>

definition nd_busy :: "(addr \<Rightarrow> byte) \<Rightarrow> nat \<Rightarrow> xfer \<Rightarrow> noncoherent_dma \<Rightarrow> bool" where
  "nd_busy m fs x s \<longleftrightarrow> nd_running s \<and> nd_readFifo s = Some (xf_rs x) \<and> nd_writeFifo s = Some (xf_ws x)
     \<and> rd_live m 0 (nd_maxReqSize s) fs (nd_rd (xf_rs x) s)
     \<and> wr_live (xf_pre x) (xf_dst x) (xf_len x) (nd_maxReqSize s) fs (nat (nd_writesLeft s)) (nd_wr (xf_ws x) s)
     \<and> wr_filled (length (xf_pre x)) (nd_wr (xf_ws x) s) @ rd_stream m (nd_rd (xf_rs x) s) = mem_slice m (xf_src x) (xf_len x)
     \<and> nd_writesLeft s = int (length (rd_stream m (nd_rd (xf_rs x) s)))
     \<and> nd_mmreg s \<noteq> [] \<and> nd_FLAGS s AND 1 = 0"

definition nd_sent :: "xfer \<Rightarrow> noncoherent_dma \<Rightarrow> dma_act list" where
  "nd_sent x s = drop (length (xf_pre x)) (df_actions (nd_wr (xf_ws x) s))"

definition nd_finished :: "(addr \<Rightarrow> byte) \<Rightarrow> xfer \<Rightarrow> noncoherent_dma \<Rightarrow> bool" where
  "nd_finished m x s \<longleftrightarrow> \<not> nd_running s \<and> nd_mmreg s \<noteq> [] \<and> nd_FLAGS s AND 1 = 0 \<and> nd_FLAGS s AND 4 = 4
     \<and> \<not> isActive (nd_wr (xf_ws x) s) \<and> acts_at (xf_dst x) (nd_sent x s)
     \<and> acts_data (nd_sent x s) = mem_slice m (xf_src x) (xf_len x)"

definition int_count :: "noncoherent_dma \<Rightarrow> nat" where
  "int_count s = length (filter (\<lambda>c. c = SendInt (nd_intNum s)) (nd_gic s))"

lemma flag_bits:
  "((b AND 0xFE) OR 0x02) AND 1 = (0 :: byte)"
  "b AND 1 = 0 \<Longrightarrow> ((b AND 0xFD) OR 0x04) AND 1 = (0 :: byte)"
  "((b AND 0xFD) OR 0x04) AND 4 = (4 :: byte)"
proof -
  show "((b AND 0xFE) OR 0x02) AND 1 = (0 :: byte)" by (simp add: bit.conj_disj_distrib2 and.assoc)
  show "((b AND 0xFD) OR 0x04) AND 1 = (0 :: byte)" if "b AND 1 = 0"
    using that by (simp add: bit.conj_disj_distrib2 and.assoc)
  show "((b AND 0xFD) OR 0x04) AND 4 = (4 :: byte)"
    by (simp add: bit.conj_disj_distrib2 and.assoc)
qed

text \<open>A tick of a running transfer: a chunk moves, nothing moves, or the transfer ends.\<close>

lemma nd_transfer_busy:
  assumes b: "nd_busy m fs x s"
  shows "\<exists>s'. nd_transfer rb s = Inr s' \<and> (if nd_running s' then nd_busy m fs x s' \<and> int_count s' = int_count s
      else nd_finished m x s' \<and> int_count s' = Suc (int_count s))
    \<and> (nd_running s' \<and> nd_writesLeft s' = nd_writesLeft s \<longrightarrow>
         (0 < nd_writesLeft s \<and> \<not> (canFill (min (nd_maxReqSize s) (nat (nd_writesLeft s))) (nd_wr (xf_ws x) s)
            \<and> tryGet rb (min (nd_maxReqSize s) (nat (nd_writesLeft s))) (nd_rd (xf_rs x) s) \<noteq> Inr None))
         \<or> (nd_writesLeft s = 0 \<and> isActive (nd_wr (xf_ws x) s)))"
proof -
  let ?rf = "nd_rd (xf_rs x) s" and ?wf = "nd_wr (xf_ws x) s" and ?k = "length (xf_pre x)"
  have bb: "nd_running s" "nd_readFifo s = Some (xf_rs x)" "nd_writeFifo s = Some (xf_ws x)"
    "rd_live m 0 (nd_maxReqSize s) fs ?rf"
    "wr_live (xf_pre x) (xf_dst x) (xf_len x) (nd_maxReqSize s) fs (nat (nd_writesLeft s)) ?wf"
    "wr_filled ?k ?wf @ rd_stream m ?rf = mem_slice m (xf_src x) (xf_len x)"
    "nd_writesLeft s = int (length (rd_stream m ?rf))" "nd_mmreg s \<noteq> []" "nd_FLAGS s AND 1 = 0"
    using b by (auto simp: nd_busy_def)
  show ?thesis
  proof (cases "nd_writesLeft s > 0")
    case True
    define tw where "tw = min (nd_maxReqSize s) (nat (nd_writesLeft s))"
    define n where "n = nat (nd_writesLeft s) - tw"
    have twn: "tw + n = nat (nd_writesLeft s)" by (simp add: tw_def n_def)
    have mr: "0 < nd_maxReqSize s" using bb(4) by (auto simp: rd_live_def rd_inv_def df_cfg_def)
    have "wr_live (xf_pre x) (xf_dst x) (xf_len x) (nd_maxReqSize s) fs (tw + n) ?wf" using bb(5) twn by simp
    from dma_copy.copy_conserves [OF bb(4) this, of rb] obtain mv rf wf where c:
      "copy_step (tryGet rb) canFill (fill rb) tw ?rf ?wf = Inr (mv, rf, wf)" "rd_live m 0 (nd_maxReqSize s) fs rf"
      "wr_live (xf_pre x) (xf_dst x) (xf_len x) (nd_maxReqSize s) fs n wf"
      "wr_filled ?k wf @ rd_stream m rf = wr_filled ?k ?wf @ rd_stream m ?rf"
      "length (rd_stream m rf) = length (rd_stream m ?rf) - (if mv then tw else 0)" "mv \<longrightarrow> tw \<le> length (rd_stream m ?rf)"
      "\<not> mv \<longrightarrow> rf = ?rf \<and> wf = ?wf" by blast
    define s' where "s' = (nd_set_wr (xf_ws x) wf (nd_set_rd (xf_rs x) rf s))
      \<lparr> nd_writesLeft := nd_writesLeft s - (if mv then int tw else 0) \<rparr>"
    have run: "nd_transfer rb s = Inr s'" using True bb(1-3) c(1) by (simp add: nd_transfer_def s'_def tw_def [symmetric] Let_def)
    have wl: "nd_writesLeft s' = int (length (rd_stream m rf))" using c(5,6) bb(7) by (auto simp: s'_def of_nat_diff)
    have "nat (nd_writesLeft s') = (if mv then n else nat (nd_writesLeft s))"
      using wl c(5,6) bb(7) n_def by auto
    then have "nd_busy m fs x s'"
      using bb c wl by (cases mv) (simp_all add: nd_busy_def s'_def nd_FLAGS_def)
    moreover have "int_count s' = int_count s"
      by (cases "xf_ws x"; cases "xf_rs x") (simp_all add: int_count_def s'_def nd_set_wr_def nd_set_rd_def)
    moreover have "nd_writesLeft s' = nd_writesLeft s \<Longrightarrow> \<not> mv" using True mr by (auto simp: s'_def tw_def)
    moreover have "\<not> mv \<Longrightarrow> \<not> (canFill tw ?wf \<and> tryGet rb tw ?rf \<noteq> Inr None)"
      using c(1) rdf.get_some [OF bb(4), of rb tw] by (auto simp: copy_step_def bind_res_eq_Inr_iff)
    moreover have "nd_running s'" using bb(1) by (simp add: s'_def)
    ultimately show ?thesis using run True by (auto simp: tw_def [symmetric])
  next
    case False
    then have z: "nd_writesLeft s = 0" "rd_stream m ?rf = []" using bb(7) by auto
    show ?thesis
    proof (cases "isActive ?wf")
      case True
      then show ?thesis using b bb z by (simp add: nd_transfer_def)
    next
      case idle: False
      define s' where "s' = (nd_set_FLAGS ((nd_FLAGS s AND 0xFD) OR 0x04) s)
        \<lparr> nd_running := False, nd_gic := nd_gic s @ [SendInt (nd_intNum s)] \<rparr>"
      have run: "nd_transfer rb s = Inr s'" using idle bb(1-3) z by (simp add: nd_transfer_def s'_def)
      have fl: "nd_FLAGS s' = (nd_FLAGS s AND 0xFD) OR 0x04" "nd_wr (xf_ws x) s' = ?wf" "nd_mmreg s' \<noteq> []" "\<not> nd_running s'"
        using bb(8) by (cases "nd_mmreg s"; simp add: s'_def nd_set_FLAGS_def nd_FLAGS_def)+
      have "int_count s' = Suc (int_count s)" by (simp add: int_count_def s'_def nd_set_FLAGS_def)
      moreover have "wr_inv (xf_pre x) (xf_dst x) (xf_len x) (wr_filled ?k ?wf) 0 ?wf" using bb(5) z by (simp add: wr_live_def)
      note sent = wr_inv_sent [OF this]
      have "block_left ?wf = 0" using idle block_left_0 [of ?wf] by (auto simp: isActive_def)
      then have len: "length (acts_data (nd_sent x s')) = xf_len x" using sent(4) fl(2) by (simp add: nd_sent_def)
      have all: "acts_data (nd_sent x s') @ cq_list (df_buffer ?wf) = mem_slice m (xf_src x) (xf_len x)"
        using sent(3) bb(6) z fl(2) by (simp add: nd_sent_def)
      then have "length (acts_data (nd_sent x s')) + length (cq_list (df_buffer ?wf)) = xf_len x"
        by (metis length_append length_mem_slice)
      then have "length (cq_list (df_buffer ?wf)) = 0" using len by linarith
      then have "cq_list (df_buffer ?wf) = []" by (simp only: length_0_conv)
      with all sent(2) idle fl flag_bits bb(9) have "nd_finished m x s'" by (simp add: nd_finished_def nd_sent_def)
      ultimately show ?thesis using run fl(4) by simp
    qed
  qed
qed

lemma nd_busy_unaffected [simp]:
  "nd_busy m fs x (s\<lparr> nd_gic := g \<rparr>) = nd_busy m fs x s" "nd_busy m fs x (s\<lparr> nd_last_flag := b \<rparr>) = nd_busy m fs x s"
  "nd_busy m fs x (s\<lparr> nd_tickEvent := ev \<rparr>) = nd_busy m fs x s"
  "nd_finished m x (s\<lparr> nd_gic := g \<rparr>) = nd_finished m x s" "nd_finished m x (s\<lparr> nd_last_flag := b \<rparr>) = nd_finished m x s"
  "nd_finished m x (s\<lparr> nd_tickEvent := ev \<rparr>) = nd_finished m x s"
  "int_count (s\<lparr> nd_last_flag := b \<rparr>) = int_count s" "int_count (s\<lparr> nd_tickEvent := ev \<rparr>) = int_count s"
  by (simp_all add: nd_busy_def nd_finished_def nd_FLAGS_def nd_sent_def int_count_def)

lemma nd_clear_facts:
  "int_count (nd_clear s) = int_count s" "nd_busy m fs x (nd_clear s) = nd_busy m fs x s"
  "nd_writesLeft (nd_clear s) = nd_writesLeft s" "nd_maxReqSize (nd_clear s) = nd_maxReqSize s"
  "nd_rd sd (nd_clear s) = nd_rd sd s" "nd_wr sd (nd_clear s) = nd_wr sd s"
  by (simp_all add: nd_clear_def int_count_def)

definition nd_advance :: "(addr \<Rightarrow> byte) \<Rightarrow> nat \<Rightarrow> xfer \<Rightarrow> nat \<Rightarrow> noncoherent_dma \<Rightarrow> bool" where
  "nd_advance m fs x c s \<longleftrightarrow> (if nd_running s then nd_busy m fs x s \<and> int_count s = c
     else nd_finished m x s \<and> int_count s = Suc c)"

lemma get_flag_byte: "mm \<noteq> [] \<Longrightarrow> \<exists>b. get_bytes 0 1 mm = Inr b"
  by (cases mm) (simp_all add: get_bytes_def)

lemma nd_tick_busy:
  assumes b: "nd_busy m fs x s"
  shows "\<exists>s'. nd_tick rb now s = Inr s' \<and> nd_advance m fs x (int_count s) s'
    \<and> (nd_running s' \<and> nd_writesLeft s' = nd_writesLeft s \<longrightarrow>
         (0 < nd_writesLeft s \<and> \<not> (canFill (min (nd_maxReqSize s) (nat (nd_writesLeft s))) (nd_wr (xf_ws x) s)
            \<and> tryGet rb (min (nd_maxReqSize s) (nat (nd_writesLeft s))) (nd_rd (xf_rs x) s) \<noteq> Inr None))
         \<or> (nd_writesLeft s = 0 \<and> isActive (nd_wr (xf_ws x) s)))"
proof -
  have r: "nd_running s" "nd_mmreg s \<noteq> []" using b by (auto simp: nd_busy_def)
  then have st: "nd_start rb s = Inr s" by (simp add: nd_start_def)
  have "nd_busy m fs x (nd_clear s)" using b by (simp add: nd_clear_facts)
  from nd_transfer_busy [OF this, of rb] obtain t where t: "nd_transfer rb (nd_clear s) = Inr t"
    "nd_advance m fs x (int_count s) t"
    "nd_running t \<and> nd_writesLeft t = nd_writesLeft s \<longrightarrow>
         (0 < nd_writesLeft s \<and> \<not> (canFill (min (nd_maxReqSize s) (nat (nd_writesLeft s))) (nd_wr (xf_ws x) s)
            \<and> tryGet rb (min (nd_maxReqSize s) (nat (nd_writesLeft s))) (nd_rd (xf_rs x) s) \<noteq> Inr None))
         \<or> (nd_writesLeft s = 0 \<and> isActive (nd_wr (xf_ws x) s))"
    unfolding nd_clear_facts nd_advance_def by blast
  define s' where "s' = (if nd_running t
    then (t\<lparr> nd_last_flag := nd_FLAGS t \<rparr>)\<lparr> nd_tickEvent := sched_idle now (nd_clock_period t * 1000) (nd_tickEvent t) \<rparr>
    else t\<lparr> nd_last_flag := nd_FLAGS t \<rparr>)"
  have "nd_tick rb now s = Inr s'"
    using get_flag_byte [OF r(2)] st t(1) by (auto simp: nd_tick_def s'_def)
  moreover have "nd_advance m fs x (int_count s) s'" "nd_running s' = nd_running t" "nd_writesLeft s' = nd_writesLeft t"
    using t(2) by (simp_all add: nd_advance_def s'_def)
  ultimately show ?thesis using t(3) by simp
qed

lemma nd_tick_finished:
  assumes f: "nd_finished m x s"
  shows "\<exists>s'. nd_tick rb now s = Inr s' \<and> nd_finished m x s' \<and> int_count s' = int_count s"
proof -
  have r: "\<not> nd_running s" "nd_mmreg s \<noteq> []" "nd_FLAGS s AND 1 = 0" "nd_FLAGS s AND 4 = 4"
    using f by (auto simp: nd_finished_def)
  then have "nd_start rb s = Inr s" "nd_clear s = s" "nd_transfer rb s = Inr s"
    by (simp_all add: nd_start_def nd_clear_def nd_transfer_def)
  with r f get_flag_byte [OF r(2)] show ?thesis by (auto simp: nd_tick_def Let_def)
qed

section \<open>Runs\<close>

datatype nd_op = NTick tick | NRdAnswer nat | NWrAnswer nat

text \<open>The memory system answers requests of the two active FIFOs, reading the memory contents \<open>m\<close>.\<close>

fun nd_exec :: "(addr \<Rightarrow> byte) \<Rightarrow> (addr \<Rightarrow> nat \<Rightarrow> byte list) \<Rightarrow> nd_op \<Rightarrow> noncoherent_dma \<Rightarrow> noncoherent_dma result" where
  "nd_exec m rb (NTick now) s = nd_tick rb now s"
| "nd_exec m rb (NRdAnswer i) s =
     (case nd_readFifo s of None \<Rightarrow> Inr s
      | Some rs \<Rightarrow> let f = nd_rd rs s in
          if i < length (df_pending f) \<and> \<not> de_done (df_pending f ! i)
          then bind_res (rd_answer m rb i f) (\<lambda>f'. Inr (nd_set_rd rs f' s)) else Inr s)"
| "nd_exec m rb (NWrAnswer i) s =
     (case nd_writeFifo s of None \<Rightarrow> Inr s
      | Some ws \<Rightarrow> let f = nd_wr ws s in
          if i < length (df_pending f) \<and> \<not> de_done (df_pending f ! i)
          then bind_res (wr_process rb i f) (\<lambda>f'. Inr (nd_set_wr ws f' s)) else Inr s)"

fun nd_run :: "(addr \<Rightarrow> byte) \<Rightarrow> (addr \<Rightarrow> nat \<Rightarrow> byte list) \<Rightarrow> nd_op list \<Rightarrow> noncoherent_dma \<Rightarrow> noncoherent_dma result" where
  "nd_run m rb [] s = Inr s"
| "nd_run m rb (p # ops) s = bind_res (nd_exec m rb p s) (nd_run m rb ops)"

definition nd_state :: "(addr \<Rightarrow> byte) \<Rightarrow> nat \<Rightarrow> xfer \<Rightarrow> nat \<Rightarrow> noncoherent_dma \<Rightarrow> bool" where
  "nd_state m fs x c s \<longleftrightarrow> nd_advance m fs x c s \<and> nd_readFifo s = Some (xf_rs x) \<and> nd_writeFifo s = Some (xf_ws x)
     \<and> rd_live m 0 (nd_maxReqSize s) fs (nd_rd (xf_rs x) s)"

lemma nd_transfer_keeps:
  "nd_transfer rb s = Inr s' \<Longrightarrow> nd_readFifo s' = nd_readFifo s \<and> nd_writeFifo s' = nd_writeFifo s \<and> nd_maxReqSize s' = nd_maxReqSize s
     \<and> (\<not> nd_running s' \<longrightarrow> (\<forall>sd. nd_rd sd s' = nd_rd sd s))"
  by (auto simp: nd_transfer_def Let_def bind_res_eq_Inr_iff nd_set_FLAGS_def split: if_splits option.splits)

lemma nd_clear_keeps [simp]:
  "nd_readFifo (nd_clear s) = nd_readFifo s" "nd_writeFifo (nd_clear s) = nd_writeFifo s" "nd_running (nd_clear s) = nd_running s"
  by (simp_all add: nd_clear_def)

lemma nd_tick_keeps:
  assumes "nd_tick rb now s = Inr s'" and "nd_start rb s = Inr s"
  shows "nd_readFifo s' = nd_readFifo s \<and> nd_writeFifo s' = nd_writeFifo s \<and> nd_maxReqSize s' = nd_maxReqSize s
     \<and> (\<not> nd_running s' \<longrightarrow> (\<forall>sd. nd_rd sd s' = nd_rd sd s))"
proof -
  obtain t where t: "nd_transfer rb (nd_clear s) = Inr t"
    "s' = (if nd_running t
      then (t\<lparr> nd_last_flag := nd_FLAGS t \<rparr>)\<lparr> nd_tickEvent := sched_idle now (nd_clock_period t * 1000) (nd_tickEvent t) \<rparr>
      else t\<lparr> nd_last_flag := nd_FLAGS t \<rparr>)"
    using assms by (fastforce simp: nd_tick_def bind_res_eq_Inr_iff Let_def)
  from nd_transfer_keeps [OF t(1)] show ?thesis unfolding t(2) by (simp add: nd_clear_facts)
qed

lemma nd_busy_rd:
  "nd_busy m fs x s \<Longrightarrow> rd_live m 0 (nd_maxReqSize s) fs f' \<Longrightarrow> rd_stream m f' = rd_stream m (nd_rd (xf_rs x) s) \<Longrightarrow>
   nd_busy m fs x (nd_set_rd (xf_rs x) f' s)"
  by (auto simp: nd_busy_def nd_FLAGS_def)

lemma nd_busy_wr:
  "nd_busy m fs x s \<Longrightarrow> wr_live (xf_pre x) (xf_dst x) (xf_len x) (nd_maxReqSize s) fs (nat (nd_writesLeft s)) f' \<Longrightarrow>
   wr_filled (length (xf_pre x)) f' = wr_filled (length (xf_pre x)) (nd_wr (xf_ws x) s) \<Longrightarrow>
   nd_busy m fs x (nd_set_wr (xf_ws x) f' s)"
  by (simp add: nd_busy_def nd_FLAGS_def)

lemma int_count_set [simp]:
  "int_count (nd_set_rd sd f s) = int_count s" "int_count (nd_set_wr sd f s) = int_count s"
  by (cases sd; simp add: int_count_def nd_set_rd_def nd_set_wr_def)+

lemma nd_exec_state:
  assumes st: "nd_state m fs x c s"
  shows "\<exists>s'. nd_exec m rb p s = Inr s' \<and> nd_state m fs x c s'"
proof (cases p)
  case (NTick now)
  show ?thesis
  proof (cases "nd_running s")
    case True
    then have b: "nd_busy m fs x s" "int_count s = c" using st by (auto simp: nd_state_def nd_advance_def)
    obtain s' where s': "nd_tick rb now s = Inr s'" "nd_advance m fs x c s'" using nd_tick_busy [OF b(1), of rb now] b(2) by auto
    have "nd_start rb s = Inr s" using True by (simp add: nd_start_def)
    note k = nd_tick_keeps [OF s'(1) this]
    have "rd_live m 0 (nd_maxReqSize s') fs (nd_rd (xf_rs x) s')"
      using s'(2) k st by (cases "nd_running s'") (auto simp: nd_advance_def nd_busy_def nd_state_def)
    with s' k st NTick show ?thesis by (auto simp: nd_state_def)
  next
    case False
    then have f: "nd_finished m x s" "int_count s = Suc c" using st by (auto simp: nd_state_def nd_advance_def)
    obtain s' where s': "nd_tick rb now s = Inr s'" "nd_finished m x s'" "int_count s' = Suc c"
      using nd_tick_finished [OF f(1), of rb now] f(2) by auto
    have "nd_start rb s = Inr s" using f(1) by (simp add: nd_start_def nd_finished_def)
    note k = nd_tick_keeps [OF s'(1) this]
    have "\<not> nd_running s'" using s'(2) by (simp add: nd_finished_def)
    with s' k st NTick show ?thesis by (auto simp: nd_state_def nd_advance_def)
  qed
next
  case (NRdAnswer i)
  let ?f = "nd_rd (xf_rs x) s"
  have rs: "nd_readFifo s = Some (xf_rs x)" "rd_live m 0 (nd_maxReqSize s) fs ?f" using st by (auto simp: nd_state_def)
  show ?thesis
  proof (cases "i < length (df_pending ?f) \<and> \<not> de_done (df_pending ?f ! i)")
    case True
    obtain f' where f': "rd_answer m rb i ?f = Inr f'" "rd_live m 0 (nd_maxReqSize s) fs f'" "rd_stream m f' = rd_stream m ?f"
      using rd_live_answer [OF rs(2)] True by blast
    have "nd_state m fs x c (nd_set_rd (xf_rs x) f' s)"
      using st f' nd_busy_rd [of m fs x s f']
      by (auto simp: nd_state_def nd_advance_def nd_finished_def nd_FLAGS_def nd_sent_def)
    with f' rs True NRdAnswer show ?thesis by (simp add: Let_def)
  qed (use rs st NRdAnswer in \<open>auto simp: Let_def\<close>)
next
  case (NWrAnswer i)
  let ?f = "nd_wr (xf_ws x) s"
  have ws: "nd_writeFifo s = Some (xf_ws x)" using st by (auto simp: nd_state_def)
  show ?thesis
  proof (cases "i < length (df_pending ?f) \<and> \<not> de_done (df_pending ?f ! i)")
    case True
    then have b: "nd_running s" "nd_busy m fs x s" using st
      by (auto simp: nd_state_def nd_advance_def nd_finished_def isActive_def split: if_splits)
    then obtain f' where f': "wr_process rb i ?f = Inr f'"
      "wr_live (xf_pre x) (xf_dst x) (xf_len x) (nd_maxReqSize s) fs (nat (nd_writesLeft s)) f'"
      "wr_filled (length (xf_pre x)) f' = wr_filled (length (xf_pre x)) ?f"
      using wr_live_answer True unfolding nd_busy_def by metis
    have "nd_state m fs x c (nd_set_wr (xf_ws x) f' s)"
      using st b nd_busy_wr [OF b(2) f'(2,3)] by (simp add: nd_state_def nd_advance_def)
    with f' ws True NWrAnswer show ?thesis by (simp add: Let_def)
  qed (use ws st NWrAnswer in \<open>auto simp: Let_def\<close>)
qed

lemma nd_run_state: "nd_state m fs x c s \<Longrightarrow> \<exists>s'. nd_run m rb ops s = Inr s' \<and> nd_state m fs x c s'"
proof (induction ops arbitrary: s)
  case (Cons p ops)
  then show ?case using nd_exec_state [OF Cons.prems, of rb p] by fastforce
qed simp

text \<open>An idle engine: its FIFOs are empty and idle, and their rings have laps left for \<open>n\<close> bytes.\<close>

definition fifo_idle :: "nat \<Rightarrow> nat \<Rightarrow> nat \<Rightarrow> dma_fifo \<Rightarrow> bool" where
  "fifo_idle n mr fs f \<longleftrightarrow> df_cfg f \<and> cq_wf n (df_buffer f) \<and> cq_list (df_buffer f) = [] \<and> \<not> isActive f
     \<and> df_drainState f = Running \<and> df_maxReqSize f = mr \<and> df_fifoSize f = fs"

definition nd_idle :: "nat \<Rightarrow> nat \<Rightarrow> noncoherent_dma \<Rightarrow> bool" where
  "nd_idle n fs s \<longleftrightarrow> \<not> nd_running s
     \<and> (\<forall>sd. fifo_idle n (nd_maxReqSize s) fs (nd_rd sd s) \<and> fifo_idle n (nd_maxReqSize s) fs (nd_wr sd s))"

definition nd_xfer :: "noncoherent_dma \<Rightarrow> addr \<Rightarrow> addr \<Rightarrow> nat \<Rightarrow> xfer" where
  "nd_xfer s src dst L =
     (let ws = (if ranges_contain (nd_accPortRanges s) dst then AccSide else MemSide)
      in \<lparr> xf_src = src, xf_dst = dst, xf_len = L, xf_pre = df_actions (nd_wr ws s),
           xf_rs = (if ranges_contain (nd_accPortRanges s) src then AccSide else MemSide), xf_ws = ws \<rparr>)"

lemma fifo_idle_new:
  "0 < mr \<Longrightarrow> mr \<le> fs \<Longrightarrow> 2 \<le> fs \<Longrightarrow> fs < 2 ^ 31 \<Longrightarrow> 0 < mp \<Longrightarrow> n + 1 < 2 ^ 32 \<Longrightarrow>
   fifo_idle n mr fs (dma_fifo_new fs mr mp False cls)"
  using dma_fifo_new_cfg(1) [of mr fs mp cls] dma_fifo_new_cfg(2) [of fs mr mp False cls]
  by (simp add: fifo_idle_def) (simp add: dma_fifo_new_def cq_wf_new)

lemma startFill_live:
  assumes "fifo_idle L mr fs f" and "unat sz = L"
  shows "\<exists>f'. startFill rb start sz f = Inr f' \<and> rd_live m 0 mr fs f' \<and> rd_stream m f' = mem_slice m start L"
proof -
  have i: "df_cfg f" "cq_wf (unat sz + 0) (df_buffer f)" "\<not> isActive f" "cq_list (df_buffer f) = []" "df_drainState f = Running"
    "df_maxReqSize f = mr" "df_fifoSize f = fs"
    using assms by (auto simp: fifo_idle_def)
  from startFill_inv [OF i(1-3), of rb start m] i(4-7) assms(2) show ?thesis
    by (auto simp: rd_live_def same_cfg_def)
qed

lemma startEmpty_live:
  assumes "fifo_idle n mr fs f" and "unat sz = L"
  shows "\<exists>f'. startEmpty rb start sz f = Inr f' \<and> wr_live (df_actions f) start L mr fs n f' \<and> wr_filled (length (df_actions f)) f' = []"
proof -
  have i: "df_cfg f" "cq_wf n (df_buffer f)" "\<not> isActive f" "cq_list (df_buffer f) = []" "df_drainState f = Running"
    "df_maxReqSize f = mr" "df_fifoSize f = fs"
    using assms(1) by (auto simp: fifo_idle_def)
  obtain f' where f': "startEmpty rb start sz f = Inr f'" "wr_inv (df_actions f) start L [] n f'" "same_cfg f f'" "wr_ready f'"
    using startEmpty_inv [OF i(1-3), of rb start sz] i(4,5) assms(2) by auto
  have "wr_filled (length (df_actions f)) f' = []" using wr_inv_filled [OF f'(2)] by simp
  with f' i(6,7) show ?thesis by (simp add: wr_live_def same_cfg_def)
qed

lemma nd_start_busy:
  assumes idle: "nd_idle L fs s" and fl: "nd_mmreg s \<noteq> []" "nd_FLAGS s AND 1 = 1"
    and regs: "nd_SRC s = Inr src" "nd_DST s = Inr dst" "nd_LEN s = Inr (int L)" and L: "L < 2 ^ 31"
  shows "\<exists>s'. nd_start rb s = Inr s' \<and> nd_busy m fs (nd_xfer s src dst L) s' \<and> int_count s' = int_count s"
proof -
  let ?x = "nd_xfer s src dst L"
  define s1 where "s1 = (nd_set_FLAGS ((nd_FLAGS s AND 0xFE) OR 0x02) s)
    \<lparr> nd_running := True, nd_activeSrc := src, nd_activeDst := dst, nd_writesLeft := int L \<rparr>"
  have sides: "getActiveReadFifo s1 = xf_rs ?x" "getActiveWriteFifo s1 = xf_ws ?x"
    by (simp_all add: getActiveReadFifo_def getActiveWriteFifo_def nd_xfer_def s1_def nd_set_FLAGS_def Let_def)
  have fifos: "nd_rd sd s1 = nd_rd sd s" "nd_wr sd s1 = nd_wr sd s" for sd
    by (simp_all add: s1_def nd_set_FLAGS_def)
  have sz: "unat (word_of_int (int L) :: addr) = L" using L by (simp add: unat_of_nat)
  have mr: "nd_maxReqSize s1 = nd_maxReqSize s" by (simp add: s1_def nd_set_FLAGS_def)
  obtain rf where rf: "startFill rb src (word_of_int (int L)) (nd_rd (xf_rs ?x) s) = Inr rf"
    "rd_live m 0 (nd_maxReqSize s) fs rf" "rd_stream m rf = mem_slice m src L"
    using startFill_live [OF _ sz, of "nd_maxReqSize s" fs "nd_rd (xf_rs ?x) s" rb src m] idle by (auto simp: nd_idle_def)
  obtain wf where wf: "startEmpty rb dst (word_of_int (int L)) (nd_wr (xf_ws ?x) s) = Inr wf"
    "wr_live (xf_pre ?x) dst L (nd_maxReqSize s) fs L wf" "wr_filled (length (xf_pre ?x)) wf = []"
    using startEmpty_live [OF _ sz, of L "nd_maxReqSize s" fs "nd_wr (xf_ws ?x) s" rb dst] idle
    by (auto simp: nd_idle_def nd_xfer_def Let_def)
  define s' where "s' = (nd_set_wr (xf_ws ?x) wf (nd_set_rd (xf_rs ?x) rf s1))\<lparr> nd_readFifo := Some (xf_rs ?x), nd_writeFifo := Some (xf_ws ?x) \<rparr>"
  have "nd_start rb s = Inr s'"
    using idle fl regs rf(1) wf(1) by (simp add: nd_start_def nd_idle_def s1_def [symmetric] sides fifos s'_def Let_def)
  moreover have "nd_FLAGS s' = (nd_FLAGS s AND 0xFE) OR 0x02" "nd_mmreg s' \<noteq> []"
    using fl(1) by (cases "nd_mmreg s"; simp add: s'_def s1_def nd_FLAGS_def nd_set_FLAGS_def)+
  moreover have "xf_src ?x = src" "xf_dst ?x = dst" "xf_len ?x = L" by (simp_all add: nd_xfer_def Let_def)
  ultimately have "nd_busy m fs ?x s'"
    using rf(2,3) wf(2,3) flag_bits(1) mr by (simp add: nd_busy_def s'_def) (simp add: s1_def)
  moreover have "int_count s' = int_count s"
    by (simp add: s'_def) (simp add: int_count_def s1_def nd_set_FLAGS_def nd_set_wr_def nd_set_rd_def split: side.split)
  ultimately show ?thesis using \<open>nd_start rb s = Inr s'\<close> by blast
qed

lemma nd_started_run:
  assumes idle: "nd_idle L fs s" and fl: "nd_mmreg s \<noteq> []" "nd_FLAGS s AND 1 = 1"
    and regs: "nd_SRC s = Inr src" "nd_DST s = Inr dst" "nd_LEN s = Inr (int L)" and L: "L < 2 ^ 31"
  shows "\<exists>s'. nd_run m rb (NTick t # ops) s = Inr s' \<and> nd_state m fs (nd_xfer s src dst L) (int_count s) s'"
proof -
  let ?x = "nd_xfer s src dst L"
  obtain s1 where s1: "nd_start rb s = Inr s1" "nd_busy m fs ?x s1" "int_count s1 = int_count s"
    using nd_start_busy [OF assms] by blast
  have b1: "nd_running s1" "nd_mmreg s1 \<noteq> []" "nd_readFifo s1 = Some (xf_rs ?x)" "nd_writeFifo s1 = Some (xf_ws ?x)"
    using s1(2) by (auto simp: nd_busy_def)
  have st1: "nd_start rb s1 = Inr s1" using b1 by (simp add: nd_start_def)
  have same: "nd_tick rb t s = nd_tick rb t s1"
    using get_flag_byte [OF fl(1)] get_flag_byte [OF b1(2)] s1(1) st1 by (auto simp: nd_tick_def)
  have "nd_state m fs ?x (int_count s) s1"
    using s1(2,3) b1 by (auto simp: nd_state_def nd_advance_def nd_busy_def)
  from nd_run_state [OF this, of rb "NTick t # ops"] show ?thesis using same by simp
qed

lemma nd_busy_prefix:
  assumes "nd_busy m fs x s"
  shows "acts_at (xf_dst x) (nd_sent x s) \<and> (\<exists>rest. acts_data (nd_sent x s) @ rest = mem_slice m (xf_src x) (xf_len x))"
proof -
  have w: "wr_inv (xf_pre x) (xf_dst x) (xf_len x) (wr_filled (length (xf_pre x)) (nd_wr (xf_ws x) s)) (nat (nd_writesLeft s)) (nd_wr (xf_ws x) s)"
    and all: "wr_filled (length (xf_pre x)) (nd_wr (xf_ws x) s) @ rd_stream m (nd_rd (xf_rs x) s) = mem_slice m (xf_src x) (xf_len x)"
    using assms by (auto simp: nd_busy_def wr_live_def)
  from wr_inv_sent(2,3) [OF w] all show ?thesis unfolding nd_sent_def by (metis append_assoc)
qed

text \<open>
  C3. The DMA engine copies memory: started with source, destination and length in its
  registers, it never fails whatever the order of ticks and of memory answers on either side;
  every byte it sends to the destination is the byte of the source block at the same offset,
  and when the transfer is over all of the block was written, no write is outstanding, the
  done flag is set and the interrupt was raised exactly once.
\<close>

theorem noncoherent_dma_copies:
  assumes "nd_idle L fs s" and "nd_mmreg s \<noteq> []" and "nd_FLAGS s AND 1 = 1"
    and "nd_SRC s = Inr src" and "nd_DST s = Inr dst" and "nd_LEN s = Inr (int L)" and "L < 2 ^ 31"
  shows "\<exists>s'. nd_run m rb (NTick t # ops) s = Inr s'
    \<and> acts_at dst (nd_sent (nd_xfer s src dst L) s')
    \<and> (\<exists>rest. acts_data (nd_sent (nd_xfer s src dst L) s') @ rest = mem_slice m src L)
    \<and> (if nd_running s' then int_count s' = int_count s
       else acts_data (nd_sent (nd_xfer s src dst L) s') = mem_slice m src L \<and> nd_FLAGS s' AND 4 = 4
         \<and> \<not> isActive (nd_wr (xf_ws (nd_xfer s src dst L)) s') \<and> int_count s' = int_count s + 1)"
proof -
  let ?x = "nd_xfer s src dst L"
  have x: "xf_src ?x = src" "xf_dst ?x = dst" "xf_len ?x = L" by (simp_all add: nd_xfer_def Let_def)
  obtain s' where r: "nd_run m rb (NTick t # ops) s = Inr s'" "nd_advance m fs ?x (int_count s) s'"
    using nd_started_run [OF assms, of m rb t ops] by (auto simp: nd_state_def)
  show ?thesis
  proof (cases "nd_running s'")
    case True
    with r nd_busy_prefix [of m fs ?x s'] x show ?thesis by (auto simp: nd_advance_def)
  next
    case False
    with r(2) have f: "nd_finished m ?x s'" "int_count s' = Suc (int_count s)" by (auto simp: nd_advance_def)
    then have "acts_data (nd_sent ?x s') @ [] = mem_slice m src L" using x by (simp add: nd_finished_def)
    with f False r(1) x show ?thesis unfolding nd_finished_def by auto
  qed
qed

text \<open>A programmed engine for concrete runs: start flag set, four bytes from \<open>0x100\<close> to \<open>0x200\<close>.\<close>

definition demo_dma :: noncoherent_dma where
  "demo_dma = (NoncoherentDma 0x1000 10 21 8 1 2 200 1 [] False 64 0 0 0 0)
     \<lparr> nd_mmreg := 1 # le_bytes 8 0x100 @ le_bytes 8 0x200 @ le_bytes 4 4 \<rparr>"

lemma nd_registers:
  "nd_mmreg s = fl # le_bytes 8 src @ le_bytes 8 dst @ le_bytes 4 len \<Longrightarrow>
   nd_SRC s = Inr (word_of_nat (src mod 2 ^ 64)) \<and> nd_DST s = Inr (word_of_nat (dst mod 2 ^ 64))
     \<and> nd_LEN s = Inr (s32 (int (len mod 2 ^ 32)))"
  by (simp add: nd_SRC_def nd_DST_def nd_LEN_def get_bytes_def le_val_le_bytes del: le_bytes.simps)

lemma demo_dma_facts:
  "nd_idle 4 4 demo_dma" "nd_mmreg demo_dma \<noteq> []" "nd_FLAGS demo_dma AND 1 = 1"
  "nd_SRC demo_dma = Inr 0x100" "nd_DST demo_dma = Inr 0x200" "nd_LEN demo_dma = Inr (int 4)"
proof -
  have "fifo_idle 4 2 4 (dma_fifo_new 4 2 1 False 64)" by (rule fifo_idle_new) simp_all
  then show "nd_idle 4 4 demo_dma"
    by (simp add: nd_idle_def demo_dma_def NoncoherentDma_def nd_rd_def nd_wr_def Let_def split: side.split)
  show "nd_mmreg demo_dma \<noteq> []" "nd_FLAGS demo_dma AND 1 = 1" by (simp_all add: demo_dma_def nd_FLAGS_def)
  have "nd_mmreg demo_dma = 1 # le_bytes 8 0x100 @ le_bytes 8 0x200 @ le_bytes 4 4" by (simp add: demo_dma_def)
  from nd_registers [OF this] show "nd_SRC demo_dma = Inr 0x100" "nd_DST demo_dma = Inr 0x200" "nd_LEN demo_dma = Inr (int 4)"
    by (simp_all add: s32_def)
qed

theorem noncoherent_dma_copies_witness:
  "\<exists>s'. nd_run ucast (\<lambda>a n. []) (NTick 0 # [NRdAnswer 0, NTick 1, NWrAnswer 0, NTick 2, NRdAnswer 0]) demo_dma = Inr s'
    \<and> acts_at 0x200 (nd_sent (nd_xfer demo_dma 0x100 0x200 4) s')
    \<and> (\<exists>rest. acts_data (nd_sent (nd_xfer demo_dma 0x100 0x200 4) s') @ rest = mem_slice ucast 0x100 4)
    \<and> (if nd_running s' then int_count s' = int_count demo_dma
       else acts_data (nd_sent (nd_xfer demo_dma 0x100 0x200 4) s') = mem_slice ucast 0x100 4 \<and> nd_FLAGS s' AND 4 = 4
         \<and> \<not> isActive (nd_wr (xf_ws (nd_xfer demo_dma 0x100 0x200 4)) s') \<and> int_count s' = int_count demo_dma + 1)"
  by (rule noncoherent_dma_copies [OF demo_dma_facts]) simp



lemma demo_dma_start:
  "\<exists>s' s''. nd_run m (\<lambda>a n. []) [NTick 0] demo_dma = Inr s' \<and> nd_running s' \<and> nd_maxReqSize s' = 2
    \<and> nd_tick (\<lambda>a n. []) 1 s' = Inr s'' \<and> nd_running s'' \<and> nd_writesLeft s'' = nd_writesLeft s'"
proof -
  have g: "empty_guard 0 0 2" by (simp add: empty_guard_iff)
  let ?e = "\<lparr> de_id = 0, de_done = False, de_canceled = False, de_requestSize = 2, de_data = [0, 0] \<rparr>"
  obtain rf where rf: "startFill (\<lambda>a n. []) 0x100 4 (dma_fifo_new 4 2 1 False 64) = Inr rf" "df_size rf = 0"
    by (simp add: startFill_def resumeFill_def resumeFillTiming_def dma_fifo_new_def atEndOfBlock_def next_req_size_def
        de_reset_def DmaDoneEvent_def size_pending_def cq_size_def CircularQueue_def end_of_block_call_def df_size_def Let_def)
  obtain wf where wf: "startEmpty (\<lambda>a n. []) 0x200 4 (dma_fifo_new 4 2 1 False 64) = Inr wf" "canFill 2 wf"
    using g by (simp add: startEmpty_def resumeEmpty_def resumeEmptyTiming_def dma_fifo_new_def atEndOfBlock_def canFill_def
        next_req_size_def DmaDoneEvent_def size_pending_def cq_size_def CircularQueue_def end_of_block_call_def Let_def)
  have cp: "copy_step (tryGet (\<lambda>a n. [])) canFill (fill (\<lambda>a n. [])) 2 rf wf = Inr (False, rf, wf)"
    using rf(2) wf(2) by (simp add: copy_step_def tryGet_def df_size_def)
  let ?P = "\<lambda>s. nd_running s \<and> nd_readFifo s = Some MemSide \<and> nd_writeFifo s = Some MemSide \<and> nd_rd MemSide s = rf
    \<and> nd_wr MemSide s = wf \<and> nd_writesLeft s = 4 \<and> nd_maxReqSize s = 2 \<and> nd_mmreg s \<noteq> []"
  obtain s1 where s1: "nd_start (\<lambda>a n. []) demo_dma = Inr s1" "?P s1"
    using demo_dma_facts rf(1) wf(1)
    by (simp add: nd_start_def getActiveReadFifo_def getActiveWriteFifo_def ranges_contain_def nd_idle_def)
      (simp add: demo_dma_def NoncoherentDma_def nd_rd_def nd_wr_def nd_set_rd_def nd_set_wr_def nd_set_FLAGS_def Let_def)
  have step: "\<exists>s'. nd_tick (\<lambda>a n. []) now s0 = Inr s' \<and> ?P s'" if st: "nd_start (\<lambda>a n. []) s0 = Inr s" "?P s" "nd_mmreg s0 \<noteq> []" for now s0 s
  proof -
    let ?c = "nd_clear s"
    have c: "?P ?c" using st(2) by (simp add: nd_clear_facts) (simp add: nd_clear_def)
    define t where "t = (nd_set_wr MemSide wf (nd_set_rd MemSide rf ?c))\<lparr> nd_writesLeft := 4 \<rparr>"
    have tr: "nd_transfer (\<lambda>a n. []) ?c = Inr t" using c cp by (simp add: nd_transfer_def t_def)
    have "?P t" using c by (simp add: t_def)
    with st(1) tr get_flag_byte [OF st(3)] show ?thesis by (auto simp: nd_tick_def Let_def)
  qed
  obtain s' where s': "nd_tick (\<lambda>a n. []) 0 demo_dma = Inr s'" "?P s'" using step [OF s1 demo_dma_facts(2)] by blast
  have "nd_start (\<lambda>a n. []) s' = Inr s'" using s'(2) by (simp add: nd_start_def)
  then obtain s'' where "nd_tick (\<lambda>a n. []) 1 s' = Inr s''" "?P s''" using step [of s' s' 1] s'(2) by blast
  with s' show ?thesis by auto
qed


section \<open>The register file\<close>

text \<open>
  The register file is a byte array: what a register write stores a later read of the same
  bytes returns, a write leaves every other register byte alone, and it schedules a tick, so
  that a start flag is always seen.
\<close>

theorem noncoherent_dma_register_roundtrip:
  assumes "pkt_cmd w = WriteReq" and "pkt_byteEnable w = []" and "pkt_wf w" and "pkt_size w \<in> {1, 2, 4, 8}"
    and "unat (pkt_addr w - nd_pioAddr s) + pkt_size w \<le> length (nd_mmreg s)"
    and "pkt_cmd r = ReadReq" and "pkt_addr r = pkt_addr w" and "pkt_size r = pkt_size w"
  shows "\<exists>w' s' r'. nd_write now s w = Inr (nd_pioDelay s, w', s') \<and> pkt_isResponse w'
    \<and> nd_read s' r = Inr (nd_pioDelay s, r') \<and> pkt_data r' = pkt_data w \<and> nd_tickEvent s' \<noteq> None
    \<and> (\<forall>i < length (nd_mmreg s). \<not> (unat (pkt_addr w - nd_pioAddr s) \<le> i \<and> i < unat (pkt_addr w - nd_pioAddr s) + pkt_size w)
         \<longrightarrow> nd_mmreg s' ! i = nd_mmreg s ! i)"
proof -
  let ?off = "unat (pkt_addr w - nd_pioAddr s)"
  have nm: "\<not> isMaskedWrite w" "pkt_needsResponse w" "pkt_needsResponse (pkt_set k v e r)" for k v e
    using assms(1,2,6) by (simp_all add: isMaskedWrite_def pkt_needsResponse_def testCmdAttrib_def pkt_set_def)
  have len: "length (pkt_data w) = pkt_size w" using assms(3) by (simp add: pkt_wf_def)
  obtain mm where mm: "writeData w ?off (nd_mmreg s) = Inr mm" "put_bytes ?off (pkt_data w) (nd_mmreg s) = Inr mm"
    using nm(1) len assms(5) by (simp add: writeData_def put_bytes_def)
  define s' where "s' = s\<lparr> nd_mmreg := mm, nd_tickEvent := sched_idle now (nd_clock_period s * 1000) (nd_tickEvent s) \<rparr>"
  have wr: "nd_write now s w = Inr (nd_pioDelay s, w\<lparr> pkt_cmd := responseCommand (pkt_cmd w) \<rparr>, s')"
    using mm(1) makeResponse_ok [OF nm(2)] by (simp add: nd_write_def s'_def)
  have g: "get_bytes ?off (pkt_size w) mm = Inr (pkt_data w)" using get_put_same [OF mm(2)] len by simp
  have le: "le_bytes (pkt_size w) (le_val (pkt_data w)) = pkt_data w" using le_bytes_le_val [of "pkt_data w"] len by simp
  define r1 where "r1 = pkt_set (pkt_size w) (le_val (pkt_data w)) LittleEndianByteOrder r"
  have "nd_read s' r = Inr (nd_pioDelay s, r1\<lparr> pkt_cmd := responseCommand (pkt_cmd r1) \<rparr>)"
    using g assms(4,7,8) makeResponse_ok [OF nm(3)] by (auto simp: nd_read_def s'_def r1_def)
  moreover have "pkt_data (r1\<lparr> pkt_cmd := responseCommand (pkt_cmd r1) \<rparr>) = pkt_data w" using le by (simp add: r1_def pkt_set_def)
  moreover have "nd_mmreg s' ! i = nd_mmreg s ! i" if "i < length (nd_mmreg s)" "\<not> (?off \<le> i \<and> i < ?off + pkt_size w)" for i
    using nth_put_bytes [OF mm(2) that(1)] that(2) len by (simp add: s'_def)
  moreover have "nd_tickEvent s' \<noteq> None" using sched_idle_scheduled by (simp add: s'_def)
  ultimately show ?thesis using wr makeResponse_ok [OF nm(2)] by blast
qed

abbreviation reg_pkt :: "mem_cmd \<Rightarrow> addr \<Rightarrow> byte list \<Rightarrow> packet" where
  "reg_pkt c a d \<equiv> \<lparr> pkt_id = 0, pkt_cmd = c, pkt_addr = a, pkt_size = length d, pkt_data = d,
     pkt_byteEnable = [], pkt_headerDelay = 0, pkt_payloadDelay = 0, pkt_cacheResponding = False,
     pkt_secure = False, pkt_atomicOp = None, pkt_condSwap = False,
     pkt_extraData = None, pkt_contextId = None, pkt_instFetch = False \<rparr>"

theorem noncoherent_dma_register_roundtrip_witness:
  "\<exists>w' s' r'. nd_write 0 demo_dma (reg_pkt WriteReq 0x1001 [1, 2, 3, 4]) = Inr (nd_pioDelay demo_dma, w', s') \<and> pkt_isResponse w'
    \<and> nd_read s' (reg_pkt ReadReq 0x1001 [0, 0, 0, 0]) = Inr (nd_pioDelay demo_dma, r')
    \<and> pkt_data r' = [1, 2, 3, 4] \<and> nd_tickEvent s' \<noteq> None"
proof -
  have p: "nd_pioAddr demo_dma = 0x1000" "length (nd_mmreg demo_dma) = 21"
    by (simp_all add: demo_dma_def NoncoherentDma_def Let_def)
  show ?thesis
    using noncoherent_dma_register_roundtrip [of "reg_pkt WriteReq 0x1001 [1, 2, 3, 4]" demo_dma "reg_pkt ReadReq 0x1001 [0, 0, 0, 0]" 0]
    by (auto simp: p pkt_wf_def)
qed

end
