(* ===== verification/Stream_Dma.thy ===== *)
theory Stream_Dma
  imports Stream_Buffer Noncoherent_Dma
begin

text \<open>
  The streaming DMA engine of \<open>src/hwacc/stream_dma.cc\<close>: frames of memory are prefetched into a
  read FIFO that a stream (or a register window) drains, and a stream fills a write FIFO that
  is stored as frames. Frames cycle through a ring of frame buffers in memory; interrupts are
  raised every so many frames. The engine is a stream device, as the stream buffer is.
\<close>

unbundle bit_operations_syntax

section \<open>State\<close>

record frame_eng =
  fe_running :: bool
  fe_addr :: addr
  fe_ptr :: addr
  fe_frameSize :: "32 word"
  fe_framesTotal :: "8 word"
  fe_frameBuffSize :: "8 word"
  fe_framesDone :: "64 word"
  fe_intFrames :: "8 word"

text \<open>
  \<open>sd_rdEng\<close> groups \<open>rdRunning\<close>, \<open>readAddr\<close>, \<open>readPtr\<close>, \<open>readFrameSize\<close>, \<open>framesToRead\<close>,
  \<open>readFrameBuffSize\<close>, \<open>framesRead\<close> and \<open>readIntFrames\<close>; \<open>sd_wrEng\<close> their write counterparts.
\<close>

record stream_dma =
  sd_readFifo :: dma_fifo
  sd_writeFifo :: dma_fifo
  sd_pioAddr :: addr
  sd_pioDelay :: tick
  sd_pioSize :: addr
  sd_streamAddr :: addr
  sd_streamSize :: addr
  sd_rdInt :: nat
  sd_wrInt :: nat
  sd_running :: bool
  sd_endian :: byte_order
  sd_tickEvent :: event
  sd_bandwidth :: rat
  sd_mmreg :: "byte list"
  sd_gic :: "gic_call list"
  sd_rdEng :: frame_eng
  sd_wrEng :: frame_eng

text \<open>
  The register file is an array of 32 bytes, of which the constructor clears the first
  \<open>pioSize\<close>; \<open>mm0\<close> and the engines stand for uninitialised memory.
\<close>

definition StreamDma :: "addr \<Rightarrow> tick \<Rightarrow> addr \<Rightarrow> addr \<Rightarrow> addr \<Rightarrow> nat \<Rightarrow> nat \<Rightarrow> nat \<Rightarrow> nat \<Rightarrow> nat \<Rightarrow> nat \<Rightarrow>
    byte_order \<Rightarrow> rat \<Rightarrow> bool \<Rightarrow> nat \<Rightarrow> byte list \<Rightarrow> frame_eng \<Rightarrow> frame_eng \<Rightarrow> stream_dma result" where
  "StreamDma pioAddr pioDelay pioSize streamAddr streamSize rdBufferSize wrBufferSize maxPending maxReqSize rdInt wrInt
     endian bandwidth bypass cls mm0 re0 we0 =
     (if unat pioSize > 32 then Inl OutOfBounds
      else Inr \<lparr> sd_readFifo = dma_fifo_new rdBufferSize maxReqSize maxPending bypass cls,
          sd_writeFifo = dma_fifo_new wrBufferSize maxReqSize maxPending bypass cls,
          sd_pioAddr = pioAddr, sd_pioDelay = pioDelay, sd_pioSize = pioSize, sd_streamAddr = streamAddr,
          sd_streamSize = streamSize, sd_rdInt = rdInt, sd_wrInt = wrInt, sd_running = False,
          sd_endian = endian, sd_tickEvent = None, sd_bandwidth = bandwidth,
          sd_mmreg = replicate (unat pioSize) 0 @ take (32 - unat pioSize) mm0, sd_gic = [],
          sd_rdEng = re0\<lparr> fe_running := False \<rparr>, sd_wrEng = we0\<lparr> fe_running := False \<rparr> \<rparr>)"

definition sd_getAddrRanges :: "stream_dma \<Rightarrow> addr_range_list result" where
  "sd_getAddrRanges s =
     bind_res (assert_that (sd_pioSize s \<noteq> 0) ''pioSize != 0'') (\<lambda>_. Inr [RangeSize (sd_pioAddr s) (sd_pioSize s)])"

definition sd_getStreamAddrRanges :: "stream_dma \<Rightarrow> addr_range_list result" where
  "sd_getStreamAddrRanges s =
     bind_res (assert_that (sd_streamSize s \<noteq> 0) ''streamSize != 0'')
       (\<lambda>_. Inr [RangeSize (sd_streamAddr s) (sd_streamSize s)])"

section \<open>Registers\<close>

text \<open>The offsets of \<open>stream_dma.hh\<close>, as its macros add up.\<close>

definition sd_reg :: "nat \<Rightarrow> nat \<Rightarrow> byte list \<Rightarrow> nat result" where
  "sd_reg off n mm = bind_res (get_bytes off n mm) (\<lambda>bs. Inr (le_val bs))"

definition sd_FLAGS :: "stream_dma \<Rightarrow> byte" where
  "sd_FLAGS s = hd (sd_mmreg s)"

definition sd_set_FLAGS :: "byte \<Rightarrow> stream_dma \<Rightarrow> stream_dma" where
  "sd_set_FLAGS b s = s\<lparr> sd_mmreg := (sd_mmreg s)[0 := b] \<rparr>"

definition BUFFER_ACCESS_OFF :: nat where
  "BUFFER_ACCESS_OFF = 32"

section \<open>Tick\<close>

definition sd_rd_start :: "(addr \<Rightarrow> nat \<Rightarrow> byte list) \<Rightarrow> stream_dma \<Rightarrow> stream_dma result" where
  "sd_rd_start rb s =
     (if \<not> fe_running (sd_rdEng s) \<and> sd_FLAGS s AND 0x01 = 0x01
      then bind_res (sd_reg 4 8 (sd_mmreg s)) (\<lambda>a.
           bind_res (sd_reg 20 4 (sd_mmreg s)) (\<lambda>fsz.
           bind_res (sd_reg 24 1 (sd_mmreg s)) (\<lambda>nf.
           bind_res (sd_reg 25 1 (sd_mmreg s)) (\<lambda>fb.
           bind_res (sd_reg 1 1 (sd_mmreg s)) (\<lambda>cfg.
             let s1 = (sd_set_FLAGS ((sd_FLAGS s AND 0xFE) OR 0x04) s)
                   \<lparr> sd_rdEng := \<lparr> fe_running = True, fe_addr = word_of_nat a, fe_ptr = word_of_nat a,
                       fe_frameSize = word_of_nat fsz, fe_framesTotal = word_of_nat nf, fe_frameBuffSize = word_of_nat fb,
                       fe_framesDone = 0, fe_intFrames = word_of_nat cfg \<rparr> \<rparr>
             in bind_res (startFill rb (word_of_nat a) (word_of_nat fsz) (sd_readFifo s1))
                  (\<lambda>f. Inr (s1\<lparr> sd_readFifo := f \<rparr>)))))))
      else Inr s)"

definition sd_wr_start :: "(addr \<Rightarrow> nat \<Rightarrow> byte list) \<Rightarrow> stream_dma \<Rightarrow> stream_dma result" where
  "sd_wr_start rb s =
     (if \<not> fe_running (sd_wrEng s) \<and> sd_FLAGS s AND 0x02 = 0x02
      then bind_res (sd_reg 12 8 (sd_mmreg s)) (\<lambda>a.
           bind_res (sd_reg 26 4 (sd_mmreg s)) (\<lambda>fsz.
           bind_res (sd_reg 30 1 (sd_mmreg s)) (\<lambda>nf.
           bind_res (sd_reg 31 1 (sd_mmreg s)) (\<lambda>fb.
           bind_res (sd_reg 1 2 (sd_mmreg s)) (\<lambda>cfg.
             let s1 = (sd_set_FLAGS ((sd_FLAGS s AND 0xFD) OR 0x08) s)
                   \<lparr> sd_wrEng := \<lparr> fe_running = True, fe_addr = word_of_nat a, fe_ptr = word_of_nat a,
                       fe_frameSize = word_of_nat fsz, fe_framesTotal = word_of_nat nf, fe_frameBuffSize = word_of_nat fb,
                       fe_framesDone = 0, fe_intFrames = word_of_nat (cfg div 256) \<rparr> \<rparr>
             in bind_res (startEmpty rb (word_of_nat a) (word_of_nat fsz) (sd_writeFifo s1))
                  (\<lambda>f. Inr (s1\<lparr> sd_writeFifo := f \<rparr>)))))))
      else Inr s)"

definition sd_clear_ints :: "stream_dma \<Rightarrow> stream_dma" where
  "sd_clear_ints s =
     (let s1 = (if sd_FLAGS s AND 0x10 \<noteq> 0x10 then s\<lparr> sd_gic := sd_gic s @ [ClearInt (sd_rdInt s)] \<rparr> else s)
      in if sd_FLAGS s1 AND 0x20 \<noteq> 0x20 then s1\<lparr> sd_gic := sd_gic s1 @ [ClearInt (sd_wrInt s1)] \<rparr> else s1)"

text \<open>
  The bookkeeping at the end of a frame, shared by both directions: the new engine state and
  whether the interrupt is raised; a further frame needs a nonempty ring of frame buffers.
\<close>

definition fe_frame_done :: "frame_eng \<Rightarrow> (frame_eng \<times> bool) result" where
  "fe_frame_done e =
     (let done = fe_framesDone e + 1;
          irq = fe_intFrames e \<noteq> 0 \<and> done mod ucast (fe_intFrames e) = 0;
          e1 = e\<lparr> fe_framesDone := done \<rparr>
      in if fe_framesTotal e \<noteq> 0 \<and> done \<ge> ucast (fe_framesTotal e)
         then Inr (e1\<lparr> fe_running := False \<rparr>, irq)
         else bind_res (assert_that (fe_frameBuffSize e \<noteq> 0) ''frameBuffSize != 0'') (\<lambda>_.
           Inr (e1\<lparr> fe_ptr := fe_addr e + (done mod ucast (fe_frameBuffSize e)) * ucast (fe_frameSize e) \<rparr>, irq)))"

definition sd_rd_frame :: "(addr \<Rightarrow> nat \<Rightarrow> byte list) \<Rightarrow> stream_dma \<Rightarrow> stream_dma result" where
  "sd_rd_frame rb s =
     (if fe_running (sd_rdEng s) \<and> \<not> isActive (sd_readFifo s)
      then bind_res (fe_frame_done (sd_rdEng s)) (\<lambda>(e, irq).
           let s1 = (if irq then (sd_set_FLAGS (sd_FLAGS s OR 0x10) s)\<lparr> sd_gic := sd_gic s @ [SendInt (sd_rdInt s)] \<rparr> else s);
               s2 = s1\<lparr> sd_rdEng := e \<rparr>
           in if \<not> fe_running e then Inr (sd_set_FLAGS (sd_FLAGS s2 AND 0xFB) s2)
              else bind_res (startFill rb (fe_ptr e) (ucast (fe_frameSize e)) (sd_readFifo s2))
                     (\<lambda>f. Inr (s2\<lparr> sd_readFifo := f \<rparr>)))
      else Inr s)"

definition sd_wr_frame :: "(addr \<Rightarrow> nat \<Rightarrow> byte list) \<Rightarrow> stream_dma \<Rightarrow> stream_dma result" where
  "sd_wr_frame rb s =
     (if fe_running (sd_wrEng s) \<and> \<not> isActive (sd_writeFifo s)
      then bind_res (fe_frame_done (sd_wrEng s)) (\<lambda>(e, irq).
           let s1 = (if irq then (sd_set_FLAGS (sd_FLAGS s OR 0x20) s)\<lparr> sd_gic := sd_gic s @ [SendInt (sd_wrInt s)] \<rparr> else s);
               s2 = s1\<lparr> sd_wrEng := e \<rparr>
           in if \<not> fe_running e then Inr (sd_set_FLAGS (sd_FLAGS s2 AND 0xF7) s2)
              else bind_res (startEmpty rb (fe_ptr e) (ucast (fe_frameSize e)) (sd_writeFifo s2))
                     (\<lambda>f. Inr (s2\<lparr> sd_writeFifo := f \<rparr>)))
      else Inr s)"

text \<open>\<open>cyc\<close> is the time to the next cycle of the engine's clock.\<close>

definition sd_tick :: "(addr \<Rightarrow> nat \<Rightarrow> byte list) \<Rightarrow> tick \<Rightarrow> nat \<Rightarrow> stream_dma \<Rightarrow> stream_dma result" where
  "sd_tick rb now cyc s =
     bind_res (get_bytes 0 1 (sd_mmreg s)) (\<lambda>_.
     bind_res (sd_rd_start rb s) (\<lambda>s1.
     bind_res (sd_wr_start rb s1) (\<lambda>s2.
     bind_res (sd_rd_frame rb (sd_clear_ints s2)) (\<lambda>s3.
     bind_res (sd_wr_frame rb s3) (\<lambda>s4.
       let s5 = s4\<lparr> sd_running := fe_running (sd_rdEng s4) \<or> fe_running (sd_wrEng s4) \<rparr>
       in Inr (if sd_running s5 then s5\<lparr> sd_tickEvent := sched_idle now cyc (sd_tickEvent s5) \<rparr> else s5))))))"

section \<open>Register and stream accesses\<close>

text \<open>
  A register read loads four bytes and a buffer read eight, whatever the packet's size; only
  the packet's own bytes are set, so the model reads those.
\<close>

definition sd_stream_get :: "(addr \<Rightarrow> nat \<Rightarrow> byte list) \<Rightarrow> stream_dma \<Rightarrow> packet \<Rightarrow> (packet \<times> stream_dma) result" where
  "sd_stream_get rb s p =
     bind_res (get rb (pkt_size p) (sd_readFifo s)) (\<lambda>(buff, f).
     bind_res (set_sized [1, 2, 4, 8] (le_val (take 8 buff)) (sd_endian s) p) (\<lambda>p'. Inr (p', s\<lparr> sd_readFifo := f \<rparr>)))"

definition sd_stream_put :: "(addr \<Rightarrow> nat \<Rightarrow> byte list) \<Rightarrow> stream_dma \<Rightarrow> packet \<Rightarrow> stream_dma result" where
  "sd_stream_put rb s p =
     bind_res (writeData p 0 (replicate (pkt_size p) 0)) (\<lambda>d.
     bind_res (fill rb d (sd_writeFifo s)) (\<lambda>f. Inr (s\<lparr> sd_writeFifo := f \<rparr>)))"

definition sd_read :: "(addr \<Rightarrow> nat \<Rightarrow> byte list) \<Rightarrow> tick \<Rightarrow> nat \<Rightarrow> stream_dma \<Rightarrow> packet \<Rightarrow> (tick \<times> packet \<times> stream_dma) result" where
  "sd_read rb now cyc s p =
     (let off = unat (pkt_addr p - sd_pioAddr s)
      in bind_res
           (if off < BUFFER_ACCESS_OFF
            then if \<not> List.member [1, 2, 4] (pkt_size p) then Inl (Panic ''Read size too big?'')
                 else bind_res (get_bytes off (pkt_size p) (sd_mmreg s)) (\<lambda>bs.
                        Inr (pkt_set (pkt_size p) (le_val bs) (sd_endian s) p, s))
            else sd_stream_get rb s p) (\<lambda>(p1, s1).
         let s2 = s1\<lparr> sd_tickEvent := sched_idle now cyc (sd_tickEvent s1) \<rparr>
         in bind_res (makeResponse p1) (\<lambda>p2. Inr (sd_pioDelay s, p2, s2))))"

definition sd_write :: "(addr \<Rightarrow> nat \<Rightarrow> byte list) \<Rightarrow> tick \<Rightarrow> nat \<Rightarrow> stream_dma \<Rightarrow> packet \<Rightarrow> (tick \<times> packet \<times> stream_dma) result" where
  "sd_write rb now cyc s p =
     (let off = unat (pkt_addr p - sd_pioAddr s)
      in bind_res
           (if off < BUFFER_ACCESS_OFF
            then bind_res (writeData p off (sd_mmreg s)) (\<lambda>mm. Inr (s\<lparr> sd_mmreg := mm \<rparr>))
            else sd_stream_put rb s p) (\<lambda>s1.
         let s2 = s1\<lparr> sd_tickEvent := sched_idle now cyc (sd_tickEvent s1) \<rparr>
         in bind_res (makeResponse p) (\<lambda>p'. Inr (sd_pioDelay s, p', s2))))"

definition sd_streamRead :: "(addr \<Rightarrow> nat \<Rightarrow> byte list) \<Rightarrow> stream_dma \<Rightarrow> packet \<Rightarrow> (tick \<times> packet \<times> stream_dma) result" where
  "sd_streamRead rb s p =
     bind_res (sd_stream_get rb s p) (\<lambda>(p1, s1).
     bind_res (makeResponse p1) (\<lambda>p2. Inr (xfer_duration (pkt_size p) (sd_bandwidth s), p2, s1)))"

definition sd_streamWrite :: "(addr \<Rightarrow> nat \<Rightarrow> byte list) \<Rightarrow> stream_dma \<Rightarrow> packet \<Rightarrow> (tick \<times> packet \<times> stream_dma) result" where
  "sd_streamWrite rb s p =
     bind_res (sd_stream_put rb s p) (\<lambda>s1. bind_res (makeResponse p) (\<lambda>p'. Inr (sd_pioDelay s, p', s1)))"

definition sd_tvalid :: "stream_dma \<Rightarrow> nat \<Rightarrow> bool \<Rightarrow> bool" where
  "sd_tvalid s len isRd = (if isRd then df_size (sd_readFifo s) \<ge> len else canFill len (sd_writeFifo s))"

definition sd_tvalid_pkt :: "stream_dma \<Rightarrow> packet \<Rightarrow> bool" where
  "sd_tvalid_pkt s p = sd_tvalid s (pkt_size p) (pkt_isRead p)"

definition sd_recvTimingReq :: "(addr \<Rightarrow> nat \<Rightarrow> byte list) \<Rightarrow> tick \<Rightarrow> stream_port \<Rightarrow> stream_dma \<Rightarrow> packet \<Rightarrow>
    (bool \<times> stream_port \<times> stream_dma) result" where
  "sd_recvTimingReq rb = sp_recvTimingReq sd_tvalid_pkt (sd_streamRead rb) (sd_streamWrite rb) sd_bandwidth"

section \<open>The streaming DMA is a stream device\<close>

definition sd_inv :: "nat \<Rightarrow> stream_dma \<Rightarrow> bool" where
  "sd_inv n s \<longleftrightarrow> (\<exists>m k. rd_inv m k (sd_readFifo s)) \<and> (\<exists>pre d0 L w. wr_inv pre d0 L w n (sd_writeFifo s))"

lemma get_inv:
  assumes "rd_inv m n f" and "len \<le> df_size f"
  shows "\<exists>f'. get rb len f = Inr (take len (rd_stream m f), f') \<and> rd_inv m n f' \<and> rd_stream m f' = drop len (rd_stream m f)"
  using tryGet_inv [OF assms(1), of len rb] assms(2) by (auto simp: get_def)

lemma sd_streamRead_spec:
  assumes inv: "rd_inv m n (sd_readFifo s)" and p: "stream_pkt p" "pkt_cmd p = ReadReq" and v: "sd_tvalid_pkt s p"
  shows "\<exists>t p' s'. sd_streamRead rb s p = Inr (t, p', s') \<and> pkt_isResponse p' \<and> rd_inv m n (sd_readFifo s')
    \<and> rd_stream m (sd_readFifo s') = drop (pkt_size p) (rd_stream m (sd_readFifo s))
    \<and> (\<exists>f. s' = s\<lparr> sd_readFifo := f \<rparr>)
    \<and> (sd_endian s = LittleEndianByteOrder \<longrightarrow> pkt_data p' = take (pkt_size p) (rd_stream m (sd_readFifo s)))"
proof -
  let ?n = "pkt_size p" and ?xs = "take (pkt_size p) (rd_stream m (sd_readFifo s))"
  have len: "?n \<le> df_size (sd_readFifo s)" "?n \<in> {1, 2, 4, 8}"
    using p v stream_pkt_facts(2) [OF p(1)] by (auto simp: sd_tvalid_pkt_def sd_tvalid_def stream_pkt_def)
  obtain f' where f': "get rb ?n (sd_readFifo s) = Inr (?xs, f')" "rd_inv m n f'" "rd_stream m f' = drop ?n (rd_stream m (sd_readFifo s))"
    using get_inv [OF inv len(1)] by blast
  have lx: "length ?xs = ?n" using len(1) by (simp add: rd_stream_def df_size_def)
  have x8: "take 8 ?xs = ?xs" using len(2) by auto
  have le: "le_bytes ?n (le_val ?xs) = ?xs" using le_bytes_le_val [of ?xs] lx by simp
  define p1 where "p1 = pkt_set ?n (le_val ?xs) (sd_endian s) p"
  have st: "set_sized [1, 2, 4, 8] (le_val (take 8 ?xs)) (sd_endian s) p = Inr p1"
    using len x8 by (auto simp: set_sized_def p1_def)
  have "pkt_needsResponse p1" using stream_pkt_facts(1) [OF p(1)]
    by (simp add: p1_def pkt_set_def pkt_needsResponse_def)
  note mr = makeResponse_ok [OF this]
  have "sd_endian s = LittleEndianByteOrder \<Longrightarrow> pkt_data p1 = ?xs" using le by (simp add: p1_def pkt_set_def)
  with f' st mr show ?thesis by (auto simp: sd_streamRead_def sd_stream_get_def)
qed

lemma sd_streamWrite_spec:
  assumes inv: "wr_inv pre d0 L w (pkt_size p + n) (sd_writeFifo s)" and p: "stream_pkt p" "pkt_cmd p = WriteReq"
    and v: "sd_tvalid_pkt s p"
  shows "\<exists>t p' s'. sd_streamWrite rb s p = Inr (t, p', s') \<and> pkt_isResponse p'
    \<and> wr_inv pre d0 L (w @ pkt_data p) n (sd_writeFifo s') \<and> sd_readFifo s' = sd_readFifo s"
proof -
  have wd: "writeData p 0 (replicate (pkt_size p) 0) = Inr (pkt_data p)"
    using writeData_unmasked [OF stream_pkt_facts(3,4) [OF p(1)], of 0] by simp
  have l: "length (pkt_data p) = pkt_size p" using stream_pkt_facts(4) [OF p(1)] by (simp add: pkt_wf_def)
  have room: "canFill (length (pkt_data p)) (sd_writeFifo s)"
    using v p stream_pkt_facts(2) [OF p(1)] l by (simp add: sd_tvalid_pkt_def sd_tvalid_def)
  obtain f' where "fill rb (pkt_data p) (sd_writeFifo s) = Inr f'" "wr_inv pre d0 L (w @ pkt_data p) n f'"
    using fill_inv [of pre d0 L w "pkt_data p" n "sd_writeFifo s" rb] inv room l by auto
  with wd makeResponse_ok [OF stream_pkt_facts(1) [OF p(1)]] show ?thesis
    by (simp add: sd_streamWrite_def sd_stream_put_def)
qed

interpretation sd_dev: stream_device sd_inv sd_tvalid_pkt "sd_streamRead rb" "sd_streamWrite rb" sd_bandwidth for rb
proof (unfold_locales, goal_cases)
  case (1 n d m)
  then show ?case using wr_inv_mono unfolding sd_inv_def by blast
next
  case (2 d p)
  then show ?case by (simp add: sd_tvalid_pkt_def pkt_isRead_def)
next
  case (3 n d p)
  then obtain m k where "rd_inv m k (sd_readFifo d)" by (auto simp: sd_inv_def)
  from sd_streamRead_spec [OF this 3(2-4), of rb] 3(1) show ?case unfolding sd_inv_def by force
next
  case (4 p n d)
  then obtain pre d0 L w where "wr_inv pre d0 L w (pkt_size p + n) (sd_writeFifo d)" by (auto simp: sd_inv_def)
  from sd_streamWrite_spec [OF this 4(2-4), of rb] 4(1) show ?case unfolding sd_inv_def by force
qed

text \<open>
  C37. The streaming DMA's stream ports are well behaved: with the engine's FIFOs in order and
  the port in a consistent state, a stream request is always answered without a failure, it
  is accepted exactly when the port is idle and the FIFO can serve it, and port and engine
  stay consistent.
\<close>

theorem stream_dma_port_flow_control:
  assumes "sp_inv sp" and "sd_inv (pkt_size p + n) s" and "stream_pkt p"
  shows "\<exists>b sp' s'. sd_recvTimingReq rb now sp s p = Inr (b, sp', s') \<and> sp_inv sp' \<and> sd_inv n s'
    \<and> (b \<longleftrightarrow> \<not> sp_isBusy sp \<and> sd_tvalid s (pkt_size p) (pkt_isRead p))"
  using sd_dev.recvTimingReq_ok [OF assms, of rb now] by (simp add: sd_recvTimingReq_def sd_tvalid_pkt_def)

text \<open>A fresh engine for concrete runs.\<close>

definition demo_sd :: stream_dma where
  "demo_sd = \<lparr> sd_readFifo = dma_fifo_new 16 4 2 False 64, sd_writeFifo = dma_fifo_new 16 4 2 False 64,
     sd_pioAddr = 0x1000, sd_pioDelay = 10, sd_pioSize = 32, sd_streamAddr = 0x2000, sd_streamSize = 8,
     sd_rdInt = 210, sd_wrInt = 211, sd_running = False, sd_endian = LittleEndianByteOrder, sd_tickEvent = None,
     sd_bandwidth = 1, sd_mmreg = 1 # [1, 0, 0] @ le_bytes 8 0x100 @ le_bytes 8 0 @ le_bytes 4 8 @ [3, 2] @ replicate 6 0, sd_gic = [],
     sd_rdEng = \<lparr> fe_running = False, fe_addr = 0, fe_ptr = 0, fe_frameSize = 0, fe_framesTotal = 0,
       fe_frameBuffSize = 0, fe_framesDone = 0, fe_intFrames = 0 \<rparr>,
     sd_wrEng = \<lparr> fe_running = False, fe_addr = 0, fe_ptr = 0, fe_frameSize = 0, fe_framesTotal = 0,
       fe_frameBuffSize = 0, fe_framesDone = 0, fe_intFrames = 0 \<rparr> \<rparr>"

lemma fifo_idle_invs:
  assumes "fifo_idle n mr fs f" and "df_actions f = []"
  shows "rd_inv m n f" "wr_inv [] (df_nextAddr f) 0 [] n f"
proof -
  have i: "df_cfg f" "cq_wf n (df_buffer f)" "cq_list (df_buffer f) = []" "df_pending f = []" "block_left f = 0" "size_pending f = 0"
    using assms(1) block_left_0 [of f] by (auto simp: fifo_idle_def isActive_def size_pending_def)
  have "df_size f \<le> df_fifoSize f" using i(1) cq_size_le [OF i(2)] by (simp add: df_cfg_def df_size_def)
  with i assms(2) show "rd_inv m n f" "wr_inv [] (df_nextAddr f) 0 [] n f" by (auto simp: rd_inv_def wr_inv_def)
qed

lemma demo_sd_inv: "sd_inv 100 demo_sd"
proof -
  have f: "fifo_idle 100 4 16 (dma_fifo_new 16 4 2 False 64)" by (rule fifo_idle_new) simp_all
  have "df_actions (dma_fifo_new 16 4 2 False 64) = []" by (simp add: dma_fifo_new_def)
  from fifo_idle_invs [OF f this] show ?thesis by (auto simp: sd_inv_def demo_sd_def)
qed

theorem stream_dma_port_flow_control_witness:
  "\<exists>b sp' s'. sd_recvTimingReq (\<lambda>a n. []) 0 StreamSlavePort demo_sd (demo_pkt WriteReq [7, 8]) = Inr (b, sp', s')
    \<and> sp_inv sp' \<and> sd_inv 98 s'
    \<and> (b \<longleftrightarrow> \<not> sp_isBusy StreamSlavePort
         \<and> sd_tvalid demo_sd (pkt_size (demo_pkt WriteReq [7, 8])) (pkt_isRead (demo_pkt WriteReq [7, 8])))"
  by (rule stream_dma_port_flow_control)
    (simp_all add: sp_inv_def StreamSlavePort_def demo_sd_inv stream_pkt_def pkt_wf_def)

section \<open>Frames\<close>

fun fe_run :: "nat \<Rightarrow> frame_eng \<Rightarrow> (frame_eng \<times> bool list) result" where
  "fe_run 0 e = Inr (e, [])"
| "fe_run (Suc k) e = bind_res (fe_run k e) (\<lambda>(e1, irqs). bind_res (fe_frame_done e1) (\<lambda>(e2, irq). Inr (e2, irqs @ [irq])))"

text \<open>The address of frame \<open>j\<close>: the frame buffers in memory are used in turn.\<close>

definition frame_addr :: "frame_eng \<Rightarrow> nat \<Rightarrow> addr" where
  "frame_addr e j = fe_addr e + of_nat (j mod unat (fe_frameBuffSize e)) * ucast (fe_frameSize e)"

definition frame_irq :: "frame_eng \<Rightarrow> nat \<Rightarrow> bool" where
  "frame_irq e j \<longleftrightarrow> fe_intFrames e \<noteq> 0 \<and> j mod unat (fe_intFrames e) = 0"

lemma of_nat_mod_ucast: "k < 2 ^ 64 \<Longrightarrow> (of_nat k :: 64 word) mod ucast (b :: 8 word) = of_nat (k mod unat b)"
proof -
  assume k: "k < 2 ^ 64"
  have u: "unat (of_nat k :: 64 word) = k" using k by (simp add: unat_of_nat)
  have b: "unat (ucast b :: 64 word) = unat b" by (simp add: unsigned_ucast_eq) (use unat_byte_lt [of b] in \<open>simp add: take_bit_nat_eq_self\<close>)
  have "unat ((of_nat k :: 64 word) mod ucast b) = k mod unat b" by (simp only: unat_mod u b)
  then show ?thesis by (metis word_nat_cases unat_of_nat of_nat_unat ucast_id)
qed

lemma unat_ucast8: "unat (ucast (b :: 8 word) :: 64 word) = unat b"
  using unat_byte_lt [of b] by (simp add: unsigned_ucast_eq take_bit_nat_eq_self)

lemma unat_ucast32: "unat (ucast (w :: 32 word) :: 64 word) = unat w"
proof -
  have "unat w < 2 ^ 32" using unsigned_less [of w] by simp
  then show ?thesis by (simp add: unsigned_ucast_eq take_bit_nat_eq_self)
qed

lemma of_nat_eq_0_small: "x < 2 ^ 64 \<Longrightarrow> (of_nat x :: 64 word) = 0 \<longleftrightarrow> x = 0"
  by (auto simp: word_of_nat_eq_0_iff dest: dvd_imp_le)

text \<open>The engine stops at frame \<open>k\<close> unless the number of frames is unlimited.\<close>

definition fe_last :: "frame_eng \<Rightarrow> nat \<Rightarrow> bool" where
  "fe_last e k \<longleftrightarrow> fe_framesTotal e \<noteq> 0 \<and> unat (fe_framesTotal e) \<le> k"

lemma fe_frame_done_spec:
  assumes k: "fe_framesDone e = of_nat k" "Suc k < 2 ^ 64" and buf: "fe_frameBuffSize e \<noteq> 0"
  shows "fe_frame_done e = Inr (e\<lparr> fe_framesDone := of_nat (Suc k), fe_running := (if fe_last e (Suc k) then False else fe_running e),
    fe_ptr := (if fe_last e (Suc k) then fe_ptr e else frame_addr e (Suc k)) \<rparr>, frame_irq e (Suc k))"
proof -
  have d: "fe_framesDone e + 1 = of_nat (Suc k)" using k(1) by (simp add: add.commute)
  have u: "unat (of_nat (Suc k) :: 64 word) = Suc k" using k(2) by (simp add: unat_of_nat del: of_nat_Suc)
  have l: "fe_framesTotal e \<noteq> 0 \<and> of_nat (Suc k) \<ge> (ucast (fe_framesTotal e) :: 64 word) \<longleftrightarrow> fe_last e (Suc k)"
    unfolding fe_last_def word_le_nat_alt u unat_ucast8 ..
  have "fe_intFrames e \<noteq> 0 \<longrightarrow> ((of_nat (Suc k mod unat (fe_intFrames e)) :: 64 word) = 0 \<longleftrightarrow> Suc k mod unat (fe_intFrames e) = 0)"
  proof
    assume that: "fe_intFrames e \<noteq> 0"
    have "Suc k mod unat (fe_intFrames e) < unat (fe_intFrames e)" using that by (intro mod_less_divisor) (simp add: unat_gt_0)
    then have "Suc k mod unat (fe_intFrames e) < 2 ^ 64" using unat_byte_lt [of "fe_intFrames e"] by simp
    then show "(of_nat (Suc k mod unat (fe_intFrames e)) :: 64 word) = 0 \<longleftrightarrow> Suc k mod unat (fe_intFrames e) = 0"
      by (rule of_nat_eq_0_small)
  qed
  note iff = this [rule_format]
  have irq: "fe_intFrames e \<noteq> 0 \<and> of_nat (Suc k) mod ucast (fe_intFrames e) = (0 :: 64 word) \<longleftrightarrow> frame_irq e (Suc k)"
    unfolding frame_irq_def of_nat_mod_ucast [OF k(2)] by (rule conj_cong [OF refl]) (rule iff)
  show ?thesis
    unfolding fe_frame_done_def Let_def d l of_nat_mod_ucast [OF k(2)] using buf irq [unfolded of_nat_mod_ucast [OF k(2)]]
    by (simp add: frame_addr_def del: of_nat_Suc)
qed

definition fe_same :: "frame_eng \<Rightarrow> frame_eng \<Rightarrow> bool" where
  "fe_same e e' \<longleftrightarrow> fe_addr e' = fe_addr e \<and> fe_frameSize e' = fe_frameSize e \<and> fe_framesTotal e' = fe_framesTotal e
     \<and> fe_frameBuffSize e' = fe_frameBuffSize e \<and> fe_intFrames e' = fe_intFrames e"

text \<open>
  Frames follow the programmed schedule: after \<open>k\<close> completed frames the engine is at frame
  \<open>k\<close>, whose address is the base plus \<open>k\<close> modulo the number of frame buffers times the frame
  size, it has stopped exactly if all frames of a limited transfer are done, and interrupts
  were raised exactly at the multiples of the interrupt period.
\<close>

theorem stream_dma_frame_schedule:
  assumes "fe_running e" and "fe_framesDone e = 0" and "fe_frameBuffSize e \<noteq> 0" and "fe_ptr e = fe_addr e"
    and "k < 2 ^ 64" and "fe_framesTotal e \<noteq> 0 \<longrightarrow> k \<le> unat (fe_framesTotal e)"
  shows "\<exists>e'. fe_run k e = Inr (e', map (\<lambda>j. frame_irq e (Suc j)) [0..<k]) \<and> fe_framesDone e' = of_nat k
    \<and> fe_running e' = (\<not> fe_last e k) \<and> (fe_running e' \<longrightarrow> fe_ptr e' = frame_addr e k)"
proof -
  have "\<exists>e'. fe_run k e = Inr (e', map (\<lambda>j. frame_irq e (Suc j)) [0..<k]) \<and> fe_framesDone e' = of_nat k
      \<and> fe_running e' = (\<not> fe_last e k) \<and> (fe_running e' \<longrightarrow> fe_ptr e' = frame_addr e k)
      \<and> fe_same e e'"
    using assms(5,6)
  proof (induction k)
    case 0
    have "\<not> fe_last e 0" using unat_gt_0 [of "fe_framesTotal e"] by (auto simp: fe_last_def)
    then show ?case using assms(1-4) by (simp add: frame_addr_def fe_same_def)
  next
    case (Suc k)
    then have "k < 2 ^ 64" "fe_framesTotal e \<noteq> 0 \<longrightarrow> k \<le> unat (fe_framesTotal e)" by auto
    with Suc.IH obtain e' where e': "fe_run k e = Inr (e', map (\<lambda>j. frame_irq e (Suc j)) [0..<k])" "fe_framesDone e' = of_nat k"
      "fe_running e' = (\<not> fe_last e k)" "fe_same e e'" by blast
    have same: "fe_frameBuffSize e' \<noteq> 0" "fe_last e' = fe_last e" "frame_addr e' = frame_addr e" "frame_irq e' = frame_irq e"
      using assms(3) e'(4) by (auto simp: fe_same_def fe_last_def frame_addr_def frame_irq_def fun_eq_iff)
    have "\<not> fe_last e k" using Suc.prems(2) by (auto simp: fe_last_def)
    then have "fe_running e'" using e'(3) by simp
    with fe_frame_done_spec [OF e'(2) Suc.prems(1) same(1)] e'(1,4) same(2-4) show ?case
      by (simp add: fe_same_def)
  qed
  then show ?thesis by blast
qed

theorem stream_dma_frame_schedule_witness:
  "\<exists>e'. fe_run 3 \<lparr> fe_running = True, fe_addr = 0x100, fe_ptr = 0x100, fe_frameSize = 8, fe_framesTotal = 3,
        fe_frameBuffSize = 2, fe_framesDone = 0, fe_intFrames = 2 \<rparr> = Inr (e', [False, True, False]) \<and> \<not> fe_running e'"
proof -
  let ?e = "\<lparr> fe_running = True, fe_addr = 0x100, fe_ptr = 0x100, fe_frameSize = 8, fe_framesTotal = 3,
        fe_frameBuffSize = 2, fe_framesDone = 0, fe_intFrames = 2 \<rparr> :: frame_eng"
  have "[0..<3] = [0, 1, 2 :: nat]" by (simp add: upt_rec)
  then have "map (\<lambda>j. frame_irq ?e (Suc j)) [0..<3] = [False, True, False]" "fe_last ?e 3"
    by (simp_all add: frame_irq_def fe_last_def)
  with stream_dma_frame_schedule [of ?e 3] show ?thesis by auto
qed

section \<open>Memory to stream\<close>

text \<open>The frames \<open>0\<close> to \<open>k - 1\<close> of a read engine, as memory holds them.\<close>

definition frames_data :: "(addr \<Rightarrow> byte) \<Rightarrow> frame_eng \<Rightarrow> nat \<Rightarrow> byte list" where
  "frames_data m e k = concat (map (\<lambda>j. mem_slice m (frame_addr e j) (unat (fe_frameSize e))) [0..<k])"

lemma frames_data_Suc: "frames_data m e (Suc k) = frames_data m e k @ mem_slice m (frame_addr e k) (unat (fe_frameSize e))"
  by (simp add: frames_data_def)

lemma fe_same_frames: "fe_same e e' \<Longrightarrow> frames_data m e' k = frames_data m e k \<and> frame_addr e' k = frame_addr e k \<and> fe_last e' k = fe_last e k"
  by (simp add: fe_same_def frames_data_def frame_addr_def fe_last_def)

datatype sd_op = SdTick tick nat | SdAnswer nat | SdRead packet

text \<open>Stream reads that are not valid are held back by the port; answers come from memory \<open>m\<close>.\<close>

fun sd_run :: "(addr \<Rightarrow> byte) \<Rightarrow> (addr \<Rightarrow> nat \<Rightarrow> byte list) \<Rightarrow> sd_op list \<Rightarrow> stream_dma \<Rightarrow> (byte list \<times> stream_dma) result" where
  "sd_run m rb [] s = Inr ([], s)"
| "sd_run m rb (SdTick now cyc # ops) s = bind_res (sd_tick rb now cyc s) (sd_run m rb ops)"
| "sd_run m rb (SdAnswer i # ops) s =
     (if i < length (df_pending (sd_readFifo s)) \<and> \<not> de_done (df_pending (sd_readFifo s) ! i)
      then bind_res (rd_answer m rb i (sd_readFifo s)) (\<lambda>f. sd_run m rb ops (s\<lparr> sd_readFifo := f \<rparr>))
      else sd_run m rb ops s)"
| "sd_run m rb (SdRead p # ops) s =
     (if sd_tvalid_pkt s p
      then bind_res (sd_streamRead rb s p) (\<lambda>(t, p', s').
           bind_res (sd_run m rb ops s') (\<lambda>(ys, s''). Inr (pkt_data p' @ ys, s'')))
      else sd_run m rb ops s)"

definition sd_reads_ok :: "sd_op list \<Rightarrow> bool" where
  "sd_reads_ok ops \<longleftrightarrow> (\<forall>p. SdRead p \<in> set ops \<longrightarrow> stream_pkt p \<and> pkt_cmd p = ReadReq)"

text \<open>
  A memory-to-stream transfer after \<open>k\<close> finished frames, \<open>out\<close> being the bytes handed to the
  stream: they and what the FIFO will still deliver are the frames started so far.
\<close>

definition mm2s :: "(addr \<Rightarrow> byte) \<Rightarrow> frame_eng \<Rightarrow> nat \<Rightarrow> byte list \<Rightarrow> stream_dma \<Rightarrow> bool" where
  "mm2s m e k out s \<longleftrightarrow>
     sd_mmreg s \<noteq> [] \<and> sd_FLAGS s AND 3 = 0 \<and> \<not> fe_running (sd_wrEng s) \<and> sd_endian s = LittleEndianByteOrder
     \<and> fe_same e (sd_rdEng s) \<and> fe_framesDone (sd_rdEng s) = of_nat k
     \<and> fe_running (sd_rdEng s) = (k < unat (fe_framesTotal e)) \<and> k \<le> unat (fe_framesTotal e)
     \<and> fe_framesTotal e \<noteq> 0 \<and> fe_frameBuffSize e \<noteq> 0
     \<and> rd_inv m ((unat (fe_framesTotal e) - Suc k) * unat (fe_frameSize e)) (sd_readFifo s)
     \<and> out @ rd_stream m (sd_readFifo s) = frames_data m e (min (Suc k) (unat (fe_framesTotal e)))"

lemma flags_and3:
  "b AND 3 = (0 :: byte) \<Longrightarrow> b AND 1 = 0 \<and> b AND 2 = 0"
  "b AND 3 = (0 :: byte) \<Longrightarrow> (b OR 0x10) AND 3 = 0"
  "b AND 3 = (0 :: byte) \<Longrightarrow> (b AND 0xFB) AND 3 = 0"
  "b AND 3 = (1 :: byte) \<Longrightarrow> b AND 1 = 1 \<and> ((b AND 0xFE) OR 4) AND 3 = 0"
proof -
  assume z: "b AND 3 = (0 :: byte)"
  have "b AND 1 = (b AND 3) AND 1" "b AND 2 = (b AND 3) AND 2" by (simp_all add: and.assoc)
  then show "b AND 1 = 0 \<and> b AND 2 = 0" using z by simp
  show "(b OR 0x10) AND 3 = 0" using z by (simp add: bit.conj_disj_distrib2)
  have "(b AND 0xFB) AND 3 = b AND 3" by (simp add: and.assoc)
  then show "(b AND 0xFB) AND 3 = 0" using z by simp
next
  assume o: "b AND 3 = (1 :: byte)"
  have "b AND 1 = (b AND 3) AND 1" by (simp add: and.assoc)
  moreover have "(b AND 0xFE) AND 3 = (b AND 3) AND 2" by (simp add: and.assoc)
  ultimately show "b AND 1 = 1 \<and> ((b AND 0xFE) OR 4) AND 3 = 0"
    using o by (simp add: bit.conj_disj_distrib2)
qed

lemma startFill_append:
  assumes inv: "rd_inv m (unat sz + n) f" and idle: "\<not> isActive f"
  shows "\<exists>f'. startFill rb a sz f = Inr f' \<and> rd_inv m n f' \<and> rd_stream m f' = rd_stream m f @ mem_slice m a (unat sz)"
proof -
  let ?f = "f\<lparr> df_nextAddr := a, df_endAddr := a + sz \<rparr>"
  note iv = rd_invD [OF inv]
  have p: "df_pending f = []" "atEndOfBlock f" using idle by (auto simp: isActive_def)
  then have z: "size_pending f = 0" "block_left f = 0" using block_left_0 [of f] by (auto simp: size_pending_def)
  have fld: "size_pending ?f = 0" "block_left ?f = unat sz" "df_size ?f = df_size f" "df_buffer ?f = df_buffer f"
    "df_pending ?f = []" "df_fifoSize ?f = df_fifoSize f" "fetch_pos ?f = a"
    using p by (simp_all add: size_pending_def block_left_def df_size_def fetch_pos_def)
  have "rd_inv m n ?f"
  proof (rule rd_invI [where pre = "df_actions f" and acts = "[]"])
    show "df_cfg ?f" using iv(1) by (simp add: df_cfg_def)
  qed (use iv(2,3) z in \<open>simp_all only: fld, simp_all\<close>)
  moreover have "rd_stream m ?f = rd_stream m f @ mem_slice m a (unat sz)"
    by (simp add: rd_stream_def fld z mem_slice_def)
  ultimately show ?thesis using resumeFill_inv [of m n ?f rb] p(2) by (auto simp: startFill_def)
qed

lemma sd_rd_frame_mm2s:
  assumes mm: "mm2s m e k out s"
  shows "\<exists>s' k'. sd_rd_frame rb s = Inr s' \<and> mm2s m e k' out s'"
proof (cases "fe_running (sd_rdEng s) \<and> \<not> isActive (sd_readFifo s)")
  case False
  then show ?thesis using mm by (auto simp: sd_rd_frame_def)
next
  case True
  let ?e = "sd_rdEng s" and ?T = "unat (fe_framesTotal e)"
  have i: "sd_mmreg s \<noteq> []" "sd_FLAGS s AND 3 = 0" "\<not> fe_running (sd_wrEng s)" "sd_endian s = LittleEndianByteOrder"
    "fe_same e ?e" "fe_framesDone ?e = of_nat k" "fe_framesTotal e \<noteq> 0" "fe_frameBuffSize e \<noteq> 0" "k < ?T"
    "rd_inv m ((?T - Suc k) * unat (fe_frameSize e)) (sd_readFifo s)"
    "out @ rd_stream m (sd_readFifo s) = frames_data m e (min (Suc k) ?T)"
    using mm True by (auto simp: mm2s_def)
  have kT: "Suc k < 2 ^ 64" using i(9) unat_byte_lt [of "fe_framesTotal e"] by simp
  have buf: "fe_frameBuffSize ?e \<noteq> 0" using i(5,8) by (simp add: fe_same_def)
  define e' where "e' = ?e\<lparr> fe_framesDone := of_nat (Suc k), fe_running := (if fe_last ?e (Suc k) then False else fe_running ?e),
    fe_ptr := (if fe_last ?e (Suc k) then fe_ptr ?e else frame_addr ?e (Suc k)) \<rparr>"
  have last: "fe_last ?e (Suc k) \<longleftrightarrow> Suc k = ?T" using i(5,7,9) by (auto simp: fe_last_def fe_same_def)
  have e': "fe_same e e'" "fe_framesDone e' = of_nat (Suc k)" "fe_running e' = (Suc k < ?T)"
    "Suc k < ?T \<Longrightarrow> fe_ptr e' = frame_addr e (Suc k)"
    using i(5,9) True last fe_same_frames [OF i(5), of m "Suc k"] by (auto simp: e'_def fe_same_def)
  define s2 where "s2 = (if frame_irq ?e (Suc k) then (sd_set_FLAGS (sd_FLAGS s OR 0x10) s)\<lparr> sd_gic := sd_gic s @ [SendInt (sd_rdInt s)] \<rparr> else s)
    \<lparr> sd_rdEng := e' \<rparr>"
  have s2: "sd_mmreg s2 \<noteq> []" "sd_FLAGS s2 AND 3 = 0" "sd_wrEng s2 = sd_wrEng s" "sd_endian s2 = sd_endian s"
    "sd_rdEng s2 = e'" "sd_readFifo s2 = sd_readFifo s"
    using i(1,2) flags_and3(2) by (auto simp: s2_def sd_set_FLAGS_def sd_FLAGS_def hd_conv_nth)
  have step: "sd_rd_frame rb s = (if \<not> Suc k < ?T then Inr (sd_set_FLAGS (sd_FLAGS s2 AND 0xFB) s2)
      else bind_res (startFill rb (fe_ptr e') (ucast (fe_frameSize e')) (sd_readFifo s2)) (\<lambda>f. Inr (s2\<lparr> sd_readFifo := f \<rparr>)))"
    using True fe_frame_done_spec [OF i(6) kT buf] unfolding sd_rd_frame_def
    by (simp add: e'_def [symmetric] s2_def [symmetric] e'(3) Let_def del: of_nat_Suc)
  show ?thesis
  proof (cases "Suc k < ?T")
    case False
    let ?s = "sd_set_FLAGS (sd_FLAGS s2 AND 0xFB) s2"
    have "sd_FLAGS ?s AND 3 = 0" using flags_and3(3) [OF s2(2)] s2(1) by (simp add: sd_set_FLAGS_def sd_FLAGS_def hd_conv_nth)
    moreover have "sd_mmreg ?s \<noteq> []" "sd_wrEng ?s = sd_wrEng s" "sd_endian ?s = sd_endian s" "sd_rdEng ?s = e'"
      "sd_readFifo ?s = sd_readFifo s" using s2 by (simp_all add: sd_set_FLAGS_def)
    moreover have k: "Suc k = ?T" using False i(9) by linarith
    moreover have "?T - Suc k = 0" "?T - Suc (Suc k) = 0" "min (Suc (Suc k)) ?T = ?T"
      "frames_data m e (Suc k) = frames_data m e ?T" unfolding k [symmetric] by simp_all
    ultimately have "mm2s m e (Suc k) out ?s" using i e' False unfolding mm2s_def by simp
    with step False show ?thesis by auto
  next
    case more: True
    have sz: "unat (ucast (fe_frameSize e') :: addr) = unat (fe_frameSize e)"
      using e'(1) unat_ucast32 by (simp add: fe_same_def)
    have "?T - Suc k = Suc (?T - Suc (Suc k))" using more by simp
    then have "rd_inv m (unat (ucast (fe_frameSize e') :: addr) + (?T - Suc (Suc k)) * unat (fe_frameSize e)) (sd_readFifo s)"
      using i(10) by (simp add: sz)
    from startFill_append [OF this, of rb "fe_ptr e'"] True obtain f where
      f: "startFill rb (fe_ptr e') (ucast (fe_frameSize e')) (sd_readFifo s) = Inr f"
      "rd_inv m ((?T - Suc (Suc k)) * unat (fe_frameSize e)) f"
      "rd_stream m f = rd_stream m (sd_readFifo s) @ mem_slice m (frame_addr e (Suc k)) (unat (fe_frameSize e))"
      using sz e'(4) more by auto
    have "out @ rd_stream m f = frames_data m e (min (Suc (Suc k)) ?T)"
      using i(11) f(3) more by (simp add: min_absorb1 frames_data_Suc [of m e "Suc k"] flip: append_assoc)
    then have "mm2s m e (Suc k) out (s2\<lparr> sd_readFifo := f \<rparr>)"
      using i s2 e' f(2) more unfolding mm2s_def by (simp add: sd_FLAGS_def)
    with step more f(1) s2(6) show ?thesis by auto
  qed
qed

lemma mm2s_cong:
  assumes "mm2s m e k out s" and "sd_mmreg s' = sd_mmreg s" and "sd_wrEng s' = sd_wrEng s" and "sd_endian s' = sd_endian s"
    and "sd_rdEng s' = sd_rdEng s" and "sd_readFifo s' = sd_readFifo s"
  shows "mm2s m e k out s'"
  using assms unfolding mm2s_def sd_FLAGS_def by simp

definition sd_tick_rest :: "(addr \<Rightarrow> nat \<Rightarrow> byte list) \<Rightarrow> tick \<Rightarrow> nat \<Rightarrow> stream_dma \<Rightarrow> stream_dma result" where
  "sd_tick_rest rb now cyc s1 = bind_res (sd_wr_start rb s1) (\<lambda>s2.
     bind_res (sd_rd_frame rb (sd_clear_ints s2)) (\<lambda>s3.
     bind_res (sd_wr_frame rb s3) (\<lambda>s4.
       let s5 = s4\<lparr> sd_running := fe_running (sd_rdEng s4) \<or> fe_running (sd_wrEng s4) \<rparr>
       in Inr (if sd_running s5 then s5\<lparr> sd_tickEvent := sched_idle now cyc (sd_tickEvent s5) \<rparr> else s5))))"

lemma sd_tick_rest_mm2s:
  assumes mm: "mm2s m e k out s"
  shows "\<exists>s' k'. sd_tick_rest rb now cyc s = Inr s' \<and> mm2s m e k' out s'"
proof -
  have w: "sd_wr_start rb s = Inr s" using mm flags_and3(1) [of "sd_FLAGS s"] by (auto simp: sd_wr_start_def mm2s_def)
  have "mm2s m e k out (sd_clear_ints s)" by (rule mm2s_cong [OF mm]) (simp_all add: sd_clear_ints_def Let_def)
  then obtain s3 k' where s3: "sd_rd_frame rb (sd_clear_ints s) = Inr s3" "mm2s m e k' out s3"
    using sd_rd_frame_mm2s by blast
  have wf: "sd_wr_frame rb s3 = Inr s3" using s3(2) by (simp add: sd_wr_frame_def mm2s_def)
  show ?thesis unfolding sd_tick_rest_def w wf s3(1) bind_res_Inr Let_def
    by (intro exI conjI, rule refl) (use w wf s3 in \<open>auto simp: Let_def intro!: mm2s_cong [OF s3(2)]\<close>)
qed

lemma sd_tick_split: "sd_mmreg s \<noteq> [] \<Longrightarrow> sd_tick rb now cyc s = bind_res (sd_rd_start rb s) (sd_tick_rest rb now cyc)"
  by (cases "sd_mmreg s") (simp_all add: sd_tick_def get_bytes_def sd_tick_rest_def [abs_def])

lemma sd_tick_mm2s:
  assumes mm: "mm2s m e k out s"
  shows "\<exists>s' k'. sd_tick rb now cyc s = Inr s' \<and> mm2s m e k' out s'"
proof -
  have "sd_mmreg s \<noteq> []" "sd_rd_start rb s = Inr s"
    using mm flags_and3(1) [of "sd_FLAGS s"] by (auto simp: sd_rd_start_def mm2s_def)
  then show ?thesis using sd_tick_rest_mm2s [OF mm, of rb now cyc] by (simp add: sd_tick_split)
qed

lemma sd_run_mm2s:
  assumes "mm2s m e k out s" and "sd_reads_ok ops"
  shows "\<exists>ys s' k'. sd_run m rb ops s = Inr (ys, s') \<and> mm2s m e k' (out @ ys) s'"
  using assms
proof (induction ops arbitrary: k out s)
  case Nil
  then show ?case by auto
next
  case (Cons x ops)
  have ok: "sd_reads_ok ops" using Cons.prems(2) by (auto simp: sd_reads_ok_def)
  note mm = Cons.prems(1)
  show ?case
  proof (cases x)
    case (SdTick now cyc)
    from sd_tick_mm2s [OF mm, of rb now cyc] obtain s1 k1 where "sd_tick rb now cyc s = Inr s1" "mm2s m e k1 out s1" by blast
    with Cons.IH [OF this(2) ok] SdTick show ?thesis by auto
  next
    case (SdAnswer i)
    let ?f = "sd_readFifo s"
    have inv: "rd_inv m ((unat (fe_framesTotal e) - Suc k) * unat (fe_frameSize e)) ?f" using mm by (simp add: mm2s_def)
    show ?thesis
    proof (cases "i < length (df_pending ?f) \<and> \<not> de_done (df_pending ?f ! i)")
      case True
      with rd_answer_inv [OF inv, of i rb] obtain f where f: "rd_answer m rb i ?f = Inr f"
        "rd_inv m ((unat (fe_framesTotal e) - Suc k) * unat (fe_frameSize e)) f" "rd_stream m f = rd_stream m ?f" by blast
      then have "mm2s m e k out (s\<lparr> sd_readFifo := f \<rparr>)" using mm by (simp add: mm2s_def sd_FLAGS_def)
      with Cons.IH [OF this ok] SdAnswer True f(1) show ?thesis by auto
    qed (use Cons.IH [OF mm ok] SdAnswer in auto)
  next
    case (SdRead p)
    have inv: "rd_inv m ((unat (fe_framesTotal e) - Suc k) * unat (fe_frameSize e)) (sd_readFifo s)" using mm by (simp add: mm2s_def)
    have p: "stream_pkt p" "pkt_cmd p = ReadReq" using Cons.prems(2) unfolding sd_reads_ok_def SdRead by (metis list.set_intros(1))+
    show ?thesis
    proof (cases "sd_tvalid_pkt s p")
      case True
      from sd_streamRead_spec [OF inv p True, of rb] mm obtain t p' f where r: "sd_streamRead rb s p = Inr (t, p', s\<lparr> sd_readFifo := f \<rparr>)"
        "rd_inv m ((unat (fe_framesTotal e) - Suc k) * unat (fe_frameSize e)) f"
        "rd_stream m f = drop (pkt_size p) (rd_stream m (sd_readFifo s))"
        "pkt_data p' = take (pkt_size p) (rd_stream m (sd_readFifo s))"
        by (auto simp: mm2s_def)
      then have "mm2s m e k (out @ pkt_data p') (s\<lparr> sd_readFifo := f \<rparr>)" using mm by (simp add: mm2s_def sd_FLAGS_def)
      with Cons.IH [OF this ok] SdRead True r(1) show ?thesis by auto
    qed (use Cons.IH [OF mm ok] SdRead in auto)
  qed
qed

text \<open>The read engine that the register file describes.\<close>

definition mm2s_engine :: "byte list \<Rightarrow> frame_eng" where
  "mm2s_engine mm = \<lparr> fe_running = True, fe_addr = word_of_nat (le_val (take 8 (drop 4 mm))),
     fe_ptr = word_of_nat (le_val (take 8 (drop 4 mm))), fe_frameSize = word_of_nat (le_val (take 4 (drop 20 mm))),
     fe_framesTotal = word_of_nat (le_val (take 1 (drop 24 mm))), fe_frameBuffSize = word_of_nat (le_val (take 1 (drop 25 mm))),
     fe_framesDone = 0, fe_intFrames = word_of_nat (le_val (take 1 (drop 1 mm))) \<rparr>"

lemma sd_rd_start_mm2s:
  assumes len: "length (sd_mmreg s) = 32" and start: "sd_FLAGS s AND 3 = 1"
    and idle: "\<not> fe_running (sd_rdEng s)" "\<not> fe_running (sd_wrEng s)" and le: "sd_endian s = LittleEndianByteOrder"
    and e: "e = mm2s_engine (sd_mmreg s)" "fe_framesTotal e \<noteq> 0" "fe_frameBuffSize e \<noteq> 0"
    and f: "rd_inv m (unat (fe_framesTotal e) * unat (fe_frameSize e)) (sd_readFifo s)" "\<not> isActive (sd_readFifo s)" "rd_stream m (sd_readFifo s) = []"
  shows "\<exists>s'. sd_rd_start rb s = Inr s' \<and> mm2s m e 0 [] s'"
proof -
  let ?mm = "sd_mmreg s" and ?T = "unat (fe_framesTotal e)"
  define s1 where "s1 = (sd_set_FLAGS ((sd_FLAGS s AND 0xFE) OR 0x04) s)\<lparr> sd_rdEng := e \<rparr>"
  have regs: "sd_reg off n ?mm = Inr (le_val (take n (drop off ?mm)))" if "off + n \<le> 32" for off n
    using that len by (simp add: sd_reg_def get_bytes_def)
  have fb: "le_val (take 4 (drop 20 ?mm)) < 2 ^ 32" using le_val_bound [of "take 4 (drop 20 ?mm)"] len by simp
  then have sz: "unat (word_of_nat (le_val (take 4 (drop 20 ?mm))) :: addr) = unat (fe_frameSize e)"
    by (simp add: e(1) mm2s_engine_def unat_of_nat)
  have T: "0 < ?T" using e(2) by (simp add: unat_gt_0)
  then have "?T * unat (fe_frameSize e) = unat (fe_frameSize e) + (?T - Suc 0) * unat (fe_frameSize e)" by (cases ?T) simp_all
  then have "rd_inv m (unat (word_of_nat (le_val (take 4 (drop 20 ?mm))) :: addr) + (?T - Suc 0) * unat (fe_frameSize e)) (sd_readFifo s)"
    using f(1) sz by simp
  from startFill_append [OF this f(2), of rb "fe_addr e"] obtain g where
    g: "startFill rb (fe_addr e) (word_of_nat (le_val (take 4 (drop 20 ?mm)))) (sd_readFifo s) = Inr g"
    "rd_inv m ((?T - Suc 0) * unat (fe_frameSize e)) g" "rd_stream m g = mem_slice m (fe_addr e) (unat (fe_frameSize e))"
    using f(3) sz by auto
  have fl: "sd_FLAGS s AND 1 = 1" "((sd_FLAGS s AND 0xFE) OR 4) AND 3 = 0" using flags_and3(4) [OF start] by auto
  have s1: "sd_FLAGS s1 AND 3 = 0" "sd_mmreg s1 \<noteq> []" "sd_rdEng s1 = e" "sd_wrEng s1 = sd_wrEng s" "sd_endian s1 = sd_endian s"
    "sd_readFifo s1 = sd_readFifo s"
    using len fl(2) by (cases "sd_mmreg s"; simp add: s1_def sd_set_FLAGS_def sd_FLAGS_def)+
  have "sd_rd_start rb s = Inr (s1\<lparr> sd_readFifo := g \<rparr>)"
    using idle(1) fl(1) g(1) s1(6) e(1) unfolding sd_rd_start_def s1_def mm2s_engine_def by (simp add: regs Let_def)
  moreover have "frames_data m e (min (Suc 0) ?T) = rd_stream m g"
    using T g(3) by (simp add: min_absorb1 frames_data_def frame_addr_def)
  then have "mm2s m e 0 [] (s1\<lparr> sd_readFifo := g \<rparr>)"
    using s1 idle(2) le e g(2) T unfolding mm2s_def by (simp add: sd_FLAGS_def fe_same_def mm2s_engine_def)
  ultimately show ?thesis by blast
qed

text \<open>
  C14. Memory to stream: once a transfer of \<open>framesToRead\<close> frames is started, any interleaving
  of engine ticks, memory answers (in any order) and stream reads runs without a failure, and
  the bytes handed to the stream followed by those the read FIFO holds or is fetching are the
  programmed frames in order; when the engine has stopped they are all of the frames.
\<close>

theorem stream_dma_memory_to_stream:
  assumes "length (sd_mmreg s) = 32" and "sd_FLAGS s AND 3 = 1"
    and "\<not> fe_running (sd_rdEng s)" and "\<not> fe_running (sd_wrEng s)" and "sd_endian s = LittleEndianByteOrder"
    and "e = mm2s_engine (sd_mmreg s)" and "fe_framesTotal e \<noteq> 0" and "fe_frameBuffSize e \<noteq> 0"
    and "rd_inv m (unat (fe_framesTotal e) * unat (fe_frameSize e)) (sd_readFifo s)" and "\<not> isActive (sd_readFifo s)"
    and "rd_stream m (sd_readFifo s) = []" and "sd_reads_ok ops"
  shows "\<exists>s1 out s' k. sd_tick rb now cyc s = Inr s1 \<and> sd_run m rb ops s1 = Inr (out, s')
    \<and> out @ rd_stream m (sd_readFifo s') = frames_data m e k
    \<and> k \<le> unat (fe_framesTotal e) \<and> (\<not> fe_running (sd_rdEng s') \<longrightarrow> k = unat (fe_framesTotal e))"
proof -
  obtain s0 where s0: "sd_rd_start rb s = Inr s0" "mm2s m e 0 [] s0" using sd_rd_start_mm2s [OF assms(1-11)] by blast
  have "sd_mmreg s \<noteq> []" using assms(1) by auto
  then obtain s1 k1 where s1: "sd_tick rb now cyc s = Inr s1" "mm2s m e k1 [] s1"
    using sd_tick_rest_mm2s [OF s0(2), of rb now cyc] s0(1) by (auto simp: sd_tick_split)
  obtain out s' k where "sd_run m rb ops s1 = Inr (out, s')" "mm2s m e k out s'"
    using sd_run_mm2s [OF s1(2) assms(12), of rb] by auto
  with s1(1) show ?thesis
    by (intro exI [of _ s1] exI [of _ out] exI [of _ s'] exI [of _ "min (Suc k) (unat (fe_framesTotal e))"]) (auto simp: mm2s_def)
qed

theorem stream_dma_memory_to_stream_witness:
  "\<exists>s1 out s' k. sd_tick (\<lambda>a n. []) 5 1 demo_sd = Inr s1
    \<and> sd_run ucast (\<lambda>a n. []) [SdAnswer 1, SdAnswer 0, SdRead (demo_pkt ReadReq [0, 0, 0, 0]), SdTick 6 1] s1 = Inr (out, s')
    \<and> out @ rd_stream ucast (sd_readFifo s') = frames_data ucast (mm2s_engine (sd_mmreg demo_sd)) k \<and> k \<le> 3"
proof -
  let ?f = "dma_fifo_new 16 4 2 False 64" and ?e = "mm2s_engine (sd_mmreg demo_sd)"
  have id: "fifo_idle 100 4 16 ?f" by (rule fifo_idle_new) simp_all
  have "rd_inv ucast 100 ?f" by (rule fifo_idle_invs [OF id]) (simp add: dma_fifo_new_def)
  then have inv: "rd_inv ucast (3 * 8) ?f" by (rule rd_inv_mono) simp
  have st: "rd_stream ucast ?f = []" using id block_left_0 [of ?f]
    by (auto simp: fifo_idle_def isActive_def rd_stream_def size_pending_def mem_slice_def)
  have e: "unat (fe_framesTotal ?e) = 3" "unat (fe_frameSize ?e) = 8" "fe_framesTotal ?e \<noteq> 0" "fe_frameBuffSize ?e \<noteq> 0"
    "length (sd_mmreg demo_sd) = 32" "sd_FLAGS demo_sd AND 3 = 1" by code_simp+
  have ok: "sd_reads_ok [SdAnswer 1, SdAnswer 0, SdRead (demo_pkt ReadReq [0, 0, 0, 0]), SdTick 6 1]"
    by (simp add: sd_reads_ok_def stream_pkt_def pkt_wf_def)
  have d: "\<not> fe_running (sd_rdEng demo_sd)" "\<not> fe_running (sd_wrEng demo_sd)" "sd_endian demo_sd = LittleEndianByteOrder"
    "sd_readFifo demo_sd = ?f" by (simp_all add: demo_sd_def)
  have f: "rd_inv ucast (unat (fe_framesTotal ?e) * unat (fe_frameSize ?e)) (sd_readFifo demo_sd)"
    "\<not> isActive (sd_readFifo demo_sd)" "rd_stream ucast (sd_readFifo demo_sd) = []"
    using inv st id by (simp_all only: e(1,2) d(4)) (simp add: fifo_idle_def)
  from stream_dma_memory_to_stream [OF e(5,6) d(1-3) refl e(3,4) f ok, of "\<lambda>a n. []" 5 1]
  show ?thesis unfolding e(1) by blast
qed

end
