(* ===== verification/Abstract_Mem.thy ===== *)
theory Abstract_Mem
  imports Packet
begin

text \<open>
  What the scratchpad inherits from \<open>src/mem/abstract_mem.cc\<close>: the list of locked addresses
  that implements load-locked and store-conditional. Packets carry the physical address of
  their request; a context whose exclusive monitor is cleared is logged.
\<close>

unbundle bit_operations_syntax

record locked_addr =
  la_addr :: addr
  la_contextId :: nat

definition LockedAddr_mask :: "addr \<Rightarrow> addr" where
  "LockedAddr_mask paddr = paddr AND NOT 0xf"

definition matchesContext :: "packet \<Rightarrow> locked_addr \<Rightarrow> bool result" where
  "matchesContext p l =
     (case pkt_contextId p of None \<Rightarrow> Inl (AssertFail ''req->hasContextId()'') | Some c \<Rightarrow> Inr (la_contextId l = c))"

text \<open>The search for the record of the packet's context: \<open>None\<close> if there is none to update.\<close>

fun track_loop :: "packet \<Rightarrow> locked_addr list \<Rightarrow> locked_addr list option result" where
  "track_loop p [] = Inr None"
| "track_loop p (l # ls) = bind_res (matchesContext p l) (\<lambda>b.
     if b then Inr (Some (l\<lparr> la_addr := LockedAddr_mask (pkt_addr p) \<rparr> # ls))
     else bind_res (track_loop p ls) (\<lambda>r. Inr (map_option ((#) l) r)))"

definition trackLoadLocked :: "packet \<Rightarrow> locked_addr list \<Rightarrow> locked_addr list result" where
  "trackLoadLocked p ls = bind_res (track_loop p ls) (\<lambda>r.
     case r of Some ls' \<Rightarrow> Inr ls'
     | None \<Rightarrow> (case pkt_contextId p of None \<Rightarrow> Inl (AssertFail ''hasContextId()'')
         | Some c \<Rightarrow> Inr (\<lparr> la_addr = LockedAddr_mask (pkt_addr p), la_contextId = c \<rparr> # ls)))"

fun find_lock :: "packet \<Rightarrow> locked_addr list \<Rightarrow> bool result" where
  "find_lock p [] = Inr False"
| "find_lock p (l # ls) =
     bind_res (if la_addr l = LockedAddr_mask (pkt_addr p) then matchesContext p l else Inr False)
       (\<lambda>b. if b then Inr True else find_lock p ls)"

text \<open>The result, the packet with its extra datum, the records kept, the contexts cleared.\<close>

definition checkLockedAddrList :: "packet \<Rightarrow> locked_addr list \<Rightarrow> (bool \<times> packet \<times> locked_addr list \<times> nat list) result" where
  "checkLockedAddrList p ls =
     bind_res (if pkt_isLLSC p then find_lock p ls else Inr True) (\<lambda>allow.
       let paddr = LockedAddr_mask (pkt_addr p);
           p1 = (if pkt_isLLSC p then p\<lparr> pkt_extraData := Some (if allow then 1 else 0) \<rparr> else p)
       in if allow
          then Inr (True, p1, filter (\<lambda>l. la_addr l \<noteq> paddr) ls,
            map la_contextId (filter (\<lambda>l. la_addr l = paddr \<and> Some (la_contextId l) \<noteq> pkt_contextId p) ls))
          else Inr (False, p1, ls, []))"

definition writeOK :: "packet \<Rightarrow> locked_addr list \<Rightarrow> (bool \<times> packet \<times> locked_addr list \<times> nat list) result" where
  "writeOK p ls =
     (if ls = []
      then Inr (\<not> pkt_isLLSC p, if pkt_isLLSC p then p\<lparr> pkt_extraData := Some 0 \<rparr> else p, [], [])
      else checkLockedAddrList p ls)"

section \<open>Reservations\<close>

abbreviation reserves :: "locked_addr list \<Rightarrow> nat \<Rightarrow> addr \<Rightarrow> bool" where
  "reserves ls c line \<equiv> \<lparr> la_addr = line, la_contextId = c \<rparr> \<in> set ls"

lemma track_loop_spec:
  assumes "pkt_contextId p = Some c" and "distinct (map la_contextId ls)"
  shows "\<exists>r. track_loop p ls = Inr r \<and> (r = None \<longleftrightarrow> c \<notin> la_contextId ` set ls)
    \<and> (\<forall>ls'. r = Some ls' \<longrightarrow> map la_contextId ls' = map la_contextId ls
         \<and> (\<forall>l. l \<in> set ls' \<longleftrightarrow> (if la_contextId l = c then la_addr l = LockedAddr_mask (pkt_addr p) else l \<in> set ls)))"
  using assms(2)
proof (induction ls)
  case Nil
  then show ?case by simp
next
  case (Cons l ls)
  then obtain r where r: "track_loop p ls = Inr r" "r = None \<longleftrightarrow> c \<notin> la_contextId ` set ls"
    "\<forall>ls'. r = Some ls' \<longrightarrow> map la_contextId ls' = map la_contextId ls
         \<and> (\<forall>l. l \<in> set ls' \<longleftrightarrow> (if la_contextId l = c then la_addr l = LockedAddr_mask (pkt_addr p) else l \<in> set ls))"
    by auto
  show ?case
  proof (cases "la_contextId l = c")
    case True
    have "\<And>k. la_contextId k = c \<Longrightarrow> k = l\<lparr> la_addr := LockedAddr_mask (pkt_addr p) \<rparr> \<longleftrightarrow> la_addr k = LockedAddr_mask (pkt_addr p)"
      using True by (auto intro: locked_addr.equality)
    moreover have "\<And>k. k \<in> set ls \<Longrightarrow> la_contextId k \<noteq> c" using Cons.prems True by (metis distinct.simps(2) image_eqI list.simps(9) set_map)
    ultimately show ?thesis using True assms(1) by (auto simp: matchesContext_def)
  next
    case False
    with r Cons.prems assms(1) show ?thesis by (cases r) (auto simp: matchesContext_def)
  qed
qed

text \<open>Each context has at most one record, and a load-locked moves its reservation.\<close>

lemma trackLoadLocked_spec:
  assumes c: "pkt_contextId p = Some c" and d: "distinct (map la_contextId ls)"
  shows "\<exists>ls'. trackLoadLocked p ls = Inr ls' \<and> distinct (map la_contextId ls')
    \<and> (\<forall>c' line. reserves ls' c' line \<longleftrightarrow> (if c' = c then line = LockedAddr_mask (pkt_addr p) else reserves ls c' line))"
proof -
  obtain r where r: "track_loop p ls = Inr r" "r = None \<longleftrightarrow> c \<notin> la_contextId ` set ls"
    "\<forall>ls'. r = Some ls' \<longrightarrow> map la_contextId ls' = map la_contextId ls
         \<and> (\<forall>l. l \<in> set ls' \<longleftrightarrow> (if la_contextId l = c then la_addr l = LockedAddr_mask (pkt_addr p) else l \<in> set ls))"
    using track_loop_spec [OF assms] by blast
  show ?thesis
  proof (cases r)
    case None
    then have "c \<notin> la_contextId ` set ls" using r(2) by simp
    then show ?thesis using None r(1) c d by (auto simp: trackLoadLocked_def rev_image_eqI)
  next
    case (Some ls')
    then show ?thesis using r d by (auto simp: trackLoadLocked_def)
  qed
qed

lemma find_lock_spec:
  assumes "pkt_contextId p = Some c"
  shows "find_lock p ls = Inr (reserves ls c (LockedAddr_mask (pkt_addr p)))"
proof (induction ls)
  case Nil
  then show ?case by simp
next
  case (Cons l ls)
  have "\<lparr> la_addr = a, la_contextId = c \<rparr> = l \<longleftrightarrow> la_addr l = a \<and> la_contextId l = c" for a by (cases l) auto
  with Cons show ?case using assms by (auto simp: matchesContext_def)
qed

lemma writeOK_spec:
  assumes c: "pkt_contextId p = Some c" and d: "distinct (map la_contextId ls)"
  shows "\<exists>ok p' ls' cl. writeOK p ls = Inr (ok, p', ls', cl) \<and> distinct (map la_contextId ls')
    \<and> (ok \<longleftrightarrow> (pkt_isLLSC p \<longrightarrow> reserves ls c (LockedAddr_mask (pkt_addr p))))
    \<and> (pkt_isLLSC p \<longrightarrow> pkt_extraData p' = Some (if ok then 1 else 0))
    \<and> (\<forall>c' line. reserves ls' c' line \<longleftrightarrow> reserves ls c' line \<and> \<not> (ok \<and> line = LockedAddr_mask (pkt_addr p)))
    \<and> (\<forall>c'. c' \<in> set cl \<longleftrightarrow> ok \<and> c' \<noteq> c \<and> reserves ls c' (LockedAddr_mask (pkt_addr p)))"
proof (cases "ls = []")
  case True
  then show ?thesis by (auto simp: writeOK_def)
next
  case False
  have df: "distinct (map la_contextId (filter P ls))" for P using d by (simp add: distinct_map_filter)
  have img: "c' \<in> la_contextId ` {l \<in> set ls. la_addr l = a \<and> la_contextId l \<noteq> c} \<longleftrightarrow> c' \<noteq> c \<and> reserves ls c' a" for c' a
    by (auto simp: image_iff intro!: bexI) (metis (full_types) locked_addr.surjective old.unit.exhaust)
  show ?thesis using False c d df
    by (auto simp: writeOK_def checkLockedAddrList_def find_lock_spec [OF c] Let_def img)
qed

datatype ll_op = LoadLocked packet | Store packet

fun ll_pkt :: "ll_op \<Rightarrow> packet" where
  "ll_pkt (LoadLocked p) = p"
| "ll_pkt (Store p) = p"

fun ll_run :: "ll_op list \<Rightarrow> locked_addr list \<Rightarrow> (bool list \<times> locked_addr list) result" where
  "ll_run [] ls = Inr ([], ls)"
| "ll_run (LoadLocked p # ops) ls = bind_res (trackLoadLocked p ls) (\<lambda>ls1.
     bind_res (ll_run ops ls1) (\<lambda>(oks, ls2). Inr (False # oks, ls2)))"
| "ll_run (Store p # ops) ls = bind_res (writeOK p ls) (\<lambda>(ok, p', ls1, cl).
     bind_res (ll_run ops ls1) (\<lambda>(oks, ls2). Inr (ok # oks, ls2)))"

text \<open>A store of the run reached \<open>line\<close>: \<open>oks\<close> says which stores were allowed.\<close>

definition line_stored :: "addr \<Rightarrow> ll_op list \<Rightarrow> bool list \<Rightarrow> bool" where
  "line_stored line ops oks \<longleftrightarrow> (\<exists>i < length ops. oks ! i \<and> LockedAddr_mask (pkt_addr (ll_pkt (ops ! i))) = line)"

lemma line_stored_Cons:
  "line_stored line (x # ops) (b # oks) \<longleftrightarrow> b \<and> LockedAddr_mask (pkt_addr (ll_pkt x)) = line \<or> line_stored line ops oks"
  unfolding line_stored_def list.size(4) One_nat_def add_Suc_right add_0_right Ex_less_Suc2 by simp

lemma ll_run_spec:
  assumes "\<forall>x \<in> set ops. pkt_contextId (ll_pkt x) \<noteq> None"
    and "\<forall>p. LoadLocked p \<in> set ops \<longrightarrow> pkt_contextId p \<noteq> Some c" and "distinct (map la_contextId ls)"
  shows "\<exists>oks ls'. ll_run ops ls = Inr (oks, ls') \<and> distinct (map la_contextId ls')
    \<and> (reserves ls' c line \<longleftrightarrow> reserves ls c line \<and> \<not> line_stored line ops oks)"
  using assms
proof (induction ops arbitrary: ls)
  case Nil
  then show ?case by (simp add: line_stored_def)
next
  case (Cons x ops)
  have pr: "\<forall>x \<in> set ops. pkt_contextId (ll_pkt x) \<noteq> None" "\<forall>p. LoadLocked p \<in> set ops \<longrightarrow> pkt_contextId p \<noteq> Some c"
    using Cons.prems(1,2) by auto
  show ?case
  proof (cases x)
    case (LoadLocked p)
    obtain c1 where c1: "pkt_contextId p = Some c1" "c1 \<noteq> c"
      using Cons.prems(1,2) unfolding LoadLocked by (cases "pkt_contextId p") (simp, metis list.set_intros(1))
    from trackLoadLocked_spec [OF c1(1) Cons.prems(3)] obtain ls1 where
      "trackLoadLocked p ls = Inr ls1" "distinct (map la_contextId ls1)" "reserves ls1 c line \<longleftrightarrow> reserves ls c line"
      using c1(2) by auto
    with Cons.IH [OF pr this(2)] LoadLocked show ?thesis by (auto simp: line_stored_Cons)
  next
    case (Store p)
    obtain c1 where c1: "pkt_contextId p = Some c1" using Cons.prems(1) unfolding Store by (cases "pkt_contextId p") simp_all
    from writeOK_spec [OF c1 Cons.prems(3)] obtain ok p' ls1 cl where
      w: "writeOK p ls = Inr (ok, p', ls1, cl)" "distinct (map la_contextId ls1)"
      "\<forall>c' line. reserves ls1 c' line \<longleftrightarrow> reserves ls c' line \<and> \<not> (ok \<and> line = LockedAddr_mask (pkt_addr p))"
      by (elim exE conjE) (rule that)
    with Cons.IH [OF pr w(2)] Store show ?thesis by (auto simp: line_stored_Cons)
  qed
qed


abbreviation ll_demo :: "mem_cmd \<Rightarrow> addr \<Rightarrow> nat \<Rightarrow> packet" where
  "ll_demo cmd a c \<equiv> \<lparr> pkt_id = 0, pkt_cmd = cmd, pkt_addr = a, pkt_size = 4, pkt_data = [1, 2, 3, 4],
     pkt_byteEnable = [], pkt_headerDelay = 0, pkt_payloadDelay = 0, pkt_cacheResponding = False,
     pkt_secure = False, pkt_atomicOp = None, pkt_condSwap = False,
     pkt_extraData = None, pkt_contextId = Some c, pkt_instFetch = False \<rparr>"


end
