(* ===== verification/Scratchpad_Memory.thy ===== *)
theory Scratchpad_Memory
  imports Abstract_Mem Stream_Buffer Dma_Fifo
begin

text \<open>
  The accelerators' scratchpad, \<open>src/hwacc/scratchpad_memory.cc\<close>: a memory with one port for
  the system (index 0 below, \<open>InvalidPortID + 1\<close>) and private ports for accelerators (index
  \<open>id + 1\<close>), ready bits per byte that synchronise producers and consumers, a bandwidth
  limit and busy state per port, and one queue of delayed responses. The answer of a peer to
  a response and the random part of a latency are arguments; retries that are sent are
  logged. Access statistics and tracing are left out.
\<close>

section \<open>State\<close>

record deferred_packet =
  dfp_tick :: tick
  dfp_pkt :: packet
  dfp_origin :: nat

record scratchpad =
  sm_range :: addr_range
  sm_pmem :: "byte list option"
  sm_locked :: "locked_addr list"
  sm_cleared :: "nat list"
  sm_readyMode :: bool
  sm_readOnInvalid :: bool
  sm_writeOnValid :: bool
  sm_resetOnScratchpadRead :: bool
  sm_ready :: "bool list"
  sm_initial :: bool
  sm_spm_ports :: "bool list"
  sm_latency :: tick
  sm_latency_var :: tick
  sm_packetQueue :: "deferred_packet list"
  sm_bandwidth :: rat
  sm_isBusy :: "bool list"
  sm_retryReq :: "bool list"
  sm_retryResp :: "bool list"
  sm_releaseEvent :: "event list"
  sm_releaseTick :: "tick list"
  sm_dequeueEvent :: event
  sm_drainState :: drain_state
  sm_retriesSent :: "nat list"

text \<open>
  \<open>rdy0\<close> stands for the uninitialised array of ready bits, which is only cleared in ready mode.
\<close>

definition ScratchpadMemory :: "addr_range \<Rightarrow> byte list option \<Rightarrow> tick \<Rightarrow> tick \<Rightarrow> rat \<Rightarrow> bool \<Rightarrow> bool \<Rightarrow> bool \<Rightarrow> bool \<Rightarrow>
    bool list \<Rightarrow> scratchpad" where
  "ScratchpadMemory rng pmem latency latency_var bandwidth readyMode readOnInvalid writeOnValid resetOnRead rdy0 =
     \<lparr> sm_range = rng, sm_pmem = pmem, sm_locked = [], sm_cleared = [], sm_readyMode = readyMode,
       sm_readOnInvalid = readOnInvalid, sm_writeOnValid = writeOnValid, sm_resetOnScratchpadRead = resetOnRead,
       sm_ready = (if readyMode then replicate (unat (ar_size rng)) False else take (unat (ar_size rng)) rdy0),
       sm_initial = True, sm_spm_ports = [], sm_latency = latency, sm_latency_var = latency_var, sm_packetQueue = [],
       sm_bandwidth = bandwidth, sm_isBusy = [False], sm_retryReq = [False], sm_retryResp = [False],
       sm_releaseEvent = [None], sm_releaseTick = [0], sm_dequeueEvent = None, sm_drainState = Running,
       sm_retriesSent = [] \<rparr>"

definition grow :: "nat \<Rightarrow> 'a \<Rightarrow> 'a list \<Rightarrow> 'a list" where
  "grow n x xs = take n xs @ replicate (n - length xs) x"

text \<open>\<open>getPort("spm_ports", idx)\<close>: the per-port vectors grow with the ports.\<close>

definition sm_getPort :: "nat \<Rightarrow> scratchpad \<Rightarrow> scratchpad" where
  "sm_getPort idx s =
     (let s1 = (if idx \<ge> length (sm_spm_ports s)
                then s\<lparr> sm_spm_ports := grow (idx + 1) False (sm_spm_ports s),
                        sm_releaseEvent := grow (idx + 2) None (sm_releaseEvent s),
                        sm_releaseTick := grow (idx + 2) 0 (sm_releaseTick s),
                        sm_isBusy := grow (idx + 2) False (sm_isBusy s),
                        sm_retryReq := grow (idx + 2) False (sm_retryReq s),
                        sm_retryResp := grow (idx + 2) False (sm_retryResp s) \<rparr>
                else s)
      in s1\<lparr> sm_spm_ports := (sm_spm_ports s1)[idx := True] \<rparr>)"

definition sm_init :: "scratchpad \<Rightarrow> scratchpad" where
  "sm_init s = s\<lparr> sm_initial := True \<rparr>"

section \<open>Ready bits\<close>

text \<open>The loop of \<open>isReady\<close> over \<open>n\<close> bits from \<open>i\<close>: all of them must be \<open>v\<close>.\<close>

fun ready_check :: "bool \<Rightarrow> nat \<Rightarrow> nat \<Rightarrow> bool list \<Rightarrow> bool result" where
  "ready_check v i 0 rs = Inr True"
| "ready_check v i (Suc n) rs =
     (if i < length rs then if rs ! i \<noteq> v then Inr False else ready_check v (Suc i) n rs else Inl OutOfBounds)"

fun ready_fill :: "bool \<Rightarrow> nat \<Rightarrow> nat \<Rightarrow> bool list \<Rightarrow> bool list result" where
  "ready_fill v i 0 rs = Inr rs"
| "ready_fill v i (Suc n) rs = (if i < length rs then ready_fill v (Suc i) n (rs[i := v]) else Inl OutOfBounds)"

text \<open>The bounds \<open>start_offset\<close> and \<open>end_offset - start_offset\<close> of these loops, in 64 bits.\<close>

definition sm_span :: "scratchpad \<Rightarrow> addr \<Rightarrow> nat \<Rightarrow> nat \<times> nat" where
  "sm_span s ad sz = (let st = ad - ar_start (sm_range s); en = st + of_nat sz in (unat st, unat en - unat st))"

definition isReady :: "scratchpad \<Rightarrow> addr \<Rightarrow> nat \<Rightarrow> bool \<Rightarrow> bool result" where
  "isReady s ad sz rd =
     (case sm_span s ad sz of (i, n) \<Rightarrow>
        if \<not> sm_readyMode s then Inr True
        else if rd then if sm_readOnInvalid s then Inr True else ready_check True i n (sm_ready s)
        else if sm_writeOnValid s then Inr True else ready_check False i n (sm_ready s))"

definition setAllReady :: "bool \<Rightarrow> scratchpad \<Rightarrow> scratchpad" where
  "setAllReady r s =
     (let s1 = (if sm_readyMode s \<and> \<not> sm_initial s then s\<lparr> sm_ready := map (\<lambda>_. r) (sm_ready s) \<rparr> else s)
      in s1\<lparr> sm_initial := True \<rparr>)"

section \<open>Accesses\<close>

definition sm_off :: "scratchpad \<Rightarrow> packet \<Rightarrow> nat" where
  "sm_off s p = unat (pkt_addr p - ar_start (sm_range s))"

text \<open>\<open>pkt->setData(hostAddr)\<close>, which a null memory skips.\<close>

definition sm_load :: "scratchpad \<Rightarrow> packet \<Rightarrow> packet result" where
  "sm_load s p = (case sm_pmem s of None \<Rightarrow> Inr p
     | Some m \<Rightarrow> bind_res (get_bytes (sm_off s p) (pkt_size p) m) (\<lambda>bs. Inr (setData p bs)))"

definition sm_swap :: "scratchpad \<Rightarrow> packet \<Rightarrow> (packet \<times> scratchpad) result" where
  "sm_swap s p =
     (case pkt_atomicOp p of
        Some op \<Rightarrow> (case sm_pmem s of None \<Rightarrow> Inr (p, s)
          | Some m \<Rightarrow> bind_res (get_bytes (sm_off s p) (pkt_size p) m) (\<lambda>old.
              bind_res (put_bytes (sm_off s p) (op old) m) (\<lambda>m'. Inr (setData p old, s\<lparr> sm_pmem := Some m' \<rparr>))))
      | None \<Rightarrow> (case sm_pmem s of None \<Rightarrow> Inl (Panic ''Swap only works if there is real memory'')
          | Some m \<Rightarrow>
              bind_res (writeData p 0 (replicate (pkt_size p) 0)) (\<lambda>new.
              bind_res (get_bytes (sm_off s p) (pkt_size p) m) (\<lambda>old.
              bind_res (if \<not> pkt_condSwap p then Inr True
                        else if pkt_size p \<noteq> 8 \<and> pkt_size p \<noteq> 4 then Inl (Panic ''Invalid size for conditional read/write'')
                        else (case pkt_extraData p of None \<Rightarrow> Inl (AssertFail ''VALID_EXTRA_DATA'')
                          | Some v \<Rightarrow> Inr (le_bytes (pkt_size p) v = old))) (\<lambda>overwrite.
              bind_res (if overwrite then put_bytes (sm_off s p) new m else Inr m) (\<lambda>m'.
              bind_res (assert_that (\<not> pkt_instFetch p) ''!pkt->req->isInstFetch()'') (\<lambda>_.
                Inr (setData p old, s\<lparr> sm_pmem := Some m' \<rparr>))))))))"

definition sm_read :: "scratchpad \<Rightarrow> packet \<Rightarrow> bool \<Rightarrow> (packet \<times> scratchpad) result" where
  "sm_read s p validate =
     bind_res (assert_that (\<not> pkt_isWrite p) ''!pkt->isWrite()'') (\<lambda>_.
     bind_res (if pkt_isLLSC p
               then bind_res (assert_that (\<not> testCmdAttrib (pkt_cmd p) FromCache) ''!pkt->fromCache()'') (\<lambda>_.
                      bind_res (trackLoadLocked p (sm_locked s)) (\<lambda>ls. Inr (s\<lparr> sm_locked := ls \<rparr>)))
               else Inr s) (\<lambda>s1.
     bind_res (if validate
               then bind_res (isReady s1 (pkt_addr p) (pkt_size p) True) (\<lambda>r.
                 if \<not> r then Inl (Panic ''Scratchpad read is invalid! Sector has not been written yet!'')
                 else if sm_resetOnScratchpadRead s1
                 then (case sm_span s1 (pkt_addr p) (pkt_size p) of (i, n) \<Rightarrow>
                        bind_res (ready_fill False i n (sm_ready s1)) (\<lambda>rs. Inr (s1\<lparr> sm_ready := rs \<rparr>)))
                 else Inr s1)
               else Inr s1) (\<lambda>s2.
     bind_res (sm_load s2 p) (\<lambda>p1. Inr (p1, s2)))))"

definition sm_write :: "scratchpad \<Rightarrow> packet \<Rightarrow> bool \<Rightarrow> (packet \<times> scratchpad) result" where
  "sm_write s p validate =
     bind_res (writeOK p (sm_locked s)) (\<lambda>(ok, p1, ls, cl).
       let s0 = s\<lparr> sm_locked := ls, sm_cleared := sm_cleared s @ cl \<rparr>
       in bind_res
            (if ok
             then bind_res (case sm_pmem s0 of None \<Rightarrow> Inr s0
                    | Some m \<Rightarrow> bind_res (writeData p1 (sm_off s0 p1) m) (\<lambda>m'. Inr (s0\<lparr> sm_pmem := Some m' \<rparr>)))
                    (\<lambda>s1. bind_res (assert_that (\<not> pkt_instFetch p1) ''!pkt->req->isInstFetch()'') (\<lambda>_. Inr s1))
             else Inr s0) (\<lambda>s1.
          bind_res (if validate
                    then bind_res (isReady s1 (pkt_addr p1) (pkt_size p1) False) (\<lambda>r.
                      if \<not> r then Inl (Panic ''Scratchpad write is invalid! Sector has not been cleared yet!'') else Inr ())
                    else Inr ()) (\<lambda>_.
          bind_res (if sm_readyMode s1
                    then (case sm_span s1 (pkt_addr p1) (pkt_size p1) of (i, n) \<Rightarrow>
                           bind_res (ready_fill True i n (sm_ready s1)) (\<lambda>rs. Inr (s1\<lparr> sm_ready := rs \<rparr>)))
                    else Inr s1) (\<lambda>s2. Inr (p1, s2)))))"

definition scratchpadAccess :: "scratchpad \<Rightarrow> packet \<Rightarrow> bool \<Rightarrow> (packet \<times> scratchpad) result" where
  "scratchpadAccess s0 p validate =
     (let s = s0\<lparr> sm_initial := False \<rparr>
      in if pkt_cacheResponding p then Inr (p, s)
         else if pkt_cmd p = CleanEvict \<or> pkt_cmd p = WritebackClean then Inr (p, s)
         else bind_res (ar_isSubset (AddrRange (pkt_addr p) (pkt_addr p + of_nat (pkt_size p) - 1)) (sm_range s)) (\<lambda>sub.
              bind_res (assert_that sub ''isSubset(range)'') (\<lambda>_.
              bind_res (if pkt_cmd p = SwapReq then sm_swap s p
                        else if pkt_isRead p then sm_read s p validate
                        else if testCmdAttrib (pkt_cmd p) IsInvalidate \<or> testCmdAttrib (pkt_cmd p) IsClean
                          then bind_res (assert_that (\<not> pkt_isWrite p) ''!pkt->isWrite()'') (\<lambda>_. Inr (p, s))
                        else if pkt_isWrite p then sm_write s p validate
                        else Inl (Panic ''Unexpected packet'')) (\<lambda>(p1, s1).
                if pkt_needsResponse p1 then bind_res (makeResponse p1) (\<lambda>p2. Inr (p2, s1)) else Inr (p1, s1)))))"

definition sm_getLatency :: "nat \<Rightarrow> scratchpad \<Rightarrow> tick" where
  "sm_getLatency rnd s = sm_latency s + (if sm_latency_var s \<noteq> 0 then rnd else 0)"

definition sm_recvAtomic :: "nat \<Rightarrow> scratchpad \<Rightarrow> packet \<Rightarrow> bool \<Rightarrow> (tick \<times> packet \<times> scratchpad) result" where
  "sm_recvAtomic rnd s p validate =
     bind_res (panic_if (pkt_cacheResponding p) ''Should not see packets where cache is responding'') (\<lambda>_.
     bind_res (scratchpadAccess s p validate) (\<lambda>(p1, s1). Inr (sm_getLatency rnd s1, p1, s1)))"

section \<open>Timing\<close>

text \<open>
  The insertion walks back from the last element while the new response is earlier and the
  address differs, but not past the first element, and inserts after the element it stops at.
  The list is reversed here, so that the walk is structural.
\<close>

fun pq_walk :: "deferred_packet \<Rightarrow> deferred_packet list \<Rightarrow> deferred_packet list" where
  "pq_walk x [] = [x]"
| "pq_walk x [y] = [x, y]"
| "pq_walk x (y # z # ys) =
     (if dfp_tick x < dfp_tick y \<and> \<not> matchAddr (dfp_pkt y) (dfp_pkt x) then y # pq_walk x (z # ys) else x # y # z # ys)"

definition pq_insert :: "deferred_packet \<Rightarrow> deferred_packet list \<Rightarrow> deferred_packet list" where
  "pq_insert x q = rev (pq_walk x (rev q))"

definition sm_recvTimingReq :: "tick \<Rightarrow> nat \<Rightarrow> scratchpad \<Rightarrow> packet \<Rightarrow> nat \<Rightarrow> bool \<Rightarrow> (bool \<times> scratchpad) result" where
  "sm_recvTimingReq now rnd s p idx validate =
     bind_res (panic_if (pkt_cacheResponding p) ''Should not see packets where cache is responding'') (\<lambda>_.
     bind_res (panic_if (\<not> (pkt_isRead p \<or> pkt_isWrite p)) ''Should only see read and writes at memory controller'') (\<lambda>_.
     if idx \<ge> length (sm_isBusy s) then Inl OutOfBounds
     else if sm_retryReq s ! idx then Inr (False, s)
     else if sm_isBusy s ! idx then Inr (False, s\<lparr> sm_retryReq := (sm_retryReq s)[idx := True] \<rparr>)
     else let receive_delay = pkt_headerDelay p + pkt_payloadDelay p;
              p0 = p\<lparr> pkt_headerDelay := 0, pkt_payloadDelay := 0 \<rparr>;
              duration = xfer_duration (pkt_size p) (sm_bandwidth s)
          in bind_res (if duration \<noteq> 0
                       then bind_res (ev_schedule now (sm_releaseEvent s ! idx) (now + duration)) (\<lambda>ev.
                         Inr (s\<lparr> sm_releaseEvent := (sm_releaseEvent s)[idx := ev],
                                 sm_releaseTick := (sm_releaseTick s)[idx := now + duration],
                                 sm_isBusy := (sm_isBusy s)[idx := True] \<rparr>))
                       else Inr s) (\<lambda>s1.
             bind_res (sm_recvAtomic rnd s1 p0 validate) (\<lambda>(lat, p1, s2).
               if pkt_needsResponse p0
               then bind_res (assert_that (pkt_isResponse p1) ''pkt->isResponse()'') (\<lambda>_.
                      let x = \<lparr> dfp_tick = now + receive_delay + sm_getLatency rnd s2, dfp_pkt = p1, dfp_origin = idx \<rparr>;
                          s3 = s2\<lparr> sm_packetQueue := pq_insert x (sm_packetQueue s2) \<rparr>
                      in if \<not> sm_retryResp s3 ! idx \<and> sm_dequeueEvent s3 = None
                         then bind_res (ev_schedule now (sm_dequeueEvent s3) (dfp_tick (last (sm_packetQueue s3))))
                                (\<lambda>ev. Inr (True, s3\<lparr> sm_dequeueEvent := ev \<rparr>))
                         else Inr (True, s3))
               else Inr (True, s2)))))"

text \<open>The loop of \<open>release\<close> over the ports from \<open>idx\<close> on, \<open>n\<close> of them.\<close>

fun release_loop :: "nat \<Rightarrow> nat \<Rightarrow> scratchpad \<Rightarrow> scratchpad" where
  "release_loop idx 0 s = s"
| "release_loop idx (Suc n) s =
     release_loop (Suc idx) n
       (if sm_releaseEvent s ! idx = None \<and> sm_isBusy s ! idx
        then let s1 = s\<lparr> sm_isBusy := (sm_isBusy s)[idx := False] \<rparr>
             in if sm_retryReq s1 ! idx
                then s1\<lparr> sm_retryReq := (sm_retryReq s1)[idx := False], sm_retriesSent := sm_retriesSent s1 @ [idx] \<rparr>
                else s1
        else s)"

definition sm_release :: "scratchpad \<Rightarrow> scratchpad" where
  "sm_release s = release_loop 0 (length (sm_isBusy s)) s"

text \<open>\<open>ok\<close> is the answer of the peer to the response; an accepted response is returned.\<close>

definition sm_dequeue :: "tick \<Rightarrow> bool \<Rightarrow> scratchpad \<Rightarrow> (deferred_packet option \<times> scratchpad) result" where
  "sm_dequeue now ok s =
     (case sm_packetQueue s of
        [] \<Rightarrow> Inl (AssertFail ''!packetQueue.empty()'')
      | d # q \<Rightarrow>
          let s1 = s\<lparr> sm_retryResp := (sm_retryResp s)[dfp_origin d := \<not> ok] \<rparr>
          in if \<not> ok then Inr (None, s1)
             else let s2 = s1\<lparr> sm_packetQueue := q \<rparr>
                  in case q of
                       e # _ \<Rightarrow> bind_res (ev_reschedule now (sm_dequeueEvent s2) (max (dfp_tick e) now) True)
                                  (\<lambda>ev. Inr (Some d, s2\<lparr> sm_dequeueEvent := ev \<rparr>))
                     | [] \<Rightarrow> Inr (Some d, if sm_drainState s2 = Draining then s2\<lparr> sm_drainState := Drained \<rparr> else s2))"

definition sm_recvRespRetry :: "tick \<Rightarrow> bool \<Rightarrow> nat \<Rightarrow> scratchpad \<Rightarrow> (deferred_packet option \<times> scratchpad) result" where
  "sm_recvRespRetry now ok idx s =
     (if idx \<ge> length (sm_retryResp s) then Inl OutOfBounds
      else bind_res (assert_that (sm_retryResp s ! idx) ''retryResp[idx]'') (\<lambda>_. sm_dequeue now ok s))"

definition sm_drain :: "scratchpad \<Rightarrow> drain_state \<times> scratchpad" where
  "sm_drain s = (let d = (if sm_packetQueue s \<noteq> [] then Draining else Drained) in (d, s\<lparr> sm_drainState := d \<rparr>))"

definition sm_canAccess :: "scratchpad \<Rightarrow> addr \<Rightarrow> nat \<Rightarrow> bool \<Rightarrow> bool result" where
  "sm_canAccess s add len rd = isReady s add len rd"

definition sm_getAddrRanges :: "scratchpad \<Rightarrow> addr_range_list" where
  "sm_getAddrRanges s = [sm_range s]"

section \<open>Ready bits as full and empty cells\<close>

definition sm_wf :: "scratchpad \<Rightarrow> bool" where
  "sm_wf s \<longleftrightarrow> ar_masks (sm_range s) = [] \<and> ar_start (sm_range s) \<le> ar_end (sm_range s)
     \<and> length (sm_ready s) = unat (ar_end (sm_range s) - ar_start (sm_range s))
     \<and> (\<exists>m. sm_pmem s = Some m \<and> length m = length (sm_ready s))"

text \<open>A plain read or write of the scratchpad's range.\<close>

definition spm_pkt :: "scratchpad \<Rightarrow> packet \<Rightarrow> bool" where
  "spm_pkt s p \<longleftrightarrow> (pkt_cmd p = ReadReq \<or> pkt_cmd p = WriteReq) \<and> \<not> pkt_cacheResponding p \<and> pkt_wf p
     \<and> pkt_byteEnable p = [] \<and> \<not> pkt_instFetch p \<and> 0 < pkt_size p
     \<and> ar_start (sm_range s) \<le> pkt_addr p \<and> sm_off s p + pkt_size p \<le> length (sm_ready s)"

lemma ready_check_spec:
  "i + n \<le> length rs \<Longrightarrow> ready_check v i n rs = Inr (\<forall>j < n. rs ! (i + j) = v)"
proof (induction v i n rs rule: ready_check.induct)
  case (2 v i n rs)
  have "(\<forall>j < Suc n. rs ! (i + j) = v) \<longleftrightarrow> rs ! i = v \<and> (\<forall>j < n. rs ! (Suc i + j) = v)"
    by (subst All_less_Suc2) simp
  with 2 show ?case by auto
qed simp

lemma ready_fill_spec:
  "i + n \<le> length rs \<Longrightarrow> ready_fill v i n rs = Inr (take i rs @ replicate n v @ drop (i + n) rs)"
proof (induction v i n rs rule: ready_fill.induct)
  case (2 v i n rs)
  have "take (Suc i) (rs[i := v]) = take i rs @ [v]" using "2.prems" by (simp add: take_Suc_conv_app_nth)
  moreover have "drop (Suc i + n) (rs[i := v]) = drop (i + Suc n) rs" by simp
  ultimately show ?case using 2 by simp
qed simp

lemma unat_add_of_nat: "unat a + n < 2 ^ 64 \<Longrightarrow> unat (a + of_nat n) = unat a + n" for a :: addr
  by (simp add: unat_word_ariths unat_of_nat)

lemma sm_span_spec:
  assumes "sm_wf s" and "spm_pkt s p"
  shows "sm_span s (pkt_addr p) (pkt_size p) = (sm_off s p, pkt_size p)"
proof -
  let ?st = "pkt_addr p - ar_start (sm_range s)"
  have le: "unat ?st + pkt_size p \<le> unat (ar_end (sm_range s) - ar_start (sm_range s))"
    using assms by (simp add: sm_wf_def spm_pkt_def sm_off_def)
  have b: "unat ?st + pkt_size p < 2 ^ 64"
    by (rule le_less_trans [OF le]) (use unsigned_less [of "ar_end (sm_range s) - ar_start (sm_range s)"] in simp)
  then have "unat (?st + of_nat (pkt_size p)) = unat ?st + pkt_size p" by (rule unat_add_of_nat)
  then show ?thesis by (simp add: sm_span_def sm_off_def Let_def)
qed

lemma sm_subset:
  assumes "sm_wf s" and "spm_pkt s p"
  shows "ar_isSubset (AddrRange (pkt_addr p) (pkt_addr p + of_nat (pkt_size p) - 1)) (sm_range s) = Inr True"
proof -
  let ?R = "sm_range s"
  have w: "ar_start ?R \<le> ar_end ?R" "ar_masks ?R = []" using assms by (simp_all add: sm_wf_def)
  have p: "ar_start ?R \<le> pkt_addr p" "0 < pkt_size p" using assms by (simp_all add: spm_pkt_def)
  have "unat (pkt_addr p) - unat (ar_start ?R) + pkt_size p \<le> unat (ar_end ?R) - unat (ar_start ?R)"
    using assms w p by (simp add: sm_wf_def spm_pkt_def sm_off_def unat_sub)
  moreover have "unat (ar_start ?R) \<le> unat (pkt_addr p)" "unat (ar_start ?R) \<le> unat (ar_end ?R)"
    using p w by (simp_all add: word_le_nat_alt)
  ultimately have e: "unat (pkt_addr p) + (pkt_size p - 1) < unat (ar_end ?R)" using p(2) by linarith
  then have b: "unat (pkt_addr p) + (pkt_size p - 1) < 2 ^ 64"
    using unsigned_less [of "ar_end ?R"] by (rule less_trans [OF _ less_le_trans]) simp
  have "pkt_addr p + of_nat (pkt_size p) - 1 = pkt_addr p + of_nat (pkt_size p - 1)" using p(2) by (simp add: of_nat_diff)
  moreover have "unat (pkt_addr p + of_nat (pkt_size p - 1)) = unat (pkt_addr p) + (pkt_size p - 1)"
    using b by (rule unat_add_of_nat)
  ultimately have "pkt_addr p + of_nat (pkt_size p) - 1 \<le> ar_end ?R" using e by (simp only: word_le_nat_alt)
  then show ?thesis using w p by (simp add: ar_isSubset_def ar_interleaved_def) (simp add: AddrRange_def)
qed


abbreviation sm_mem :: "scratchpad \<Rightarrow> byte list" where
  "sm_mem s \<equiv> the (sm_pmem s)"

definition all_ready :: "bool \<Rightarrow> scratchpad \<Rightarrow> packet \<Rightarrow> bool" where
  "all_ready v s p \<longleftrightarrow> (\<forall>j < pkt_size p. sm_ready s ! (sm_off s p + j) = v)"

definition set_span :: "nat \<Rightarrow> 'a list \<Rightarrow> 'a list \<Rightarrow> 'a list" where
  "set_span i xs ys = take i ys @ xs @ drop (i + length xs) ys"

lemma length_set_span [simp]: "i + length xs \<le> length ys \<Longrightarrow> length (set_span i xs ys) = length ys"
  by (simp add: set_span_def)

lemma nth_set_span:
  "i + length xs \<le> length ys \<Longrightarrow> k < length ys \<Longrightarrow>
   set_span i xs ys ! k = (if i \<le> k \<and> k < i + length xs then xs ! (k - i) else ys ! k)"
  by (auto simp: set_span_def nth_append)

lemma isReady_spec:
  assumes "sm_wf s" and "spm_pkt s p"
  shows "isReady s (pkt_addr p) (pkt_size p) rd =
    Inr (\<not> sm_readyMode s \<or> (if rd then sm_readOnInvalid s \<or> all_ready True s p else sm_writeOnValid s \<or> all_ready False s p))"
  using assms(2) by (simp add: isReady_def sm_span_spec [OF assms] ready_check_spec all_ready_def spm_pkt_def)

lemma wf_upd:
  "sm_wf (s\<lparr> sm_initial := b \<rparr>) = sm_wf s" "spm_pkt (s\<lparr> sm_initial := b \<rparr>) p = spm_pkt s p"
  "sm_wf (s\<lparr> sm_locked := ls, sm_cleared := cl \<rparr>) = sm_wf s" "spm_pkt (s\<lparr> sm_locked := ls, sm_cleared := cl \<rparr>) p = spm_pkt s p"
  "sm_off (s\<lparr> sm_initial := b \<rparr>) p = sm_off s p" "sm_off (s\<lparr> sm_locked := ls, sm_cleared := cl \<rparr>) p = sm_off s p"
  "sm_off (s\<lparr> sm_pmem := m \<rparr>) p = sm_off s p" "spm_pkt (s\<lparr> sm_pmem := m \<rparr>) p = spm_pkt s p"
  "all_ready v (s\<lparr> sm_initial := b \<rparr>) p = all_ready v s p" "all_ready v (s\<lparr> sm_locked := ls, sm_cleared := cl \<rparr>) p = all_ready v s p"
  "all_ready v (s\<lparr> sm_pmem := m \<rparr>) p = all_ready v s p"
  by (simp_all add: sm_wf_def spm_pkt_def sm_off_def all_ready_def)

lemma scratchpad_read:
  assumes wf: "sm_wf s" and p: "spm_pkt s p" and rd: "pkt_cmd p = ReadReq"
  shows "scratchpadAccess s p v =
    (if v \<and> sm_readyMode s \<and> \<not> sm_readOnInvalid s \<and> \<not> all_ready True s p
     then Inl (Panic ''Scratchpad read is invalid! Sector has not been written yet!'')
     else Inr (p\<lparr> pkt_data := take (pkt_size p) (drop (sm_off s p) (sm_mem s)), pkt_cmd := ReadResp \<rparr>,
       s\<lparr> sm_initial := False,
          sm_ready := (if v \<and> sm_resetOnScratchpadRead s then set_span (sm_off s p) (replicate (pkt_size p) False) (sm_ready s)
                       else sm_ready s) \<rparr>))"
proof -
  let ?s = "s\<lparr> sm_initial := False \<rparr>"
  have cmd: "pkt_isRead p" "\<not> pkt_isWrite p" "\<not> pkt_isLLSC p" "pkt_cmd p \<noteq> SwapReq" "\<not> pkt_cacheResponding p"
    using rd p by (simp_all add: pkt_isRead_def pkt_isWrite_def pkt_isLLSC_def testCmdAttrib_def spm_pkt_def)
  obtain m where m: "sm_pmem s = Some m" "length m = length (sm_ready s)" using wf by (auto simp: sm_wf_def)
  have len: "sm_off s p + pkt_size p \<le> length (sm_ready s)" using p by (simp add: spm_pkt_def)
  have w: "sm_wf ?s" "spm_pkt ?s p" using wf p by (simp_all add: wf_upd)
  note sub = sm_subset [OF wf p] and spn = sm_span_spec [OF w] and rdy = isReady_spec [OF w]
  have rf: "ready_fill False (sm_off s p) (pkt_size p) (sm_ready s) = Inr (set_span (sm_off s p) (replicate (pkt_size p) False) (sm_ready s))"
    using len by (simp add: ready_fill_spec set_span_def)
  have ld: "sm_load s' p = Inr (p\<lparr> pkt_data := take (pkt_size p) (drop (sm_off s p) m) \<rparr>)" if "sm_pmem s' = Some m" "sm_off s' p = sm_off s p" for s'
    using that len m by (simp add: sm_load_def get_bytes_def setData_def)
  have read: "sm_read ?s p v =
    (if v \<and> sm_readyMode s \<and> \<not> sm_readOnInvalid s \<and> \<not> all_ready True s p
     then Inl (Panic ''Scratchpad read is invalid! Sector has not been written yet!'')
     else Inr (p\<lparr> pkt_data := take (pkt_size p) (drop (sm_off s p) m) \<rparr>,
       s\<lparr> sm_initial := False,
          sm_ready := (if v \<and> sm_resetOnScratchpadRead s then set_span (sm_off s p) (replicate (pkt_size p) False) (sm_ready s)
                       else sm_ready s) \<rparr>))"
    using cmd m by (simp add: sm_read_def rdy spn rf wf_upd) (auto simp: ld m sm_off_def rf)
  show ?thesis
    using cmd rd m(1) by (simp add: scratchpadAccess_def Let_def sub read makeResponse_def pkt_needsResponse_def testCmdAttrib_def responseCommand_def)
qed


lemma writeOK_store: "\<not> pkt_isLLSC p \<Longrightarrow> \<exists>ls' cl. writeOK p ls = Inr (True, p, ls', cl)"
  by (cases "ls = []") (simp_all add: writeOK_def checkLockedAddrList_def Let_def)

lemma scratchpad_write:
  assumes wf: "sm_wf s" and p: "spm_pkt s p" and wr: "pkt_cmd p = WriteReq"
  shows "\<exists>ls cl. scratchpadAccess s p v =
    (if v \<and> sm_readyMode s \<and> \<not> sm_writeOnValid s \<and> \<not> all_ready False s p
     then Inl (Panic ''Scratchpad write is invalid! Sector has not been cleared yet!'')
     else Inr (p\<lparr> pkt_cmd := WriteResp \<rparr>,
       s\<lparr> sm_initial := False, sm_locked := ls, sm_cleared := cl, sm_pmem := Some (set_span (sm_off s p) (pkt_data p) (sm_mem s)),
          sm_ready := (if sm_readyMode s then set_span (sm_off s p) (replicate (pkt_size p) True) (sm_ready s)
                       else sm_ready s) \<rparr>))"
proof -
  let ?s = "s\<lparr> sm_initial := False \<rparr>"
  have cmd: "\<not> pkt_isRead p" "pkt_isWrite p" "\<not> pkt_isLLSC p" "\<not> pkt_cacheResponding p" "\<not> pkt_instFetch p" "\<not> isMaskedWrite p"
    using wr p by (simp_all add: pkt_isRead_def pkt_isWrite_def pkt_isLLSC_def testCmdAttrib_def spm_pkt_def isMaskedWrite_def)
  have len: "sm_off s p + pkt_size p \<le> length (sm_ready s)" and pw: "pkt_wf p" using p by (simp_all add: spm_pkt_def)
  obtain m where m: "sm_pmem s = Some m" "length m = length (sm_ready s)" using wf by (auto simp: sm_wf_def)
  obtain ls cl where ok: "writeOK p (sm_locked s) = Inr (True, p, ls, cl)"
    using writeOK_store [OF cmd(3)] by blast
  let ?m = "set_span (sm_off s p) (pkt_data p) m"
  have wd: "writeData p (sm_off s p) m = Inr ?m"
    using writeData_unmasked [OF cmd(6) pw, of "sm_off s p" m] len m(2) pw by (simp add: set_span_def pkt_wf_def)
  let ?t = "s\<lparr> sm_initial := False, sm_locked := ls, sm_cleared := sm_cleared s @ cl, sm_pmem := Some ?m \<rparr>"
  have "length ?m = length m" using len m(2) pw by (simp add: pkt_wf_def)
  then have w: "sm_wf ?t" "spm_pkt ?t p" using wf p m by (auto simp: sm_wf_def spm_pkt_def sm_off_def)
  have same: "sm_off ?t p = sm_off s p" "all_ready False ?t p = all_ready False s p" by (simp_all add: sm_off_def all_ready_def)
  have rf: "ready_fill True (sm_off s p) (pkt_size p) (sm_ready s) = Inr (set_span (sm_off s p) (replicate (pkt_size p) True) (sm_ready s))"
    using len by (simp add: ready_fill_spec set_span_def)
  have offs: "sm_off (s\<lparr> sm_initial := False, sm_locked := ls, sm_cleared := sm_cleared s @ cl \<rparr>) p = sm_off s p" by (simp add: sm_off_def)
  have rdy: "isReady ?t (pkt_addr p) (pkt_size p) False = Inr (\<not> sm_readyMode s \<or> sm_writeOnValid s \<or> all_ready False s p)"
    using isReady_spec [OF w, of False] unfolding same by simp
  have wrt: "sm_write ?s p v =
    (if v \<and> sm_readyMode s \<and> \<not> sm_writeOnValid s \<and> \<not> all_ready False s p
     then Inl (Panic ''Scratchpad write is invalid! Sector has not been cleared yet!'')
     else Inr (p, ?t\<lparr> sm_ready := (if sm_readyMode s then set_span (sm_off s p) (replicate (pkt_size p) True) (sm_ready s)
                       else sm_ready s) \<rparr>))"
    using cmd(5) m(1) by (simp add: sm_write_def ok wd offs Let_def sm_span_spec [OF w] same rf rdy)
  have "scratchpadAccess s p v =
    (if v \<and> sm_readyMode s \<and> \<not> sm_writeOnValid s \<and> \<not> all_ready False s p
     then Inl (Panic ''Scratchpad write is invalid! Sector has not been cleared yet!'')
     else Inr (p\<lparr> pkt_cmd := WriteResp \<rparr>, ?t\<lparr> sm_ready := (if sm_readyMode s
         then set_span (sm_off s p) (replicate (pkt_size p) True) (sm_ready s) else sm_ready s) \<rparr>))"
    using cmd wr by (simp add: scratchpadAccess_def Let_def sm_subset [OF wf p] wrt makeResponse_def pkt_needsResponse_def
        testCmdAttrib_def responseCommand_def)
  then show ?thesis using m(1) by (intro exI [of _ ls] exI [of _ "sm_cleared s @ cl"]) simp
qed

lemmas scratchpad_access = scratchpad_read scratchpad_write

text \<open>With the strict ready modes each byte is a cell that is empty or holds a byte.\<close>

definition spm_strict :: "scratchpad \<Rightarrow> bool" where
  "spm_strict s \<longleftrightarrow> sm_readyMode s \<and> \<not> sm_readOnInvalid s \<and> \<not> sm_writeOnValid s \<and> sm_resetOnScratchpadRead s"

definition spm_cells :: "scratchpad \<Rightarrow> nat \<Rightarrow> byte option" where
  "spm_cells s k = (if k < length (sm_ready s) \<and> sm_ready s ! k then Some (sm_mem s ! k) else None)"

lemma all_ready_cells:
  assumes "spm_pkt s p"
  shows "all_ready True s p \<longleftrightarrow> (\<forall>j < pkt_size p. spm_cells s (sm_off s p + j) \<noteq> None)"
    and "all_ready False s p \<longleftrightarrow> (\<forall>j < pkt_size p. spm_cells s (sm_off s p + j) = None)"
  using assms by (auto simp: all_ready_def spm_cells_def spm_pkt_def)

text \<open>
  C4. In the strict ready modes the scratchpad is a memory of full and empty cells: an
  accelerator's read succeeds exactly if all its bytes are full, and then returns and empties
  them; its write succeeds exactly if they are all empty, and fills them; every other access
  is a panic, which \<open>canAccess\<close> predicts, and no other cell is touched.
\<close>

theorem scratchpad_full_empty_cells:
  assumes "sm_wf s" and "spm_strict s" and "spm_pkt s p"
  shows "\<exists>ok. sm_canAccess s (pkt_addr p) (pkt_size p) (pkt_cmd p = ReadReq) = Inr ok
    \<and> (ok \<longleftrightarrow> (\<forall>j < pkt_size p. (spm_cells s (sm_off s p + j) \<noteq> None) = (pkt_cmd p = ReadReq)))
    \<and> (\<not> ok \<longrightarrow> (\<exists>msg. scratchpadAccess s p True = Inl (Panic msg)))
    \<and> (ok \<longrightarrow> (\<exists>p' s'. scratchpadAccess s p True = Inr (p', s') \<and> pkt_isResponse p' \<and> sm_wf s' \<and> spm_strict s'
         \<and> spm_cells s' = (\<lambda>k. if sm_off s p \<le> k \<and> k < sm_off s p + pkt_size p
             then if pkt_cmd p = ReadReq then None else Some (pkt_data p ! (k - sm_off s p)) else spm_cells s k)
         \<and> (pkt_cmd p = ReadReq \<longrightarrow> map Some (pkt_data p') = map (spm_cells s) [sm_off s p ..< sm_off s p + pkt_size p])))"
proof -
  let ?o = "sm_off s p" and ?n = "pkt_size p"
  have len: "?o + ?n \<le> length (sm_ready s)" and pw: "length (pkt_data p) = ?n" using assms(3) by (simp_all add: spm_pkt_def pkt_wf_def)
  obtain m where m: "sm_pmem s = Some m" "length m = length (sm_ready s)" using assms(1) by (auto simp: sm_wf_def)
  have st: "sm_readyMode s" "\<not> sm_readOnInvalid s" "\<not> sm_writeOnValid s" "sm_resetOnScratchpadRead s"
    using assms(2) by (simp_all add: spm_strict_def)
  show ?thesis
  proof (cases "pkt_cmd p = ReadReq")
    case True
    let ?p = "p\<lparr> pkt_data := take ?n (drop ?o (sm_mem s)), pkt_cmd := ReadResp \<rparr>"
    let ?s = "s\<lparr> sm_initial := False, sm_ready := set_span ?o (replicate ?n False) (sm_ready s) \<rparr>"
    have "sm_wf ?s" "spm_strict ?s" using assms(1,2) len by (auto simp: sm_wf_def spm_strict_def)
    moreover have "spm_cells ?s = (\<lambda>k. if ?o \<le> k \<and> k < ?o + ?n then None else spm_cells s k)"
      using len by (auto simp: spm_cells_def fun_eq_iff nth_set_span)
    moreover have "all_ready True s p \<Longrightarrow> map Some (pkt_data ?p) = map (spm_cells s) [?o ..< ?o + ?n]"
      using len m by (intro nth_equalityI) (auto simp: all_ready_def spm_cells_def)
    moreover have "pkt_isResponse ?p" by (simp add: pkt_isResponse_def testCmdAttrib_def)
    ultimately show ?thesis
      using True st isReady_spec [OF assms(1,3), of True] scratchpad_read [OF assms(1,3) True, of True]
        all_ready_cells(1) [OF assms(3)]
      by (intro exI [of _ "all_ready True s p"]) (cases "all_ready True s p"; simp add: sm_canAccess_def fun_eq_iff)
  next
    case False
    then have wr: "pkt_cmd p = WriteReq" using assms(3) by (simp add: spm_pkt_def)
    obtain ls cl where acc: "scratchpadAccess s p True =
      (if \<not> all_ready False s p then Inl (Panic ''Scratchpad write is invalid! Sector has not been cleared yet!'')
       else Inr (p\<lparr> pkt_cmd := WriteResp \<rparr>, s\<lparr> sm_initial := False, sm_locked := ls, sm_cleared := cl,
         sm_pmem := Some (set_span ?o (pkt_data p) m), sm_ready := set_span ?o (replicate ?n True) (sm_ready s) \<rparr>))"
      (is "_ = (if _ then _ else Inr (?p, ?s))")
      using scratchpad_write [OF assms(1,3) wr, of True] st m(1) by (auto cong: if_cong)
    have "sm_wf ?s" "spm_strict ?s" using assms(1,2) len m pw by (auto simp: sm_wf_def spm_strict_def)
    moreover have "spm_cells ?s = (\<lambda>k. if ?o \<le> k \<and> k < ?o + ?n then Some (pkt_data p ! (k - ?o)) else spm_cells s k)"
      using len m pw by (auto simp: spm_cells_def fun_eq_iff nth_set_span)
    moreover have "pkt_isResponse ?p" by (simp add: pkt_isResponse_def testCmdAttrib_def)
    ultimately show ?thesis
      using wr st isReady_spec [OF assms(1,3), of False] acc all_ready_cells(2) [OF assms(3)]
      by (intro exI [of _ "all_ready False s p"]) (cases "all_ready False s p"; simp add: sm_canAccess_def fun_eq_iff)
  qed
qed

text \<open>An eight-byte scratchpad at address 64 with a private port, for concrete runs.\<close>

definition demo_spm :: scratchpad where
  "demo_spm = sm_getPort 0 (ScratchpadMemory (AddrRange 64 72) (Some [1, 2, 3, 4, 5, 6, 7, 8]) 10 0 1 True False False True [])"

definition demo_spm_pkt :: "mem_cmd \<Rightarrow> addr \<Rightarrow> byte list \<Rightarrow> packet" where
  "demo_spm_pkt cmd a xs = \<lparr> pkt_id = 0, pkt_cmd = cmd, pkt_addr = a, pkt_size = length xs, pkt_data = xs,
     pkt_byteEnable = [], pkt_headerDelay = 0, pkt_payloadDelay = 0, pkt_cacheResponding = False,
     pkt_secure = False, pkt_atomicOp = None, pkt_condSwap = False,
     pkt_extraData = None, pkt_contextId = None, pkt_instFetch = False \<rparr>"

lemma demo_spm_facts:
  "sm_wf demo_spm" "spm_strict demo_spm" "spm_pkt demo_spm (demo_spm_pkt WriteReq 66 [9, 10])"
  "sm_off demo_spm (demo_spm_pkt WriteReq 66 [9, 10]) = 2" "sm_ready demo_spm = replicate 8 False"
  by (simp_all add: demo_spm_def ScratchpadMemory_def sm_getPort_def sm_wf_def spm_strict_def spm_pkt_def AddrRange_def
      ar_size_def Let_def demo_spm_pkt_def pkt_wf_def sm_off_def)

lemma demo_spm_cells: "spm_cells demo_spm k = None"
  by (cases "k < 8") (simp_all only: demo_spm_facts(5) spm_cells_def length_replicate nth_replicate simp_thms if_False)

theorem scratchpad_full_empty_cells_witness:
  "\<exists>p' s'. scratchpadAccess demo_spm (demo_spm_pkt WriteReq 66 [9, 10]) True = Inr (p', s')
    \<and> spm_cells s' 2 = Some 9 \<and> spm_cells s' 3 = Some 10 \<and> spm_cells s' 4 = None"
proof -
  let ?p = "demo_spm_pkt WriteReq 66 [9, 10]"
  have "pkt_cmd ?p = WriteReq" "pkt_size ?p = 2" "pkt_data ?p = [9, 10]" by (simp_all add: demo_spm_pkt_def)
  with scratchpad_full_empty_cells [OF demo_spm_facts(1-3)] show ?thesis
    by (auto simp: demo_spm_facts(4) demo_spm_cells)
qed

section \<open>Order of responses\<close>

lemma pq_walk_set: "set (pq_walk x q) = insert x (set q)"
  by (induction x q rule: pq_walk.induct) auto

lemma pq_walk_match:
  assumes "\<And>y. matchAddr (dfp_pkt y) (dfp_pkt x) \<Longrightarrow> P y"
  shows "P x \<Longrightarrow> (\<And>y. P y \<Longrightarrow> matchAddr (dfp_pkt y) (dfp_pkt x)) \<Longrightarrow> filter P (pq_walk x q) = x # filter P q"
  by (induction x q rule: pq_walk.induct) auto

lemma pq_walk_other: "\<not> P x \<Longrightarrow> filter P (pq_walk x q) = filter P q"
  by (induction x q rule: pq_walk.induct) auto

lemma matchAddr_sym: "matchAddr p q \<longleftrightarrow> matchAddr q p"
  by (auto simp: matchAddr_def)

text \<open>The responses for the address and security state of \<open>k\<close>.\<close>

abbreviation for_addr :: "packet \<Rightarrow> deferred_packet list \<Rightarrow> deferred_packet list" where
  "for_addr k \<equiv> filter (\<lambda>d. matchAddr (dfp_pkt d) k)"

lemma pq_insert_for_addr: "for_addr k (pq_insert x q) = for_addr k (q @ [x])"
proof (cases "matchAddr (dfp_pkt x) k")
  case True
  then have "\<And>y. matchAddr (dfp_pkt y) (dfp_pkt x) \<longleftrightarrow> matchAddr (dfp_pkt y) k" by (auto simp: matchAddr_def)
  then have "for_addr k (pq_walk x (rev q)) = x # for_addr k (rev q)"
    using True by (intro pq_walk_match) auto
  then show ?thesis using True by (simp add: pq_insert_def flip: rev_filter)
next
  case False
  then show ?thesis using pq_walk_other [of "\<lambda>d. matchAddr (dfp_pkt d) k" x "rev q"] by (simp add: pq_insert_def flip: rev_filter)
qed

lemma pq_insert_props:
  "pq_insert x q \<noteq> []" "set (pq_insert x q) = insert x (set q)" "q \<noteq> [] \<Longrightarrow> hd (pq_insert x q) = hd q"
  "length (pq_insert x q) = Suc (length q)" "dfp_tick x \<le> dfp_tick (last (pq_insert x q))"
proof -
  have len: "length (pq_walk x r) = Suc (length r)" for x r by (induction x r rule: pq_walk.induct) auto
  have ne: "pq_walk x r \<noteq> []" for x r using len [of x r] by auto
  have la: "r \<noteq> [] \<Longrightarrow> last (pq_walk x r) = last r" for r
    by (induction x r rule: pq_walk.induct) (auto simp: ne)
  have h: "dfp_tick x \<le> dfp_tick (hd (pq_walk x r))" for r by (induction x r rule: pq_walk.induct) auto
  show "pq_insert x q \<noteq> []" "set (pq_insert x q) = insert x (set q)" "length (pq_insert x q) = Suc (length q)"
    using ne len by (simp_all add: pq_insert_def pq_walk_set)
  show "q \<noteq> [] \<Longrightarrow> hd (pq_insert x q) = hd q" using la [of "rev q"] by (simp add: pq_insert_def hd_rev last_rev)
  show "dfp_tick x \<le> dfp_tick (last (pq_insert x q))" using h [of "rev q"] by (simp add: pq_insert_def last_rev)
qed

section \<open>The timing protocol\<close>

text \<open>
  A port is busy exactly while its release event is scheduled, and a refused request waits for
  it. A refused response is the head of the queue, and a nonempty queue always has an event or
  a peer's retry to wake it up.
\<close>

definition ports_ok :: "tick \<Rightarrow> scratchpad \<Rightarrow> bool" where
  "ports_ok now s \<longleftrightarrow> length (sm_retryReq s) = length (sm_isBusy s) \<and> length (sm_releaseEvent s) = length (sm_isBusy s)
     \<and> (\<forall>i < length (sm_isBusy s). (sm_isBusy s ! i \<longleftrightarrow> sm_releaseEvent s ! i \<noteq> None) \<and> (sm_retryReq s ! i \<longrightarrow> sm_isBusy s ! i)
          \<and> (\<forall>t. sm_releaseEvent s ! i = Some t \<longrightarrow> now \<le> t))"

definition queue_ok :: "tick \<Rightarrow> scratchpad \<Rightarrow> bool" where
  "queue_ok now s \<longleftrightarrow> length (sm_retryResp s) = length (sm_isBusy s)
     \<and> (\<forall>d \<in> set (sm_packetQueue s). dfp_origin d < length (sm_isBusy s))
     \<and> (\<forall>i < length (sm_isBusy s). sm_retryResp s ! i \<longrightarrow> sm_packetQueue s \<noteq> [] \<and> dfp_origin (hd (sm_packetQueue s)) = i
          \<and> (sm_dequeueEvent s \<noteq> None \<longrightarrow> 2 \<le> length (sm_packetQueue s)))
     \<and> (sm_packetQueue s \<noteq> [] \<longrightarrow> sm_dequeueEvent s \<noteq> None \<or> True \<in> set (sm_retryResp s))
     \<and> (\<forall>t. sm_dequeueEvent s = Some t \<longrightarrow> now \<le> t \<and> sm_packetQueue s \<noteq> [])"

definition sm_tinv :: "tick \<Rightarrow> scratchpad \<Rightarrow> bool" where
  "sm_tinv now s \<longleftrightarrow> sm_wf s \<and> ports_ok now s \<and> queue_ok now s"

lemma sm_wf_cong: "sm_wf s \<Longrightarrow> sm_range s' = sm_range s \<Longrightarrow> sm_ready s' = sm_ready s \<Longrightarrow> sm_pmem s' = sm_pmem s \<Longrightarrow> sm_wf s'"
  unfolding sm_wf_def by auto

lemma ports_ok_cong:
  "sm_isBusy s' = sm_isBusy s \<Longrightarrow> sm_retryReq s' = sm_retryReq s \<Longrightarrow> sm_releaseEvent s' = sm_releaseEvent s \<Longrightarrow>
   ports_ok now s' = ports_ok now s"
  by (simp add: ports_ok_def)

lemma queue_ok_cong:
  "length (sm_isBusy s') = length (sm_isBusy s) \<Longrightarrow> sm_retryResp s' = sm_retryResp s \<Longrightarrow> sm_packetQueue s' = sm_packetQueue s \<Longrightarrow>
   sm_dequeueEvent s' = sm_dequeueEvent s \<Longrightarrow> queue_ok now s' = queue_ok now s"
  by (simp add: queue_ok_def)

text \<open>What an access leaves alone: the timing state, and the identity of the packet.\<close>

lemma access_frame:
  assumes wf: "sm_wf s" and p: "spm_pkt s p" and acc: "\<not> v \<or> isReady s (pkt_addr p) (pkt_size p) (pkt_cmd p = ReadReq) = Inr True"
  shows "\<exists>p' s'. scratchpadAccess s p v = Inr (p', s') \<and> sm_wf s' \<and> pkt_isResponse p'
    \<and> pkt_id p' = pkt_id p \<and> pkt_addr p' = pkt_addr p \<and> pkt_secure p' = pkt_secure p
    \<and> sm_isBusy s' = sm_isBusy s \<and> sm_retryReq s' = sm_retryReq s \<and> sm_releaseEvent s' = sm_releaseEvent s
    \<and> sm_retryResp s' = sm_retryResp s \<and> sm_packetQueue s' = sm_packetQueue s \<and> sm_dequeueEvent s' = sm_dequeueEvent s"
proof (cases "pkt_cmd p = ReadReq")
  case True
  then show ?thesis
    using scratchpad_read [OF wf p True, of v] acc isReady_spec [OF wf p, of True] wf p
    by (auto simp: sm_wf_def spm_pkt_def pkt_isResponse_def testCmdAttrib_def)
next
  case False
  then have wr: "pkt_cmd p = WriteReq" using p by (simp add: spm_pkt_def)
  have "\<not> (v \<and> sm_readyMode s \<and> \<not> sm_writeOnValid s \<and> \<not> all_ready False s p)"
    using acc isReady_spec [OF wf p, of False] False by auto
  with scratchpad_write [OF wf p wr, of v] obtain ls cl where
    a: "scratchpadAccess s p v = Inr (p\<lparr> pkt_cmd := WriteResp \<rparr>,
       s\<lparr> sm_initial := False, sm_locked := ls, sm_cleared := cl, sm_pmem := Some (set_span (sm_off s p) (pkt_data p) (sm_mem s)),
          sm_ready := (if sm_readyMode s then set_span (sm_off s p) (replicate (pkt_size p) True) (sm_ready s)
                       else sm_ready s) \<rparr>)" (is "_ = Inr (?p, ?s)") by auto
  have "sm_wf ?s" using wf p by (auto simp: sm_wf_def spm_pkt_def pkt_wf_def)
  moreover have "pkt_isResponse ?p" by (simp add: pkt_isResponse_def testCmdAttrib_def)
  ultimately show ?thesis using a by simp
qed

text \<open>A request that the protocol allows: in range, and ready if it will be validated.\<close>

definition sm_req_ok :: "scratchpad \<Rightarrow> packet \<Rightarrow> nat \<Rightarrow> bool \<Rightarrow> bool" where
  "sm_req_ok s p idx v \<longleftrightarrow> spm_pkt s p \<and> idx < length (sm_isBusy s)
     \<and> (v \<longrightarrow> isReady s (pkt_addr p) (pkt_size p) (pkt_cmd p = ReadReq) = Inr True)"

lemma req_accepted:
  assumes inv: "sm_tinv now s" and ok: "sm_req_ok s p idx v" and free: "\<not> sm_isBusy s ! idx"
  shows "\<exists>s' d. sm_recvTimingReq now rnd s p idx v = Inr (True, s') \<and> sm_tinv now s'
    \<and> sm_packetQueue s' = pq_insert d (sm_packetQueue s)
    \<and> pkt_id (dfp_pkt d) = pkt_id p \<and> pkt_addr (dfp_pkt d) = pkt_addr p \<and> pkt_secure (dfp_pkt d) = pkt_secure p"
proof -
  have i: "sm_wf s" "ports_ok now s" "queue_ok now s" using inv by (simp_all add: sm_tinv_def)
  have idx: "idx < length (sm_isBusy s)" and p: "spm_pkt s p" using ok by (simp_all add: sm_req_ok_def)
  have ev: "sm_releaseEvent s ! idx = None" "\<not> sm_retryReq s ! idx" using i(2) idx free by (auto simp: ports_ok_def)
  let ?p = "p\<lparr> pkt_headerDelay := 0, pkt_payloadDelay := 0 \<rparr>" and ?d = "xfer_duration (pkt_size p) (sm_bandwidth s)"
  define s1 where "s1 = (if ?d \<noteq> 0 then s\<lparr> sm_releaseEvent := (sm_releaseEvent s)[idx := Some (now + ?d)],
    sm_releaseTick := (sm_releaseTick s)[idx := now + ?d], sm_isBusy := (sm_isBusy s)[idx := True] \<rparr> else s)"
  have f1: "sm_range s1 = sm_range s" "sm_ready s1 = sm_ready s" "sm_pmem s1 = sm_pmem s" "sm_readyMode s1 = sm_readyMode s"
    "sm_readOnInvalid s1 = sm_readOnInvalid s" "sm_writeOnValid s1 = sm_writeOnValid s" by (simp_all add: s1_def)
  have po: "ports_ok now s1"
  proof (cases "?d = 0")
    case False
    then show ?thesis using i(2) idx unfolding ports_ok_def s1_def by (simp add: nth_list_update) blast
  qed (use i(2) in \<open>simp add: s1_def\<close>)
  have wf1: "sm_wf s1" using i(1) by (auto simp: sm_wf_def f1)
  have s1: "sm_wf s1" "spm_pkt s1 ?p" "ports_ok now s1" "sm_retryResp s1 = sm_retryResp s" "length (sm_isBusy s1) = length (sm_isBusy s)"
    "sm_packetQueue s1 = sm_packetQueue s" "sm_dequeueEvent s1 = sm_dequeueEvent s"
    "isReady s1 (pkt_addr p) (pkt_size p) r = isReady s (pkt_addr p) (pkt_size p) r" for r
    using wf1 p po unfolding spm_pkt_def sm_off_def isReady_def sm_span_def pkt_wf_def f1 by (simp_all add: s1_def)
  have "\<not> v \<or> isReady s1 (pkt_addr ?p) (pkt_size ?p) (pkt_cmd ?p = ReadReq) = Inr True" using ok s1(8) by (auto simp: sm_req_ok_def)
  from access_frame [OF s1(1,2) this] obtain p' s2 where
    a: "scratchpadAccess s1 ?p v = Inr (p', s2)" "sm_wf s2" "pkt_isResponse p'" "pkt_id p' = pkt_id p" "pkt_addr p' = pkt_addr p"
      "pkt_secure p' = pkt_secure p" "sm_isBusy s2 = sm_isBusy s1" "sm_retryReq s2 = sm_retryReq s1" "sm_releaseEvent s2 = sm_releaseEvent s1"
      "sm_retryResp s2 = sm_retryResp s" "sm_packetQueue s2 = sm_packetQueue s" "sm_dequeueEvent s2 = sm_dequeueEvent s"
    using s1(4,6,7) by auto
  define d where "d = \<lparr> dfp_tick = now + (pkt_headerDelay p + pkt_payloadDelay p) + sm_getLatency rnd s2, dfp_pkt = p', dfp_origin = idx \<rparr>"
  let ?q = "pq_insert d (sm_packetQueue s)"
  define s3 where "s3 = (if \<not> sm_retryResp s ! idx \<and> sm_dequeueEvent s = None
    then s2\<lparr> sm_packetQueue := ?q, sm_dequeueEvent := Some (dfp_tick (last ?q)) \<rparr> else s2\<lparr> sm_packetQueue := ?q \<rparr>)"
  have tick: "now \<le> dfp_tick (last ?q)" using pq_insert_props(5) [of d "sm_packetQueue s"] by (simp add: d_def)
  have req: "pkt_isRead p \<or> pkt_isWrite p" "\<not> pkt_cacheResponding p" "pkt_needsResponse ?p"
    using p by (auto simp: spm_pkt_def pkt_isRead_def pkt_isWrite_def pkt_needsResponse_def testCmdAttrib_def)
  have step: "sm_recvTimingReq now rnd s p idx v = Inr (True, s3)"
  proof -
    have "bind_res (if ?d \<noteq> 0
                    then bind_res (ev_schedule now (sm_releaseEvent s ! idx) (now + ?d)) (\<lambda>ev.
                      Inr (s\<lparr> sm_releaseEvent := (sm_releaseEvent s)[idx := ev],
                              sm_releaseTick := (sm_releaseTick s)[idx := now + ?d],
                              sm_isBusy := (sm_isBusy s)[idx := True] \<rparr>))
                    else Inr s) f = f s1" for f :: "scratchpad \<Rightarrow> (bool \<times> scratchpad) result"
      using ev by (simp add: s1_def ev_schedule_def)
    then show ?thesis unfolding sm_recvTimingReq_def using req idx ev(2) free a tick
      by (simp add: sm_recvAtomic_def Let_def s3_def ev_schedule_def flip: d_def)
  qed
  have "sm_wf s3" by (rule sm_wf_cong [OF a(2)]) (simp_all add: s3_def)
  moreover have "ports_ok now s3 = ports_ok now s1" by (rule ports_ok_cong) (use a(7-9) in \<open>simp_all add: s3_def\<close>)
  then have "ports_ok now s3" using s1(3) by simp
  moreover have "queue_ok now s3"
  proof -
    have q: "length (sm_retryResp s) = length (sm_isBusy s)" "\<forall>x \<in> set (sm_packetQueue s). dfp_origin x < length (sm_isBusy s)"
      "\<And>i. i < length (sm_isBusy s) \<Longrightarrow> sm_retryResp s ! i \<Longrightarrow> sm_packetQueue s \<noteq> [] \<and> dfp_origin (hd (sm_packetQueue s)) = i"
      "sm_packetQueue s \<noteq> [] \<longrightarrow> sm_dequeueEvent s \<noteq> None \<or> True \<in> set (sm_retryResp s)"
      "\<And>t. sm_dequeueEvent s = Some t \<Longrightarrow> now \<le> t"
      using i(3) by (auto simp: queue_ok_def)
    have f: "sm_isBusy s3 = sm_isBusy s1" "sm_retryResp s3 = sm_retryResp s" "sm_packetQueue s3 = ?q"
      "sm_dequeueEvent s3 = (if \<not> sm_retryResp s ! idx \<and> sm_dequeueEvent s = None then Some (dfp_tick (last ?q)) else sm_dequeueEvent s)"
      using a by (simp_all add: s3_def)
    have "2 \<le> length ?q" if "sm_packetQueue s \<noteq> []"
      using that pq_insert_props(4) [of d "sm_packetQueue s"] by (cases "sm_packetQueue s") simp_all
    moreover have "True \<in> set (sm_retryResp s)" if "sm_retryResp s ! idx" using that q(1) idx by (metis nth_mem)
    ultimately show ?thesis unfolding queue_ok_def f using q idx s1(5) tick pq_insert_props [where x = d and q = "sm_packetQueue s"]
      by (auto simp: d_def)
  qed
  moreover have "sm_packetQueue s3 = ?q" by (simp add: s3_def)
  ultimately show ?thesis using step a(4-6) by (auto simp: sm_tinv_def d_def)
qed

lemma req_refused:
  assumes inv: "sm_tinv now s" and ok: "sm_req_ok s p idx v" and busy: "sm_isBusy s ! idx"
  shows "\<exists>s'. sm_recvTimingReq now rnd s p idx v = Inr (False, s') \<and> sm_tinv now s'
    \<and> sm_packetQueue s' = sm_packetQueue s \<and> sm_retryReq s' ! idx"
proof (cases "sm_retryReq s ! idx")
  case True
  then show ?thesis using inv ok
    by (auto simp: sm_recvTimingReq_def sm_req_ok_def spm_pkt_def pkt_isRead_def pkt_isWrite_def testCmdAttrib_def)
next
  case False
  let ?s = "s\<lparr> sm_retryReq := (sm_retryReq s)[idx := True] \<rparr>"
  have "sm_wf ?s" "queue_ok now ?s" using inv by (auto simp: sm_tinv_def sm_wf_def queue_ok_def)
  moreover have idx: "idx < length (sm_retryReq s)" using inv ok by (auto simp: sm_tinv_def ports_ok_def sm_req_ok_def)
  moreover have "ports_ok now ?s"
  proof -
    have po: "ports_ok now s" using inv by (simp add: sm_tinv_def)
    then have "(sm_retryReq s)[idx := True] ! i \<longleftrightarrow> i = idx \<or> sm_retryReq s ! i" if "i < length (sm_isBusy s)" for i
      using that idx by (auto simp: ports_ok_def nth_list_update)
    then show ?thesis using po busy unfolding ports_ok_def by auto
  qed
  ultimately show ?thesis using False busy ok
    by (auto simp: sm_recvTimingReq_def sm_tinv_def sm_req_ok_def spm_pkt_def pkt_isRead_def pkt_isWrite_def testCmdAttrib_def)
qed

lemma upd_same: "xs ! i \<Longrightarrow> xs[i := True] = xs" "\<not> xs ! i \<Longrightarrow> xs[i := False] = xs"
  using list_update_id [of xs i] by (simp_all del: list_update_id)

lemma release_loop_spec:
  assumes "idx + n = length (sm_isBusy s)" and "length (sm_retryReq s) = length (sm_isBusy s)"
  shows "\<exists>b r l. release_loop idx n s = s\<lparr> sm_isBusy := b, sm_retryReq := r, sm_retriesSent := l \<rparr>
    \<and> length b = length (sm_isBusy s) \<and> length r = length (sm_isBusy s)
    \<and> (\<forall>i < length b. b ! i = (sm_isBusy s ! i \<and> (i < idx \<or> sm_releaseEvent s ! i \<noteq> None))
         \<and> r ! i = (sm_retryReq s ! i \<and> (i < idx \<or> \<not> (sm_isBusy s ! i \<and> sm_releaseEvent s ! i = None))))
    \<and> (\<forall>i < length b. idx \<le> i \<longrightarrow> sm_isBusy s ! i \<longrightarrow> sm_releaseEvent s ! i = None \<longrightarrow> sm_retryReq s ! i \<longrightarrow> i \<in> set l)
    \<and> set (sm_retriesSent s) \<subseteq> set l"
  using assms
proof (induction n arbitrary: idx s)
  case 0
  then show ?case by (intro exI [of _ "sm_isBusy s"] exI [of _ "sm_retryReq s"] exI [of _ "sm_retriesSent s"]) auto
next
  case (Suc n)
  define t where "t = (if sm_releaseEvent s ! idx = None \<and> sm_isBusy s ! idx
        then let s1 = s\<lparr> sm_isBusy := (sm_isBusy s)[idx := False] \<rparr>
             in if sm_retryReq s1 ! idx
                then s1\<lparr> sm_retryReq := (sm_retryReq s1)[idx := False], sm_retriesSent := sm_retriesSent s1 @ [idx] \<rparr>
                else s1
        else s)"
  have lt: "idx < length (sm_isBusy s)" using Suc.prems by simp
  have f: "length (sm_isBusy t) = length (sm_isBusy s)" "length (sm_retryReq t) = length (sm_isBusy s)"
    "sm_releaseEvent t = sm_releaseEvent s" "set (sm_retriesSent s) \<subseteq> set (sm_retriesSent t)"
    "sm_isBusy s ! idx \<and> sm_releaseEvent s ! idx = None \<and> sm_retryReq s ! idx \<Longrightarrow> idx \<in> set (sm_retriesSent t)"
    using Suc.prems(2) by (auto simp: t_def Let_def)
  have b: "sm_isBusy t = (sm_isBusy s)[idx := sm_isBusy s ! idx \<and> sm_releaseEvent s ! idx \<noteq> None]"
    "sm_retryReq t = (sm_retryReq s)[idx := sm_retryReq s ! idx \<and> \<not> (sm_isBusy s ! idx \<and> sm_releaseEvent s ! idx = None)]"
    unfolding t_def Let_def
    by (cases "sm_releaseEvent s ! idx"; cases "sm_isBusy s ! idx"; cases "sm_retryReq s ! idx"; simp add: upd_same)+
  have u: "t\<lparr> sm_isBusy := x, sm_retryReq := y, sm_retriesSent := z \<rparr> = s\<lparr> sm_isBusy := x, sm_retryReq := y, sm_retriesSent := z \<rparr>" for x y z
    by (simp add: t_def Let_def)
  have "Suc idx + n = length (sm_isBusy t)" "length (sm_retryReq t) = length (sm_isBusy t)" using Suc.prems(1) f by simp_all
  from Suc.IH [OF this] obtain bb r l where
    ih: "release_loop (Suc idx) n t = t\<lparr> sm_isBusy := bb, sm_retryReq := r, sm_retriesSent := l \<rparr>"
      "length bb = length (sm_isBusy s)" "length r = length (sm_isBusy s)"
      "\<forall>i < length bb. bb ! i = (sm_isBusy t ! i \<and> (i < Suc idx \<or> sm_releaseEvent s ! i \<noteq> None))
         \<and> r ! i = (sm_retryReq t ! i \<and> (i < Suc idx \<or> \<not> (sm_isBusy t ! i \<and> sm_releaseEvent s ! i = None)))"
      "\<forall>i < length bb. Suc idx \<le> i \<longrightarrow> sm_isBusy t ! i \<longrightarrow> sm_releaseEvent s ! i = None \<longrightarrow> sm_retryReq t ! i \<longrightarrow> i \<in> set l"
      "set (sm_retriesSent t) \<subseteq> set l"
    unfolding f by (elim exE conjE) (rule that)
  have rl: "release_loop idx (Suc n) s = s\<lparr> sm_isBusy := bb, sm_retryReq := r, sm_retriesSent := l \<rparr>"
    by (simp only: release_loop.simps t_def [symmetric] ih(1) u)
  have len: "length (sm_retryReq s) = length (sm_isBusy s)" by (rule Suc.prems(2))
  show ?case
  proof (intro exI conjI, rule rl)
    show "\<forall>i < length bb. bb ! i = (sm_isBusy s ! i \<and> (i < idx \<or> sm_releaseEvent s ! i \<noteq> None))
       \<and> r ! i = (sm_retryReq s ! i \<and> (i < idx \<or> \<not> (sm_isBusy s ! i \<and> sm_releaseEvent s ! i = None)))"
    proof (intro allI impI)
      fix i assume i: "i < length bb"
      show "bb ! i = (sm_isBusy s ! i \<and> (i < idx \<or> sm_releaseEvent s ! i \<noteq> None))
        \<and> r ! i = (sm_retryReq s ! i \<and> (i < idx \<or> \<not> (sm_isBusy s ! i \<and> sm_releaseEvent s ! i = None)))"
        using ih(4) [rule_format, OF i] i ih(2) len by (cases "i = idx") (auto simp: b nth_list_update)
    qed
    show "\<forall>i < length bb. idx \<le> i \<longrightarrow> sm_isBusy s ! i \<longrightarrow> sm_releaseEvent s ! i = None \<longrightarrow> sm_retryReq s ! i \<longrightarrow> i \<in> set l"
    proof (intro allI impI)
      fix i assume i: "i < length bb" "idx \<le> i" "sm_isBusy s ! i" "sm_releaseEvent s ! i = None" "sm_retryReq s ! i"
      show "i \<in> set l"
        using i f(5) ih(6) ih(5) [rule_format, OF i(1)] by (cases "i = idx") (auto simp: b nth_list_update)
    qed
  qed (use ih f in auto)
qed

text \<open>The release event of port \<open>j\<close> fires: the port is free and a waiting requester is told.\<close>

lemma release_fires:
  assumes inv: "sm_tinv now s" and j: "j < length (sm_isBusy s)" "sm_releaseEvent s ! j = Some t"
  shows "let s' = sm_release (s\<lparr> sm_releaseEvent := (sm_releaseEvent s)[j := None] \<rparr>) in
    sm_tinv now s' \<and> \<not> sm_isBusy s' ! j \<and> sm_packetQueue s' = sm_packetQueue s \<and> (sm_retryReq s ! j \<longrightarrow> j \<in> set (sm_retriesSent s'))"
proof -
  let ?t = "s\<lparr> sm_releaseEvent := (sm_releaseEvent s)[j := None] \<rparr>"
  have po: "ports_ok now s" and qo: "queue_ok now s" and wf: "sm_wf s" using inv by (simp_all add: sm_tinv_def)
  have len: "length (sm_retryReq s) = length (sm_isBusy s)" "length (sm_releaseEvent s) = length (sm_isBusy s)"
    using po by (simp_all add: ports_ok_def)
  have ev: "(sm_releaseEvent s)[j := None] ! i = (if i = j then None else sm_releaseEvent s ! i)" for i using j len by (auto simp: nth_list_update)
  have "0 + length (sm_isBusy ?t) = length (sm_isBusy ?t)" "length (sm_retryReq ?t) = length (sm_isBusy ?t)" using len by simp_all
  from release_loop_spec [OF this] obtain b r l where
    raw: "release_loop 0 (length (sm_isBusy ?t)) ?t = ?t\<lparr> sm_isBusy := b, sm_retryReq := r, sm_retriesSent := l \<rparr>"
      "length b = length (sm_isBusy ?t)" "length r = length (sm_isBusy ?t)"
      "\<forall>i < length b. b ! i = (sm_isBusy ?t ! i \<and> (i < 0 \<or> sm_releaseEvent ?t ! i \<noteq> None))
         \<and> r ! i = (sm_retryReq ?t ! i \<and> (i < 0 \<or> \<not> (sm_isBusy ?t ! i \<and> sm_releaseEvent ?t ! i = None)))"
      "\<forall>i < length b. 0 \<le> i \<longrightarrow> sm_isBusy ?t ! i \<longrightarrow> sm_releaseEvent ?t ! i = None \<longrightarrow> sm_retryReq ?t ! i \<longrightarrow> i \<in> set l"
    by (elim exE conjE) (rule that)
  have l: "release_loop 0 (length (sm_isBusy s)) ?t = ?t\<lparr> sm_isBusy := b, sm_retryReq := r, sm_retriesSent := l \<rparr>"
      "length b = length (sm_isBusy s)" "length r = length (sm_isBusy s)"
      "\<forall>i < length b. b ! i = (sm_isBusy s ! i \<and> sm_releaseEvent ?t ! i \<noteq> None)
         \<and> r ! i = (sm_retryReq s ! i \<and> \<not> (sm_isBusy s ! i \<and> sm_releaseEvent ?t ! i = None))"
      "\<forall>i < length b. sm_isBusy s ! i \<longrightarrow> sm_releaseEvent ?t ! i = None \<longrightarrow> sm_retryReq s ! i \<longrightarrow> i \<in> set l"
    using raw by simp_all
  let ?s = "?t\<lparr> sm_isBusy := b, sm_retryReq := r, sm_retriesSent := l \<rparr>"
  have r: "sm_release ?t = ?s" using l(1) by (simp add: sm_release_def)
  have "sm_wf ?s" by (rule sm_wf_cong [OF wf]) simp_all
  moreover have "queue_ok now ?s" using qo l(2) by (simp add: queue_ok_cong [of ?s s])
  moreover have "ports_ok now ?s" using po l(2-4) len ev unfolding ports_ok_def by auto
  moreover have "\<not> b ! j" "sm_retryReq s ! j \<longrightarrow> j \<in> set l" using l(2,4,5) j ev po by (auto simp: ports_ok_def)
  ultimately show ?thesis unfolding Let_def r by (simp add: sm_tinv_def)
qed

lemma dequeue_step:
  assumes inv: "sm_tinv now s" and ne: "sm_packetQueue s \<noteq> []"
    and ev: "sm_dequeueEvent s = None \<and> t = None \<or> sm_dequeueEvent s \<noteq> None \<and> t = None
      \<or> t = sm_dequeueEvent s \<and> True \<in> set (sm_retryResp s)"
  shows "\<exists>r s'. sm_dequeue now ok (s\<lparr> sm_dequeueEvent := t \<rparr>) = Inr (r, s') \<and> sm_tinv now s'
    \<and> (case r of None \<Rightarrow> [] | Some d \<Rightarrow> [d]) @ sm_packetQueue s' = sm_packetQueue s"
proof -
  obtain d q where q: "sm_packetQueue s = d # q" using ne by (cases "sm_packetQueue s") auto
  have po: "ports_ok now s" and qo: "queue_ok now s" and wf: "sm_wf s" using inv by (simp_all add: sm_tinv_def)
  let ?n = "length (sm_isBusy s)" and ?o = "dfp_origin d"
  have i: "length (sm_retryResp s) = ?n" "?o < ?n" "\<forall>x \<in> set q. dfp_origin x < ?n"
    "\<And>i. i < ?n \<Longrightarrow> sm_retryResp s ! i \<Longrightarrow> ?o = i \<and> (sm_dequeueEvent s \<noteq> None \<longrightarrow> q \<noteq> [])"
    "\<And>t. sm_dequeueEvent s = Some t \<Longrightarrow> now \<le> t"
    using qo q by (auto simp: queue_ok_def Suc_le_eq)
  have none: "\<not> (sm_retryResp s)[?o := False] ! k" if "k < ?n" for k using that i(1,2,4) by (auto simp: nth_list_update)
  have one: "k = ?o" if "k < ?n" "(sm_retryResp s)[?o := True] ! k" for k
    using that i(1,2,4) by (cases "k = ?o") (auto simp: nth_list_update)
  have tq: "q \<noteq> []" if "t \<noteq> None"
  proof -
    have e: "t = sm_dequeueEvent s" "True \<in> set (sm_retryResp s)" using ev that by auto
    then obtain k where "k < ?n" "sm_retryResp s ! k" using i(1) by (metis in_set_conv_nth)
    with i(4) e that show "q \<noteq> []" by auto
  qed
  have tz: "q = [] \<Longrightarrow> t = None" using tq by blast
  have tn: "\<And>x. t = Some x \<Longrightarrow> now \<le> x" using ev i(5) by auto
  show ?thesis
  proof (cases ok)
    case False
    let ?s = "s\<lparr> sm_dequeueEvent := t, sm_retryResp := (sm_retryResp s)[?o := True] \<rparr>"
    have f: "sm_isBusy ?s = sm_isBusy s" "sm_retryResp ?s = (sm_retryResp s)[?o := True]" "sm_packetQueue ?s = d # q" "sm_dequeueEvent ?s = t"
      using q by simp_all
    have "True \<in> set ((sm_retryResp s)[?o := True])" using i(1,2) by (simp add: set_update_memI)
    then have "queue_ok now ?s" unfolding queue_ok_def f using i(1-3) one tq tn by (auto simp: Suc_le_eq)
    moreover have "sm_wf ?s" by (rule sm_wf_cong [OF wf]) simp_all
    moreover have "ports_ok now ?s" using po by (simp add: ports_ok_cong [of ?s s])
    ultimately show ?thesis using False q by (simp add: sm_dequeue_def Let_def sm_tinv_def)
  next
    case True
    define s1 where "s1 = s\<lparr> sm_dequeueEvent := t, sm_retryResp := (sm_retryResp s)[?o := False], sm_packetQueue := q \<rparr>"
    define s2 where "s2 = (case q of e # _ \<Rightarrow> s1\<lparr> sm_dequeueEvent := Some (max (dfp_tick e) now) \<rparr>
      | [] \<Rightarrow> if sm_drainState s1 = Draining then s1\<lparr> sm_drainState := Drained \<rparr> else s1)"
    have step: "sm_dequeue now ok (s\<lparr> sm_dequeueEvent := t \<rparr>) = Inr (Some d, s2)"
      using True q by (cases q) (simp_all add: sm_dequeue_def Let_def s1_def s2_def ev_reschedule_def)
    have f: "sm_packetQueue s2 = q" "sm_retryResp s2 = (sm_retryResp s)[?o := False]" "sm_isBusy s2 = sm_isBusy s"
      "sm_retryReq s2 = sm_retryReq s" "sm_releaseEvent s2 = sm_releaseEvent s" "sm_range s2 = sm_range s" "sm_ready s2 = sm_ready s"
      "sm_pmem s2 = sm_pmem s" "sm_dequeueEvent s2 = (case q of e # _ \<Rightarrow> Some (max (dfp_tick e) now) | [] \<Rightarrow> t)"
      by (cases q; simp add: s1_def s2_def)+
    have "queue_ok now s2" unfolding queue_ok_def f using i(1,3) none tz by (cases q) auto
    moreover have "sm_wf s2" by (rule sm_wf_cong [OF wf]) (simp_all add: f)
    moreover have "ports_ok now s2" using po by (simp add: ports_ok_cong [of s2 s] f)
    ultimately show ?thesis using step q f(1) by (auto simp: sm_tinv_def)
  qed
qed

section \<open>Reachable states\<close>

text \<open>
  The scratchpad as the event loop drives it, from a state with idle ports: time advances up
  to the next event, peers send requests and retries, events fire at their tick. The second
  argument lists the requests that were accepted, the third the responses that were sent.
\<close>

definition sm_fresh :: "scratchpad \<Rightarrow> bool" where
  "sm_fresh s \<longleftrightarrow> sm_wf s \<and> (\<exists>n. sm_isBusy s = replicate n False \<and> sm_retryReq s = replicate n False
     \<and> sm_retryResp s = replicate n False \<and> sm_releaseEvent s = replicate n None)
     \<and> sm_packetQueue s = [] \<and> sm_dequeueEvent s = None"

definition sm_due :: "tick \<Rightarrow> scratchpad \<Rightarrow> bool" where
  "sm_due now s \<longleftrightarrow> (\<forall>i < length (sm_releaseEvent s). \<forall>t. sm_releaseEvent s ! i = Some t \<longrightarrow> now \<le> t)
     \<and> (\<forall>t. sm_dequeueEvent s = Some t \<longrightarrow> now \<le> t)"

inductive sm_reach :: "tick \<Rightarrow> packet list \<Rightarrow> deferred_packet list \<Rightarrow> scratchpad \<Rightarrow> bool" where
  fresh: "sm_fresh s \<Longrightarrow> sm_reach now [] [] s"
| time: "sm_reach now acc out s \<Longrightarrow> now \<le> now' \<Longrightarrow> sm_due now' s \<Longrightarrow> sm_reach now' acc out s"
| request: "sm_reach now acc out s \<Longrightarrow> sm_req_ok s p idx v \<Longrightarrow> sm_recvTimingReq now rnd s p idx v = Inr (b, s') \<Longrightarrow>
    sm_reach now (if b then acc @ [p] else acc) out s'"
| release: "sm_reach now acc out s \<Longrightarrow> j < length (sm_isBusy s) \<Longrightarrow> sm_releaseEvent s ! j = Some now \<Longrightarrow>
    sm_reach now acc out (sm_release (s\<lparr> sm_releaseEvent := (sm_releaseEvent s)[j := None] \<rparr>))"
| dequeue: "sm_reach now acc out s \<Longrightarrow> sm_dequeueEvent s = Some now \<Longrightarrow>
    sm_dequeue now ok (s\<lparr> sm_dequeueEvent := None \<rparr>) = Inr (r, s') \<Longrightarrow>
    sm_reach now acc (out @ (case r of None \<Rightarrow> [] | Some d \<Rightarrow> [d])) s'"
| retry: "sm_reach now acc out s \<Longrightarrow> idx < length (sm_retryResp s) \<Longrightarrow> sm_retryResp s ! idx \<Longrightarrow>
    sm_recvRespRetry now ok idx s = Inr (r, s') \<Longrightarrow>
    sm_reach now acc (out @ (case r of None \<Rightarrow> [] | Some d \<Rightarrow> [d])) s'"

text \<open>The packets for the address and security state of \<open>k\<close>, by identity.\<close>

definition ids_for :: "packet \<Rightarrow> packet list \<Rightarrow> nat list" where
  "ids_for k ps = map pkt_id (filter (\<lambda>p. matchAddr p k) ps)"

lemma ids_for_append [simp]: "ids_for k (ps @ qs) = ids_for k ps @ ids_for k qs"
  by (simp add: ids_for_def)

lemma ids_for_Nil [simp]: "ids_for k [] = []"
  by (simp add: ids_for_def)

lemma ids_for_insert: "ids_for k (map dfp_pkt (pq_insert x q)) = ids_for k (map dfp_pkt q) @ ids_for k [dfp_pkt x]"
  using arg_cong [OF pq_insert_for_addr [of k x q], of "map (pkt_id \<circ> dfp_pkt)"] by (simp add: ids_for_def filter_map o_def)

lemma fresh_tinv: "sm_fresh s \<Longrightarrow> sm_tinv now s"
  by (auto simp: sm_fresh_def sm_tinv_def ports_ok_def queue_ok_def)

lemma time_tinv: "sm_tinv now s \<Longrightarrow> sm_due now' s \<Longrightarrow> sm_tinv now' s"
  unfolding sm_tinv_def ports_ok_def queue_ok_def sm_due_def by auto

lemma event_dequeue:
  assumes "sm_tinv now s" and "sm_dequeueEvent s = Some t"
  shows "\<exists>r s'. sm_dequeue now ok (s\<lparr> sm_dequeueEvent := None \<rparr>) = Inr (r, s') \<and> sm_tinv now s'
    \<and> (case r of None \<Rightarrow> [] | Some d \<Rightarrow> [d]) @ sm_packetQueue s' = sm_packetQueue s"
  using dequeue_step [OF assms(1), of None ok] assms by (auto simp: sm_tinv_def queue_ok_def)

lemma retry_dequeue:
  assumes inv: "sm_tinv now s" and idx: "idx < length (sm_retryResp s)" "sm_retryResp s ! idx"
  shows "\<exists>r s'. sm_recvRespRetry now ok idx s = Inr (r, s') \<and> sm_tinv now s'
    \<and> (case r of None \<Rightarrow> [] | Some d \<Rightarrow> [d]) @ sm_packetQueue s' = sm_packetQueue s"
proof -
  have "sm_packetQueue s \<noteq> []" using inv idx by (auto simp: sm_tinv_def queue_ok_def)
  moreover have "True \<in> set (sm_retryResp s)" using idx by (metis nth_mem)
  ultimately show ?thesis using dequeue_step [OF inv, of "sm_dequeueEvent s" ok] idx by (simp add: sm_recvRespRetry_def)
qed

lemma request_step:
  assumes inv: "sm_tinv now s" and ok: "sm_req_ok s p idx v"
  shows "\<exists>b s'. sm_recvTimingReq now rnd s p idx v = Inr (b, s') \<and> sm_tinv now s' \<and> b = (\<not> sm_isBusy s ! idx)
    \<and> (\<not> b \<longrightarrow> sm_retryReq s' ! idx) \<and> (\<forall>k. ids_for k (map dfp_pkt (sm_packetQueue s')) =
         ids_for k (map dfp_pkt (sm_packetQueue s)) @ ids_for k (if b then [p] else []))"
proof (cases "sm_isBusy s ! idx")
  case True
  from req_refused [OF inv ok True, of rnd] obtain s' where
    "sm_recvTimingReq now rnd s p idx v = Inr (False, s')" "sm_tinv now s'" "sm_packetQueue s' = sm_packetQueue s" "sm_retryReq s' ! idx"
    by (elim exE conjE) (rule that)
  with True show ?thesis by (intro exI [of _ False] exI [of _ s']) simp
next
  case False
  from req_accepted [OF inv ok False, of rnd] obtain s' d where
    r: "sm_recvTimingReq now rnd s p idx v = Inr (True, s')" "sm_tinv now s'" "sm_packetQueue s' = pq_insert d (sm_packetQueue s)"
      "pkt_id (dfp_pkt d) = pkt_id p" "pkt_addr (dfp_pkt d) = pkt_addr p" "pkt_secure (dfp_pkt d) = pkt_secure p" by (elim exE conjE) (rule that)
  have "ids_for k [dfp_pkt d] = ids_for k [p]" for k using r(4-6) by (simp add: ids_for_def matchAddr_def)
  with r(1-3) False show ?thesis by (intro exI [of _ True] exI [of _ s']) (simp add: ids_for_insert)
qed

lemma sm_reach_inv:
  "sm_reach now acc out s \<Longrightarrow> sm_tinv now s \<and> (\<forall>k. ids_for k acc = ids_for k (map dfp_pkt (out @ sm_packetQueue s)))"
proof (induction rule: sm_reach.induct)
  case (fresh s now)
  then show ?case using fresh_tinv by (auto simp: sm_fresh_def)
next
  case (time now acc out s now')
  then show ?case using time_tinv by blast
next
  case (request now acc out s p idx v rnd b s')
  then show ?case using request_step [of now s p idx v rnd] by auto
next
  case (release now acc out s j)
  then show ?case using release_fires [of now s j now] by (auto simp: Let_def)
next
  case (dequeue now acc out s ok r s')
  then have "sm_tinv now s' \<and> (case r of None \<Rightarrow> [] | Some d \<Rightarrow> [d]) @ sm_packetQueue s' = sm_packetQueue s"
    using event_dequeue [of now s now ok] by auto
  with dequeue.IH show ?case by (metis append_assoc)
next
  case (retry now acc out s idx ok r s')
  then have "sm_tinv now s' \<and> (case r of None \<Rightarrow> [] | Some d \<Rightarrow> [d]) @ sm_packetQueue s' = sm_packetQueue s"
    using retry_dequeue [of now s idx ok] by auto
  with retry.IH show ?case by (metis append_assoc)
qed


text \<open>
  C24. Accesses to one address are answered in order, exactly once: in every reachable state the
  responses sent for an address, followed by those still queued, are those of the accepted
  requests for it, in the order of acceptance.
\<close>

theorem scratchpad_same_address_in_order:
  assumes "sm_reach now acc out s"
  shows "ids_for k acc = ids_for k (map dfp_pkt out) @ ids_for k (map dfp_pkt (sm_packetQueue s))"
  using sm_reach_inv [OF assms] by simp

lemma demo_spm_reach:
  "\<exists>s. sm_recvTimingReq 5 0 demo_spm (demo_spm_pkt WriteReq 66 [9, 10]) 1 True = Inr (True, s)
    \<and> sm_reach 5 [demo_spm_pkt WriteReq 66 [9, 10]] [] s"
proof -
  let ?p = "demo_spm_pkt WriteReq 66 [9, 10]"
  have fr: "sm_fresh demo_spm" using demo_spm_facts(1)
    by (auto simp: sm_fresh_def demo_spm_def ScratchpadMemory_def sm_getPort_def grow_def Let_def intro!: exI [of _ 2] simp: numeral_2_eq_2)
  have "length (sm_isBusy demo_spm) = 2" "\<not> sm_isBusy demo_spm ! 1"
    by (simp_all add: demo_spm_def ScratchpadMemory_def sm_getPort_def grow_def Let_def)
  moreover have "all_ready False demo_spm ?p" using demo_spm_facts(3,5) demo_spm_cells all_ready_cells(2) by blast
  ultimately have ok: "sm_req_ok demo_spm ?p 1 True" "\<not> sm_isBusy demo_spm ! 1"
    using demo_spm_facts(3) isReady_spec [OF demo_spm_facts(1,3), of False] by (auto simp: sm_req_ok_def demo_spm_pkt_def)
  from req_accepted [OF fresh_tinv [OF fr] ok, of 5 0] obtain s where
    s: "sm_recvTimingReq 5 0 demo_spm ?p 1 True = Inr (True, s)" by blast
  have "sm_reach 5 [?p] [] s" using sm_reach.request [OF sm_reach.fresh [OF fr] ok(1) s] by simp
  with s show ?thesis by blast
qed


theorem scratchpad_same_address_in_order_witness:
  "\<exists>s. sm_reach 5 [demo_spm_pkt WriteReq 66 [9, 10]] [] s
    \<and> ids_for (demo_spm_pkt WriteReq 66 [9, 10]) (map dfp_pkt (sm_packetQueue s)) = [0]"
proof -
  let ?p = "demo_spm_pkt WriteReq 66 [9, 10]"
  obtain s where "sm_reach 5 [?p] [] s" using demo_spm_reach by blast
  moreover have "ids_for ?p [?p] = [0]" by (simp add: demo_spm_pkt_def matchAddr_def ids_for_def)
  ultimately show ?thesis using scratchpad_same_address_in_order [of 5 "[?p]" "[]" s ?p] by auto
qed

end
