(* ===== verification/Comm_Interface.thy ===== *)
theory Comm_Interface
  imports Scratchpad_Memory Noncoherent_Dma
begin

text \<open>
  The communications interface of an accelerator, \<open>src/hwacc/comm_interface.cc\<close> with
  \<open>src/hwacc/LLVMRead/src/mem_request.cc\<close>: memory-mapped registers by which the host starts the
  accelerator, and queues of memory requests that are routed to stream, scratchpad, local or
  global ports, cut at cache lines, one packet in flight per port and direction.

  Requests are shared by pointer between the queues and the ports: here they live in a store
  \<open>ci_reqs\<close> under their identity. The answers of the peers (\<open>sendTimingReq\<close>, \<open>streamValid\<close>,
  \<open>canAccess\<close>) are arguments. The calls to the compute unit (\<open>initialize\<close>, \<open>readCommit\<close>,
  \<open>writeCommit\<close>), to the interrupt controller and to the scratchpads (\<open>setReadyStatus\<close>) and the
  packets the peers accepted are recorded in order. The ports are part of the initial state:
  the configuration connects them before the simulation starts.
\<close>

unbundle bit_operations_syntax

declare split_paired_All [simp del] split_paired_Ex [simp del]

section \<open>Memory requests\<close>

datatype port_kind = LocalPort | GlobalPort | StreamPort | SpmPort

type_synonym port_id = "port_kind \<times> nat"

record mem_request =
  mr_address :: addr
  mr_length :: nat
  mr_needToRead :: bool
  mr_needToWrite :: bool
  mr_currentReadAddr :: addr
  mr_currentWriteAddr :: addr
  mr_beginAddr :: addr
  mr_writeLeft :: nat
  mr_writeDone :: nat
  mr_readLeft :: nat
  mr_readDone :: nat
  mr_totalLength :: nat
  mr_buffer :: "byte list"
  mr_readsDone :: "bool list"
  mr_pkt :: "nat option"
  mr_port :: "port_id option"

text \<open>The constructors leave some fields uninitialised: \<open>junk\<close> stands for the fresh memory.\<close>

definition MemoryRequest_read :: "mem_request \<Rightarrow> addr \<Rightarrow> nat \<Rightarrow> mem_request" where
  "MemoryRequest_read junk add len = junk\<lparr> mr_address := add, mr_length := len, mr_currentReadAddr := add,
     mr_needToRead := True, mr_beginAddr := add, mr_readLeft := len, mr_writeLeft := 0, mr_totalLength := len,
     mr_readDone := 0, mr_buffer := replicate len 0, mr_readsDone := replicate len False, mr_pkt := None \<rparr>"

definition MemoryRequest_write :: "mem_request \<Rightarrow> addr \<Rightarrow> byte list \<Rightarrow> mem_request" where
  "MemoryRequest_write junk add data = (let len = length data in
     junk\<lparr> mr_address := add, mr_length := len, mr_needToWrite := True, mr_currentWriteAddr := add,
       mr_readLeft := 0, mr_writeLeft := len, mr_totalLength := len, mr_readDone := len, mr_writeDone := 0,
       mr_buffer := data, mr_readsDone := replicate len True, mr_pkt := None \<rparr>)"

section \<open>State\<close>

record comm_port =
  cp_ranges :: addr_range_list
  cp_outstandingPkts :: "packet list"
  cp_readReq :: "nat option"
  cp_writeReq :: "nat option"

datatype cu_call = CuInitialize | CuReadCommit mem_request | CuWriteCommit mem_request

record comm_interface =
  ci_io_addr :: addr
  ci_io_size :: nat
  ci_flag_size :: nat
  ci_config_size :: nat
  ci_int_num :: int
  ci_premap :: "addr list option"
  ci_endian :: byte_order
  ci_cacheLineSize :: nat
  ci_processDelay :: nat
  ci_pioDelay :: tick
  ci_reset_spm :: bool
  ci_mmreg :: "byte list"
  ci_processingDone :: bool
  ci_computationNeeded :: bool
  ci_int_flag :: bool
  ci_requestsInQueues :: nat
  ci_reqs :: "nat \<Rightarrow> mem_request option"
  ci_nextReq :: nat
  ci_nextPkt :: nat
  ci_readQueue :: "nat list"
  ci_writeQueue :: "nat list"
  ci_accRdQ :: "nat list"
  ci_accWrQ :: "nat list"
  ci_ports :: "port_kind \<Rightarrow> comm_port list"
  ci_tickEvent :: event
  ci_gic :: "gic_call list"
  ci_cu :: "cu_call list"
  ci_spmResets :: "nat list"
  ci_wire :: "(port_id \<times> packet) list"

definition new_port :: "addr_range_list \<Rightarrow> comm_port" where
  "new_port rs = \<lparr> cp_ranges = rs, cp_outstandingPkts = [], cp_readReq = None, cp_writeReq = None \<rparr>"

text \<open>\<open>requestsInQueues\<close> is uninitialised: \<open>riq0\<close>.\<close>

definition CommInterface :: "addr \<Rightarrow> nat \<Rightarrow> nat \<Rightarrow> nat \<Rightarrow> int \<Rightarrow> addr list option \<Rightarrow> byte_order \<Rightarrow> nat \<Rightarrow> nat \<Rightarrow> tick \<Rightarrow> bool \<Rightarrow> nat \<Rightarrow>
    (port_kind \<Rightarrow> addr_range_list list) \<Rightarrow> comm_interface" where
  "CommInterface io_addr io_size flag_size config_size int_num premap endian cls clock_period pioDelay reset_spm riq0 ports =
     \<lparr> ci_io_addr = io_addr, ci_io_size = io_size, ci_flag_size = flag_size, ci_config_size = config_size,
       ci_int_num = int_num, ci_premap = premap, ci_endian = endian, ci_cacheLineSize = cls,
       ci_processDelay = 1000 * clock_period, ci_pioDelay = pioDelay, ci_reset_spm = reset_spm,
       ci_mmreg = replicate io_size 0, ci_processingDone = False, ci_computationNeeded = False, ci_int_flag = False,
       ci_requestsInQueues = riq0, ci_reqs = Map.empty, ci_nextReq = 0, ci_nextPkt = 0, ci_readQueue = [],
       ci_writeQueue = [], ci_accRdQ = [], ci_accWrQ = [], ci_ports = (\<lambda>k. map new_port (ports k)),
       ci_tickEvent = None, ci_gic = [], ci_cu = [], ci_spmResets = [], ci_wire = [] \<rparr>"

section \<open>Ports\<close>

definition ci_port :: "comm_interface \<Rightarrow> port_id \<Rightarrow> comm_port" where
  "ci_port s pid = ci_ports s (fst pid) ! snd pid"

definition ci_upd_port :: "port_id \<Rightarrow> (comm_port \<Rightarrow> comm_port) \<Rightarrow> comm_interface \<Rightarrow> comm_interface" where
  "ci_upd_port pid f s = s\<lparr> ci_ports := (ci_ports s)(fst pid := (ci_ports s (fst pid))[snd pid := f (ci_port s pid)]) \<rparr>"

definition isStalled :: "comm_port \<Rightarrow> bool" where
  "isStalled p \<longleftrightarrow> cp_outstandingPkts p \<noteq> []"

definition allPortsStalled :: "comm_interface \<Rightarrow> bool" where
  "allPortsStalled s \<longleftrightarrow> list_all isStalled (ci_ports s LocalPort) \<and> list_all isStalled (ci_ports s GlobalPort)
     \<and> list_all isStalled (ci_ports s StreamPort) \<and> list_all isStalled (ci_ports s SpmPort)"

definition inRange :: "port_kind \<Rightarrow> comm_interface \<Rightarrow> addr \<Rightarrow> bool" where
  "inRange k s add \<longleftrightarrow> list_ex (\<lambda>p. ranges_contain (cp_ranges p) add) (ci_ports s k)"

text \<open>The free port that the search loops return: the first that is able to carry the request.\<close>

fun find_port :: "(nat \<Rightarrow> comm_port \<Rightarrow> bool) \<Rightarrow> nat \<Rightarrow> comm_port list \<Rightarrow> nat option" where
  "find_port P i [] = None"
| "find_port P i (p # ps) = (if P i p then Some i else find_port P (Suc i) ps)"

definition port_free :: "addr \<Rightarrow> bool \<Rightarrow> comm_port \<Rightarrow> bool" where
  "port_free add rd p \<longleftrightarrow> ranges_contain (cp_ranges p) add \<and> \<not> isStalled p
     \<and> (rd \<and> cp_readReq p = None \<or> \<not> rd \<and> cp_writeReq p = None)"

definition getValidLocalPort :: "comm_interface \<Rightarrow> addr \<Rightarrow> bool \<Rightarrow> nat option" where
  "getValidLocalPort s add rd = find_port (\<lambda>i. port_free add rd) 0 (ci_ports s LocalPort)"

definition getValidGlobalPort :: "comm_interface \<Rightarrow> addr \<Rightarrow> bool \<Rightarrow> nat option" where
  "getValidGlobalPort s add rd = find_port (\<lambda>i. port_free add rd) 0 (ci_ports s GlobalPort)"

definition getValidStreamPort :: "(port_id \<Rightarrow> addr \<Rightarrow> nat \<Rightarrow> bool \<Rightarrow> bool) \<Rightarrow> comm_interface \<Rightarrow> addr \<Rightarrow> nat \<Rightarrow> bool \<Rightarrow> nat option" where
  "getValidStreamPort valid s add len rd =
     find_port (\<lambda>i p. port_free add rd p \<and> valid (StreamPort, i) add len rd) 0 (ci_ports s StreamPort)"

definition getValidSPMPort :: "(port_id \<Rightarrow> addr \<Rightarrow> nat \<Rightarrow> bool \<Rightarrow> bool) \<Rightarrow> comm_interface \<Rightarrow> addr \<Rightarrow> nat \<Rightarrow> bool \<Rightarrow> nat option" where
  "getValidSPMPort valid s add len rd =
     find_port (\<lambda>i p. port_free add rd p \<and> valid (SpmPort, i) add len rd) 0 (ci_ports s SpmPort)"

text \<open>The routing at the head of both loops of \<open>processMemoryRequests\<close>.\<close>

definition select_port :: "(port_id \<Rightarrow> addr \<Rightarrow> nat \<Rightarrow> bool \<Rightarrow> bool) \<Rightarrow> comm_interface \<Rightarrow> addr \<Rightarrow> nat \<Rightarrow> bool \<Rightarrow> port_id option result" where
  "select_port valid s add len rd =
     (if inRange StreamPort s add then Inr (map_option (Pair StreamPort) (getValidStreamPort valid s add len rd))
      else if inRange SpmPort s add then Inr (map_option (Pair SpmPort) (getValidSPMPort valid s add len rd))
      else if inRange LocalPort s add then Inr (map_option (Pair LocalPort) (getValidLocalPort s add rd))
      else if inRange GlobalPort s add then Inr (map_option (Pair GlobalPort) (getValidGlobalPort s add rd))
      else Inl (Panic ''Address is not reachable by any ports''))"

text \<open>\<open>tx\<close> is the answer of each port's peer to a request it is sent.\<close>

definition sendPacket :: "(port_id \<Rightarrow> packet \<Rightarrow> bool) \<Rightarrow> port_id \<Rightarrow> packet \<Rightarrow> comm_interface \<Rightarrow> comm_interface" where
  "sendPacket tx pid p s =
     (if isStalled (ci_port s pid) \<or> \<not> tx pid p
      then ci_upd_port pid (\<lambda>c. c\<lparr> cp_outstandingPkts := cp_outstandingPkts c @ [p] \<rparr>) s
      else s\<lparr> ci_wire := ci_wire s @ [(pid, p)] \<rparr>)"

definition ci_wake :: "tick \<Rightarrow> comm_interface \<Rightarrow> comm_interface" where
  "ci_wake now s = s\<lparr> ci_tickEvent := sched_idle now (ci_processDelay s) (ci_tickEvent s) \<rparr>"

fun retry_loop :: "(port_id \<Rightarrow> packet \<Rightarrow> bool) \<Rightarrow> tick \<Rightarrow> port_id \<Rightarrow> packet list \<Rightarrow> comm_interface \<Rightarrow> comm_interface" where
  "retry_loop tx now pid [] s = s"
| "retry_loop tx now pid (p # ps) s =
     (if tx pid p
      then retry_loop tx now pid ps (ci_wake now (ci_upd_port pid (\<lambda>c. c\<lparr> cp_outstandingPkts := ps \<rparr>)
             (s\<lparr> ci_wire := ci_wire s @ [(pid, p)] \<rparr>)))
      else s)"

definition ci_recvReqRetry :: "(port_id \<Rightarrow> packet \<Rightarrow> bool) \<Rightarrow> tick \<Rightarrow> port_id \<Rightarrow> comm_interface \<Rightarrow> comm_interface result" where
  "ci_recvReqRetry tx now pid s =
     bind_res (assert_that (cp_outstandingPkts (ci_port s pid) \<noteq> []) ''outstandingPkts.size()'')
       (\<lambda>_. Inr (retry_loop tx now pid (cp_outstandingPkts (ci_port s pid)) s))"

section \<open>Sending a request\<close>

text \<open>The size of the next packet: up to the end of the cache line, or what is left.\<close>

definition line_chunk :: "nat \<Rightarrow> addr \<Rightarrow> nat \<Rightarrow> nat" where
  "line_chunk cls a left =
     (let sz = (if unat a mod cls \<noteq> 0 then cls - unat a mod cls else cls) in if left > sz - 1 then sz else left)"

definition new_packet :: "nat \<Rightarrow> mem_cmd \<Rightarrow> addr \<Rightarrow> nat \<Rightarrow> byte list \<Rightarrow> packet" where
  "new_packet pid cmd a sz data = \<lparr> pkt_id = pid, pkt_cmd = cmd, pkt_addr = a, pkt_size = sz, pkt_data = data,
     pkt_byteEnable = [], pkt_headerDelay = 0, pkt_payloadDelay = 0, pkt_cacheResponding = False,
     pkt_secure = False, pkt_atomicOp = None, pkt_condSwap = False,
     pkt_extraData = None, pkt_contextId = None, pkt_instFetch = False \<rparr>"

definition ci_req :: "comm_interface \<Rightarrow> nat \<Rightarrow> mem_request result" where
  "ci_req s r = (case ci_reqs s r of None \<Rightarrow> Inl OutOfBounds | Some q \<Rightarrow> Inr q)"

definition ci_set_req :: "nat \<Rightarrow> mem_request \<Rightarrow> comm_interface \<Rightarrow> comm_interface" where
  "ci_set_req r q s = s\<lparr> ci_reqs := (ci_reqs s)(r \<mapsto> q) \<rparr>"

definition tryRead :: "(port_id \<Rightarrow> packet \<Rightarrow> bool) \<Rightarrow> tick \<Rightarrow> port_id \<Rightarrow> nat \<Rightarrow> comm_interface \<Rightarrow> comm_interface result" where
  "tryRead tx now pid r s =
     bind_res (ci_req s r) (\<lambda>q.
       if mr_readLeft q \<le> 0 then Inr s
       else if ci_cacheLineSize s = 0 then Inl DivByZero
       else let size = line_chunk (ci_cacheLineSize s) (mr_currentReadAddr q) (mr_readLeft q);
                p = new_packet (ci_nextPkt s) ReadReq (mr_currentReadAddr q) size (replicate size 0);
                s1 = sendPacket tx pid p (s\<lparr> ci_nextPkt := ci_nextPkt s + 1 \<rparr>);
                left = mr_readLeft q - size;
                q1 = q\<lparr> mr_pkt := Some (pkt_id p), mr_currentReadAddr := mr_currentReadAddr q + of_nat size,
                        mr_readLeft := left \<rparr>
            in if \<not> left > 0 then Inr (ci_wake now (ci_set_req r (q1\<lparr> mr_needToRead := False \<rparr>) s1))
               else Inr (let s2 = ci_set_req r q1 s1 in if \<not> isStalled (ci_port s2 pid) then ci_wake now s2 else s2))"

definition tryWrite :: "(port_id \<Rightarrow> packet \<Rightarrow> bool) \<Rightarrow> tick \<Rightarrow> port_id \<Rightarrow> nat \<Rightarrow> comm_interface \<Rightarrow> comm_interface result" where
  "tryWrite tx now pid r s =
     bind_res (ci_req s r) (\<lambda>q.
       if mr_writeLeft q \<le> 0 then Inr s
       else if ci_cacheLineSize s = 0 then Inl DivByZero
       else let size = line_chunk (ci_cacheLineSize s) (mr_currentWriteAddr q) (mr_writeLeft q)
            in bind_res (get_bytes (mr_totalLength q - mr_writeLeft q) size (mr_buffer q)) (\<lambda>data.
               let p = new_packet (ci_nextPkt s) WriteReq (mr_currentWriteAddr q) size data;
                   s1 = sendPacket tx pid p (s\<lparr> ci_nextPkt := ci_nextPkt s + 1 \<rparr>);
                   left = mr_writeLeft q - size;
                   q1 = q\<lparr> mr_pkt := Some (pkt_id p), mr_currentWriteAddr := mr_currentWriteAddr q + of_nat size,
                           mr_writeLeft := left \<rparr>
               in if \<not> left > 0 then Inr (ci_wake now (ci_set_req r (q1\<lparr> mr_needToWrite := False \<rparr>) s1))
                  else Inr (let s2 = ci_set_req r q1 s1 in if \<not> isStalled (ci_port s2 pid) then ci_wake now s2 else s2)))"

text \<open>The overloads for scratchpad ports have the same bodies.\<close>

definition tryRead_spm :: "(port_id \<Rightarrow> packet \<Rightarrow> bool) \<Rightarrow> tick \<Rightarrow> port_id \<Rightarrow> nat \<Rightarrow> comm_interface \<Rightarrow> comm_interface result" where
  "tryRead_spm = tryRead"

definition tryWrite_spm :: "(port_id \<Rightarrow> packet \<Rightarrow> bool) \<Rightarrow> tick \<Rightarrow> port_id \<Rightarrow> nat \<Rightarrow> comm_interface \<Rightarrow> comm_interface result" where
  "tryWrite_spm = tryWrite"

section \<open>Requests in the queues\<close>

text \<open>
  A request is handed to the port that was found for it and erased from its queue; a request
  is in a queue at most once, so erasing it is \<open>remove1\<close>.
\<close>

definition start_read :: "(port_id \<Rightarrow> packet \<Rightarrow> bool) \<Rightarrow> tick \<Rightarrow> port_id \<Rightarrow> nat \<Rightarrow> comm_interface \<Rightarrow> comm_interface result" where
  "start_read tx now pid r s =
     bind_res (ci_req s r) (\<lambda>q.
       let s1 = ci_set_req r (q\<lparr> mr_port := Some pid \<rparr>) (ci_upd_port pid (\<lambda>c. c\<lparr> cp_readReq := Some r \<rparr>)
             (s\<lparr> ci_readQueue := remove1 r (ci_readQueue s) \<rparr>))
       in if mr_needToRead q
          then bind_res (if fst pid = SpmPort then tryRead_spm tx now pid r s1 else tryRead tx now pid r s1)
                 (\<lambda>s2. Inr (s2\<lparr> ci_accRdQ := ci_accRdQ s2 @ [r] \<rparr>))
          else Inr s1)"

definition start_write :: "(port_id \<Rightarrow> packet \<Rightarrow> bool) \<Rightarrow> tick \<Rightarrow> port_id \<Rightarrow> nat \<Rightarrow> comm_interface \<Rightarrow> comm_interface result" where
  "start_write tx now pid r s =
     bind_res (ci_req s r) (\<lambda>q.
       let s1 = ci_set_req r (q\<lparr> mr_port := Some pid \<rparr>) (ci_upd_port pid (\<lambda>c. c\<lparr> cp_writeReq := Some r \<rparr>)
             (s\<lparr> ci_writeQueue := remove1 r (ci_writeQueue s) \<rparr>))
       in if mr_needToWrite q
          then bind_res (if fst pid = SpmPort then tryWrite_spm tx now pid r s1 else tryWrite tx now pid r s1)
                 (\<lambda>s2. Inr (s2\<lparr> ci_accWrQ := ci_accWrQ s2 @ [r] \<rparr>))
          else Inr s1)"

text \<open>The loops over the queues, whose requests are visited in the order they had at the start.\<close>

fun process_reads :: "(port_id \<Rightarrow> addr \<Rightarrow> nat \<Rightarrow> bool \<Rightarrow> bool) \<Rightarrow> (port_id \<Rightarrow> packet \<Rightarrow> bool) \<Rightarrow> tick \<Rightarrow>
    nat list \<Rightarrow> comm_interface \<Rightarrow> comm_interface result" where
  "process_reads valid tx now [] s = Inr s"
| "process_reads valid tx now (r # rs) s =
     bind_res (ci_req s r) (\<lambda>q.
     bind_res (select_port valid s (mr_currentReadAddr q) (mr_length q) True) (\<lambda>mp.
       case mp of Some pid \<Rightarrow> bind_res (start_read tx now pid r s) (process_reads valid tx now rs)
       | None \<Rightarrow> process_reads valid tx now rs s))"

fun process_writes :: "(port_id \<Rightarrow> addr \<Rightarrow> nat \<Rightarrow> bool \<Rightarrow> bool) \<Rightarrow> (port_id \<Rightarrow> packet \<Rightarrow> bool) \<Rightarrow> tick \<Rightarrow>
    nat list \<Rightarrow> comm_interface \<Rightarrow> comm_interface result" where
  "process_writes valid tx now [] s = Inr s"
| "process_writes valid tx now (r # rs) s =
     bind_res (ci_req s r) (\<lambda>q.
     bind_res (select_port valid s (mr_currentWriteAddr q) (mr_length q) False) (\<lambda>mp.
       case mp of Some pid \<Rightarrow> bind_res (start_write tx now pid r s) (process_writes valid tx now rs)
       | None \<Rightarrow> process_writes valid tx now rs s))"

definition processMemoryRequests :: "(port_id \<Rightarrow> addr \<Rightarrow> nat \<Rightarrow> bool \<Rightarrow> bool) \<Rightarrow> (port_id \<Rightarrow> packet \<Rightarrow> bool) \<Rightarrow> tick \<Rightarrow>
    comm_interface \<Rightarrow> comm_interface result" where
  "processMemoryRequests valid tx now s =
     bind_res (if \<not> allPortsStalled s
               then bind_res (process_reads valid tx now (ci_readQueue s) s)
                      (\<lambda>s1. process_writes valid tx now (ci_writeQueue s1) s1)
               else Inr s) (\<lambda>s2.
       let s3 = s2\<lparr> ci_requestsInQueues := length (ci_readQueue s2) + length (ci_writeQueue s2) \<rparr>
       in Inr (if ci_requestsInQueues s3 > 0 then ci_wake now s3 else s3))"

definition checkMMR :: "tick \<Rightarrow> comm_interface \<Rightarrow> comm_interface result" where
  "checkMMR now s =
     (if ci_computationNeeded s then Inr s
      else bind_res (get_bytes 0 1 (ci_mmreg s)) (\<lambda>b.
        let s1 = (if hd b AND 0x01 \<noteq> 0
                  then s\<lparr> ci_mmreg := (ci_mmreg s)[0 := (hd b AND 0xfe) OR 0x02], ci_computationNeeded := True,
                          ci_cu := ci_cu s @ [CuInitialize] \<rparr>
                  else s)
        in Inr (if ci_processingDone s1 \<and> ci_tickEvent s1 = None then ci_wake now (s1\<lparr> ci_processingDone := False \<rparr>) else s1)))"

definition ci_tick :: "(port_id \<Rightarrow> addr \<Rightarrow> nat \<Rightarrow> bool \<Rightarrow> bool) \<Rightarrow> (port_id \<Rightarrow> packet \<Rightarrow> bool) \<Rightarrow> tick \<Rightarrow>
    comm_interface \<Rightarrow> comm_interface result" where
  "ci_tick valid tx now s =
     bind_res (checkMMR now s) (\<lambda>s1.
       let s2 = s1\<lparr> ci_requestsInQueues := length (ci_readQueue s1) + length (ci_writeQueue s1) \<rparr>
       in if ci_requestsInQueues s2 > 0 then processMemoryRequests valid tx now s2 else Inr s2)"

definition enqueueRead :: "tick \<Rightarrow> mem_request \<Rightarrow> comm_interface \<Rightarrow> comm_interface" where
  "enqueueRead now q s =
     ci_wake now ((ci_set_req (ci_nextReq s) q s)\<lparr> ci_nextReq := ci_nextReq s + 1, ci_readQueue := ci_readQueue s @ [ci_nextReq s] \<rparr>)"

definition enqueueWrite :: "tick \<Rightarrow> mem_request \<Rightarrow> comm_interface \<Rightarrow> comm_interface" where
  "enqueueWrite now q s =
     ci_wake now ((ci_set_req (ci_nextReq s) q s)\<lparr> ci_nextReq := ci_nextReq s + 1, ci_writeQueue := ci_writeQueue s @ [ci_nextReq s] \<rparr>)"

section \<open>Responses\<close>

definition findMemRequest :: "comm_interface \<Rightarrow> packet \<Rightarrow> bool \<Rightarrow> nat result" where
  "findMemRequest s p rd =
     (case find (\<lambda>r. case ci_reqs s r of None \<Rightarrow> False | Some q \<Rightarrow> mr_pkt q = Some (pkt_id p)) (if rd then ci_accRdQ s else ci_accWrQ s) of
        None \<Rightarrow> Inl (Panic ''Could not find memory request in request queues'')
      | Some r \<Rightarrow> Inr r)"

definition clearMemRequest :: "nat \<Rightarrow> bool \<Rightarrow> comm_interface \<Rightarrow> comm_interface" where
  "clearMemRequest r rd s =
     (if rd then s\<lparr> ci_accRdQ := remove1 r (ci_accRdQ s) \<rparr> else s\<lparr> ci_accWrQ := remove1 r (ci_accWrQ s) \<rparr>)"

fun count_done :: "nat \<Rightarrow> nat \<Rightarrow> bool list \<Rightarrow> nat" where
  "count_done d 0 bs = d"
| "count_done d (Suc n) bs = (if d < length bs \<and> bs ! d then count_done (Suc d) n bs else d)"

text \<open>The loop that marks the bytes read counts in \<open>int\<close>, so its bounds are those of requests below 2 GiB.\<close>

definition recv_read :: "packet \<Rightarrow> comm_interface \<Rightarrow> comm_interface result" where
  "recv_read p s =
     bind_res (findMemRequest s p True) (\<lambda>r.
     bind_res (ci_req s r) (\<lambda>q.
       let s1 = (case mr_port q of None \<Rightarrow> s | Some pid \<Rightarrow> ci_upd_port pid (\<lambda>c. c\<lparr> cp_readReq := None \<rparr>) s);
           off = unat (pkt_addr p - mr_beginAddr q)
       in bind_res (writeData p off (mr_buffer q)) (\<lambda>buf.
          bind_res (ready_fill True off (pkt_size p) (mr_readsDone q)) (\<lambda>rd.
            let q1 = q\<lparr> mr_buffer := buf, mr_readsDone := rd,
                        mr_readDone := count_done (mr_readDone q) (mr_totalLength q - mr_readDone q) rd \<rparr>
            in if \<not> mr_needToRead q1
               then Inr ((clearMemRequest r True (s1\<lparr> ci_cu := ci_cu s1 @ [CuReadCommit q1] \<rparr>))\<lparr> ci_reqs := (ci_reqs s1)(r := None) \<rparr>)
               else Inr (clearMemRequest r True (ci_set_req r q1 (s1\<lparr> ci_readQueue := r # ci_readQueue s1 \<rparr>)))))))"

definition recv_write :: "packet \<Rightarrow> comm_interface \<Rightarrow> comm_interface result" where
  "recv_write p s =
     bind_res (findMemRequest s p False) (\<lambda>r.
     bind_res (ci_req s r) (\<lambda>q.
       let s1 = (case mr_port q of None \<Rightarrow> s | Some pid \<Rightarrow> ci_upd_port pid (\<lambda>c. c\<lparr> cp_writeReq := None \<rparr>) s);
           q1 = q\<lparr> mr_writeDone := mr_writeDone q + pkt_size p \<rparr>
       in if \<not> mr_needToWrite q1
          then Inr ((clearMemRequest r False (s1\<lparr> ci_cu := ci_cu s1 @ [CuWriteCommit q1] \<rparr>))\<lparr> ci_reqs := (ci_reqs s1)(r := None) \<rparr>)
          else Inr (clearMemRequest r False (ci_set_req r q1 (s1\<lparr> ci_writeQueue := r # ci_writeQueue s1 \<rparr>)))))"

definition recvPacket :: "tick \<Rightarrow> packet \<Rightarrow> comm_interface \<Rightarrow> comm_interface result" where
  "recvPacket now p s =
     bind_res (if pkt_isRead p then recv_read p s
               else if pkt_isWrite p then recv_write p s
               else Inl (Panic ''Something went very wrong!'')) (\<lambda>s1. Inr (ci_wake now s1))"

section \<open>Registers\<close>

definition ci_finish :: "comm_interface \<Rightarrow> comm_interface result" where
  "ci_finish s =
     bind_res (get_bytes 0 1 (ci_mmreg s)) (\<lambda>b.
       let s1 = s\<lparr> ci_mmreg := (ci_mmreg s)[0 := (hd b AND 0xfc) OR 0x04], ci_computationNeeded := False \<rparr>;
           s2 = (if ci_int_num s1 > 0 then s1\<lparr> ci_int_flag := True, ci_gic := ci_gic s1 @ [SendInt (nat (ci_int_num s1))] \<rparr> else s1)
       in Inr (if ci_reset_spm s2 then s2\<lparr> ci_spmResets := ci_spmResets s2 @ [0..<length (ci_ports s2 SpmPort)] \<rparr> else s2))"

text \<open>The read loads eight bytes whatever the size, of which only the packet's own are set.\<close>

definition ci_read :: "comm_interface \<Rightarrow> packet \<Rightarrow> (tick \<times> packet) result" where
  "ci_read s p =
     (if \<not> List.member [1, 2, 4, 8] (pkt_size p) then Inl (Panic ''Read size too big?'')
      else bind_res (get_bytes (unat (pkt_addr p - ci_io_addr s)) (pkt_size p) (ci_mmreg s)) (\<lambda>bs.
           bind_res (makeResponse (pkt_set (pkt_size p) (le_val bs) (ci_endian s) p)) (\<lambda>p'. Inr (ci_pioDelay s, p'))))"

text \<open>\<open>cyc\<close> is the time to the next cycle of the interface's clock.\<close>

definition ci_write :: "tick \<Rightarrow> nat \<Rightarrow> comm_interface \<Rightarrow> packet \<Rightarrow> (tick \<times> packet \<times> comm_interface) result" where
  "ci_write now cyc s p =
     bind_res (writeData p (unat (pkt_addr p - ci_io_addr s)) (ci_mmreg s)) (\<lambda>mm.
     bind_res (makeResponse p) (\<lambda>p'.
     bind_res (get_bytes 0 1 mm) (\<lambda>b.
       let s1 = s\<lparr> ci_mmreg := mm \<rparr>;
           s2 = (if hd b AND 0x04 = 0 \<and> ci_int_flag s1
                 then (if ci_int_num s1 > 0 then s1\<lparr> ci_gic := ci_gic s1 @ [ClearInt (nat (ci_int_num s1))] \<rparr> else s1)\<lparr> ci_int_flag := False \<rparr>
                 else s1)
       in Inr (ci_pioDelay s, p', s2\<lparr> ci_tickEvent := sched_idle now cyc (ci_tickEvent s2) \<rparr>))))"

text \<open>Every size loads eight bytes, as the casts in the source have no effect.\<close>

definition getGlobalVar :: "nat \<Rightarrow> nat \<Rightarrow> comm_interface \<Rightarrow> addr result" where
  "getGlobalVar off sz s =
     (case ci_premap s of
        Some bases \<Rightarrow> if off div 8 < length bases then Inr (bases ! (off div 8)) else Inl OutOfBounds
      | None \<Rightarrow> if List.member [1, 2, 4, 8] sz
                then bind_res (get_bytes (ci_flag_size s + ci_config_size s + off) 8 (ci_mmreg s)) (\<lambda>bs. Inr (word_of_nat (le_val bs)))
                else Inl (Panic ''Data of this size is not supported as a global variable!''))"

section \<open>Routing\<close>

definition port_at :: "comm_interface \<Rightarrow> port_id \<Rightarrow> bool" where
  "port_at s pid \<longleftrightarrow> snd pid < length (ci_ports s (fst pid))"

definition reachable_addr :: "comm_interface \<Rightarrow> addr \<Rightarrow> bool" where
  "reachable_addr s a \<longleftrightarrow> (\<exists>k. inRange k s a)"

lemma find_port_Some:
  "find_port P i ps = Some j \<Longrightarrow> i \<le> j \<and> j < i + length ps \<and> P j (ps ! (j - i)) \<and> (\<forall>l. i \<le> l \<and> l < j \<longrightarrow> \<not> P l (ps ! (l - i)))"
proof (induction P i ps rule: find_port.induct)
  case (2 P i p ps)
  show ?case
  proof (cases "P i p")
    case False
    with 2 have j: "Suc i \<le> j \<and> j < Suc i + length ps \<and> P j (ps ! (j - Suc i)) \<and> (\<forall>l. Suc i \<le> l \<and> l < j \<longrightarrow> \<not> P l (ps ! (l - Suc i)))" by simp
    moreover have "(p # ps) ! (l - i) = ps ! (l - Suc i)" if "Suc i \<le> l" for l using that by (simp add: nth_Cons' )
    moreover have "\<not> P l ((p # ps) ! (l - i))" if "i \<le> l" "l < j" for l
      using that False j calculation(2) [of l] by (cases "l = i") auto
    ultimately show ?thesis by auto
  qed (use 2 in auto)
qed simp

lemma find_port_None: "find_port P i ps = None \<longleftrightarrow> (\<forall>l < length ps. \<not> P (i + l) (ps ! l))"
proof (induction P i ps rule: find_port.induct)
  case (2 P i p ps)
  then show ?case by (cases "P i p") (auto simp: All_less_Suc2)
qed simp

lemma select_port_ok:
  assumes "select_port valid s a len rd = Inr (Some pid)"
  shows "port_at s pid \<and> port_free a rd (ci_port s pid) \<and> (fst pid \<in> {StreamPort, SpmPort} \<longrightarrow> valid pid a len rd)"
  using assms
  by (auto simp: select_port_def getValidStreamPort_def getValidSPMPort_def getValidLocalPort_def getValidGlobalPort_def
      port_at_def ci_port_def dest!: find_port_Some split: if_splits)

lemma select_port_fails: "select_port valid s a len rd = Inl e \<Longrightarrow> \<not> reachable_addr s a"
proof -
  assume "select_port valid s a len rd = Inl e"
  then have "\<not> inRange StreamPort s a" "\<not> inRange SpmPort s a" "\<not> inRange LocalPort s a" "\<not> inRange GlobalPort s a"
    by (auto simp: select_port_def split: if_splits)
  then show ?thesis unfolding reachable_addr_def by (metis port_kind.exhaust)
qed


definition demo_routes :: comm_interface where
  "demo_routes = CommInterface 0x1000 4 1 0 5 None LittleEndianByteOrder 4 1 0 False 0
     (\<lambda>k. case k of GlobalPort \<Rightarrow> [[AddrRange 0 0x100]] | LocalPort \<Rightarrow> [[AddrRange 0x40 0x80], [AddrRange 0x40 0x80]] | _ \<Rightarrow> [])"


section \<open>Packets and cache lines\<close>

text \<open>
  The size of a packet: never empty, never more than what is left of the request, within one
  cache line of the interface, and as large as that allows: it ends the request or the line.
\<close>

theorem comm_packet_in_line:
  assumes "0 < cls" and "0 < n"
  shows "0 < line_chunk cls a n \<and> line_chunk cls a n \<le> n
    \<and> (unat a + line_chunk cls a n - 1) div cls = unat a div cls
    \<and> (line_chunk cls a n = n \<or> cls dvd unat a + line_chunk cls a n)"
proof -
  define o' where "o' = unat a mod cls"
  define l where "l = unat a div cls"
  have a: "unat a = l * cls + o'" by (simp add: l_def o'_def)
  have o: "o' < cls" using assms(1) by (simp add: o'_def)
  have c: "line_chunk cls a n = min n (cls - o')" using o assms by (auto simp: line_chunk_def o'_def [symmetric] Let_def)
  define k where "k = o' + min n (cls - o') - 1"
  have k: "k < cls" "unat a + line_chunk cls a n - 1 = l * cls + k" using o assms unfolding c a k_def by auto
  then have "(unat a + line_chunk cls a n - 1) div cls = l" by simp
  moreover have "cls dvd unat a + line_chunk cls a n" if "line_chunk cls a n \<noteq> n"
  proof -
    have "unat a + line_chunk cls a n = (l + 1) * cls" using that o unfolding c a by (auto simp: min_def split: if_splits)
    then show ?thesis by simp
  qed
  then have "line_chunk cls a n = n \<or> cls dvd unat a + line_chunk cls a n" by blast
  moreover have "0 < line_chunk cls a n" "line_chunk cls a n \<le> n" using assms o unfolding c by simp_all
  ultimately show ?thesis unfolding l_def by blast
qed

theorem comm_packet_in_line_witness:
  "line_chunk 64 0x3C 100 = 4 \<and> (unat (0x3C :: addr) + 4 - 1) div 64 = unat (0x3C :: addr) div 64 \<and> 64 dvd unat (0x3C :: addr) + 4"
proof -
  have "line_chunk 64 0x3C 100 = 4" by code_simp
  then show ?thesis using comm_packet_in_line [of 64 100 "0x3C"] by simp
qed

section \<open>Starting and finishing\<close>

text \<open>
  The start handshake: when no computation runs and the host has set bit 0 of the flag byte,
  the compute unit is initialised once, bit 0 is cleared and bit 1 set, the other bits and
  registers keep their value, and looking at the registers again starts nothing more, until the
  computation finishes; without bit 0 nothing starts.
\<close>

theorem comm_start_handshake:
  assumes "ci_mmreg s = b # mm" and "\<not> ci_computationNeeded s"
  shows "\<exists>s'. checkMMR now s = Inr s' \<and> ci_computationNeeded s' = bit b 0
    \<and> ci_cu s' = ci_cu s @ (if bit b 0 then [CuInitialize] else [])
    \<and> (\<exists>b'. ci_mmreg s' = b' # mm \<and> (\<forall>i. bit b' i = (if bit b 0 \<and> i < 2 then i = 1 else bit b i)))
    \<and> (bit b 0 \<longrightarrow> checkMMR now' s' = Inr s')"
proof -
  let ?b = "(b AND 0xfe) OR 0x02 :: byte"
  have b1: "(b AND 1 \<noteq> 0) = bit b 0" by (simp add: and_one_eq bit_0 odd_iff_mod_2_eq_one)
  have bits: "bit ?b i = (if i < 2 then i = 1 else bit b i)" for i
  proof (cases "i < 8")
    case True
    then have "i \<in> {0, 1, 2, 3, 4, 5, 6, 7}" by auto
    then show ?thesis by (auto simp: bit_or_iff bit_and_iff bit_numeral_rec)
  next
    case False
    then show ?thesis by (simp add: bit_or_iff bit_and_iff bit_word.rep_eq)
  qed
  have g: "get_bytes 0 1 (ci_mmreg s) = Inr [b]" using assms(1) by (simp add: get_bytes_def)
  show ?thesis
  proof (cases "bit b 0")
    case True
    then show ?thesis using assms bits b1 unfolding checkMMR_def g bind_res_Inr
      by (auto simp: Let_def ci_wake_def intro!: exI [of _ ?b])
  next
    case False
    then show ?thesis using assms bits b1 unfolding checkMMR_def g bind_res_Inr
      by (auto simp: Let_def ci_wake_def)
  qed
qed

definition demo_started :: comm_interface where
  "demo_started = demo_routes\<lparr> ci_mmreg := [0x89, 0, 0, 0] \<rparr>"

theorem comm_start_handshake_witness:
  "\<exists>s' b'. checkMMR 0 demo_started = Inr s' \<and> ci_cu s' = [CuInitialize] \<and> ci_mmreg s' = [b', 0, 0, 0] \<and> bit b' 7 \<and> \<not> bit b' 0"
proof -
  have d: "ci_mmreg demo_started = 0x89 # [0, 0, 0]" "\<not> ci_computationNeeded demo_started" "ci_cu demo_started = []"
    by (simp_all add: demo_started_def demo_routes_def CommInterface_def)
  have b: "bit (0x89 :: byte) 0" "bit (0x89 :: byte) 7" by code_simp+
  from comm_start_handshake [OF d(1,2), of 0 0] obtain s' b' where s: "checkMMR 0 demo_started = Inr s'" "ci_cu s' = [CuInitialize]"
    "ci_mmreg s' = b' # [0, 0, 0]" "\<forall>i. bit b' i = (if bit (0x89 :: byte) 0 \<and> i < 2 then i = 1 else bit (0x89 :: byte) i)"
    using b(1) d(3) by auto
  from s(4) [rule_format, of 7] s(4) [rule_format, of 0] b have "bit b' 7" "\<not> bit b' 0" by simp_all
  then show ?thesis using s by auto
qed

text \<open>
  Completion: finishing sets bit 2 of the flag byte and clears bits 0 and 1, raises the
  interrupt exactly if one is configured and lets the next start be seen; when the host then
  writes the register with bit 2 cleared the interrupt is cleared once, and not again by later
  writes.
\<close>

theorem comm_finish_handshake:
  assumes "ci_mmreg s = b # mm"
  shows "\<exists>s' b'. ci_finish s = Inr s' \<and> \<not> ci_computationNeeded s' \<and> ci_mmreg s' = b' # mm
    \<and> (\<forall>i. bit b' i = (if i < 3 then i = 2 else bit b i))
    \<and> ci_gic s' = ci_gic s @ (if 0 < ci_int_num s then [SendInt (nat (ci_int_num s))] else [])
    \<and> (\<forall>now cyc p d p' t. 0 < ci_int_num s \<and> ci_write now cyc s' p = Inr (d, p', t) \<longrightarrow>
         (if bit (hd (ci_mmreg t)) 2 then ci_gic t = ci_gic s' \<and> ci_int_flag t
          else ci_gic t = ci_gic s' @ [ClearInt (nat (ci_int_num s))] \<and> \<not> ci_int_flag t))"
proof -
  let ?b = "(b AND 0xfc) OR 0x04 :: byte"
  have bits: "bit ?b i = (if i < 3 then i = 2 else bit b i)" for i
  proof (cases "i < 8")
    case True
    then have "i \<in> {0, 1, 2, 3, 4, 5, 6, 7}" by auto
    then show ?thesis by (auto simp: bit_or_iff bit_and_iff bit_numeral_rec)
  next
    case False
    then show ?thesis by (simp add: bit_or_iff bit_and_iff bit_word.rep_eq)
  qed
  have g: "get_bytes 0 1 (ci_mmreg s) = Inr [b]" using assms by (simp add: get_bytes_def)
  obtain s' where s': "ci_finish s = Inr s'" unfolding ci_finish_def g bind_res_Inr Let_def by blast
  note e = s' [unfolded ci_finish_def g bind_res_Inr Let_def, THEN Inr_inject, symmetric]
  have f: "\<not> ci_computationNeeded s'" "ci_mmreg s' = ?b # mm" "ci_int_num s' = ci_int_num s" "0 < ci_int_num s \<Longrightarrow> ci_int_flag s'"
    "ci_gic s' = ci_gic s @ (if 0 < ci_int_num s then [SendInt (nat (ci_int_num s))] else [])"
    unfolding e using assms by simp_all
  have "if bit (hd (ci_mmreg t)) 2 then ci_gic t = ci_gic s' \<and> ci_int_flag t
          else ci_gic t = ci_gic s' @ [ClearInt (nat (ci_int_num s))] \<and> \<not> ci_int_flag t"
    if "0 < ci_int_num s" and w: "ci_write now cyc s' p = Inr (d, p', t)" for now cyc p d p' t
  proof -
    obtain mm' c where m: "writeData p (unat (pkt_addr p - ci_io_addr s')) (ci_mmreg s') = Inr mm'" "get_bytes 0 1 mm' = Inr c"
      using w by (auto simp: ci_write_def bind_res_def split: sum.splits)
    then have c: "mm' = hd mm' # tl mm'" "c = [hd mm']" by (cases mm'; simp add: get_bytes_def)+
    have "(hd mm' AND 4 = 0) = (\<not> bit (hd mm') 2)" using and_exp_eq_0_iff_not_bit [of "hd mm'" 2] by simp
    then show ?thesis using w that(1) f(3,4) m c(2) by (auto simp: ci_write_def Let_def bind_res_def split: sum.splits)
  qed
  then show ?thesis using s' f(1,2,5) bits by blast
qed

theorem comm_finish_handshake_witness:
  "\<exists>s'. ci_finish demo_started = Inr s' \<and> ci_gic s' = [SendInt 5] \<and> \<not> ci_computationNeeded s'"
proof -
  have d: "ci_mmreg demo_started = 0x89 # [0, 0, 0]" "ci_int_num demo_started = 5" "ci_gic demo_started = []"
    by (simp_all add: demo_started_def demo_routes_def CommInterface_def)
  from comm_finish_handshake [OF d(1)] d(2,3) show ?thesis by auto
qed



end
