(* ===== verification/Comm_Requests.thy ===== *)
theory Comm_Requests
  imports Comm_Interface "HOL-Library.Multiset"
begin

text \<open>
  The life of a memory request of the communications interface: waiting in a queue, in flight
  over a port in packets that end at cache lines, answered and handed back to the compute unit.
  The invariant of the interface's states and its preservation by every step show that a read
  returns what memory holds, that a write is stored before it is committed, and that no step
  fails and no waiting request is forgotten.
\<close>

unbundle bit_operations_syntax

declare split_paired_All [simp del] split_paired_Ex [simp del]

section \<open>The life of a request\<close>

text \<open>Packets that have been made and are on the wire or held back by a port.\<close>

definition pkt_known :: "comm_interface \<Rightarrow> packet \<Rightarrow> bool" where
  "pkt_known s p \<longleftrightarrow> (\<exists>pid. (pid, p) \<in> set (ci_wire s)) \<or> (\<exists>pid. port_at s pid \<and> p \<in> set (cp_outstandingPkts (ci_port s pid)))"

text \<open>A read request over memory \<open>m\<close>: the bytes read so far are those of memory.\<close>

definition rd_ok :: "(addr \<Rightarrow> byte) \<Rightarrow> mem_request \<Rightarrow> bool" where
  "rd_ok m q \<longleftrightarrow> mr_beginAddr q = mr_address q \<and> mr_totalLength q = mr_length q \<and> mr_length q < 2 ^ 64
     \<and> mr_readDone q \<le> mr_length q - mr_readLeft q \<and> mr_readLeft q \<le> mr_length q
     \<and> mr_currentReadAddr q = mr_address q + of_nat (mr_length q - mr_readLeft q)
     \<and> mr_needToRead q = (0 < mr_readLeft q)
     \<and> mr_readsDone q = replicate (mr_readDone q) True @ replicate (mr_length q - mr_readDone q) False
     \<and> mr_buffer q = mem_slice m (mr_address q) (mr_readDone q) @ replicate (mr_length q - mr_readDone q) 0"

definition wr_ok :: "mem_request \<Rightarrow> bool" where
  "wr_ok q \<longleftrightarrow> mr_totalLength q = mr_length q \<and> length (mr_buffer q) = mr_length q
     \<and> mr_writeDone q \<le> mr_length q - mr_writeLeft q \<and> mr_writeLeft q \<le> mr_length q
     \<and> mr_currentWriteAddr q = mr_address q + of_nat (mr_length q - mr_writeLeft q)
     \<and> mr_needToWrite q = (0 < mr_writeLeft q)"

text \<open>Every byte of \<open>xs\<close> has been stored at its address by one of the stores \<open>st\<close>.\<close>

definition stored :: "(addr \<times> byte list) list \<Rightarrow> addr \<Rightarrow> byte list \<Rightarrow> bool" where
  "stored st a xs \<longleftrightarrow> (\<forall>i < length xs. \<exists>(b, ys) \<in> set st. \<exists>j < length ys. b + of_nat j = a + of_nat i \<and> ys ! j = xs ! i)"

lemma stored_Nil [simp]: "stored st a []"
  by (simp add: stored_def)

lemma stored_mono: "stored st a xs \<Longrightarrow> set st \<subseteq> set st' \<Longrightarrow> stored st' a xs"
  unfolding stored_def by blast

lemma stored_append:
  assumes "stored st a xs" and "(a + of_nat (length xs), ys) \<in> set st"
  shows "stored st a (xs @ ys)"
  unfolding stored_def
proof (intro allI impI)
  fix i assume i: "i < length (xs @ ys)"
  show "\<exists>(b, zs) \<in> set st. \<exists>j < length zs. b + of_nat j = a + of_nat i \<and> zs ! j = (xs @ ys) ! i"
  proof (cases "i < length xs")
    case True
    then show ?thesis using assms(1) unfolding stored_def by (auto simp: nth_append)
  next
    case False
    then have "a + of_nat (length xs) + of_nat (i - length xs) = a + (of_nat i :: addr)" by (simp add: of_nat_diff)
    moreover have "i - length xs < length ys" using False i by simp
    ultimately show ?thesis using False assms(2) by (force simp: nth_append)
  qed
qed

definition live_addrs :: "comm_interface \<Rightarrow> mem_request \<Rightarrow> bool" where
  "live_addrs s q \<longleftrightarrow> (\<forall>i < mr_length q. reachable_addr s (mr_address q + of_nat i))"

definition rd_waiting :: "(addr \<Rightarrow> byte) \<Rightarrow> comm_interface \<Rightarrow> nat \<Rightarrow> bool" where
  "rd_waiting m s r \<longleftrightarrow> (\<exists>q. ci_reqs s r = Some q \<and> rd_ok m q \<and> mr_readDone q = mr_length q - mr_readLeft q
     \<and> 0 < mr_readLeft q \<and> live_addrs s q)"

text \<open>The packet in flight for a request: the bytes asked for and not yet received, or sent.\<close>

definition rd_pkt :: "mem_request \<Rightarrow> packet \<Rightarrow> bool" where
  "rd_pkt q p \<longleftrightarrow> pkt_cmd p = ReadReq \<and> pkt_addr p = mr_address q + of_nat (mr_readDone q)
     \<and> pkt_size p = mr_length q - mr_readLeft q - mr_readDone q"

definition wr_pkt :: "mem_request \<Rightarrow> packet \<Rightarrow> bool" where
  "wr_pkt q p \<longleftrightarrow> pkt_cmd p = WriteReq \<and> pkt_addr p = mr_address q + of_nat (mr_writeDone q)
     \<and> pkt_size p = mr_length q - mr_writeLeft q - mr_writeDone q
     \<and> pkt_data p = take (pkt_size p) (drop (mr_writeDone q) (mr_buffer q))"

definition id_known :: "comm_interface \<Rightarrow> nat \<Rightarrow> bool" where
  "id_known s k \<longleftrightarrow> (\<exists>p. pkt_known s p \<and> pkt_id p = k)"

definition rd_flying :: "(addr \<Rightarrow> byte) \<Rightarrow> comm_interface \<Rightarrow> nat \<Rightarrow> bool" where
  "rd_flying m s r \<longleftrightarrow> (\<exists>q k pid. ci_reqs s r = Some q \<and> rd_ok m q \<and> mr_readDone q < mr_length q - mr_readLeft q \<and> live_addrs s q
     \<and> mr_pkt q = Some k \<and> k < ci_nextPkt s \<and> mr_port q = Some pid \<and> port_at s pid \<and> cp_readReq (ci_port s pid) = Some r
     \<and> id_known s k
     \<and> (\<forall>p. pkt_known s p \<and> pkt_id p = k \<longrightarrow> rd_pkt q p))"

definition wr_waiting :: "(addr \<times> byte list) list \<Rightarrow> comm_interface \<Rightarrow> nat \<Rightarrow> bool" where
  "wr_waiting st s r \<longleftrightarrow> (\<exists>q. ci_reqs s r = Some q \<and> wr_ok q \<and> mr_writeDone q = mr_length q - mr_writeLeft q
     \<and> 0 < mr_writeLeft q \<and> live_addrs s q \<and> stored st (mr_address q) (take (mr_writeDone q) (mr_buffer q)))"

definition wr_flying :: "(addr \<times> byte list) list \<Rightarrow> comm_interface \<Rightarrow> nat \<Rightarrow> bool" where
  "wr_flying st s r \<longleftrightarrow> (\<exists>q k pid. ci_reqs s r = Some q \<and> wr_ok q \<and> mr_writeDone q < mr_length q - mr_writeLeft q \<and> live_addrs s q
     \<and> stored st (mr_address q) (take (mr_writeDone q) (mr_buffer q))
     \<and> mr_pkt q = Some k \<and> k < ci_nextPkt s \<and> mr_port q = Some pid \<and> port_at s pid \<and> cp_writeReq (ci_port s pid) = Some r
     \<and> id_known s k
     \<and> (\<forall>p. pkt_known s p \<and> pkt_id p = k \<longrightarrow> wr_pkt q p))"

definition pkt_of :: "comm_interface \<Rightarrow> nat \<Rightarrow> nat option" where
  "pkt_of s r = (case ci_reqs s r of None \<Rightarrow> None | Some q \<Rightarrow> mr_pkt q)"

definition cu_ok :: "(addr \<Rightarrow> byte) \<Rightarrow> (addr \<times> byte list) list \<Rightarrow> cu_call \<Rightarrow> bool" where
  "cu_ok m st c = (case c of CuInitialize \<Rightarrow> True
     | CuReadCommit q \<Rightarrow> mr_buffer q = mem_slice m (mr_address q) (mr_length q)
     | CuWriteCommit q \<Rightarrow> stored st (mr_address q) (mr_buffer q))"

abbreviation ci_ids :: "comm_interface \<Rightarrow> nat list" where
  "ci_ids s \<equiv> ci_readQueue s @ ci_accRdQ s @ ci_writeQueue s @ ci_accWrQ s"

definition ci_inv :: "(addr \<Rightarrow> byte) \<Rightarrow> (addr \<times> byte list) list \<Rightarrow> comm_interface \<Rightarrow> bool" where
  "ci_inv m st s \<longleftrightarrow> 0 < ci_cacheLineSize s \<and> ci_mmreg s \<noteq> [] \<and> distinct (ci_ids s) \<and> (\<forall>r \<in> set (ci_ids s). r < ci_nextReq s)
     \<and> (\<forall>r \<in> set (ci_readQueue s). rd_waiting m s r) \<and> (\<forall>r \<in> set (ci_accRdQ s). rd_flying m s r)
     \<and> (\<forall>r \<in> set (ci_writeQueue s). wr_waiting st s r) \<and> (\<forall>r \<in> set (ci_accWrQ s). wr_flying st s r)
     \<and> (\<forall>p. pkt_known s p \<longrightarrow> pkt_id p < ci_nextPkt s)
     \<and> inj_on (pkt_of s) (set (ci_accRdQ s @ ci_accWrQ s))
     \<and> (\<forall>c \<in> set (ci_cu s). cu_ok m st c)"

text \<open>
  The books of the interface: the address and length of every read, and the address and bytes
  of every write, that has been answered to the compute unit or is still in a queue.
\<close>

definition reads_done :: "comm_interface \<Rightarrow> (addr \<times> nat) list" where
  "reads_done s = List.map_filter (\<lambda>c. case c of CuReadCommit q \<Rightarrow> Some (mr_address q, mr_length q) | _ \<Rightarrow> None) (ci_cu s)"

definition writes_done :: "comm_interface \<Rightarrow> (addr \<times> byte list) list" where
  "writes_done s = List.map_filter (\<lambda>c. case c of CuWriteCommit q \<Rightarrow> Some (mr_address q, mr_buffer q) | _ \<Rightarrow> None) (ci_cu s)"

definition rd_key :: "comm_interface \<Rightarrow> nat \<Rightarrow> addr \<times> nat" where
  "rd_key s r = (case ci_reqs s r of None \<Rightarrow> (0, 0) | Some q \<Rightarrow> (mr_address q, mr_length q))"

definition wr_key :: "comm_interface \<Rightarrow> nat \<Rightarrow> addr \<times> byte list" where
  "wr_key s r = (case ci_reqs s r of None \<Rightarrow> (0, []) | Some q \<Rightarrow> (mr_address q, mr_buffer q))"

definition reads_pending :: "comm_interface \<Rightarrow> (addr \<times> nat) multiset" where
  "reads_pending s = image_mset (rd_key s) (mset (ci_readQueue s @ ci_accRdQ s))"

definition writes_pending :: "comm_interface \<Rightarrow> (addr \<times> byte list) multiset" where
  "writes_pending s = image_mset (wr_key s) (mset (ci_writeQueue s @ ci_accWrQ s))"

definition ledger :: "comm_interface \<Rightarrow> (addr \<times> nat) multiset \<times> (addr \<times> byte list) multiset" where
  "ledger s = (mset (reads_done s) + reads_pending s, mset (writes_done s) + writes_pending s)"

lemma pending_cong:
  assumes "mset ys = mset xs" and "\<And>r. r \<in> set xs \<Longrightarrow> g r = f r"
  shows "image_mset g (mset ys) = image_mset f (mset xs)"
  unfolding assms(1) by (rule image_mset_cong) (simp add: assms(2))

lemma map_filter_skip: "(\<And>x. \<not> P x \<Longrightarrow> f x = None) \<Longrightarrow> List.map_filter f (filter P xs) = List.map_filter f xs"
  by (induction xs) (auto simp: List.map_filter_simps split: option.splits)

lemma map_filter_append: "List.map_filter f (xs @ ys) = List.map_filter f xs @ List.map_filter f ys"
  by (induction xs) (auto simp: List.map_filter_simps split: option.splits)

lemma done_commits:
  assumes "filter (\<lambda>c. c \<noteq> CuInitialize) (ci_cu s') = filter (\<lambda>c. c \<noteq> CuInitialize) (ci_cu s)"
  shows "reads_done s' = reads_done s" "writes_done s' = writes_done s"
proof -
  have skip: "List.map_filter f (ci_cu t) = List.map_filter f (filter (\<lambda>c. c \<noteq> CuInitialize) (ci_cu t))" if "f CuInitialize = None" for f t
    by (rule map_filter_skip [symmetric]) (use that in auto)
  show "reads_done s' = reads_done s" "writes_done s' = writes_done s"
    unfolding reads_done_def writes_done_def by (subst (1 2) skip; simp add: assms)+
qed

section \<open>What the steps leave alone\<close>

text \<open>\<open>s'\<close> has the ports of \<open>s\<close> and all its packets, and perhaps newer packets.\<close>

definition ci_ext :: "comm_interface \<Rightarrow> comm_interface \<Rightarrow> bool" where
  "ci_ext s s' \<longleftrightarrow> (\<forall>k. map cp_ranges (ci_ports s' k) = map cp_ranges (ci_ports s k)) \<and> ci_nextPkt s \<le> ci_nextPkt s'
     \<and> (\<forall>p. pkt_known s p \<longrightarrow> pkt_known s' p) \<and> (\<forall>p. pkt_known s' p \<longrightarrow> pkt_known s p \<or> ci_nextPkt s \<le> pkt_id p)"

lemma ci_ext_ports:
  assumes "ci_ext s s'"
  shows "port_at s' pid = port_at s pid" "inRange k s' a = inRange k s a" "reachable_addr s' a = reachable_addr s a"
    "live_addrs s' q = live_addrs s q"
proof -
  have map: "map cp_ranges (ci_ports s' k) = map cp_ranges (ci_ports s k)" for k using assms by (simp add: ci_ext_def)
  have "inRange k t a = list_ex (\<lambda>r. ranges_contain r a) (map cp_ranges (ci_ports t k))" for t k a
    by (simp add: inRange_def list_ex_iff)
  then have in_eq: "inRange k s' a = inRange k s a" for k a by (simp only: map)
  show "port_at s' pid = port_at s pid" using arg_cong [OF map, of length] by (simp add: port_at_def)
  show "inRange k s' a = inRange k s a" "reachable_addr s' a = reachable_addr s a" "live_addrs s' q = live_addrs s q"
    by (simp_all add: in_eq reachable_addr_def live_addrs_def)
qed

definition keeps_rd :: "comm_interface \<Rightarrow> comm_interface \<Rightarrow> nat \<Rightarrow> bool" where
  "keeps_rd s s' r \<longleftrightarrow> ci_reqs s' r = ci_reqs s r
     \<and> (\<forall>pid. port_at s pid \<and> cp_readReq (ci_port s pid) = Some r \<longrightarrow> cp_readReq (ci_port s' pid) = Some r)"

definition keeps_wr :: "comm_interface \<Rightarrow> comm_interface \<Rightarrow> nat \<Rightarrow> bool" where
  "keeps_wr s s' r \<longleftrightarrow> ci_reqs s' r = ci_reqs s r
     \<and> (\<forall>pid. port_at s pid \<and> cp_writeReq (ci_port s pid) = Some r \<longrightarrow> cp_writeReq (ci_port s' pid) = Some r)"

lemma rd_waiting_frame: "rd_waiting m s r \<Longrightarrow> ci_ext s s' \<Longrightarrow> ci_reqs s' r = ci_reqs s r \<Longrightarrow> rd_waiting m s' r"
  by (simp add: rd_waiting_def ci_ext_ports)

lemma wr_waiting_frame:
  "wr_waiting st s r \<Longrightarrow> ci_ext s s' \<Longrightarrow> ci_reqs s' r = ci_reqs s r \<Longrightarrow> set st \<subseteq> set st' \<Longrightarrow> wr_waiting st' s' r"
  unfolding wr_waiting_def by (auto simp: ci_ext_ports intro: stored_mono)

lemma known_old: "ci_ext s s' \<Longrightarrow> k < ci_nextPkt s \<Longrightarrow> (pkt_known s' p \<and> pkt_id p = k) = (pkt_known s p \<and> pkt_id p = k)"
  unfolding ci_ext_def by (metis leD)

lemma id_known_old: "ci_ext s s' \<Longrightarrow> k < ci_nextPkt s \<Longrightarrow> id_known s' k = id_known s k"
  unfolding id_known_def by (simp add: known_old)

lemma rd_flying_frame:
  assumes fly: "rd_flying m s r" and ext: "ci_ext s s'" and keep: "keeps_rd s s' r"
  shows "rd_flying m s' r"
proof -
  from fly obtain q k pid where "ci_reqs s r = Some q" "rd_ok m q" "mr_readDone q < mr_length q - mr_readLeft q" "live_addrs s q"
     "mr_pkt q = Some k" and k: "k < ci_nextPkt s" and
     "mr_port q = Some pid" "port_at s pid" "cp_readReq (ci_port s pid) = Some r" "id_known s k"
     "\<forall>p. pkt_known s p \<and> pkt_id p = k \<longrightarrow> rd_pkt q p" unfolding rd_flying_def by (elim exE conjE) (rule that)
  moreover have "k < ci_nextPkt s'" using k ext by (simp add: ci_ext_def)
  ultimately show ?thesis using keep unfolding rd_flying_def keeps_rd_def
    by (intro exI [of _ q] exI [of _ k] exI [of _ pid]) (simp add: ci_ext_ports [OF ext] known_old [OF ext k] id_known_old [OF ext k])
qed

lemma wr_flying_frame:
  assumes fly: "wr_flying st s r" and ext: "ci_ext s s'" and keep: "keeps_wr s s' r" and st: "set st \<subseteq> set st'"
  shows "wr_flying st' s' r"
proof -
  from fly obtain q k pid where "ci_reqs s r = Some q" "wr_ok q" "mr_writeDone q < mr_length q - mr_writeLeft q" "live_addrs s q"
     and sd: "stored st (mr_address q) (take (mr_writeDone q) (mr_buffer q))" and
     "mr_pkt q = Some k" and k: "k < ci_nextPkt s" and
     "mr_port q = Some pid" "port_at s pid" "cp_writeReq (ci_port s pid) = Some r" "id_known s k"
     "\<forall>p. pkt_known s p \<and> pkt_id p = k \<longrightarrow> wr_pkt q p" unfolding wr_flying_def by (elim exE conjE) (rule that)
  moreover have "k < ci_nextPkt s'" using k ext by (simp add: ci_ext_def)
  ultimately show ?thesis using keep stored_mono [OF sd st] unfolding wr_flying_def keeps_wr_def
    by (intro exI [of _ q] exI [of _ k] exI [of _ pid]) (simp add: ci_ext_ports [OF ext] known_old [OF ext k] id_known_old [OF ext k])
qed

lemma ci_port_upd:
  "port_at s pid \<Longrightarrow> ci_port (ci_upd_port pid f s) x = (if x = pid then f (ci_port s pid) else ci_port s x)"
  by (cases x; cases pid) (auto simp: ci_port_def ci_upd_port_def port_at_def nth_list_update)

lemma port_at_upd [simp]: "port_at (ci_upd_port pid f s) x = port_at s x"
  by (simp add: port_at_def ci_upd_port_def)

lemma ranges_upd:
  assumes "cp_ranges (f (ci_port s pid)) = cp_ranges (ci_port s pid)"
  shows "map cp_ranges (ci_ports (ci_upd_port pid f s) k) = map cp_ranges (ci_ports s k)"
proof (cases "k = fst pid \<and> snd pid < length (ci_ports s k)")
  case True
  then have "(map cp_ranges (ci_ports s k))[snd pid := cp_ranges (ci_ports s k ! snd pid)] = map cp_ranges (ci_ports s k)"
    by (metis list_update_id nth_map)
  with True assms show ?thesis by (simp add: ci_upd_port_def ci_port_def map_update)
qed (auto simp: ci_upd_port_def list_update_beyond)

lemma upd_port_selectors [simp]:
  "ci_reqs (ci_upd_port pid f s) = ci_reqs s" "ci_nextPkt (ci_upd_port pid f s) = ci_nextPkt s"
  "ci_wire (ci_upd_port pid f s) = ci_wire s" "ci_readQueue (ci_upd_port pid f s) = ci_readQueue s"
  "ci_writeQueue (ci_upd_port pid f s) = ci_writeQueue s" "ci_accRdQ (ci_upd_port pid f s) = ci_accRdQ s"
  "ci_accWrQ (ci_upd_port pid f s) = ci_accWrQ s" "ci_cacheLineSize (ci_upd_port pid f s) = ci_cacheLineSize s"
  "ci_mmreg (ci_upd_port pid f s) = ci_mmreg s" "ci_nextReq (ci_upd_port pid f s) = ci_nextReq s"
  "ci_cu (ci_upd_port pid f s) = ci_cu s" "ci_tickEvent (ci_upd_port pid f s) = ci_tickEvent s"
  by (simp_all add: ci_upd_port_def)

lemma port_cong: "ci_ports s' = ci_ports s \<Longrightarrow> ci_port s' x = ci_port s x \<and> port_at s' x = port_at s x"
  by (simp add: ci_port_def port_at_def)

lemma known_cong: "ci_ports s' = ci_ports s \<Longrightarrow> ci_wire s' = ci_wire s \<Longrightarrow> pkt_known s' p = pkt_known s p"
  by (simp add: pkt_known_def port_at_def ci_port_def)

text \<open>A packet that is sent is known, held back by a port that is stalled or refused.\<close>

lemma sendPacket_known:
  assumes "port_at s pid"
  shows "pkt_known (sendPacket tx pid p s) x \<longleftrightarrow> pkt_known s x \<or> x = p"
proof (cases "isStalled (ci_port s pid) \<or> \<not> tx pid p")
  case True
  then have "sendPacket tx pid p s = ci_upd_port pid (\<lambda>c. c\<lparr> cp_outstandingPkts := cp_outstandingPkts c @ [p] \<rparr>) s"
    by (simp add: sendPacket_def)
  moreover have "(\<exists>y. port_at s y \<and> x \<in> set (cp_outstandingPkts (if y = pid then (ci_port s pid)\<lparr> cp_outstandingPkts := cp_outstandingPkts (ci_port s pid) @ [p] \<rparr>
      else ci_port s y))) \<longleftrightarrow> (\<exists>y. port_at s y \<and> x \<in> set (cp_outstandingPkts (ci_port s y))) \<or> x = p" (is "?L \<longleftrightarrow> ?R")
  proof
    assume ?R
    then show ?L
    proof
      assume "x = p"
      then show ?L using assms by (intro exI [of _ pid]) simp
    next
      assume "\<exists>y. port_at s y \<and> x \<in> set (cp_outstandingPkts (ci_port s y))"
      then obtain y where "port_at s y" "x \<in> set (cp_outstandingPkts (ci_port s y))" by blast
      then show ?L by (intro exI [of _ y]) auto
    qed
  qed (auto split: if_splits)
  ultimately show ?thesis by (simp only: pkt_known_def ci_port_upd [OF assms] upd_port_selectors port_at_upd disj_assoc)
next
  case False
  then have "sendPacket tx pid p s = s\<lparr> ci_wire := ci_wire s @ [(pid, p)] \<rparr>" by (simp add: sendPacket_def)
  then show ?thesis by (auto simp: pkt_known_def port_at_def ci_port_def)
qed

lemma sendPacket_frame:
  assumes "port_at s pid"
  shows "\<exists>P W. sendPacket tx pid p s = s\<lparr> ci_ports := P, ci_wire := W \<rparr> \<and> (\<forall>k. map cp_ranges (P k) = map cp_ranges (ci_ports s k))
    \<and> (\<forall>x. cp_readReq (P (fst x) ! snd x) = cp_readReq (ci_port s x) \<and> cp_writeReq (P (fst x) ! snd x) = cp_writeReq (ci_port s x))"
proof (cases "isStalled (ci_port s pid) \<or> \<not> tx pid p")
  case True
  let ?f = "\<lambda>c. c\<lparr> cp_outstandingPkts := cp_outstandingPkts c @ [p] \<rparr>"
  let ?P = "ci_ports (ci_upd_port pid ?f s)"
  have "sendPacket tx pid p s = s\<lparr> ci_ports := ?P, ci_wire := ci_wire s \<rparr>"
    using True by (simp add: sendPacket_def ci_upd_port_def)
  moreover have "map cp_ranges (?P k) = map cp_ranges (ci_ports s k)" for k by (rule ranges_upd) simp
  moreover have "?P (fst x) ! snd x = (if x = pid then ?f (ci_port s pid) else ci_port s x)" for x
    using ci_port_upd [OF assms, of ?f x] by (simp add: ci_port_def)
  ultimately show ?thesis by (intro exI [of _ ?P] exI [of _ "ci_wire s"]) auto
next
  case False
  then show ?thesis by (intro exI [of _ "ci_ports s"] exI [of _ "ci_wire s @ [(pid, p)]"]) (simp add: sendPacket_def ci_port_def)
qed

section \<open>Handing a request to a port\<close>

lemma line_chunk_bounds:
  assumes "0 < cls" and "0 < n"
  shows "0 < line_chunk cls a n" "line_chunk cls a n \<le> n" "line_chunk cls a n \<le> cls" "unat a mod cls + line_chunk cls a n \<le> cls"
proof -
  have "unat a mod cls < cls" using assms(1) by simp
  then show "0 < line_chunk cls a n" "line_chunk cls a n \<le> n" "line_chunk cls a n \<le> cls" "unat a mod cls + line_chunk cls a n \<le> cls"
    using assms by (auto simp: line_chunk_def Let_def)
qed

text \<open>The state after a packet of a read (\<open>rd\<close>) or write request was sent over port \<open>pid\<close>.\<close>

lemma start_common:
  assumes pa: "port_at s pid" and f: "\<And>c. cp_ranges (f c) = cp_ranges c" "\<And>c. cp_outstandingPkts (f c) = cp_outstandingPkts c"
    and id: "\<forall>x. pkt_known s x \<longrightarrow> pkt_id x < ci_nextPkt s" "pkt_id p = ci_nextPkt s"
    and u: "u = sendPacket tx pid p (t\<lparr> ci_nextPkt := ci_nextPkt s + 1 \<rparr>)"
    and t: "ci_ports t = ci_ports (ci_upd_port pid f s)" "ci_wire t = ci_wire s"
  shows "\<exists>P W. u = t\<lparr> ci_nextPkt := ci_nextPkt s + 1, ci_ports := P, ci_wire := W \<rparr>" "ci_ext s u" "pkt_known u x \<longleftrightarrow> pkt_known s x \<or> x = p"
    "cp_readReq (ci_port u y) = cp_readReq (if y = pid then f (ci_port s pid) else ci_port s y)"
    "cp_writeReq (ci_port u y) = cp_writeReq (if y = pid then f (ci_port s pid) else ci_port s y)"
proof -
  let ?t = "t\<lparr> ci_nextPkt := ci_nextPkt s + 1 \<rparr>"
  have pt: "port_at ?t z = port_at s z" "ci_port ?t z = (if z = pid then f (ci_port s pid) else ci_port s z)" for z
    using t(1) ci_port_upd [OF pa, of f z] by (simp_all add: port_at_def ci_port_def ci_upd_port_def)
  have kt: "pkt_known ?t z = pkt_known s z" for z
  proof -
    have "cp_outstandingPkts (ci_port ?t y) = cp_outstandingPkts (ci_port s y)" for y using pt(2) f(2) by simp
    then show ?thesis unfolding pkt_known_def pt(1) using t(2) by simp
  qed
  have pa': "port_at ?t pid" using pa pt by simp
  obtain P W where PW: "u = ?t\<lparr> ci_ports := P, ci_wire := W \<rparr>" "\<forall>k. map cp_ranges (P k) = map cp_ranges (ci_ports ?t k)"
    "\<forall>x. cp_readReq (P (fst x) ! snd x) = cp_readReq (ci_port ?t x) \<and> cp_writeReq (P (fst x) ! snd x) = cp_writeReq (ci_port ?t x)"
    using sendPacket_frame [OF pa', of tx p] u by blast
  show "\<exists>P W. u = t\<lparr> ci_nextPkt := ci_nextPkt s + 1, ci_ports := P, ci_wire := W \<rparr>" using PW(1) by blast
  show kn: "pkt_known u x \<longleftrightarrow> pkt_known s x \<or> x = p" for x using sendPacket_known [OF pa', of tx p x] u kt by simp
  have "map cp_ranges (ci_ports u k) = map cp_ranges (ci_ports s k)" for k
    using PW(1,2) t(1) ranges_upd [of f s pid k] f(1) by simp
  then show "ci_ext s u" using kn id PW(1) by (auto simp: ci_ext_def)
  show "cp_readReq (ci_port u y) = cp_readReq (if y = pid then f (ci_port s pid) else ci_port s y)"
    "cp_writeReq (ci_port u y) = cp_writeReq (if y = pid then f (ci_port s pid) else ci_port s y)"
    using PW(1,3) pt(2) [of y] by (simp_all add: ci_port_def)
qed

definition rd_sent :: "nat \<Rightarrow> port_id \<Rightarrow> nat \<Rightarrow> mem_request \<Rightarrow> mem_request" where
  "rd_sent cls pid k q = (let size = line_chunk cls (mr_currentReadAddr q) (mr_readLeft q) in
     q\<lparr> mr_port := Some pid, mr_pkt := Some k, mr_currentReadAddr := mr_currentReadAddr q + of_nat size,
        mr_readLeft := mr_readLeft q - size, mr_needToRead := (0 < mr_readLeft q - size) \<rparr>)"

lemma rd_sent_more:
  assumes "mr_needToRead q" and "0 < mr_readLeft q - n" and "n = line_chunk cls (mr_currentReadAddr q) (mr_readLeft q)"
  shows "q\<lparr> mr_port := Some pid, mr_pkt := Some k, mr_currentReadAddr := mr_currentReadAddr q + of_nat n, mr_readLeft := mr_readLeft q - n \<rparr> =
    rd_sent cls pid k q"
  by (rule mem_request.equality) (use assms in \<open>simp_all add: rd_sent_def Let_def\<close>)

lemma start_read_step:
  assumes pa: "port_at s pid" and q: "ci_reqs s r = Some q" "mr_needToRead q" "0 < mr_readLeft q" and cls: "0 < ci_cacheLineSize s"
    and id: "\<forall>x. pkt_known s x \<longrightarrow> pkt_id x < ci_nextPkt s"
  shows "\<exists>s' P W ev. start_read tx now pid r s = Inr s'
    \<and> s' = s\<lparr> ci_readQueue := remove1 r (ci_readQueue s), ci_reqs := (ci_reqs s)(r \<mapsto> rd_sent (ci_cacheLineSize s) pid (ci_nextPkt s) q),
         ci_nextPkt := ci_nextPkt s + 1, ci_ports := P, ci_wire := W, ci_tickEvent := ev, ci_accRdQ := ci_accRdQ s @ [r] \<rparr>
    \<and> ci_ext s s'
    \<and> (\<forall>x. pkt_known s' x \<longleftrightarrow> pkt_known s x \<or> x = new_packet (ci_nextPkt s) ReadReq (mr_currentReadAddr q)
         (line_chunk (ci_cacheLineSize s) (mr_currentReadAddr q) (mr_readLeft q))
         (replicate (line_chunk (ci_cacheLineSize s) (mr_currentReadAddr q) (mr_readLeft q)) 0))
    \<and> (\<forall>y. cp_readReq (ci_port s' y) = (if y = pid then Some r else cp_readReq (ci_port s y)))
    \<and> (\<forall>y. cp_writeReq (ci_port s' y) = cp_writeReq (ci_port s y))"
proof -
  let ?n = "line_chunk (ci_cacheLineSize s) (mr_currentReadAddr q) (mr_readLeft q)"
  let ?p = "new_packet (ci_nextPkt s) ReadReq (mr_currentReadAddr q) ?n (replicate ?n 0)"
  let ?f = "\<lambda>c. c\<lparr> cp_readReq := Some r \<rparr>"
  define t where "t = ci_set_req r (q\<lparr> mr_port := Some pid \<rparr>) (ci_upd_port pid ?f (s\<lparr> ci_readQueue := remove1 r (ci_readQueue s) \<rparr>))"
  define u where "u = sendPacket tx pid ?p (t\<lparr> ci_nextPkt := ci_nextPkt s + 1 \<rparr>)"
  have tf: "ci_ports t = ci_ports (ci_upd_port pid ?f s)" "ci_wire t = ci_wire s" "ci_reqs t = (ci_reqs s)(r \<mapsto> q\<lparr> mr_port := Some pid \<rparr>)"
    "ci_nextPkt t = ci_nextPkt s" "ci_cacheLineSize t = ci_cacheLineSize s"
    by (simp_all add: t_def ci_set_req_def ci_upd_port_def ci_port_def)
  have pid: "pkt_id ?p = ci_nextPkt s" by (simp add: new_packet_def)
  note c = start_common [where f = ?f, OF pa _ _ id pid u_def tf(1,2), simplified]
  from c(1) obtain P W where u: "u = t\<lparr> ci_nextPkt := ci_nextPkt s + 1, ci_ports := P, ci_wire := W \<rparr>" by auto
  let ?q = "rd_sent (ci_cacheLineSize s) pid (ci_nextPkt s) q"
  have "\<exists>ev. tryRead tx now pid r t = Inr (u\<lparr> ci_reqs := (ci_reqs s)(r \<mapsto> ?q), ci_tickEvent := ev \<rparr>)"
  proof -
    have uq: "ci_reqs u = (ci_reqs s)(r \<mapsto> q\<lparr> mr_port := Some pid \<rparr>)" using u tf(3) by simp
    have q1: "ci_req t r = Inr (q\<lparr> mr_port := Some pid \<rparr>)" by (simp add: ci_req_def tf(3))
    have u': "sendPacket tx pid ?p (t\<lparr> ci_nextPkt := Suc (ci_nextPkt s) \<rparr>) = u" by (simp add: u_def)
    have upd: "u\<lparr> ci_tickEvent := ci_tickEvent u \<rparr> = u" by simp
    show ?thesis
    proof (cases "0 < mr_readLeft q - ?n")
      case True
      let ?s2 = "ci_set_req r (q\<lparr> mr_port := Some pid, mr_pkt := Some (ci_nextPkt s), mr_currentReadAddr := mr_currentReadAddr q + of_nat ?n,
        mr_readLeft := mr_readLeft q - ?n \<rparr>) u"
      have "tryRead tx now pid r t = Inr (if \<not> isStalled (ci_port ?s2 pid) then ci_wake now ?s2 else ?s2)"
        using q cls True pid u' unfolding tryRead_def q1 bind_res_Inr tf by (simp add: Let_def tf)
      moreover have "?s2 = u\<lparr> ci_reqs := (ci_reqs s)(r \<mapsto> ?q), ci_tickEvent := ci_tickEvent u \<rparr>"
        unfolding rd_sent_more [OF q(2) True refl] by (simp add: ci_set_req_def uq)
      ultimately show ?thesis unfolding ci_wake_def
        by (intro exI [of _ "if isStalled (ci_port ?s2 pid) then ci_tickEvent u else sched_idle now (ci_processDelay u) (ci_tickEvent u)"]) simp
    next
      case False
      have "tryRead tx now pid r t = Inr (ci_wake now (ci_set_req r ((q\<lparr> mr_port := Some pid, mr_pkt := Some (ci_nextPkt s),
          mr_currentReadAddr := mr_currentReadAddr q + of_nat ?n, mr_readLeft := mr_readLeft q - ?n \<rparr>)\<lparr> mr_needToRead := False \<rparr>) u))"
        using q cls False pid u' unfolding tryRead_def q1 bind_res_Inr tf by (simp add: Let_def tf)
      then show ?thesis using False uq
        by (intro exI [of _ "sched_idle now (ci_processDelay u) (ci_tickEvent u)"]) (simp add: ci_set_req_def rd_sent_def Let_def ci_wake_def)
    qed
  qed
  then obtain ev where sent: "tryRead tx now pid r t = Inr (u\<lparr> ci_reqs := (ci_reqs s)(r \<mapsto> ?q), ci_tickEvent := ev \<rparr>)" by blast
  define s' where "s' = s\<lparr> ci_readQueue := remove1 r (ci_readQueue s), ci_reqs := (ci_reqs s)(r \<mapsto> ?q),
         ci_nextPkt := ci_nextPkt s + 1, ci_ports := P, ci_wire := W, ci_tickEvent := ev, ci_accRdQ := ci_accRdQ s @ [r] \<rparr>"
  have "start_read tx now pid r s = Inr s'"
    using q sent u unfolding start_read_def tryRead_spm_def
    by (simp add: ci_req_def t_def [symmetric] Let_def) (simp add: s'_def t_def ci_set_req_def ci_upd_port_def ci_port_def)
  moreover have "ci_ports s' = ci_ports u" "ci_wire s' = ci_wire u" "ci_nextPkt s' = ci_nextPkt u" using u by (simp_all add: s'_def)
  then have "ci_ext s s'" "pkt_known s' x = pkt_known u x" "ci_port s' y = ci_port u y" for x y
    using c(2) known_cong [of s' u] by (simp_all add: ci_ext_def ci_port_def)
  ultimately show ?thesis using c(3-5) by (intro exI [of _ s'] exI [of _ P] exI [of _ W] exI [of _ ev] conjI s'_def) simp_all
qed

definition wr_sent :: "nat \<Rightarrow> port_id \<Rightarrow> nat \<Rightarrow> mem_request \<Rightarrow> mem_request" where
  "wr_sent cls pid k q = (let size = line_chunk cls (mr_currentWriteAddr q) (mr_writeLeft q) in
     q\<lparr> mr_port := Some pid, mr_pkt := Some k, mr_currentWriteAddr := mr_currentWriteAddr q + of_nat size,
        mr_writeLeft := mr_writeLeft q - size, mr_needToWrite := (0 < mr_writeLeft q - size) \<rparr>)"

lemma wr_sent_more:
  assumes "mr_needToWrite q" and "0 < mr_writeLeft q - n" and "n = line_chunk cls (mr_currentWriteAddr q) (mr_writeLeft q)"
  shows "q\<lparr> mr_port := Some pid, mr_pkt := Some k, mr_currentWriteAddr := mr_currentWriteAddr q + of_nat n, mr_writeLeft := mr_writeLeft q - n \<rparr> =
    wr_sent cls pid k q"
  by (rule mem_request.equality) (use assms in \<open>simp_all add: wr_sent_def Let_def\<close>)

lemma start_write_step:
  assumes pa: "port_at s pid" and q: "ci_reqs s r = Some q" "mr_needToWrite q" "0 < mr_writeLeft q" and cls: "0 < ci_cacheLineSize s"
    and len: "mr_totalLength q = length (mr_buffer q)" "mr_writeLeft q \<le> mr_totalLength q"
    and id: "\<forall>x. pkt_known s x \<longrightarrow> pkt_id x < ci_nextPkt s"
  shows "\<exists>s' P W ev. start_write tx now pid r s = Inr s'
    \<and> s' = s\<lparr> ci_writeQueue := remove1 r (ci_writeQueue s), ci_reqs := (ci_reqs s)(r \<mapsto> wr_sent (ci_cacheLineSize s) pid (ci_nextPkt s) q),
         ci_nextPkt := ci_nextPkt s + 1, ci_ports := P, ci_wire := W, ci_tickEvent := ev, ci_accWrQ := ci_accWrQ s @ [r] \<rparr>
    \<and> ci_ext s s'
    \<and> (\<forall>x. pkt_known s' x \<longleftrightarrow> pkt_known s x \<or> x = new_packet (ci_nextPkt s) WriteReq (mr_currentWriteAddr q)
         (line_chunk (ci_cacheLineSize s) (mr_currentWriteAddr q) (mr_writeLeft q))
         (take (line_chunk (ci_cacheLineSize s) (mr_currentWriteAddr q) (mr_writeLeft q)) (drop (mr_totalLength q - mr_writeLeft q) (mr_buffer q))))
    \<and> (\<forall>y. cp_writeReq (ci_port s' y) = (if y = pid then Some r else cp_writeReq (ci_port s y)))
    \<and> (\<forall>y. cp_readReq (ci_port s' y) = cp_readReq (ci_port s y))"
proof -
  let ?n = "line_chunk (ci_cacheLineSize s) (mr_currentWriteAddr q) (mr_writeLeft q)"
  let ?p = "new_packet (ci_nextPkt s) WriteReq (mr_currentWriteAddr q) ?n (take ?n (drop (mr_totalLength q - mr_writeLeft q) (mr_buffer q)))"
  have "?n \<le> mr_writeLeft q" using line_chunk_bounds(2) [OF cls q(3)] .
  then have gb: "get_bytes (mr_totalLength q - mr_writeLeft q) ?n (mr_buffer q) = Inr (take ?n (drop (mr_totalLength q - mr_writeLeft q) (mr_buffer q)))"
    using len by (simp add: get_bytes_def)
  let ?f = "\<lambda>c. c\<lparr> cp_writeReq := Some r \<rparr>"
  define t where "t = ci_set_req r (q\<lparr> mr_port := Some pid \<rparr>) (ci_upd_port pid ?f (s\<lparr> ci_writeQueue := remove1 r (ci_writeQueue s) \<rparr>))"
  define u where "u = sendPacket tx pid ?p (t\<lparr> ci_nextPkt := ci_nextPkt s + 1 \<rparr>)"
  have tf: "ci_ports t = ci_ports (ci_upd_port pid ?f s)" "ci_wire t = ci_wire s" "ci_reqs t = (ci_reqs s)(r \<mapsto> q\<lparr> mr_port := Some pid \<rparr>)"
    "ci_nextPkt t = ci_nextPkt s" "ci_cacheLineSize t = ci_cacheLineSize s"
    by (simp_all add: t_def ci_set_req_def ci_upd_port_def ci_port_def)
  have pid: "pkt_id ?p = ci_nextPkt s" by (simp add: new_packet_def)
  note c = start_common [where f = ?f, OF pa _ _ id pid u_def tf(1,2), simplified]
  from c(1) obtain P W where u: "u = t\<lparr> ci_nextPkt := ci_nextPkt s + 1, ci_ports := P, ci_wire := W \<rparr>" by auto
  let ?q = "wr_sent (ci_cacheLineSize s) pid (ci_nextPkt s) q"
  have "\<exists>ev. tryWrite tx now pid r t = Inr (u\<lparr> ci_reqs := (ci_reqs s)(r \<mapsto> ?q), ci_tickEvent := ev \<rparr>)"
  proof -
    have uq: "ci_reqs u = (ci_reqs s)(r \<mapsto> q\<lparr> mr_port := Some pid \<rparr>)" using u tf(3) by simp
    have q1: "ci_req t r = Inr (q\<lparr> mr_port := Some pid \<rparr>)" by (simp add: ci_req_def tf(3))
    have u': "sendPacket tx pid ?p (t\<lparr> ci_nextPkt := Suc (ci_nextPkt s) \<rparr>) = u" by (simp add: u_def)
    have upd: "u\<lparr> ci_tickEvent := ci_tickEvent u \<rparr> = u" by simp
    show ?thesis
    proof (cases "0 < mr_writeLeft q - ?n")
      case True
      let ?s2 = "ci_set_req r (q\<lparr> mr_port := Some pid, mr_pkt := Some (ci_nextPkt s), mr_currentWriteAddr := mr_currentWriteAddr q + of_nat ?n,
        mr_writeLeft := mr_writeLeft q - ?n \<rparr>) u"
      have "tryWrite tx now pid r t = Inr (if \<not> isStalled (ci_port ?s2 pid) then ci_wake now ?s2 else ?s2)"
        using q cls True pid u' unfolding tryWrite_def q1 bind_res_Inr tf by (simp add: Let_def tf gb)
      moreover have "?s2 = u\<lparr> ci_reqs := (ci_reqs s)(r \<mapsto> ?q), ci_tickEvent := ci_tickEvent u \<rparr>"
        unfolding wr_sent_more [OF q(2) True refl] by (simp add: ci_set_req_def uq)
      ultimately show ?thesis unfolding ci_wake_def
        by (intro exI [of _ "if isStalled (ci_port ?s2 pid) then ci_tickEvent u else sched_idle now (ci_processDelay u) (ci_tickEvent u)"]) simp
    next
      case False
      have "tryWrite tx now pid r t = Inr (ci_wake now (ci_set_req r ((q\<lparr> mr_port := Some pid, mr_pkt := Some (ci_nextPkt s),
          mr_currentWriteAddr := mr_currentWriteAddr q + of_nat ?n, mr_writeLeft := mr_writeLeft q - ?n \<rparr>)\<lparr> mr_needToWrite := False \<rparr>) u))"
        using q cls False pid u' unfolding tryWrite_def q1 bind_res_Inr tf by (simp add: Let_def tf gb)
      then show ?thesis using False uq
        by (intro exI [of _ "sched_idle now (ci_processDelay u) (ci_tickEvent u)"]) (simp add: ci_set_req_def wr_sent_def Let_def ci_wake_def)
    qed
  qed
  then obtain ev where sent: "tryWrite tx now pid r t = Inr (u\<lparr> ci_reqs := (ci_reqs s)(r \<mapsto> ?q), ci_tickEvent := ev \<rparr>)" by blast
  define s' where "s' = s\<lparr> ci_writeQueue := remove1 r (ci_writeQueue s), ci_reqs := (ci_reqs s)(r \<mapsto> ?q),
         ci_nextPkt := ci_nextPkt s + 1, ci_ports := P, ci_wire := W, ci_tickEvent := ev, ci_accWrQ := ci_accWrQ s @ [r] \<rparr>"
  have "start_write tx now pid r s = Inr s'"
    using q sent u unfolding start_write_def tryWrite_spm_def
    by (simp add: ci_req_def t_def [symmetric] Let_def) (simp add: s'_def t_def ci_set_req_def ci_upd_port_def ci_port_def)
  moreover have "ci_ports s' = ci_ports u" "ci_wire s' = ci_wire u" "ci_nextPkt s' = ci_nextPkt u" using u by (simp_all add: s'_def)
  then have "ci_ext s s'" "pkt_known s' x = pkt_known u x" "ci_port s' y = ci_port u y" for x y
    using c(2) known_cong [of s' u] by (simp_all add: ci_ext_def ci_port_def)
  ultimately show ?thesis using c(3-5) by (intro exI [of _ s'] exI [of _ P] exI [of _ W] exI [of _ ev] conjI s'_def) simp_all
qed

lemma rd_sent_flies:
  assumes ok: "rd_ok m q" and wait: "mr_readDone q = mr_length q - mr_readLeft q" and left: "0 < mr_readLeft q" and cls: "0 < cls"
  shows "rd_ok m (rd_sent cls pid k q)" "mr_readDone (rd_sent cls pid k q) < mr_length (rd_sent cls pid k q) - mr_readLeft (rd_sent cls pid k q)"
    "rd_pkt (rd_sent cls pid k q) (new_packet k ReadReq (mr_currentReadAddr q) (line_chunk cls (mr_currentReadAddr q) (mr_readLeft q)) d)"
proof -
  let ?n = "line_chunk cls (mr_currentReadAddr q) (mr_readLeft q)"
  have n: "0 < ?n" "?n \<le> mr_readLeft q" using line_chunk_bounds [OF cls left] by simp_all
  have l: "mr_readLeft q \<le> mr_length q" using ok by (simp add: rd_ok_def)
  then have e: "mr_length q - (mr_readLeft q - ?n) = mr_length q - mr_readLeft q + ?n" using n by simp
  show "rd_ok m (rd_sent cls pid k q)" using ok n l wait unfolding rd_ok_def rd_sent_def Let_def by (simp add: e) (intro conjI; linarith)
  show "mr_readDone (rd_sent cls pid k q) < mr_length (rd_sent cls pid k q) - mr_readLeft (rd_sent cls pid k q)"
    using wait n l by (simp add: rd_sent_def Let_def e)
  show "rd_pkt (rd_sent cls pid k q) (new_packet k ReadReq (mr_currentReadAddr q) ?n d)"
    using ok wait e by (simp add: rd_pkt_def rd_sent_def Let_def new_packet_def rd_ok_def)
qed

lemma wr_sent_flies:
  assumes ok: "wr_ok q" and wait: "mr_writeDone q = mr_length q - mr_writeLeft q" and left: "0 < mr_writeLeft q" and cls: "0 < cls"
  shows "wr_ok (wr_sent cls pid k q)" "mr_writeDone (wr_sent cls pid k q) < mr_length (wr_sent cls pid k q) - mr_writeLeft (wr_sent cls pid k q)"
    "wr_pkt (wr_sent cls pid k q) (new_packet k WriteReq (mr_currentWriteAddr q) (line_chunk cls (mr_currentWriteAddr q) (mr_writeLeft q))
       (take (line_chunk cls (mr_currentWriteAddr q) (mr_writeLeft q)) (drop (mr_totalLength q - mr_writeLeft q) (mr_buffer q))))"
proof -
  let ?n = "line_chunk cls (mr_currentWriteAddr q) (mr_writeLeft q)"
  have n: "0 < ?n" "?n \<le> mr_writeLeft q" using line_chunk_bounds [OF cls left] by simp_all
  have l: "mr_writeLeft q \<le> mr_length q" using ok by (simp add: wr_ok_def)
  then have e: "mr_length q - (mr_writeLeft q - ?n) = mr_length q - mr_writeLeft q + ?n" using n by simp
  show "wr_ok (wr_sent cls pid k q)" using ok n l wait unfolding wr_ok_def wr_sent_def Let_def by (simp add: e) (intro conjI; linarith)
  show "mr_writeDone (wr_sent cls pid k q) < mr_length (wr_sent cls pid k q) - mr_writeLeft (wr_sent cls pid k q)"
    using wait n l by (simp add: wr_sent_def Let_def e)
  show "wr_pkt (wr_sent cls pid k q) (new_packet k WriteReq (mr_currentWriteAddr q) ?n (take ?n (drop (mr_totalLength q - mr_writeLeft q) (mr_buffer q))))"
    using ok wait e by (simp add: wr_pkt_def wr_sent_def Let_def new_packet_def wr_ok_def)
qed

lemma ci_invI:
  assumes "0 < ci_cacheLineSize s" and "ci_mmreg s \<noteq> []" and "distinct (ci_ids s)" and "\<And>r. r \<in> set (ci_ids s) \<Longrightarrow> r < ci_nextReq s"
    and "\<And>r. r \<in> set (ci_readQueue s) \<Longrightarrow> rd_waiting m s r" and "\<And>r. r \<in> set (ci_accRdQ s) \<Longrightarrow> rd_flying m s r"
    and "\<And>r. r \<in> set (ci_writeQueue s) \<Longrightarrow> wr_waiting st s r" and "\<And>r. r \<in> set (ci_accWrQ s) \<Longrightarrow> wr_flying st s r"
    and "\<And>p. pkt_known s p \<Longrightarrow> pkt_id p < ci_nextPkt s" and "inj_on (pkt_of s) (set (ci_accRdQ s @ ci_accWrQ s))"
    and "\<And>c. c \<in> set (ci_cu s) \<Longrightarrow> cu_ok m st c"
  shows "ci_inv m st s"
  using assms unfolding ci_inv_def by blast

lemma ci_invD:
  assumes "ci_inv m st s"
  shows "0 < ci_cacheLineSize s" "ci_mmreg s \<noteq> []" "distinct (ci_ids s)" "\<And>r. r \<in> set (ci_ids s) \<Longrightarrow> r < ci_nextReq s"
    "\<And>r. r \<in> set (ci_readQueue s) \<Longrightarrow> rd_waiting m s r" "\<And>r. r \<in> set (ci_accRdQ s) \<Longrightarrow> rd_flying m s r"
    "\<And>r. r \<in> set (ci_writeQueue s) \<Longrightarrow> wr_waiting st s r" "\<And>r. r \<in> set (ci_accWrQ s) \<Longrightarrow> wr_flying st s r"
    "\<And>p. pkt_known s p \<Longrightarrow> pkt_id p < ci_nextPkt s" "inj_on (pkt_of s) (set (ci_accRdQ s @ ci_accWrQ s))"
    "\<And>c. c \<in> set (ci_cu s) \<Longrightarrow> cu_ok m st c"
  using assms unfolding ci_inv_def by blast+

lemma flying_old_pkt:
  "rd_flying m s r \<Longrightarrow> \<exists>k. pkt_of s r = Some k \<and> k < ci_nextPkt s" "wr_flying st s r \<Longrightarrow> \<exists>k. pkt_of s r = Some k \<and> k < ci_nextPkt s"
  unfolding rd_flying_def wr_flying_def pkt_of_def by auto

text \<open>A packet identity that is newer than all others keeps the identities apart.\<close>

lemma inj_on_fresh:
  assumes inj: "inj_on f A" and r: "r \<notin> A" and old: "\<And>x. x \<in> A \<Longrightarrow> \<exists>k. f x = Some k \<and> k < n"
    and new: "g r = Some (n :: nat)" and same: "\<And>x. x \<in> A \<Longrightarrow> g x = f x"
  shows "inj_on g (insert r A)"
proof -
  have "inj_on g A" using inj same by (simp add: inj_on_def)
  moreover have "g r \<notin> g ` A"
  proof
    assume "g r \<in> g ` A"
    then obtain x where x: "x \<in> A" "g x = Some n" using new by auto
    show False using old [OF x(1)] same [OF x(1)] x(2) by (metis option.inject less_irrefl)
  qed
  ultimately show ?thesis using r by simp
qed

lemma start_read_inv:
  assumes inv: "ci_inv m st s" and r: "r \<in> set (ci_readQueue s)" and pa: "port_at s pid" and free: "cp_readReq (ci_port s pid) = None"
  shows "\<exists>s'. start_read tx now pid r s = Inr s' \<and> ci_inv m st s' \<and> ci_readQueue s' = remove1 r (ci_readQueue s)
    \<and> ci_writeQueue s' = ci_writeQueue s \<and> ledger s' = ledger s"
proof -
  note i = ci_invD [OF inv]
  let ?cls = "ci_cacheLineSize s" and ?k = "ci_nextPkt s"
  from i(5) [OF r] obtain q where q: "ci_reqs s r = Some q" "rd_ok m q" "mr_readDone q = mr_length q - mr_readLeft q"
    "0 < mr_readLeft q" "live_addrs s q" by (auto simp: rd_waiting_def)
  have need: "mr_needToRead q" using q(2,4) by (simp add: rd_ok_def)
  have idk: "\<forall>x. pkt_known s x \<longrightarrow> pkt_id x < ?k" using i(9) by blast
  let ?q = "rd_sent ?cls pid ?k q" and ?n = "line_chunk ?cls (mr_currentReadAddr q) (mr_readLeft q)"
  let ?p = "new_packet ?k ReadReq (mr_currentReadAddr q) ?n (replicate ?n 0)"
  obtain s' P W ev where s: "start_read tx now pid r s = Inr s'"
    "s' = s\<lparr> ci_readQueue := remove1 r (ci_readQueue s), ci_reqs := (ci_reqs s)(r \<mapsto> ?q), ci_nextPkt := ?k + 1, ci_ports := P,
         ci_wire := W, ci_tickEvent := ev, ci_accRdQ := ci_accRdQ s @ [r] \<rparr>" "ci_ext s s'"
    "\<forall>x. pkt_known s' x \<longleftrightarrow> pkt_known s x \<or> x = ?p"
    "\<forall>y. cp_readReq (ci_port s' y) = (if y = pid then Some r else cp_readReq (ci_port s y))"
    "\<forall>y. cp_writeReq (ci_port s' y) = cp_writeReq (ci_port s y)"
    using start_read_step [OF pa q(1) need q(4) i(1) idk, of tx now] by (elim exE conjE) (rule that)
  have f: "ci_readQueue s' = remove1 r (ci_readQueue s)" "ci_writeQueue s' = ci_writeQueue s" "ci_accRdQ s' = ci_accRdQ s @ [r]"
    "ci_accWrQ s' = ci_accWrQ s" "ci_nextPkt s' = ?k + 1" "ci_cacheLineSize s' = ?cls" "ci_mmreg s' = ci_mmreg s" "ci_nextReq s' = ci_nextReq s"
    "ci_cu s' = ci_cu s" "ci_reqs s' = (ci_reqs s)(r \<mapsto> ?q)" by (simp_all add: s(2))
  have d: "distinct (ci_readQueue s)" "r \<notin> set (ci_accRdQ s)" "r \<notin> set (ci_writeQueue s)" "r \<notin> set (ci_accWrQ s)" using i(3) r by auto
  then have rem: "set (remove1 r (ci_readQueue s)) = set (ci_readQueue s) - {r}" by simp
  have other: "ci_reqs s' x = ci_reqs s x" if "x \<noteq> r" for x using that by (simp add: f)
  have kr: "keeps_rd s s' x" if "x \<noteq> r" for x using that other s(5) free by (auto simp: keeps_rd_def)
  have kw: "keeps_wr s s' x" if "x \<noteq> r" for x using that other s(6) by (auto simp: keeps_wr_def)
  have pid: "pkt_id ?p = ?k" by (simp add: new_packet_def)
  have fly: "rd_flying m s' r"
  proof -
    note fl = rd_sent_flies [OF q(2-4) i(1), of pid ?k]
    have "mr_pkt ?q = Some ?k" "mr_port ?q = Some pid" "mr_address ?q = mr_address q" "mr_length ?q = mr_length q" by (simp_all add: rd_sent_def Let_def)
    moreover have "live_addrs s' ?q" using q(5) ci_ext_ports(3) [OF s(3)] calculation(3,4) by (simp add: live_addrs_def)
    moreover have "id_known s' ?k" unfolding id_known_def using s(4) pid by blast
    moreover have "rd_pkt ?q p" if "pkt_known s' p" "pkt_id p = ?k" for p using that s(4) i(9) [of p] fl(3) by auto
    ultimately show ?thesis unfolding rd_flying_def using fl(1,2) s(5) pa ci_ext_ports(1) [OF s(3)]
      by (intro exI [of _ ?q] exI [of _ ?k] exI [of _ pid]) (simp add: f)
  qed
  have "ci_inv m st s'"
  proof (rule ci_invI)
    show "distinct (ci_ids s')" using i(3) r by (auto simp: f rem distinct_remove1)
    show "x < ci_nextReq s'" if "x \<in> set (ci_ids s')" for x using that i(4) r by (auto simp: f rem)
    show "rd_waiting m s' x" if "x \<in> set (ci_readQueue s')" for x
      using that rem rd_waiting_frame [OF i(5) s(3) other] by (simp add: f)
    show "rd_flying m s' x" if "x \<in> set (ci_accRdQ s')" for x
      using that fly d(2) rd_flying_frame [OF i(6) s(3) kr] by (cases "x = r") (auto simp: f)
    show "wr_waiting st s' x" if "x \<in> set (ci_writeQueue s')" for x
      using that d(3) wr_waiting_frame [OF i(7) s(3) other subset_refl] by (auto simp: f)
    show "wr_flying st s' x" if "x \<in> set (ci_accWrQ s')" for x
      using that d(4) wr_flying_frame [OF i(8) s(3) kw subset_refl] by (auto simp: f)
    show "pkt_id p < ci_nextPkt s'" if "pkt_known s' p" for p using that s(4) i(9) pid by (auto simp: f less_Suc_eq)
    have "inj_on (pkt_of s') (insert r (set (ci_accRdQ s @ ci_accWrQ s)))"
    proof (rule inj_on_fresh [OF i(10), of r ?k])
      show "\<exists>k. pkt_of s x = Some k \<and> k < ?k" if "x \<in> set (ci_accRdQ s @ ci_accWrQ s)" for x
        using that flying_old_pkt(1) [OF i(6)] flying_old_pkt(2) [OF i(8)] by auto
      show "pkt_of s' r = Some ?k" by (simp add: pkt_of_def f rd_sent_def Let_def)
      show "pkt_of s' x = pkt_of s x" if "x \<in> set (ci_accRdQ s @ ci_accWrQ s)" for x using that d by (auto simp: pkt_of_def f)
    qed (use d in auto)
    then show "inj_on (pkt_of s') (set (ci_accRdQ s' @ ci_accWrQ s'))" by (simp add: f insert_commute Un_commute)
  qed (use i in \<open>simp_all add: f\<close>)
  moreover have "ledger s' = ledger s"
  proof -
    have "rd_key s' = rd_key s" "wr_key s' = wr_key s"
      by (rule ext, simp add: rd_key_def wr_key_def f(10) q(1) rd_sent_def Let_def)+
    moreover have "reads_done s' = reads_done s" "writes_done s' = writes_done s" by (simp_all add: reads_done_def writes_done_def f(9))
    moreover have "mset (ci_readQueue s' @ ci_accRdQ s') = mset (ci_readQueue s @ ci_accRdQ s)" using r by (simp add: f(1,3))
    ultimately show ?thesis using f(2,4) unfolding ledger_def reads_pending_def writes_pending_def by simp
  qed
  ultimately show ?thesis using s(1) f(1,2) by blast
qed

lemma start_write_inv:
  assumes inv: "ci_inv m st s" and r: "r \<in> set (ci_writeQueue s)" and pa: "port_at s pid" and free: "cp_writeReq (ci_port s pid) = None"
  shows "\<exists>s'. start_write tx now pid r s = Inr s' \<and> ci_inv m st s' \<and> ci_writeQueue s' = remove1 r (ci_writeQueue s)
    \<and> ci_readQueue s' = ci_readQueue s \<and> ledger s' = ledger s"
proof -
  note i = ci_invD [OF inv]
  let ?cls = "ci_cacheLineSize s" and ?k = "ci_nextPkt s"
  from i(7) [OF r] obtain q where q: "ci_reqs s r = Some q" "wr_ok q" "mr_writeDone q = mr_length q - mr_writeLeft q"
    "0 < mr_writeLeft q" "live_addrs s q" "stored st (mr_address q) (take (mr_writeDone q) (mr_buffer q))" by (auto simp: wr_waiting_def)
  have need: "mr_needToWrite q" and len: "mr_totalLength q = length (mr_buffer q)" "mr_writeLeft q \<le> mr_totalLength q"
    using q(2,4) by (simp_all add: wr_ok_def)
  have idk: "\<forall>x. pkt_known s x \<longrightarrow> pkt_id x < ?k" using i(9) by blast
  let ?q = "wr_sent ?cls pid ?k q" and ?n = "line_chunk ?cls (mr_currentWriteAddr q) (mr_writeLeft q)"
  let ?p = "new_packet ?k WriteReq (mr_currentWriteAddr q) ?n (take ?n (drop (mr_totalLength q - mr_writeLeft q) (mr_buffer q)))"
  obtain s' P W ev where s: "start_write tx now pid r s = Inr s'"
    "s' = s\<lparr> ci_writeQueue := remove1 r (ci_writeQueue s), ci_reqs := (ci_reqs s)(r \<mapsto> ?q), ci_nextPkt := ?k + 1, ci_ports := P,
         ci_wire := W, ci_tickEvent := ev, ci_accWrQ := ci_accWrQ s @ [r] \<rparr>" "ci_ext s s'"
    "\<forall>x. pkt_known s' x \<longleftrightarrow> pkt_known s x \<or> x = ?p"
    "\<forall>y. cp_writeReq (ci_port s' y) = (if y = pid then Some r else cp_writeReq (ci_port s y))"
    "\<forall>y. cp_readReq (ci_port s' y) = cp_readReq (ci_port s y)"
    using start_write_step [OF pa q(1) need q(4) i(1) len idk, of tx now] by (elim exE conjE) (rule that)
  have f: "ci_writeQueue s' = remove1 r (ci_writeQueue s)" "ci_readQueue s' = ci_readQueue s" "ci_accWrQ s' = ci_accWrQ s @ [r]"
    "ci_accRdQ s' = ci_accRdQ s" "ci_nextPkt s' = ?k + 1" "ci_cacheLineSize s' = ?cls" "ci_mmreg s' = ci_mmreg s" "ci_nextReq s' = ci_nextReq s"
    "ci_cu s' = ci_cu s" "ci_reqs s' = (ci_reqs s)(r \<mapsto> ?q)" by (simp_all add: s(2))
  have d: "distinct (ci_writeQueue s)" "r \<notin> set (ci_accWrQ s)" "r \<notin> set (ci_readQueue s)" "r \<notin> set (ci_accRdQ s)" using i(3) r by auto
  then have rem: "set (remove1 r (ci_writeQueue s)) = set (ci_writeQueue s) - {r}" by simp
  have other: "ci_reqs s' x = ci_reqs s x" if "x \<noteq> r" for x using that by (simp add: f)
  have kw: "keeps_wr s s' x" if "x \<noteq> r" for x using that other s(5) free by (auto simp: keeps_wr_def)
  have kr: "keeps_rd s s' x" if "x \<noteq> r" for x using that other s(6) by (auto simp: keeps_rd_def)
  have pid: "pkt_id ?p = ?k" by (simp add: new_packet_def)
  have fly: "wr_flying st s' r"
  proof -
    note fl = wr_sent_flies [OF q(2-4) i(1), of pid ?k]
    have "mr_pkt ?q = Some ?k" "mr_port ?q = Some pid" "mr_address ?q = mr_address q" "mr_length ?q = mr_length q"
      "mr_writeDone ?q = mr_writeDone q" "mr_buffer ?q = mr_buffer q" by (simp_all add: wr_sent_def Let_def)
    moreover have "live_addrs s' ?q" using q(5) ci_ext_ports(3) [OF s(3)] calculation(3,4) by (simp add: live_addrs_def)
    moreover have "id_known s' ?k" unfolding id_known_def using s(4) pid by blast
    moreover have "wr_pkt ?q p" if "pkt_known s' p" "pkt_id p = ?k" for p using that s(4) i(9) [of p] fl(3) by auto
    ultimately show ?thesis unfolding wr_flying_def using fl(1,2) q(6) s(5) pa ci_ext_ports(1) [OF s(3)]
      by (intro exI [of _ ?q] exI [of _ ?k] exI [of _ pid]) (simp add: f)
  qed
  have "ci_inv m st s'"
  proof (rule ci_invI)
    show "distinct (ci_ids s')" using i(3) r by (auto simp: f rem distinct_remove1)
    show "x < ci_nextReq s'" if "x \<in> set (ci_ids s')" for x using that i(4) r by (auto simp: f rem)
    show "wr_waiting st s' x" if "x \<in> set (ci_writeQueue s')" for x
      using that rem wr_waiting_frame [OF i(7) s(3) other subset_refl] by (simp add: f)
    show "wr_flying st s' x" if "x \<in> set (ci_accWrQ s')" for x
      using that fly d(2) wr_flying_frame [OF i(8) s(3) kw subset_refl] by (cases "x = r") (auto simp: f)
    show "rd_waiting m s' x" if "x \<in> set (ci_readQueue s')" for x
      using that d(3) rd_waiting_frame [OF i(5) s(3) other] by (auto simp: f)
    show "rd_flying m s' x" if "x \<in> set (ci_accRdQ s')" for x
      using that d(4) rd_flying_frame [OF i(6) s(3) kr] by (auto simp: f)
    show "pkt_id p < ci_nextPkt s'" if "pkt_known s' p" for p using that s(4) i(9) pid by (auto simp: f less_Suc_eq)
    have "inj_on (pkt_of s') (insert r (set (ci_accRdQ s @ ci_accWrQ s)))"
    proof (rule inj_on_fresh [OF i(10), of r ?k])
      show "\<exists>k. pkt_of s x = Some k \<and> k < ?k" if "x \<in> set (ci_accRdQ s @ ci_accWrQ s)" for x
        using that flying_old_pkt(1) [OF i(6)] flying_old_pkt(2) [OF i(8)] by auto
      show "pkt_of s' r = Some ?k" by (simp add: pkt_of_def f wr_sent_def Let_def)
      show "pkt_of s' x = pkt_of s x" if "x \<in> set (ci_accRdQ s @ ci_accWrQ s)" for x using that d by (auto simp: pkt_of_def f)
    qed (use d in auto)
    then show "inj_on (pkt_of s') (set (ci_accRdQ s' @ ci_accWrQ s'))" by (simp add: f)
  qed (use i in \<open>simp_all add: f\<close>)
  moreover have "ledger s' = ledger s"
  proof -
    have "rd_key s' = rd_key s" "wr_key s' = wr_key s"
      by (rule ext, simp add: rd_key_def wr_key_def f(10) q(1) wr_sent_def Let_def)+
    moreover have "reads_done s' = reads_done s" "writes_done s' = writes_done s" by (simp_all add: reads_done_def writes_done_def f(9))
    moreover have "mset (ci_writeQueue s' @ ci_accWrQ s') = mset (ci_writeQueue s @ ci_accWrQ s)" using r by (simp add: f(1,3))
    ultimately show ?thesis using f(2,4) unfolding ledger_def reads_pending_def writes_pending_def by simp
  qed
  ultimately show ?thesis using s(1) f(1,2) by blast
qed

section \<open>The loops over the queues\<close>

lemma live_addrsD: "live_addrs s q \<Longrightarrow> i < mr_length q \<Longrightarrow> reachable_addr s (mr_address q + of_nat i)"
  by (simp add: live_addrs_def)

lemma next_reachable:
  "rd_ok m q \<Longrightarrow> 0 < mr_readLeft q \<Longrightarrow> live_addrs s q \<Longrightarrow> reachable_addr s (mr_currentReadAddr q)"
  "wr_ok q \<Longrightarrow> 0 < mr_writeLeft q \<Longrightarrow> live_addrs s q \<Longrightarrow> reachable_addr s (mr_currentWriteAddr q)"
  using live_addrsD [of s q "mr_length q - mr_readLeft q"] live_addrsD [of s q "mr_length q - mr_writeLeft q"]
  by (auto simp: rd_ok_def wr_ok_def simp del: of_nat_diff)

lemma process_reads_inv:
  "ci_inv m st s \<Longrightarrow> distinct rs \<Longrightarrow> set rs \<subseteq> set (ci_readQueue s) \<Longrightarrow>
    \<exists>s'. process_reads valid tx now rs s = Inr s' \<and> ci_inv m st s' \<and> ledger s' = ledger s"
proof (induction rs arbitrary: s)
  case (Cons r rs)
  then have r: "r \<in> set (ci_readQueue s)" by simp
  from ci_invD(5) [OF Cons.prems(1) r] obtain q where q: "ci_reqs s r = Some q" "rd_ok m q" "0 < mr_readLeft q" "live_addrs s q"
    by (auto simp: rd_waiting_def)
  obtain mp where mp: "select_port valid s (mr_currentReadAddr q) (mr_length q) True = Inr mp"
    using select_port_fails next_reachable(1) [OF q(2-4)] by (cases "select_port valid s (mr_currentReadAddr q) (mr_length q) True") auto
  show ?case
  proof (cases mp)
    case None
    then show ?thesis using Cons q(1) mp by (simp add: ci_req_def)
  next
    case (Some pid)
    then have p: "port_at s pid" "cp_readReq (ci_port s pid) = None" using select_port_ok [OF mp [unfolded Some]] by (auto simp: port_free_def)
    obtain s1 where s1: "start_read tx now pid r s = Inr s1" "ci_inv m st s1" "ci_readQueue s1 = remove1 r (ci_readQueue s)"
      "ledger s1 = ledger s" using start_read_inv [OF Cons.prems(1) r p] by blast
    have "distinct (ci_readQueue s)" using ci_invD(3) [OF Cons.prems(1)] by simp
    then have "set rs \<subseteq> set (ci_readQueue s1)" using Cons.prems(2,3) s1(3) by auto
    then show ?thesis using Cons.IH [OF s1(2)] Cons.prems(2) q(1) mp Some s1(1,4) by (simp add: ci_req_def)
  qed
qed simp

lemma process_writes_inv:
  "ci_inv m st s \<Longrightarrow> distinct rs \<Longrightarrow> set rs \<subseteq> set (ci_writeQueue s) \<Longrightarrow>
    \<exists>s'. process_writes valid tx now rs s = Inr s' \<and> ci_inv m st s' \<and> ledger s' = ledger s"
proof (induction rs arbitrary: s)
  case (Cons r rs)
  then have r: "r \<in> set (ci_writeQueue s)" by simp
  from ci_invD(7) [OF Cons.prems(1) r] obtain q where q: "ci_reqs s r = Some q" "wr_ok q" "0 < mr_writeLeft q" "live_addrs s q"
    by (auto simp: wr_waiting_def)
  obtain mp where mp: "select_port valid s (mr_currentWriteAddr q) (mr_length q) False = Inr mp"
    using select_port_fails next_reachable(2) [OF q(2-4)] by (cases "select_port valid s (mr_currentWriteAddr q) (mr_length q) False") auto
  show ?case
  proof (cases mp)
    case None
    then show ?thesis using Cons q(1) mp by (simp add: ci_req_def)
  next
    case (Some pid)
    then have p: "port_at s pid" "cp_writeReq (ci_port s pid) = None" using select_port_ok [OF mp [unfolded Some]] by (auto simp: port_free_def)
    obtain s1 where s1: "start_write tx now pid r s = Inr s1" "ci_inv m st s1" "ci_writeQueue s1 = remove1 r (ci_writeQueue s)"
      "ledger s1 = ledger s" using start_write_inv [OF Cons.prems(1) r p] by blast
    have "distinct (ci_writeQueue s)" using ci_invD(3) [OF Cons.prems(1)] by simp
    then have "set rs \<subseteq> set (ci_writeQueue s1)" using Cons.prems(2,3) s1(3) by auto
    then show ?thesis using Cons.IH [OF s1(2)] Cons.prems(2) q(1) mp Some s1(1,4) by (simp add: ci_req_def)
  qed
qed simp

section \<open>Steps that do not touch the requests\<close>

definition same_life :: "comm_interface \<Rightarrow> comm_interface \<Rightarrow> bool" where
  "same_life s s' \<longleftrightarrow> (\<forall>k. map cp_ranges (ci_ports s' k) = map cp_ranges (ci_ports s k))
     \<and> (\<forall>y. port_at s y \<longrightarrow> cp_readReq (ci_port s' y) = cp_readReq (ci_port s y) \<and> cp_writeReq (ci_port s' y) = cp_writeReq (ci_port s y))
     \<and> (\<forall>p. pkt_known s' p = pkt_known s p)
     \<and> ci_reqs s' = ci_reqs s \<and> ci_nextReq s' = ci_nextReq s \<and> ci_nextPkt s' = ci_nextPkt s
     \<and> ci_readQueue s' = ci_readQueue s \<and> ci_accRdQ s' = ci_accRdQ s \<and> ci_writeQueue s' = ci_writeQueue s \<and> ci_accWrQ s' = ci_accWrQ s
     \<and> ci_cacheLineSize s' = ci_cacheLineSize s \<and> length (ci_mmreg s') = length (ci_mmreg s)
     \<and> filter (\<lambda>c. c \<noteq> CuInitialize) (ci_cu s') = filter (\<lambda>c. c \<noteq> CuInitialize) (ci_cu s)"

lemma same_life_ext: "same_life s s' \<Longrightarrow> ci_ext s s'"
  by (simp add: same_life_def ci_ext_def)

lemma same_life_inv:
  assumes inv: "ci_inv m st s" and l: "same_life s s'"
  shows "ci_inv m st s'"
proof (rule ci_invI)
  note i = ci_invD [OF inv] and e = same_life_ext [OF l]
  note l' = l [unfolded same_life_def]
  have f: "ci_reqs s' = ci_reqs s" "ci_nextReq s' = ci_nextReq s" "ci_nextPkt s' = ci_nextPkt s" "ci_cacheLineSize s' = ci_cacheLineSize s"
    "ci_readQueue s' = ci_readQueue s" "ci_accRdQ s' = ci_accRdQ s" "ci_writeQueue s' = ci_writeQueue s" "ci_accWrQ s' = ci_accWrQ s"
    "length (ci_mmreg s') = length (ci_mmreg s)" and k: "pkt_known s' p = pkt_known s p" for p
    using l' by simp_all
  have keep: "keeps_rd s s' r" "keeps_wr s s' r" for r using l' by (simp_all add: keeps_rd_def keeps_wr_def)
  show "rd_waiting m s' r" if "r \<in> set (ci_readQueue s')" for r using that rd_waiting_frame [OF i(5) e] f by simp
  show "rd_flying m s' r" if "r \<in> set (ci_accRdQ s')" for r using that rd_flying_frame [OF i(6) e keep(1)] f by simp
  show "wr_waiting st s' r" if "r \<in> set (ci_writeQueue s')" for r using that wr_waiting_frame [OF i(7) e _ subset_refl] f by simp
  show "wr_flying st s' r" if "r \<in> set (ci_accWrQ s')" for r using that wr_flying_frame [OF i(8) e keep(2) subset_refl] f by simp
  have "pkt_of s' = pkt_of s" by (rule ext) (simp add: pkt_of_def f)
  then show "inj_on (pkt_of s') (set (ci_accRdQ s' @ ci_accWrQ s'))" using i(10) f by simp
  have "set (filter (\<lambda>c. c \<noteq> CuInitialize) (ci_cu s')) \<subseteq> set (ci_cu s)" using l' by auto
  then show "cu_ok m st c" if "c \<in> set (ci_cu s')" for c using that i(11) by (cases "c = CuInitialize") (auto simp: cu_ok_def)
  show "0 < ci_cacheLineSize s'" "distinct (ci_ids s')" using i(1,3) f by simp_all
  show "ci_mmreg s' \<noteq> []" using i(2) f(9) by auto
  show "r < ci_nextReq s'" if "r \<in> set (ci_ids s')" for r using that i(4) f by simp
  show "pkt_id p < ci_nextPkt s'" if "pkt_known s' p" for p using that i(9) f k by simp
qed

lemma same_life_ledger: "same_life s s' \<Longrightarrow> ledger s' = ledger s"
proof -
  assume l: "same_life s s'"
  then have "rd_key s' = rd_key s" "wr_key s' = wr_key s" by (simp_all add: same_life_def rd_key_def wr_key_def fun_eq_iff)
  moreover have "filter (\<lambda>c. c \<noteq> CuInitialize) (ci_cu s') = filter (\<lambda>c. c \<noteq> CuInitialize) (ci_cu s)" using l by (simp add: same_life_def)
  note done_commits [OF this]
  ultimately show ?thesis using l by (simp add: ledger_def reads_pending_def writes_pending_def same_life_def)
qed

lemma same_life_refl [simp]: "same_life s s"
  by (simp add: same_life_def)

lemma same_life_trans:
  assumes "same_life s t" and "same_life t u"
  shows "same_life s u"
proof -
  have "port_at t y = port_at s y" for y using ci_ext_ports(1) [OF same_life_ext [OF assms(1)]] .
  then show ?thesis using assms unfolding same_life_def by auto
qed

lemma same_life_simple:
  assumes "ci_ports s' = ci_ports s" "ci_wire s' = ci_wire s" "ci_reqs s' = ci_reqs s" "ci_nextReq s' = ci_nextReq s" "ci_nextPkt s' = ci_nextPkt s"
    "ci_readQueue s' = ci_readQueue s" "ci_accRdQ s' = ci_accRdQ s" "ci_writeQueue s' = ci_writeQueue s" "ci_accWrQ s' = ci_accWrQ s"
    "ci_cacheLineSize s' = ci_cacheLineSize s" "length (ci_mmreg s') = length (ci_mmreg s)" "filter (\<lambda>c. c \<noteq> CuInitialize) (ci_cu s') = filter (\<lambda>c. c \<noteq> CuInitialize) (ci_cu s)"
  shows "same_life s s'"
  using assms known_cong [OF assms(1,2)] by (simp add: same_life_def ci_port_def)

lemma same_life_wake: "same_life s (ci_wake now s)"
  by (rule same_life_simple) (auto simp: ci_wake_def)

text \<open>Packets a port held back move to the wire in order.\<close>

lemma retry_step_life:
  assumes pa: "port_at s pid" and o: "cp_outstandingPkts (ci_port s pid) = p # ps"
  shows "same_life s (ci_upd_port pid (\<lambda>c. c\<lparr> cp_outstandingPkts := ps \<rparr>) (s\<lparr> ci_wire := ci_wire s @ [(pid, p)] \<rparr>))"
proof -
  let ?f = "\<lambda>c. c\<lparr> cp_outstandingPkts := ps \<rparr>" and ?s = "s\<lparr> ci_wire := ci_wire s @ [(pid, p)] \<rparr>"
  have sp: "port_at ?s y = port_at s y" "ci_port ?s y = ci_port s y" for y by (simp_all add: port_at_def ci_port_def)
  have port: "ci_port (ci_upd_port pid ?f ?s) y = (if y = pid then ?f (ci_port s pid) else ci_port s y)" for y
    using ci_port_upd [of ?s pid ?f y] pa by (simp add: sp)
  have "pkt_known (ci_upd_port pid ?f ?s) x = pkt_known s x" for x
  proof -
    have "(\<exists>y. port_at s y \<and> x \<in> set (cp_outstandingPkts (ci_port s y))) \<longleftrightarrow>
        x = p \<or> (\<exists>y. port_at s y \<and> x \<in> set (cp_outstandingPkts (if y = pid then ?f (ci_port s pid) else ci_port s y)))" (is "?L \<longleftrightarrow> ?R")
    proof
      assume ?L
      then obtain y where "port_at s y" "x \<in> set (cp_outstandingPkts (ci_port s y))" by blast
      then show ?R using o by (cases "y = pid") auto
    next
      assume ?R
      then show ?L using pa o by (auto split: if_splits)
    qed
    then show ?thesis unfolding pkt_known_def port port_at_upd sp by auto
  qed
  moreover have "map cp_ranges (ci_ports (ci_upd_port pid ?f ?s) k) = map cp_ranges (ci_ports s k)" for k
    using ranges_upd [of ?f ?s pid k] by simp
  ultimately show ?thesis unfolding same_life_def by (simp add: port)
qed

lemma retry_loop_life:
  "port_at s pid \<Longrightarrow> cp_outstandingPkts (ci_port s pid) = ps \<Longrightarrow> same_life s (retry_loop tx now pid ps s)
     \<and> (ci_tickEvent s \<noteq> None \<longrightarrow> ci_tickEvent (retry_loop tx now pid ps s) \<noteq> None)"
proof (induction tx now pid ps s rule: retry_loop.induct)
  case (2 tx now pid p ps s)
  let ?t = "ci_upd_port pid (\<lambda>c. c\<lparr> cp_outstandingPkts := ps \<rparr>) (s\<lparr> ci_wire := ci_wire s @ [(pid, p)] \<rparr>)"
  have l: "same_life s (ci_wake now ?t)" using same_life_trans [OF retry_step_life [OF 2(2,3)] same_life_wake] .
  have "port_at (ci_wake now ?t) pid" using ci_ext_ports(1) [OF same_life_ext [OF l]] 2(2) by simp
  moreover have "cp_outstandingPkts (ci_port (ci_wake now ?t) pid) = ps"
    using ci_port_upd [of "s\<lparr> ci_wire := ci_wire s @ [(pid, p)] \<rparr>" pid _ pid] 2(2) by (simp add: ci_wake_def ci_port_def port_at_def)
  ultimately show ?case using 2(1) same_life_trans [OF l] by (simp add: ci_wake_def)
qed simp

section \<open>Preservation\<close>

text \<open>Requests wait in a queue only while the queues are due to be processed.\<close>

definition ci_awake :: "comm_interface \<Rightarrow> bool" where
  "ci_awake s \<longleftrightarrow> (ci_readQueue s \<noteq> [] \<or> ci_writeQueue s \<noteq> [] \<longrightarrow> ci_tickEvent s \<noteq> None)"

lemma wake_awake [simp]: "ci_awake (ci_wake now s)"
  by (simp add: ci_awake_def ci_wake_def)

lemma processMemoryRequests_inv:
  assumes inv: "ci_inv m st s"
  shows "\<exists>s'. processMemoryRequests valid tx now s = Inr s' \<and> ci_inv m st s' \<and> ci_awake s' \<and> ledger s' = ledger s"
proof -
  have "\<exists>s2. (if \<not> allPortsStalled s
               then bind_res (process_reads valid tx now (ci_readQueue s) s)
                      (\<lambda>s1. process_writes valid tx now (ci_writeQueue s1) s1)
               else Inr s) = Inr s2 \<and> ci_inv m st s2 \<and> ledger s2 = ledger s"
  proof (cases "allPortsStalled s")
    case False
    have "distinct (ci_readQueue s)" using ci_invD(3) [OF inv] by simp
    then obtain s1 where s1: "process_reads valid tx now (ci_readQueue s) s = Inr s1" "ci_inv m st s1" "ledger s1 = ledger s"
      using process_reads_inv [OF inv] by blast
    moreover have "distinct (ci_writeQueue s1)" using ci_invD(3) [OF s1(2)] by simp
    ultimately show ?thesis using False process_writes_inv [OF s1(2), of "ci_writeQueue s1"] by simp
  qed (use inv in simp)
  then obtain s2 where s2: "(if \<not> allPortsStalled s
               then bind_res (process_reads valid tx now (ci_readQueue s) s)
                      (\<lambda>s1. process_writes valid tx now (ci_writeQueue s1) s1)
               else Inr s) = Inr s2" "ci_inv m st s2" "ledger s2 = ledger s" by blast
  let ?s3 = "s2\<lparr> ci_requestsInQueues := length (ci_readQueue s2) + length (ci_writeQueue s2) \<rparr>"
  have l: "same_life s2 ?s3" by (rule same_life_simple) auto
  note l' = same_life_trans [OF l same_life_wake [of ?s3 now]]
  have "ci_inv m st ?s3" "ci_inv m st (ci_wake now ?s3)" using same_life_inv [OF s2(2)] l l' by blast+
  moreover have "ledger ?s3 = ledger s" "ledger (ci_wake now ?s3) = ledger s" using same_life_ledger [OF l] same_life_ledger [OF l'] s2(3) by simp_all
  ultimately show ?thesis unfolding processMemoryRequests_def s2(1) bind_res_Inr Let_def
    by (cases "ci_readQueue s2 = [] \<and> ci_writeQueue s2 = []") (simp add: ci_awake_def, auto)
qed

lemma checkMMR_life:
  assumes "ci_mmreg s \<noteq> []"
  shows "\<exists>s'. checkMMR now s = Inr s' \<and> same_life s s'"
proof -
  obtain b where b: "get_bytes 0 1 (ci_mmreg s) = Inr b" using get_flag_byte [OF assms] by blast
  show ?thesis
  proof (cases "ci_computationNeeded s")
    case False
    define s1 where "s1 = (if hd b AND 0x01 \<noteq> 0
        then s\<lparr> ci_mmreg := (ci_mmreg s)[0 := (hd b AND 0xfe) OR 0x02], ci_computationNeeded := True, ci_cu := ci_cu s @ [CuInitialize] \<rparr>
        else s)"
    have l: "same_life s s1" by (rule same_life_simple) (auto simp: s1_def)
    have "same_life s1 (ci_wake now (s1\<lparr> ci_processingDone := False \<rparr>))" by (rule same_life_simple) (auto simp: ci_wake_def)
    then show ?thesis using l same_life_trans [OF l] False b unfolding checkMMR_def by (simp add: s1_def [symmetric])
  qed (simp add: checkMMR_def)
qed

lemma ci_tick_inv:
  assumes inv: "ci_inv m st s"
  shows "\<exists>s'. ci_tick valid tx now s = Inr s' \<and> ci_inv m st s' \<and> ci_awake s' \<and> ledger s' = ledger s"
proof -
  obtain s1 where s1: "checkMMR now s = Inr s1" "same_life s s1" using checkMMR_life ci_invD(2) [OF inv] by blast
  let ?s2 = "s1\<lparr> ci_requestsInQueues := length (ci_readQueue s1) + length (ci_writeQueue s1) \<rparr>"
  have "same_life s1 ?s2" by (rule same_life_simple) auto
  then have l: "same_life s ?s2" by (rule same_life_trans [OF s1(2)])
  have i: "ci_inv m st ?s2" using same_life_inv [OF inv l] .
  show ?thesis using processMemoryRequests_inv [OF i, of valid tx now] i same_life_ledger [OF l]
    unfolding ci_tick_def s1(1) bind_res_Inr Let_def by (auto simp: ci_awake_def)
qed

lemma ci_retry_inv:
  assumes inv: "ci_inv m st s" and pa: "port_at s pid" and o: "cp_outstandingPkts (ci_port s pid) \<noteq> []"
  shows "\<exists>s'. ci_recvReqRetry tx now pid s = Inr s' \<and> ci_inv m st s' \<and> (ci_awake s \<longrightarrow> ci_awake s') \<and> ledger s' = ledger s"
proof -
  note r = retry_loop_life [OF pa refl, of tx now]
  then have "ci_inv m st (retry_loop tx now pid (cp_outstandingPkts (ci_port s pid)) s)" using same_life_inv [OF inv] by blast
  moreover have "ci_awake s \<longrightarrow> ci_awake (retry_loop tx now pid (cp_outstandingPkts (ci_port s pid)) s)"
    using r by (auto simp: ci_awake_def same_life_def)
  ultimately show ?thesis using o r same_life_ledger by (simp add: ci_recvReqRetry_def assert_that_def)
qed

section \<open>New requests\<close>

lemma enqueue_ext:
  "ci_ext s (enqueueRead now q s)" "ci_ext s (enqueueWrite now q s)"
  using known_cong [of "enqueueRead now q s" s] known_cong [of "enqueueWrite now q s" s]
  by (simp_all add: ci_ext_def enqueueRead_def enqueueWrite_def ci_wake_def ci_set_req_def)

lemma pkt_of_fresh: "x \<noteq> r \<Longrightarrow> ci_reqs s' = (ci_reqs s)(r := v) \<Longrightarrow> pkt_of s' x = pkt_of s x"
  by (simp add: pkt_of_def)

lemma inj_on_pkt_of:
  assumes "inj_on (pkt_of s) A" and "r \<notin> A" and "ci_reqs s' = (ci_reqs s)(r := v)"
  shows "inj_on (pkt_of s') A"
  using assms pkt_of_fresh [of _ r s' s v] unfolding inj_on_def by metis

lemma new_read_waits:
  assumes "0 < len" and "len < 2 ^ 64" and "\<forall>i < len. reachable_addr s (a + of_nat i)" and "ci_reqs s r = Some (MemoryRequest_read junk a len)"
  shows "rd_waiting m s r"
  using assms by (simp add: rd_waiting_def rd_ok_def MemoryRequest_read_def live_addrs_def)

lemma new_write_waits:
  assumes "data \<noteq> []" and "\<forall>i < length data. reachable_addr s (a + of_nat i)" and "ci_reqs s r = Some (MemoryRequest_write junk a data)"
  shows "wr_waiting st s r"
  using assms by (simp add: wr_waiting_def wr_ok_def MemoryRequest_write_def live_addrs_def Let_def)

lemma enqueueRead_inv:
  assumes inv: "ci_inv m st s" and len: "0 < len" "len < 2 ^ 64" and reach: "\<forall>i < len. reachable_addr s (a + of_nat i)"
  shows "ci_inv m st (enqueueRead now (MemoryRequest_read junk a len) s)"
proof (rule ci_invI)
  let ?s = "enqueueRead now (MemoryRequest_read junk a len) s"
  note i = ci_invD [OF inv] and e = enqueue_ext(1) [of s now "MemoryRequest_read junk a len"]
  have f: "ci_readQueue ?s = ci_readQueue s @ [ci_nextReq s]" "ci_writeQueue ?s = ci_writeQueue s" "ci_accRdQ ?s = ci_accRdQ s"
    "ci_accWrQ ?s = ci_accWrQ s" "ci_nextReq ?s = Suc (ci_nextReq s)" "ci_nextPkt ?s = ci_nextPkt s" "ci_ports ?s = ci_ports s" "ci_wire ?s = ci_wire s"
    "ci_cu ?s = ci_cu s" "ci_mmreg ?s = ci_mmreg s" "ci_cacheLineSize ?s = ci_cacheLineSize s"
    "ci_reqs ?s = (ci_reqs s)(ci_nextReq s \<mapsto> MemoryRequest_read junk a len)"
    by (simp_all add: enqueueRead_def ci_wake_def ci_set_req_def)
  have fresh: "ci_nextReq s \<notin> set (ci_ids s)" using i(4) by blast
  have other: "ci_reqs ?s x = ci_reqs s x" if "x \<in> set (ci_ids s)" for x using that fresh by (auto simp: f)
  have keep: "keeps_rd s ?s x" "keeps_wr s ?s x" if "x \<in> set (ci_ids s)" for x
    using other [OF that] f(7) by (simp_all add: keeps_rd_def keeps_wr_def ci_port_def)
  show "rd_waiting m ?s x" if "x \<in> set (ci_readQueue ?s)" for x
  proof (cases "x = ci_nextReq s")
    case True
    then show ?thesis using new_read_waits [OF len, of ?s a x junk m] reach ci_ext_ports(3) [OF e] by (simp add: f)
  next
    case False
    then show ?thesis using that rd_waiting_frame [OF i(5) e other] by (simp add: f(1))
  qed
  show "rd_flying m ?s x" if "x \<in> set (ci_accRdQ ?s)" for x using that rd_flying_frame [OF i(6) e keep(1)] by (simp add: f(3))
  show "wr_waiting st ?s x" if "x \<in> set (ci_writeQueue ?s)" for x
    using that wr_waiting_frame [OF i(7) e other subset_refl] by (simp add: f(2))
  show "wr_flying st ?s x" if "x \<in> set (ci_accWrQ ?s)" for x using that wr_flying_frame [OF i(8) e keep(2) subset_refl] by (simp add: f(4))
  show "inj_on (pkt_of ?s) (set (ci_accRdQ ?s @ ci_accWrQ ?s))" using inj_on_pkt_of [OF i(10) _ f(12)] fresh by (simp add: f(3,4))
  show "distinct (ci_ids ?s)" "\<And>x. x \<in> set (ci_ids ?s) \<Longrightarrow> x < ci_nextReq ?s" using i(3,4) fresh by (auto simp: f(1-5) less_Suc_eq)
  show "pkt_id p < ci_nextPkt ?s" if "pkt_known ?s p" for p using that i(9) known_cong [OF f(7,8)] by (simp add: f(6))
qed (use ci_invD [OF inv] in \<open>simp_all add: enqueueRead_def ci_wake_def ci_set_req_def\<close>)

lemma enqueueWrite_inv:
  assumes inv: "ci_inv m st s" and data: "data \<noteq> []" and reach: "\<forall>i < length data. reachable_addr s (a + of_nat i)"
  shows "ci_inv m st (enqueueWrite now (MemoryRequest_write junk a data) s)"
proof (rule ci_invI)
  let ?s = "enqueueWrite now (MemoryRequest_write junk a data) s"
  note i = ci_invD [OF inv] and e = enqueue_ext(2) [of s now "MemoryRequest_write junk a data"]
  have f: "ci_readQueue ?s = ci_readQueue s" "ci_writeQueue ?s = ci_writeQueue s @ [ci_nextReq s]" "ci_accRdQ ?s = ci_accRdQ s"
    "ci_accWrQ ?s = ci_accWrQ s" "ci_nextReq ?s = Suc (ci_nextReq s)" "ci_nextPkt ?s = ci_nextPkt s" "ci_ports ?s = ci_ports s" "ci_wire ?s = ci_wire s"
    "ci_cu ?s = ci_cu s" "ci_mmreg ?s = ci_mmreg s" "ci_cacheLineSize ?s = ci_cacheLineSize s"
    "ci_reqs ?s = (ci_reqs s)(ci_nextReq s \<mapsto> MemoryRequest_write junk a data)"
    by (simp_all add: enqueueWrite_def ci_wake_def ci_set_req_def)
  have fresh: "ci_nextReq s \<notin> set (ci_ids s)" using i(4) by blast
  have other: "ci_reqs ?s x = ci_reqs s x" if "x \<in> set (ci_ids s)" for x using that fresh by (auto simp: f)
  have keep: "keeps_rd s ?s x" "keeps_wr s ?s x" if "x \<in> set (ci_ids s)" for x
    using other [OF that] f(7) by (simp_all add: keeps_rd_def keeps_wr_def ci_port_def)
  show "wr_waiting st ?s x" if "x \<in> set (ci_writeQueue ?s)" for x
  proof (cases "x = ci_nextReq s")
    case True
    then show ?thesis using new_write_waits [OF data, of ?s a x junk st] reach ci_ext_ports(3) [OF e] by (simp add: f)
  next
    case False
    then show ?thesis using that wr_waiting_frame [OF i(7) e other subset_refl] by (simp add: f(2))
  qed
  show "rd_flying m ?s x" if "x \<in> set (ci_accRdQ ?s)" for x using that rd_flying_frame [OF i(6) e keep(1)] by (simp add: f(3))
  show "rd_waiting m ?s x" if "x \<in> set (ci_readQueue ?s)" for x using that rd_waiting_frame [OF i(5) e other] by (simp add: f(1))
  show "wr_flying st ?s x" if "x \<in> set (ci_accWrQ ?s)" for x using that wr_flying_frame [OF i(8) e keep(2) subset_refl] by (simp add: f(4))
  show "inj_on (pkt_of ?s) (set (ci_accRdQ ?s @ ci_accWrQ ?s))" using inj_on_pkt_of [OF i(10) _ f(12)] fresh by (simp add: f(3,4))
  show "distinct (ci_ids ?s)" "\<And>x. x \<in> set (ci_ids ?s) \<Longrightarrow> x < ci_nextReq ?s" using i(3,4) fresh by (auto simp: f(1-5) less_Suc_eq)
  show "pkt_id p < ci_nextPkt ?s" if "pkt_known ?s p" for p using that i(9) known_cong [OF f(7,8)] by (simp add: f(6))
qed (use ci_invD [OF inv] in \<open>simp_all add: enqueueWrite_def ci_wake_def ci_set_req_def\<close>)

section \<open>Answers\<close>

lemma find_unique: "r \<in> set xs \<Longrightarrow> P r \<Longrightarrow> (\<And>x. x \<in> set xs \<Longrightarrow> P x \<Longrightarrow> x = r) \<Longrightarrow> find P xs = Some r"
proof (induction xs)
  case (Cons y ys)
  show ?case
  proof (cases "P y")
    case True
    then have "y = r" using Cons.prems(3) [of y] by simp
    with True show ?thesis by simp
  next
    case False
    then have "r \<in> set ys" using Cons.prems(1,2) by auto
    then have "find P ys = Some r" by (rule Cons.IH [OF _ Cons.prems(2)]) (simp add: Cons.prems(3))
    with False show ?thesis by simp
  qed
qed simp

lemma findMemRequest_flying:
  assumes inv: "ci_inv m st s" and r: "r \<in> set (if rd then ci_accRdQ s else ci_accWrQ s)" and q: "ci_reqs s r = Some q" "mr_pkt q = Some (pkt_id p)"
  shows "findMemRequest s p rd = Inr r"
proof -
  let ?P = "\<lambda>r. case ci_reqs s r of None \<Rightarrow> False | Some q \<Rightarrow> mr_pkt q = Some (pkt_id p)"
  have P: "?P x \<Longrightarrow> pkt_of s x = pkt_of s r" for x using q by (auto simp: pkt_of_def split: option.splits)
  have "find ?P (if rd then ci_accRdQ s else ci_accWrQ s) = Some r"
  proof (rule find_unique [OF r])
    show "x = r" if "x \<in> set (if rd then ci_accRdQ s else ci_accWrQ s)" "?P x" for x
      by (rule inj_onD [OF ci_invD(10) [OF inv] P [OF that(2)]]) (use that(1) r in \<open>simp_all split: if_splits\<close>)
  qed (use q in simp)
  then show ?thesis by (simp add: findMemRequest_def)
qed

lemma count_done_prefix: "k \<le> n \<Longrightarrow> d + n = length bs \<Longrightarrow> (\<forall>i < k. bs ! (d + i)) \<Longrightarrow> (k < n \<longrightarrow> \<not> bs ! (d + k)) \<Longrightarrow> count_done d n bs = d + k"
proof (induction d n bs arbitrary: k rule: count_done.induct)
  case (2 d n bs)
  show ?case
  proof (cases k)
    case 0
    then show ?thesis using 2 by simp
  next
    case (Suc j)
    have "bs ! d" using "2.prems"(3) Suc by fastforce
    moreover have "count_done (Suc d) n bs = Suc d + j"
      using "2.prems" Suc by (intro "2.IH") (auto simp: calculation)
    ultimately show ?thesis using "2.prems" Suc by simp
  qed
qed simp

text \<open>The answer to packet \<open>p\<close> of a memory that holds \<open>m\<close>.\<close>

definition read_answer :: "(addr \<Rightarrow> byte) \<Rightarrow> packet \<Rightarrow> packet" where
  "read_answer m p = p\<lparr> pkt_cmd := ReadResp, pkt_data := mem_slice m (pkt_addr p) (pkt_size p) \<rparr>"

definition write_answer :: "packet \<Rightarrow> packet" where
  "write_answer p = p\<lparr> pkt_cmd := WriteResp \<rparr>"

definition rd_answered :: "(addr \<Rightarrow> byte) \<Rightarrow> mem_request \<Rightarrow> mem_request" where
  "rd_answered m q = q\<lparr> mr_buffer := mem_slice m (mr_address q) (mr_length q - mr_readLeft q) @ replicate (mr_readLeft q) 0,
     mr_readsDone := replicate (mr_length q - mr_readLeft q) True @ replicate (mr_readLeft q) False,
     mr_readDone := mr_length q - mr_readLeft q \<rparr>"

lemma rd_answered_ok: "rd_ok m q \<Longrightarrow> rd_ok m (rd_answered m q)"
  by (simp add: rd_ok_def rd_answered_def)

lemma recv_read_bytes:
  assumes ok: "rd_ok m q" and d: "mr_readDone q < mr_length q - mr_readLeft q" and p: "rd_pkt q p"
  defines "off \<equiv> unat (pkt_addr (read_answer m p) - mr_beginAddr q)"
  shows "writeData (read_answer m p) off (mr_buffer q) = Inr (mr_buffer (rd_answered m q))"
    "ready_fill True off (pkt_size (read_answer m p)) (mr_readsDone q) = Inr (mr_readsDone (rd_answered m q))"
    "count_done (mr_readDone q) (mr_totalLength q - mr_readDone q) (mr_readsDone (rd_answered m q)) = mr_length q - mr_readLeft q"
proof -
  let ?d = "mr_readDone q" and ?l = "mr_readLeft q"
  define n where "n = mr_length q - ?l - ?d"
  have len: "?d + n + ?l = mr_length q" "?d < 2 ^ 64" using ok d by (auto simp: rd_ok_def n_def)
  have "off = ?d" using ok p len(2) by (simp add: off_def rd_ok_def rd_pkt_def read_answer_def unat_of_nat)
  note o = this
  have e: "mr_length q - ?l = ?d + n" "mr_length q - ?d = n + ?l" using len by simp_all
  have b: "mr_buffer q = mem_slice m (mr_address q) ?d @ replicate (n + ?l) 0" "mr_readsDone q = replicate ?d True @ replicate (n + ?l) False"
    using ok unfolding rd_ok_def e(2) by simp_all
  have sz: "pkt_size (read_answer m p) = n" using p by (simp add: rd_pkt_def read_answer_def n_def)
  have dt: "pkt_data (read_answer m p) = mem_slice m (mr_address q + of_nat ?d) n" using p by (simp add: rd_pkt_def read_answer_def n_def)
  have nm: "\<not> isMaskedWrite (read_answer m p)" by (simp add: isMaskedWrite_def read_answer_def)
  show "writeData (read_answer m p) off (mr_buffer q) = Inr (mr_buffer (rd_answered m q))"
    using nm sz dt unfolding writeData_def o put_bytes_def b(1) rd_answered_def e(1) by (simp add: mem_slice_add)
  show "ready_fill True off (pkt_size (read_answer m p)) (mr_readsDone q) = Inr (mr_readsDone (rd_answered m q))"
    unfolding o sz b(2) rd_answered_def e(1) by (subst ready_fill_spec) (simp_all add: replicate_add)
  have "count_done ?d (n + ?l) (replicate (?d + n) True @ replicate ?l False) = ?d + n"
    by (rule count_done_prefix) (auto simp: nth_append)
  then show "count_done ?d (mr_totalLength q - ?d) (mr_readsDone (rd_answered m q)) = mr_length q - ?l"
    using ok unfolding rd_ok_def rd_answered_def by (simp add: e del: of_nat_diff)
qed

lemma recv_read_step:
  assumes inv: "ci_inv m st s" and r: "r \<in> set (ci_accRdQ s)" and q: "ci_reqs s r = Some q" "rd_ok m q" "mr_readDone q < mr_length q - mr_readLeft q"
    "mr_pkt q = Some (pkt_id p)" "mr_port q = Some pid" and p: "rd_pkt q p"
  defines "s1 \<equiv> ci_upd_port pid (\<lambda>c. c\<lparr> cp_readReq := None \<rparr>) s"
  shows "recv_read (read_answer m p) s = Inr (if mr_readLeft q = 0
     then s1\<lparr> ci_cu := ci_cu s @ [CuReadCommit (rd_answered m q)], ci_accRdQ := remove1 r (ci_accRdQ s), ci_reqs := (ci_reqs s)(r := None) \<rparr>
     else s1\<lparr> ci_readQueue := r # ci_readQueue s, ci_accRdQ := remove1 r (ci_accRdQ s), ci_reqs := (ci_reqs s)(r \<mapsto> rd_answered m q) \<rparr>)"
proof -
  have fm: "findMemRequest s (read_answer m p) True = Inr r"
    by (rule findMemRequest_flying [OF inv _ q(1)]) (use r q(4) in \<open>simp_all add: read_answer_def\<close>)
  have need: "mr_needToRead (rd_answered m q) = (mr_readLeft q \<noteq> 0)" using q(2) by (simp add: rd_ok_def rd_answered_def)
  have a: "q\<lparr> mr_buffer := mr_buffer (rd_answered m q), mr_readsDone := mr_readsDone (rd_answered m q), mr_readDone := mr_length q - mr_readLeft q \<rparr> = rd_answered m q"
    by (simp add: rd_answered_def)
  show ?thesis
    unfolding recv_read_def fm bind_res_Inr ci_req_def q(1) option.case Let_def q(5) recv_read_bytes [OF q(2,3) p] a need s1_def
    by (simp add: clearMemRequest_def ci_set_req_def)
qed

text \<open>What an answer leaves alone: it frees the port of the request and touches nothing else.\<close>

lemma answer_ext:
  assumes pa: "port_at s pid" and f: "\<And>c. cp_ranges (f c) = cp_ranges c" "\<And>c. cp_outstandingPkts (f c) = cp_outstandingPkts c"
    and s': "ci_ports s' = ci_ports (ci_upd_port pid f s)" "ci_wire s' = ci_wire s" "ci_nextPkt s' = ci_nextPkt s"
  shows "ci_ext s s'" "pkt_known s' x = pkt_known s x" "ci_port s' y = (if y = pid then f (ci_port s pid) else ci_port s y)"
proof -
  have port: "ci_port s' y = (if y = pid then f (ci_port s pid) else ci_port s y)" for y
    using ci_port_upd [OF pa, of f y] s'(1) by (simp add: ci_port_def)
  have at: "port_at s' y = port_at s y" for y using s'(1) by (simp add: port_at_def ci_upd_port_def)
  have "cp_outstandingPkts (ci_port s' y) = cp_outstandingPkts (ci_port s y)" for y using port f(2) by simp
  then show k: "pkt_known s' x = pkt_known s x" for x unfolding pkt_known_def at using s'(2) by simp
  show "ci_port s' y = (if y = pid then f (ci_port s pid) else ci_port s y)" by (rule port)
  show "ci_ext s s'" using k s' ranges_upd [of f s pid] f(1) by (simp add: ci_ext_def)
qed

lemma recv_read_inv:
  assumes inv: "ci_inv m st s" and r: "r \<in> set (ci_accRdQ s)" and q: "ci_reqs s r = Some q" "mr_pkt q = Some (pkt_id p)" and p: "pkt_known s p"
  shows "\<exists>s'. recv_read (read_answer m p) s = Inr s' \<and> ci_inv m st s' \<and> ledger s' = ledger s"
proof -
  note i = ci_invD [OF inv]
  from i(6) [OF r] obtain pid where fl: "rd_ok m q" "mr_readDone q < mr_length q - mr_readLeft q" "live_addrs s q"
     "mr_port q = Some pid" "port_at s pid" "cp_readReq (ci_port s pid) = Some r" "rd_pkt q p"
    using q p unfolding rd_flying_def by auto
  let ?s1 = "ci_upd_port pid (\<lambda>c. c\<lparr> cp_readReq := None \<rparr>) s"
  define s' where "s' = (if mr_readLeft q = 0
     then ?s1\<lparr> ci_cu := ci_cu s @ [CuReadCommit (rd_answered m q)], ci_accRdQ := remove1 r (ci_accRdQ s), ci_reqs := (ci_reqs s)(r := None) \<rparr>
     else ?s1\<lparr> ci_readQueue := r # ci_readQueue s, ci_accRdQ := remove1 r (ci_accRdQ s), ci_reqs := (ci_reqs s)(r \<mapsto> rd_answered m q) \<rparr>)"
  have step: "recv_read (read_answer m p) s = Inr s'"
    using recv_read_step [OF inv r q(1) fl(1,2) q(2) fl(4,7)] unfolding s'_def .
  have f: "ci_ports s' = ci_ports ?s1" "ci_wire s' = ci_wire s" "ci_nextPkt s' = ci_nextPkt s" "ci_nextReq s' = ci_nextReq s"
    "ci_accRdQ s' = remove1 r (ci_accRdQ s)" "ci_accWrQ s' = ci_accWrQ s" "ci_writeQueue s' = ci_writeQueue s"
    "ci_readQueue s' = (if mr_readLeft q = 0 then ci_readQueue s else r # ci_readQueue s)"
    "ci_reqs s' = (ci_reqs s)(r := if mr_readLeft q = 0 then None else Some (rd_answered m q))"
    "ci_cacheLineSize s' = ci_cacheLineSize s" "ci_mmreg s' = ci_mmreg s"
    "ci_cu s' = (if mr_readLeft q = 0 then ci_cu s @ [CuReadCommit (rd_answered m q)] else ci_cu s)"
    by (simp_all add: s'_def)
  note e = answer_ext [where f = "\<lambda>c. c\<lparr> cp_readReq := None \<rparr>", OF fl(5) _ _ f(1-3), simplified]
  have d: "distinct (ci_accRdQ s)" "r \<notin> set (ci_readQueue s)" "r \<notin> set (ci_writeQueue s)" "r \<notin> set (ci_accWrQ s)" using i(3) r by auto
  then have rem: "set (remove1 r (ci_accRdQ s)) = set (ci_accRdQ s) - {r}" by simp
  have other: "ci_reqs s' x = ci_reqs s x" if "x \<noteq> r" for x using that by (simp add: f)
  have keep: "keeps_rd s s' x" "keeps_wr s s' x" if "x \<noteq> r" for x using that other fl(6) e(3) by (auto simp: keeps_rd_def keeps_wr_def)
  have "ci_inv m st s'"
  proof (rule ci_invI)
    show "rd_waiting m s' x" if "x \<in> set (ci_readQueue s')" for x
    proof (cases "x = r")
      case True
      then have "0 < mr_readLeft q" using that d(2) by (auto simp: f(8) split: if_splits)
      then show ?thesis using True rd_answered_ok [OF fl(1)] fl(3) ci_ext_ports(3) [OF e(1)]
        by (simp add: rd_waiting_def f(9)) (simp add: rd_answered_def live_addrs_def)
    next
      case False
      then show ?thesis using that rd_waiting_frame [OF i(5) e(1) other] by (simp add: f(8) split: if_splits)
    qed
    show "rd_flying m s' x" if "x \<in> set (ci_accRdQ s')" for x
      using that rem rd_flying_frame [OF i(6) e(1) keep(1)] by (simp add: f(5))
    show "wr_waiting st s' x" if "x \<in> set (ci_writeQueue s')" for x
      using that d(3) wr_waiting_frame [OF i(7) e(1) other subset_refl] by (auto simp: f(7))
    show "wr_flying st s' x" if "x \<in> set (ci_accWrQ s')" for x
      using that d(4) wr_flying_frame [OF i(8) e(1) keep(2) subset_refl] by (auto simp: f(6))
    have "inj_on (pkt_of s) (set (ci_accRdQ s' @ ci_accWrQ s'))" by (rule inj_on_subset [OF i(10)]) (auto simp: f(5,6) rem)
    then show "inj_on (pkt_of s') (set (ci_accRdQ s' @ ci_accWrQ s'))"
      by (rule inj_on_pkt_of [OF _ _ f(9)]) (use d in \<open>simp add: f(5,6)\<close>)
    show "distinct (ci_ids s')" using i(3) r by (auto simp: f(5-8) rem distinct_remove1)
    show "x < ci_nextReq s'" if "x \<in> set (ci_ids s')" for x using that i(4) r by (auto simp: f(4-8) rem split: if_splits)
    have "cu_ok m st (CuReadCommit (rd_answered m q))" if "mr_readLeft q = 0" using that by (simp add: cu_ok_def rd_answered_def)
    then show "cu_ok m st c" if "c \<in> set (ci_cu s')" for c using that i(11) by (auto simp: f(12) split: if_splits)
  qed (use i e(2) in \<open>simp_all add: f(3,10,11)\<close>)
  moreover have "ledger s' = ledger s"
  proof -
    have "image_mset (wr_key s') (mset (ci_writeQueue s' @ ci_accWrQ s')) = image_mset (wr_key s) (mset (ci_writeQueue s @ ci_accWrQ s))"
      by (rule pending_cong) (use d in \<open>auto simp: f(6,7,9) wr_key_def\<close>)
    then have "writes_done s' = writes_done s" "writes_pending s' = writes_pending s"
      by (simp_all add: writes_done_def writes_pending_def f(12) map_filter_append List.map_filter_simps)
    moreover have "mset (reads_done s') + reads_pending s' = mset (reads_done s) + reads_pending s"
    proof -
      define R where "R = remove1 r (ci_accRdQ s)"
      have R: "mset (ci_accRdQ s) = add_mset r (mset R)" "ci_accRdQ s' = R" "set R = set (ci_accRdQ s) - {r}" using r rem by (simp_all add: R_def f(5))
      have same: "image_mset (rd_key s') (mset (ci_readQueue s @ R)) = image_mset (rd_key s) (mset (ci_readQueue s @ R))"
        by (rule pending_cong [OF refl]) (use d R(3) in \<open>auto simp: rd_key_def f(9)\<close>)
      have pend: "reads_pending s = add_mset (rd_key s r) (image_mset (rd_key s) (mset (ci_readQueue s @ R)))"
        by (simp add: reads_pending_def R(1))
      have done0: "reads_done s' = reads_done s @ [rd_key s r]" "reads_pending s' = image_mset (rd_key s') (mset (ci_readQueue s @ R))" if "mr_readLeft q = 0"
        using that q(1) R(2) by (simp_all add: reads_done_def reads_pending_def f(8,12) map_filter_append List.map_filter_simps rd_key_def rd_answered_def)
      have done1: "reads_done s' = reads_done s" "reads_pending s' = add_mset (rd_key s r) (image_mset (rd_key s') (mset (ci_readQueue s @ R)))"
        if "mr_readLeft q \<noteq> 0"
        using that q(1) R(2) by (simp_all add: reads_done_def reads_pending_def f(8,9,12) rd_key_def rd_answered_def)
      show ?thesis
      proof (cases "mr_readLeft q = 0")
        case True
        show ?thesis unfolding done0 [OF True] same pend by simp
      next
        case False
        show ?thesis unfolding done1 [OF False] same pend by simp
      qed
    qed
    ultimately show ?thesis by (simp add: ledger_def)
  qed
  ultimately show ?thesis using step by blast
qed

definition wr_answered :: "mem_request \<Rightarrow> mem_request" where
  "wr_answered q = q\<lparr> mr_writeDone := mr_length q - mr_writeLeft q \<rparr>"

lemma recv_write_step:
  assumes inv: "ci_inv m st s" and r: "r \<in> set (ci_accWrQ s)" and q: "ci_reqs s r = Some q" "wr_ok q" "mr_writeDone q < mr_length q - mr_writeLeft q"
    "mr_pkt q = Some (pkt_id p)" "mr_port q = Some pid" and p: "wr_pkt q p"
  defines "s1 \<equiv> ci_upd_port pid (\<lambda>c. c\<lparr> cp_writeReq := None \<rparr>) s"
  shows "recv_write (write_answer p) s = Inr (if mr_writeLeft q = 0
     then s1\<lparr> ci_cu := ci_cu s @ [CuWriteCommit (wr_answered q)], ci_accWrQ := remove1 r (ci_accWrQ s), ci_reqs := (ci_reqs s)(r := None) \<rparr>
     else s1\<lparr> ci_writeQueue := r # ci_writeQueue s, ci_accWrQ := remove1 r (ci_accWrQ s), ci_reqs := (ci_reqs s)(r \<mapsto> wr_answered q) \<rparr>)"
proof -
  have fm: "findMemRequest s (write_answer p) False = Inr r"
    by (rule findMemRequest_flying [OF inv _ q(1)]) (use r q(4) in \<open>simp_all add: write_answer_def\<close>)
  have need: "mr_needToWrite (wr_answered q) = (mr_writeLeft q \<noteq> 0)" using q(2) by (simp add: wr_ok_def wr_answered_def)
  have "pkt_size (write_answer p) = mr_length q - mr_writeLeft q - mr_writeDone q" using p by (simp add: wr_pkt_def write_answer_def)
  then have "q\<lparr> mr_writeDone := mr_writeDone q + pkt_size (write_answer p) \<rparr> = wr_answered q" using q(3) by (simp add: wr_answered_def)
  note a = this
  show ?thesis
    unfolding recv_write_def fm bind_res_Inr ci_req_def q(1) option.case Let_def q(5) a need s1_def
    by (simp add: clearMemRequest_def ci_set_req_def)
qed

text \<open>The bytes of an answered packet are stored after those of the packets before it.\<close>

lemma wr_answered_stored:
  assumes ok: "wr_ok q" and d: "mr_writeDone q < mr_length q - mr_writeLeft q" and p: "wr_pkt q p"
    and st: "stored st (mr_address q) (take (mr_writeDone q) (mr_buffer q))"
  shows "stored (st @ [(pkt_addr p, pkt_data p)]) (mr_address q) (take (mr_length q - mr_writeLeft q) (mr_buffer q))"
proof -
  let ?d = "mr_writeDone q" and ?n = "pkt_size p"
  have n: "mr_length q - mr_writeLeft q = ?d + ?n" and l: "length (take ?d (mr_buffer q)) = ?d"
    using ok d p by (simp_all add: wr_pkt_def wr_ok_def)
  have "stored (st @ [(pkt_addr p, pkt_data p)]) (mr_address q) (take ?d (mr_buffer q) @ pkt_data p)"
    by (rule stored_append [OF stored_mono [OF st]]) (use p l in \<open>auto simp: wr_pkt_def\<close>)
  moreover have "take ?d (mr_buffer q) @ pkt_data p = take (?d + ?n) (mr_buffer q)" using p by (simp add: wr_pkt_def take_add)
  ultimately show ?thesis unfolding n by simp
qed

lemma cu_ok_mono: "cu_ok m st c \<Longrightarrow> set st \<subseteq> set st' \<Longrightarrow> cu_ok m st' c"
  by (cases c) (auto simp: cu_ok_def intro: stored_mono)

lemma recv_write_inv:
  assumes inv: "ci_inv m st s" and r: "r \<in> set (ci_accWrQ s)" and q: "ci_reqs s r = Some q" "mr_pkt q = Some (pkt_id p)" and p: "pkt_known s p"
  shows "\<exists>s'. recv_write (write_answer p) s = Inr s' \<and> ci_inv m (st @ [(pkt_addr p, pkt_data p)]) s' \<and> ledger s' = ledger s"
proof -
  note i = ci_invD [OF inv]
  let ?st = "st @ [(pkt_addr p, pkt_data p)]"
  have sub: "set st \<subseteq> set ?st" by auto
  from i(8) [OF r] obtain pid where fl: "wr_ok q" "mr_writeDone q < mr_length q - mr_writeLeft q" "live_addrs s q"
     "mr_port q = Some pid" "port_at s pid" "cp_writeReq (ci_port s pid) = Some r" "wr_pkt q p"
     "stored st (mr_address q) (take (mr_writeDone q) (mr_buffer q))"
    using q p unfolding wr_flying_def by auto
  note sd = wr_answered_stored [OF fl(1,2,7,8)]
  let ?s1 = "ci_upd_port pid (\<lambda>c. c\<lparr> cp_writeReq := None \<rparr>) s"
  define s' where "s' = (if mr_writeLeft q = 0
     then ?s1\<lparr> ci_cu := ci_cu s @ [CuWriteCommit (wr_answered q)], ci_accWrQ := remove1 r (ci_accWrQ s), ci_reqs := (ci_reqs s)(r := None) \<rparr>
     else ?s1\<lparr> ci_writeQueue := r # ci_writeQueue s, ci_accWrQ := remove1 r (ci_accWrQ s), ci_reqs := (ci_reqs s)(r \<mapsto> wr_answered q) \<rparr>)"
  have step: "recv_write (write_answer p) s = Inr s'"
    using recv_write_step [OF inv r q(1) fl(1,2) q(2) fl(4,7)] unfolding s'_def .
  have f: "ci_ports s' = ci_ports ?s1" "ci_wire s' = ci_wire s" "ci_nextPkt s' = ci_nextPkt s" "ci_nextReq s' = ci_nextReq s"
    "ci_accWrQ s' = remove1 r (ci_accWrQ s)" "ci_accRdQ s' = ci_accRdQ s" "ci_readQueue s' = ci_readQueue s"
    "ci_writeQueue s' = (if mr_writeLeft q = 0 then ci_writeQueue s else r # ci_writeQueue s)"
    "ci_reqs s' = (ci_reqs s)(r := if mr_writeLeft q = 0 then None else Some (wr_answered q))"
    "ci_cacheLineSize s' = ci_cacheLineSize s" "ci_mmreg s' = ci_mmreg s"
    "ci_cu s' = (if mr_writeLeft q = 0 then ci_cu s @ [CuWriteCommit (wr_answered q)] else ci_cu s)"
    by (simp_all add: s'_def)
  note e = answer_ext [where f = "\<lambda>c. c\<lparr> cp_writeReq := None \<rparr>", OF fl(5) _ _ f(1-3), simplified]
  have d: "distinct (ci_accWrQ s)" "r \<notin> set (ci_readQueue s)" "r \<notin> set (ci_writeQueue s)" "r \<notin> set (ci_accRdQ s)" using i(3) r by auto
  then have rem: "set (remove1 r (ci_accWrQ s)) = set (ci_accWrQ s) - {r}" by simp
  have other: "ci_reqs s' x = ci_reqs s x" if "x \<noteq> r" for x using that by (simp add: f)
  have keep: "keeps_rd s s' x" "keeps_wr s s' x" if "x \<noteq> r" for x using that other fl(6) e(3) by (auto simp: keeps_rd_def keeps_wr_def)
  have "ci_inv m ?st s'"
  proof (rule ci_invI)
    show "wr_waiting ?st s' x" if "x \<in> set (ci_writeQueue s')" for x
    proof (cases "x = r")
      case True
      then have "0 < mr_writeLeft q" using that d(3) by (auto simp: f(8) split: if_splits)
      then show ?thesis using True fl(1,3) sd ci_ext_ports(3) [OF e(1)]
        by (simp add: wr_waiting_def f(9)) (simp add: wr_answered_def live_addrs_def wr_ok_def)
    next
      case False
      then show ?thesis using that wr_waiting_frame [OF i(7) e(1) other sub] by (simp add: f(8) split: if_splits)
    qed
    show "wr_flying ?st s' x" if "x \<in> set (ci_accWrQ s')" for x
      using that rem wr_flying_frame [OF i(8) e(1) keep(2) sub] by (simp add: f(5))
    show "rd_waiting m s' x" if "x \<in> set (ci_readQueue s')" for x
      using that d(2) rd_waiting_frame [OF i(5) e(1) other] by (auto simp: f(7))
    show "rd_flying m s' x" if "x \<in> set (ci_accRdQ s')" for x
      using that d(4) rd_flying_frame [OF i(6) e(1) keep(1)] by (auto simp: f(6))
    have "inj_on (pkt_of s) (set (ci_accRdQ s' @ ci_accWrQ s'))" by (rule inj_on_subset [OF i(10)]) (auto simp: f(5,6) rem)
    then show "inj_on (pkt_of s') (set (ci_accRdQ s' @ ci_accWrQ s'))"
      by (rule inj_on_pkt_of [OF _ _ f(9)]) (use d in \<open>simp add: f(5,6)\<close>)
    show "distinct (ci_ids s')" using i(3) r by (auto simp: f(5-8) rem distinct_remove1)
    show "x < ci_nextReq s'" if "x \<in> set (ci_ids s')" for x using that i(4) r by (auto simp: f(4-8) rem split: if_splits)
    have "cu_ok m ?st (CuWriteCommit (wr_answered q))" if "mr_writeLeft q = 0"
      using that sd fl(1) by (simp add: cu_ok_def wr_answered_def wr_ok_def)
    then show "cu_ok m ?st c" if "c \<in> set (ci_cu s')" for c using that cu_ok_mono [OF i(11) sub] by (auto simp: f(12) split: if_splits)
  qed (use i e(2) in \<open>simp_all add: f(3,10,11)\<close>)
  moreover have "ledger s' = ledger s"
  proof -
    have "image_mset (rd_key s') (mset (ci_readQueue s' @ ci_accRdQ s')) = image_mset (rd_key s) (mset (ci_readQueue s @ ci_accRdQ s))"
      by (rule pending_cong) (use d in \<open>auto simp: f(6,7,9) rd_key_def\<close>)
    then have "reads_done s' = reads_done s" "reads_pending s' = reads_pending s"
      by (simp_all add: reads_done_def reads_pending_def f(12) map_filter_append List.map_filter_simps)
    moreover have "mset (writes_done s') + writes_pending s' = mset (writes_done s) + writes_pending s"
    proof -
      define R where "R = remove1 r (ci_accWrQ s)"
      have R: "mset (ci_accWrQ s) = add_mset r (mset R)" "ci_accWrQ s' = R" "set R = set (ci_accWrQ s) - {r}" using r rem by (simp_all add: R_def f(5))
      have same: "image_mset (wr_key s') (mset (ci_writeQueue s @ R)) = image_mset (wr_key s) (mset (ci_writeQueue s @ R))"
        by (rule pending_cong [OF refl]) (use d R(3) in \<open>auto simp: wr_key_def f(9)\<close>)
      have pend: "writes_pending s = add_mset (wr_key s r) (image_mset (wr_key s) (mset (ci_writeQueue s @ R)))"
        by (simp add: writes_pending_def R(1))
      have done0: "writes_done s' = writes_done s @ [wr_key s r]" "writes_pending s' = image_mset (wr_key s') (mset (ci_writeQueue s @ R))" if "mr_writeLeft q = 0"
        using that q(1) R(2) by (simp_all add: writes_done_def writes_pending_def f(8,12) map_filter_append List.map_filter_simps wr_key_def wr_answered_def)
      have done1: "writes_done s' = writes_done s" "writes_pending s' = add_mset (wr_key s r) (image_mset (wr_key s') (mset (ci_writeQueue s @ R)))"
        if "mr_writeLeft q \<noteq> 0"
        using that q(1) R(2) by (simp_all add: writes_done_def writes_pending_def f(8,9,12) wr_key_def wr_answered_def)
      show ?thesis
      proof (cases "mr_writeLeft q = 0")
        case True
        show ?thesis unfolding done0 [OF True] same pend by simp
      next
        case False
        show ?thesis unfolding done1 [OF False] same pend by simp
      qed
    qed
    ultimately show ?thesis by (simp add: ledger_def)
  qed
  ultimately show ?thesis using step by blast
qed

section \<open>Reachable states\<close>

text \<open>
  The states of an interface between a compute unit that makes requests for addresses that its
  ports serve and a memory that holds \<open>m\<close> where it is read and records the stores \<open>st\<close> that it
  answers. The host writes the registers and the compute unit finishes at any time. Requests
  are shorter than 2 GiB, as the loops over their bytes count in \<open>int\<close>.
\<close>

inductive ci_reach :: "(addr \<Rightarrow> byte) \<Rightarrow> (addr \<times> nat) multiset \<Rightarrow> (addr \<times> byte list) multiset \<Rightarrow> (addr \<times> byte list) list \<Rightarrow>
    comm_interface \<Rightarrow> bool" for m where
  fresh: "s = CommInterface io_addr io_size flag_size config_size int_num premap endian cls clock_period pioDelay reset_spm riq0 ports \<Longrightarrow>
    0 < cls \<Longrightarrow> 0 < io_size \<Longrightarrow> ci_reach m {#} {#} [] s"
| enqueue_read: "ci_reach m rs ws st s \<Longrightarrow> 0 < len \<Longrightarrow> len < 2 ^ 31 \<Longrightarrow> \<forall>i < len. reachable_addr s (a + of_nat i) \<Longrightarrow>
    ci_reach m (add_mset (a, len) rs) ws st (enqueueRead now (MemoryRequest_read junk a len) s)"
| enqueue_write: "ci_reach m rs ws st s \<Longrightarrow> data \<noteq> [] \<Longrightarrow> length data < 2 ^ 31 \<Longrightarrow> \<forall>i < length data. reachable_addr s (a + of_nat i) \<Longrightarrow>
    ci_reach m rs (add_mset (a, data) ws) st (enqueueWrite now (MemoryRequest_write junk a data) s)"
| process: "ci_reach m rs ws st s \<Longrightarrow> ci_tickEvent s = Some now \<Longrightarrow> ci_tick valid tx now (s\<lparr> ci_tickEvent := None \<rparr>) = Inr s' \<Longrightarrow>
    ci_reach m rs ws st s'"
| retry: "ci_reach m rs ws st s \<Longrightarrow> port_at s pid \<Longrightarrow> ci_recvReqRetry tx now pid s = Inr s' \<Longrightarrow> ci_reach m rs ws st s'"
| answer_read: "ci_reach m rs ws st s \<Longrightarrow> (pid, p) \<in> set (ci_wire s) \<Longrightarrow> pkt_cmd p = ReadReq \<Longrightarrow>
    recvPacket now (read_answer m p) s = Inr s' \<Longrightarrow> ci_reach m rs ws st s'"
| answer_write: "ci_reach m rs ws st s \<Longrightarrow> (pid, p) \<in> set (ci_wire s) \<Longrightarrow> pkt_cmd p = WriteReq \<Longrightarrow>
    recvPacket now (write_answer p) s = Inr s' \<Longrightarrow> ci_reach m rs ws (st @ [(pkt_addr p, pkt_data p)]) s'"
| host_write: "ci_reach m rs ws st s \<Longrightarrow> ci_write now cyc s p = Inr (d, p', s') \<Longrightarrow> ci_reach m rs ws st s'"
| finish: "ci_reach m rs ws st s \<Longrightarrow> ci_finish s = Inr s' \<Longrightarrow> ci_reach m rs ws st s'"

lemma same_life_bookkeeping:
  assumes "ci_write now cyc s p = Inr (d, p', s')" shows "same_life s s'" "ci_awake s'"
proof -
  from assms obtain mm b p1 where w: "writeData p (unat (pkt_addr p - ci_io_addr s)) (ci_mmreg s) = Inr mm" "makeResponse p = Inr p1" "get_bytes 0 1 mm = Inr b"
    by (auto simp: ci_write_def bind_res_def split: sum.splits)
  from assms have "s' = (let s1 = s\<lparr> ci_mmreg := mm \<rparr>;
           s2 = (if hd b AND 0x04 = 0 \<and> ci_int_flag s1
                 then (if ci_int_num s1 > 0 then s1\<lparr> ci_gic := ci_gic s1 @ [ClearInt (nat (ci_int_num s1))] \<rparr> else s1)\<lparr> ci_int_flag := False \<rparr>
                 else s1)
       in s2\<lparr> ci_tickEvent := sched_idle now cyc (ci_tickEvent s2) \<rparr>)"
    unfolding ci_write_def w bind_res_Inr by (simp add: Let_def)
  note s' = this
  show "same_life s s'" by (rule same_life_simple) (simp_all add: s' Let_def writeData_length [OF w(1)])
  show "ci_awake s'" by (simp add: ci_awake_def s' Let_def)
qed

lemma ci_finish_life:
  assumes "ci_finish s = Inr s'" shows "same_life s s'" "ci_tickEvent s' = ci_tickEvent s"
proof -
  obtain b where b: "get_bytes 0 1 (ci_mmreg s) = Inr b" using assms by (cases "get_bytes 0 1 (ci_mmreg s)") (simp_all add: ci_finish_def)
  note s' = assms [unfolded ci_finish_def b bind_res_Inr Let_def, THEN Inr_inject, symmetric]
  show "same_life s s'" by (rule same_life_simple) (simp_all add: s')
  show "ci_tickEvent s' = ci_tickEvent s" by (simp add: s')
qed

lemma fresh_inv:
  assumes s: "s = CommInterface io_addr io_size flag_size config_size int_num premap endian cls clock_period pioDelay reset_spm riq0 ports"
    and "0 < cls" "0 < io_size"
  shows "ci_inv m [] s \<and> ci_awake s \<and> ledger s = ({#}, {#})"
proof -
  have "\<not> pkt_known s p" for p
    by (auto simp: pkt_known_def s CommInterface_def port_at_def ci_port_def new_port_def)
  then have "ci_inv m [] s" using assms by (intro ci_invI) (simp_all add: CommInterface_def)
  moreover have "ledger s = ({#}, {#})"
    by (simp add: ledger_def s CommInterface_def reads_done_def writes_done_def reads_pending_def writes_pending_def List.map_filter_simps)
  ultimately show ?thesis by (simp add: ci_awake_def s CommInterface_def)
qed

lemma enqueue_ledger:
  assumes "ci_inv m st s"
  shows "ledger (enqueueRead now (MemoryRequest_read junk a len) s) = (add_mset (a, len) (fst (ledger s)), snd (ledger s))"
    "ledger (enqueueWrite now (MemoryRequest_write junk a data) s) = (fst (ledger s), add_mset (a, data) (snd (ledger s)))"
proof -
  have old: "r \<noteq> ci_nextReq s" if "r \<in> set (ci_ids s)" for r using ci_invD(4) [OF assms that] by simp
  let ?r = "enqueueRead now (MemoryRequest_read junk a len) s" and ?w = "enqueueWrite now (MemoryRequest_write junk a data) s"
  note d = enqueueRead_def enqueueWrite_def ci_wake_def ci_set_req_def
  have dn: "reads_done ?r = reads_done s" "writes_done ?r = writes_done s" "reads_done ?w = reads_done s" "writes_done ?w = writes_done s"
    by (simp_all add: reads_done_def writes_done_def d)
  have k: "image_mset (rd_key t) (mset (ci_readQueue s @ ci_accRdQ s)) = reads_pending s"
    "image_mset (wr_key t) (mset (ci_writeQueue s @ ci_accWrQ s)) = writes_pending s" if "t \<in> {?r, ?w}" for t
    unfolding reads_pending_def writes_pending_def by (rule pending_cong [OF refl]; use that old in \<open>auto simp: rd_key_def wr_key_def d\<close>)+
  have new: "rd_key ?r (ci_nextReq s) = (a, len)" "wr_key ?w (ci_nextReq s) = (a, data)"
    by (simp_all add: rd_key_def wr_key_def d MemoryRequest_read_def MemoryRequest_write_def Let_def)
  have q: "mset (ci_readQueue ?r @ ci_accRdQ ?r) = add_mset (ci_nextReq s) (mset (ci_readQueue s @ ci_accRdQ s))"
    "mset (ci_writeQueue ?r @ ci_accWrQ ?r) = mset (ci_writeQueue s @ ci_accWrQ s)"
    "mset (ci_writeQueue ?w @ ci_accWrQ ?w) = add_mset (ci_nextReq s) (mset (ci_writeQueue s @ ci_accWrQ s))"
    "mset (ci_readQueue ?w @ ci_accRdQ ?w) = mset (ci_readQueue s @ ci_accRdQ s)" by (simp_all add: d)
  have "reads_pending ?r = add_mset (a, len) (reads_pending s)" "writes_pending ?r = writes_pending s"
    "reads_pending ?w = reads_pending s" "writes_pending ?w = add_mset (a, data) (writes_pending s)"
    unfolding reads_pending_def [of ?r] reads_pending_def [of ?w] writes_pending_def [of ?r] writes_pending_def [of ?w] q image_mset_add_mset new
    using k [of ?r] k [of ?w] by simp_all
  then show "ledger ?r = (add_mset (a, len) (fst (ledger s)), snd (ledger s))" "ledger ?w = (fst (ledger s), add_mset (a, data) (snd (ledger s)))"
    by (simp_all add: ledger_def dn)
qed

lemma enqueue_awake: "ci_awake (enqueueRead now q s)" "ci_awake (enqueueWrite now q s)"
  by (simp_all add: enqueueRead_def enqueueWrite_def)

lemma findMemRequest_in:
  "findMemRequest s p rd = Inr r \<Longrightarrow> r \<in> set (if rd then ci_accRdQ s else ci_accWrQ s) \<and> (\<exists>q. ci_reqs s r = Some q \<and> mr_pkt q = Some (pkt_id p))"
  by (auto simp: findMemRequest_def find_Some_iff split: option.splits if_splits)

lemma answer_attribs:
  "pkt_isRead (read_answer m p)" "\<not> pkt_isRead (write_answer p)" "pkt_isWrite (write_answer p)"
  "pkt_id (read_answer m p) = pkt_id p" "pkt_id (write_answer p) = pkt_id p"
  by (simp_all add: pkt_isRead_def pkt_isWrite_def read_answer_def write_answer_def testCmdAttrib_def)

lemma on_wire_known: "(pid, p) \<in> set (ci_wire s) \<Longrightarrow> pkt_known s p"
  by (auto simp: pkt_known_def)

lemma wake_after:
  "ci_inv m st s \<Longrightarrow> ledger s = l \<Longrightarrow> ci_inv m st (ci_wake now s) \<and> ci_awake (ci_wake now s) \<and> ledger (ci_wake now s) = l"
  using same_life_inv same_life_ledger same_life_wake by auto

lemma answer_read_inv:
  assumes inv: "ci_inv m st s" and p: "pkt_known s p" and r: "r \<in> set (ci_accRdQ s)" "ci_reqs s r = Some q" "mr_pkt q = Some (pkt_id p)"
  shows "\<exists>s'. recvPacket now (read_answer m p) s = Inr s' \<and> ci_inv m st s' \<and> ci_awake s' \<and> ledger s' = ledger s"
proof -
  obtain s' where "recv_read (read_answer m p) s = Inr s'" "ci_inv m st s'" "ledger s' = ledger s" using recv_read_inv [OF inv r p] by blast
  then show ?thesis using wake_after by (simp add: recvPacket_def answer_attribs)
qed

lemma answer_write_inv:
  assumes inv: "ci_inv m st s" and p: "pkt_known s p" and r: "r \<in> set (ci_accWrQ s)" "ci_reqs s r = Some q" "mr_pkt q = Some (pkt_id p)"
  shows "\<exists>s'. recvPacket now (write_answer p) s = Inr s' \<and> ci_inv m (st @ [(pkt_addr p, pkt_data p)]) s' \<and> ci_awake s' \<and> ledger s' = ledger s"
proof -
  obtain s' where "recv_write (write_answer p) s = Inr s'" "ci_inv m (st @ [(pkt_addr p, pkt_data p)]) s'" "ledger s' = ledger s"
    using recv_write_inv [OF inv r p] by blast
  then show ?thesis using wake_after by (simp add: recvPacket_def answer_attribs)
qed

lemma recvPacket_finds:
  assumes "recvPacket now p' s = Inr s'"
  shows "pkt_isRead p' \<Longrightarrow> \<exists>r. findMemRequest s p' True = Inr r" "\<not> pkt_isRead p' \<Longrightarrow> \<exists>r. findMemRequest s p' False = Inr r"
  using assms by (auto simp: recvPacket_def recv_read_def recv_write_def bind_res_def split: sum.splits if_splits)

lemma ci_reach_inv: "ci_reach m rs ws st s \<Longrightarrow> ci_inv m st s \<and> ci_awake s \<and> ledger s = (rs, ws)"
proof (induction rule: ci_reach.induct)
  case (fresh s io_addr io_size flag_size config_size int_num premap endian cls clock_period pioDelay reset_spm riq0 ports)
  then show ?case by (rule fresh_inv)
next
  case (enqueue_read rs ws st s len a now junk)
  then have "ci_inv m st (enqueueRead now (MemoryRequest_read junk a len) s)" by (intro enqueueRead_inv) simp_all
  then show ?case using enqueue_read enqueue_ledger(1) [of m st s] by (simp add: enqueue_awake)
next
  case (enqueue_write rs ws st s data a now junk)
  then have "ci_inv m st (enqueueWrite now (MemoryRequest_write junk a data) s)" by (intro enqueueWrite_inv) simp_all
  then show ?case using enqueue_write enqueue_ledger(2) [of m st s] by (simp add: enqueue_awake)
next
  case (process rs ws st s now valid tx s')
  have l: "same_life s (s\<lparr> ci_tickEvent := None \<rparr>)" by (rule same_life_simple) auto
  then show ?case using process ci_tick_inv [OF same_life_inv [OF _ l], of m st valid tx now] same_life_ledger [OF l] by auto
next
  case (retry rs ws st s pid tx now s')
  then have "cp_outstandingPkts (ci_port s pid) \<noteq> []" by (auto simp: ci_recvReqRetry_def assert_that_def split: if_splits)
  then show ?case using retry ci_retry_inv [of m st s pid tx now] by auto
next
  case (answer_read rs ws st s pid p now s')
  obtain r q where "r \<in> set (ci_accRdQ s)" "ci_reqs s r = Some q" "mr_pkt q = Some (pkt_id p)"
    using recvPacket_finds(1) [OF answer_read(4)] findMemRequest_in [of s "read_answer m p" True] by (auto simp: answer_attribs)
  then show ?case using answer_read answer_read_inv [OF _ on_wire_known, of m st s pid p r q now] by auto
next
  case (answer_write rs ws st s pid p now s')
  obtain r q where "r \<in> set (ci_accWrQ s)" "ci_reqs s r = Some q" "mr_pkt q = Some (pkt_id p)"
    using recvPacket_finds(2) [OF answer_write(4)] findMemRequest_in [of s "write_answer p" False] by (auto simp: answer_attribs)
  then show ?case using answer_write answer_write_inv [OF _ on_wire_known, of m st s pid p r q now] by auto
next
  case (host_write rs ws st s now cyc p d p' s')
  then show ?case using same_life_bookkeeping [OF host_write(2)] same_life_inv same_life_ledger by auto
next
  case (finish rs ws st s s')
  note l = ci_finish_life [OF finish(2)]
  then have "ci_awake s'" using finish by (simp add: ci_awake_def same_life_def)
  then show ?case using finish l same_life_inv same_life_ledger by auto
qed

section \<open>A run\<close>

text \<open>
  One global port, cache lines of four bytes. A read of six bytes from address 2, which takes
  two packets, and a write of two bytes at 0x20.
\<close>

definition demo_mem :: "addr \<Rightarrow> byte" where
  "demo_mem a = ucast a"

definition demo_ci :: comm_interface where
  "demo_ci = CommInterface 0x1000 4 1 0 5 None LittleEndianByteOrder 4 1 0 False 0
     (\<lambda>k. if k = GlobalPort then [[AddrRange 0 0x100]] else [])"

definition demo_junk :: mem_request where
  "demo_junk = \<lparr> mr_address = 0, mr_length = 0, mr_needToRead = False, mr_needToWrite = False, mr_currentReadAddr = 0, mr_currentWriteAddr = 0,
     mr_beginAddr = 0, mr_writeLeft = 0, mr_writeDone = 0, mr_readLeft = 0, mr_readDone = 0, mr_totalLength = 0, mr_buffer = [], mr_readsDone = [],
     mr_pkt = None, mr_port = None \<rparr>"

definition demo_ci_asked :: comm_interface where
  "demo_ci_asked = enqueueWrite 0 (MemoryRequest_write demo_junk 0x20 [7, 8]) (enqueueRead 0 (MemoryRequest_read demo_junk 2 6) demo_ci)"

definition demo_tick :: "comm_interface \<Rightarrow> comm_interface result" where
  "demo_tick s = ci_tick (\<lambda>_ _ _ _. True) (\<lambda>_ _. True) (the (ci_tickEvent s)) (s\<lparr> ci_tickEvent := None \<rparr>)"

definition demo_answer :: "nat \<Rightarrow> comm_interface \<Rightarrow> comm_interface result" where
  "demo_answer i s = (let p = snd (ci_wire s ! i) in
     recvPacket 5 (if pkt_cmd p = ReadReq then read_answer demo_mem p else write_answer p) s)"

definition demo_ci_sent :: comm_interface where
  "demo_ci_sent = projr (demo_tick demo_ci_asked)"

definition demo_ci_read :: comm_interface where
  "demo_ci_read = projr (demo_answer 0 demo_ci_sent)"

definition demo_ci_half :: comm_interface where
  "demo_ci_half = projr (demo_answer 1 demo_ci_read)"

definition demo_ci_more :: comm_interface where
  "demo_ci_more = projr (demo_tick demo_ci_half)"

definition demo_ci_done :: comm_interface where
  "demo_ci_done = projr (demo_answer 2 demo_ci_more)"

lemma projr_ok: "\<not> isl x \<Longrightarrow> x = Inr (projr x)"
  by (cases x) simp_all

lemma demo_tick_reach:
  assumes "ci_reach m rs ws st s" and "ci_tickEvent s \<noteq> None" and "\<not> isl (demo_tick s)"
  shows "ci_reach m rs ws st (projr (demo_tick s))"
  using ci_reach.process [OF assms(1)] assms(2) projr_ok [OF assms(3)] unfolding demo_tick_def by force

lemma demo_answer_reach:
  assumes "ci_reach demo_mem rs ws st s" and "i < length (ci_wire s)" and "snd (ci_wire s ! i) = p" and "\<not> isl (demo_answer i s)"
  shows "pkt_cmd p = ReadReq \<Longrightarrow> ci_reach demo_mem rs ws st (projr (demo_answer i s))"
    "pkt_cmd p = WriteReq \<Longrightarrow> ci_reach demo_mem rs ws (st @ [(pkt_addr p, pkt_data p)]) (projr (demo_answer i s))"
proof -
  have w: "(fst (ci_wire s ! i), p) \<in> set (ci_wire s)" using assms(2,3) by (metis nth_mem prod.collapse)
  note a = projr_ok [OF assms(4)]
  show "ci_reach demo_mem rs ws st (projr (demo_answer i s))" if "pkt_cmd p = ReadReq"
    using ci_reach.answer_read [OF assms(1) w that, of 5] a that assms(3) by (simp add: demo_answer_def)
  show "ci_reach demo_mem rs ws (st @ [(pkt_addr p, pkt_data p)]) (projr (demo_answer i s))" if "pkt_cmd p = WriteReq"
    using ci_reach.answer_write [OF assms(1) w that, of 5] a that assms(3) by (simp add: demo_answer_def)
qed

lemma demo_reachable:
  "list_all (\<lambda>i. inRange GlobalPort demo_ci (2 + of_nat i)) [0..<6]"
  "list_all (\<lambda>i. inRange GlobalPort (enqueueRead 0 (MemoryRequest_read demo_junk 2 6) demo_ci) (0x20 + of_nat i)) [0..<2]"
  by code_simp+

lemma demo_asked_reach: "ci_reach demo_mem {# (2, 6) #} {# (0x20, [7, 8]) #} [] demo_ci_asked"
proof -
  have "ci_reach demo_mem {#} {#} [] demo_ci" by (rule ci_reach.fresh [OF demo_ci_def]) simp_all
  moreover have "\<forall>i < 6. reachable_addr demo_ci (2 + of_nat i)"
    using demo_reachable(1) by (auto simp: list_all_iff reachable_addr_def)
  ultimately have r: "ci_reach demo_mem {# (2, 6) #} {#} [] (enqueueRead 0 (MemoryRequest_read demo_junk 2 6) demo_ci)"
    using ci_reach.enqueue_read [of demo_mem "{#}" "{#}" "[]" demo_ci 6 2 0 demo_junk] by simp
  have "\<forall>i < length [7 :: byte, 8]. reachable_addr (enqueueRead 0 (MemoryRequest_read demo_junk 2 6) demo_ci) (0x20 + of_nat i)"
    using demo_reachable(2) by (auto simp: list_all_iff reachable_addr_def)
  then show ?thesis unfolding demo_ci_asked_def using ci_reach.enqueue_write [OF r, of "[7, 8]" "0x20" 0 demo_junk] by simp
qed

lemma demo_sent_reach: "ci_reach demo_mem {# (2, 6) #} {# (0x20, [7, 8]) #} [] demo_ci_sent"
proof -
  have "ci_tickEvent demo_ci_asked \<noteq> None" "\<not> isl (demo_tick demo_ci_asked)" by code_simp+
  then show ?thesis unfolding demo_ci_sent_def by (rule demo_tick_reach [OF demo_asked_reach])
qed

lemma demo_done_reach: "ci_reach demo_mem {# (2, 6) #} {# (0x20, [7, 8]) #} [(0x20, [7, 8])] demo_ci_done"
proof -
  have "0 < length (ci_wire demo_ci_sent)" "\<not> isl (demo_answer 0 demo_ci_sent)" "pkt_cmd (snd (ci_wire demo_ci_sent ! 0)) = ReadReq" by code_simp+
  then have r: "ci_reach demo_mem {# (2, 6) #} {# (0x20, [7, 8]) #} [] demo_ci_read"
    unfolding demo_ci_read_def by (intro demo_answer_reach(1) [OF demo_sent_reach _ refl])
  have "1 < length (ci_wire demo_ci_read)" "\<not> isl (demo_answer 1 demo_ci_read)" "pkt_cmd (snd (ci_wire demo_ci_read ! 1)) = WriteReq" by code_simp+
  note h = demo_answer_reach(2) [OF r this(1) refl this(2,3), folded demo_ci_half_def]
  have "pkt_addr (snd (ci_wire demo_ci_read ! 1)) = 0x20" "pkt_data (snd (ci_wire demo_ci_read ! 1)) = [7, 8]"
    "ci_tickEvent demo_ci_half \<noteq> None" "\<not> isl (demo_tick demo_ci_half)" by code_simp+
  with h have more: "ci_reach demo_mem {# (2, 6) #} {# (0x20, [7, 8]) #} [(0x20, [7, 8])] demo_ci_more"
    unfolding demo_ci_more_def by (simp add: demo_tick_reach)
  have "2 < length (ci_wire demo_ci_more)" "\<not> isl (demo_answer 2 demo_ci_more)" "pkt_cmd (snd (ci_wire demo_ci_more ! 2)) = ReadReq" by code_simp+
  then show ?thesis unfolding demo_ci_done_def by (intro demo_answer_reach(1) [OF more _ refl])
qed

section \<open>What the compute unit can rely on\<close>

text \<open>
  C1. A read that is committed to the compute unit carries what memory holds at every address
  of the request, in whatever order and over whatever ports its packets and those of other
  requests were sent, held back, retried and answered.
\<close>

theorem comm_read_returns_memory:
  assumes "ci_reach m rs ws st s" and "CuReadCommit q \<in> set (ci_cu s)"
  shows "mr_buffer q = mem_slice m (mr_address q) (mr_length q)"
  using ci_invD(11) [OF conjunct1 [OF ci_reach_inv [OF assms(1)]] assms(2)] by (simp add: cu_ok_def)

theorem comm_read_returns_memory_witness:
  "\<exists>q. CuReadCommit q \<in> set (ci_cu demo_ci_done) \<and> mr_address q = 2 \<and> mr_buffer q = mem_slice demo_mem 2 6"
proof -
  let ?q = "case ci_cu demo_ci_done ! 1 of CuReadCommit q \<Rightarrow> q | _ \<Rightarrow> demo_junk"
  have "ci_cu demo_ci_done ! 1 = CuReadCommit ?q" "1 < length (ci_cu demo_ci_done)" "mr_address ?q = 2" "mr_length ?q = 6" by code_simp+
  then have "CuReadCommit ?q \<in> set (ci_cu demo_ci_done)" by (metis nth_mem)
  then show ?thesis using comm_read_returns_memory [OF demo_done_reach, of ?q] \<open>mr_address ?q = 2\<close> \<open>mr_length ?q = 6\<close> by auto
qed

text \<open>
  C8. A write is committed to the compute unit only when memory has answered the store of every
  one of its bytes to its address.
\<close>

theorem comm_write_reaches_memory:
  assumes "ci_reach m rs ws st s" and "CuWriteCommit q \<in> set (ci_cu s)"
  shows "stored st (mr_address q) (mr_buffer q)"
  using ci_invD(11) [OF conjunct1 [OF ci_reach_inv [OF assms(1)]] assms(2)] by (simp add: cu_ok_def)

theorem comm_write_reaches_memory_witness:
  "\<exists>q. CuWriteCommit q \<in> set (ci_cu demo_ci_done) \<and> mr_buffer q = [7, 8] \<and> stored [(0x20, [7, 8])] 0x20 [7, 8]"
proof -
  let ?q = "case ci_cu demo_ci_done ! 0 of CuWriteCommit q \<Rightarrow> q | _ \<Rightarrow> demo_junk"
  have "ci_cu demo_ci_done ! 0 = CuWriteCommit ?q" "0 < length (ci_cu demo_ci_done)" "mr_address ?q = 0x20" "mr_buffer ?q = [7, 8]" by code_simp+
  then have "CuWriteCommit ?q \<in> set (ci_cu demo_ci_done)" by (metis nth_mem)
  then show ?thesis using comm_write_reaches_memory [OF demo_done_reach, of ?q] \<open>mr_address ?q = 0x20\<close> \<open>mr_buffer ?q = [7, 8]\<close> by auto
qed

text \<open>
  C5. Requests are neither lost nor answered twice: the requests committed to the compute unit
  and those in the queues are together exactly the requests that were made, each with its own
  address and length or bytes.
\<close>

theorem comm_requests_exactly_once:
  assumes "ci_reach m rs ws st s"
  shows "mset (reads_done s) + reads_pending s = rs \<and> mset (writes_done s) + writes_pending s = ws"
  using ci_reach_inv [OF assms] by (simp add: ledger_def)

theorem comm_requests_exactly_once_witness:
  "reads_done demo_ci_done = [(2, 6)] \<and> writes_done demo_ci_done = [(0x20, [7, 8])]
    \<and> reads_pending demo_ci_done = {#} \<and> writes_pending demo_ci_done = {#}"
proof -
  have "reads_done demo_ci_done = [(2, 6)]" "writes_done demo_ci_done = [(0x20, [7, 8])]" by code_simp+
  then show ?thesis using comm_requests_exactly_once [OF demo_done_reach] by simp
qed

text \<open>
  C13. The interface never gets stuck on its own: while requests wait, the next processing of the
  queues is scheduled and it succeeds whatever the ports' peers answer; every request in flight
  has its packet on the wire or held by a port, and the answer to it is accepted.
\<close>

theorem comm_never_stuck:
  assumes "ci_reach m rs ws st s"
  shows "(ci_readQueue s \<noteq> [] \<or> ci_writeQueue s \<noteq> [] \<longrightarrow> ci_tickEvent s \<noteq> None)
    \<and> (\<exists>s'. ci_tick valid tx now (s\<lparr> ci_tickEvent := None \<rparr>) = Inr s')
    \<and> (\<forall>r \<in> set (ci_accRdQ s). \<exists>p. pkt_known s p \<and> pkt_of s r = Some (pkt_id p) \<and> (\<exists>s'. recvPacket now (read_answer m p) s = Inr s'))
    \<and> (\<forall>r \<in> set (ci_accWrQ s). \<exists>p. pkt_known s p \<and> pkt_of s r = Some (pkt_id p) \<and> (\<exists>s'. recvPacket now (write_answer p) s = Inr s'))"
proof (intro conjI ballI)
  note inv = conjunct1 [OF ci_reach_inv [OF assms]]
  show "ci_readQueue s \<noteq> [] \<or> ci_writeQueue s \<noteq> [] \<longrightarrow> ci_tickEvent s \<noteq> None" using ci_reach_inv [OF assms] by (simp add: ci_awake_def)
  have "same_life s (s\<lparr> ci_tickEvent := None \<rparr>)" by (rule same_life_simple) auto
  from ci_tick_inv [OF same_life_inv [OF inv this]] show "\<exists>s'. ci_tick valid tx now (s\<lparr> ci_tickEvent := None \<rparr>) = Inr s'" by blast
  show "\<exists>p. pkt_known s p \<and> pkt_of s r = Some (pkt_id p) \<and> (\<exists>s'. recvPacket now (read_answer m p) s = Inr s')" if r: "r \<in> set (ci_accRdQ s)" for r
  proof -
    from ci_invD(6) [OF inv r] obtain q k where q: "ci_reqs s r = Some q" "mr_pkt q = Some k" "id_known s k" unfolding rd_flying_def by blast
    then obtain p where p: "pkt_known s p" "pkt_id p = k" by (auto simp: id_known_def)
    moreover obtain s' where "recvPacket now (read_answer m p) s = Inr s'" using answer_read_inv [OF inv p(1) r q(1), of now] q(2) p(2) by auto
    ultimately show ?thesis using q by (intro exI [of _ p] exI [of _ s'] conjI) (simp_all add: pkt_of_def)
  qed
  show "\<exists>p. pkt_known s p \<and> pkt_of s r = Some (pkt_id p) \<and> (\<exists>s'. recvPacket now (write_answer p) s = Inr s')" if r: "r \<in> set (ci_accWrQ s)" for r
  proof -
    from ci_invD(8) [OF inv r] obtain q k where q: "ci_reqs s r = Some q" "mr_pkt q = Some k" "id_known s k" unfolding wr_flying_def by blast
    then obtain p where p: "pkt_known s p" "pkt_id p = k" by (auto simp: id_known_def)
    moreover obtain s' where "recvPacket now (write_answer p) s = Inr s'" using answer_write_inv [OF inv p(1) r q(1), of now] q(2) p(2) by auto
    ultimately show ?thesis using q by (intro exI [of _ p] exI [of _ s'] conjI) (simp_all add: pkt_of_def)
  qed
qed

theorem comm_never_stuck_witness:
  "\<exists>p s'. ci_accRdQ demo_ci_sent = [0] \<and> pkt_known demo_ci_sent p \<and> pkt_of demo_ci_sent 0 = Some (pkt_id p)
     \<and> recvPacket 9 (read_answer demo_mem p) demo_ci_sent = Inr s'"
proof -
  have "ci_accRdQ demo_ci_sent = [0]" by code_simp
  then show ?thesis using comm_never_stuck [OF demo_sent_reach, of "\<lambda>_ _ _ _. True" "\<lambda>_ _. True" 9] by auto
qed

end
