(* ===== verification/Registers.thy ===== *)
theory Registers
  imports Prelude
begin

text \<open>
  The register file of the compute unit, \<open>src/hwacc/LLVMRead/src/registers.cc\<close>: registers of up
  to eight bytes that are written through \<open>memcpy\<close> of their size, and the list that holds them
  with its access statistics. Registers are shared by pointer between instructions: they are
  named by their position in the list here. \<open>averageSize\<close>, a \<open>double\<close> that only ever holds whole
  numbers, is an integer.
\<close>

unbundle bit_operations_syntax

section \<open>Strings of digits\<close>

definition digit_val :: "char \<Rightarrow> nat option" where
  "digit_val c = (let n = of_char c :: nat in if 48 \<le> n \<and> n \<le> 57 then Some (n - 48) else None)"

definition is_blank :: "char \<Rightarrow> bool" where
  "is_blank c \<longleftrightarrow> of_char c = (32 :: nat) \<or> (9 :: nat) \<le> of_char c \<and> of_char c \<le> (13 :: nat)"

fun digits_val :: "nat \<Rightarrow> string \<Rightarrow> nat" where
  "digits_val acc [] = acc"
| "digits_val acc (c # cs) = (case digit_val c of None \<Rightarrow> acc | Some d \<Rightarrow> digits_val (10 * acc + d) cs)"

text \<open>
  \<open>std::stoi\<close>: leading blanks, a sign, then the longest run of digits. It throws if there is no
  digit or the value does not fit an \<open>int\<close>.
\<close>

definition stoi :: "string \<Rightarrow> int result" where
  "stoi s = (let s1 = dropWhile is_blank s;
       neg = (s1 \<noteq> [] \<and> hd s1 = CHR ''-'');
       s2 = (if s1 \<noteq> [] \<and> hd s1 \<in> set ''-+'' then tl s1 else s1)
     in if s2 = [] \<or> digit_val (hd s2) = None then Inl (Uncaught ''stoi'')
        else let n = int (digits_val 0 s2); v = (if neg then - n else n)
             in if v < - (2 ^ 31) \<or> 2 ^ 31 \<le> v then Inl (Uncaught ''stoi'') else Inr v)"

section \<open>One register\<close>

record register =
  reg_Name :: string
  reg_Data_Type :: string
  reg_Value :: "64 word"
  reg_Size :: nat
  reg_Hot :: bool
  reg_Global :: bool
  reg_updated :: bool
  reg_reads :: nat
  reg_writes :: nat

definition Register :: "string \<Rightarrow> 64 word \<Rightarrow> register" where
  "Register name v = \<lparr> reg_Name = name, reg_Data_Type = ''NA'', reg_Value = v, reg_Size = 8, reg_Hot = False, reg_Global = False,
     reg_updated = False, reg_reads = 0, reg_writes = 0 \<rparr>"

text \<open>The macro \<open>BYTESIZE\<close> divides in \<open>int\<close>, rounding to zero.\<close>

definition BYTESIZE :: "int \<Rightarrow> int" where
  "BYTESIZE x = (if 0 < x then (x - 1) div 8 + 1 else - ((1 - x) div 8) + 1)"

definition setSize :: "string \<Rightarrow> register \<Rightarrow> register result" where
  "setSize ty r = (let r1 = r\<lparr> reg_Data_Type := ty \<rparr> in
     if ty = ''pointer'' then Inr (r1\<lparr> reg_Size := 8 \<rparr>)
     else if ty = [] then Inl (Undefined ''back() of an empty string'')
     else if last ty = CHR ''*'' then Inr (r1\<lparr> reg_Size := 8 \<rparr>)
     else if hd ty = CHR ''i'' then bind_res (stoi (tl ty)) (\<lambda>n. Inr (r1\<lparr> reg_Size := unat (word_of_int (BYTESIZE n) :: 64 word) \<rparr>))
     else if ty = ''float'' then Inr (r1\<lparr> reg_Size := 4 \<rparr>)
     else if ty = ''double'' then Inr (r1\<lparr> reg_Size := 8 \<rparr>)
     else if ty = ''void'' then Inr (r1\<lparr> reg_Size := 0 \<rparr>)
     else if ty = ''label'' then Inr (r1\<lparr> reg_Size := 8 \<rparr>)
     else Inr (r1\<lparr> reg_Size := 8 \<rparr>))"

text \<open>\<open>memcpy\<close> of \<open>n\<close> bytes between two eight-byte objects of a little-endian host.\<close>

definition memcpy_low :: "nat \<Rightarrow> 64 word \<Rightarrow> 64 word \<Rightarrow> 64 word result" where
  "memcpy_low n src dst = (if n \<le> 8 then Inr ((dst AND NOT (mask (8 * n))) OR (src AND mask (8 * n))) else Inl OutOfBounds)"

definition reg_setValue :: "64 word \<Rightarrow> register \<Rightarrow> register result" where
  "reg_setValue v r = bind_res (memcpy_low (reg_Size r) v (reg_Value r)) (\<lambda>w. Inr (r\<lparr> reg_Value := w \<rparr>))"

definition reg_commit :: "register \<Rightarrow> register" where
  "reg_commit r = r\<lparr> reg_Hot := False \<rparr>"

definition reg_reset :: "register \<Rightarrow> register" where
  "reg_reset r = r\<lparr> reg_Hot := True \<rparr>"

definition reg_update :: "register \<Rightarrow> register" where
  "reg_update r = r\<lparr> reg_updated := \<not> reg_updated r \<rparr>"

definition reg_write :: "register \<Rightarrow> register" where
  "reg_write r = r\<lparr> reg_writes := reg_writes r + 1 \<rparr>"

definition reg_read :: "register \<Rightarrow> register" where
  "reg_read r = r\<lparr> reg_reads := reg_reads r + 1 \<rparr>"

section \<open>The register list\<close>

record register_list =
  rl_RegList :: "register list"
  rl_maxCount :: int
  rl_averageUsage :: int
  rl_averageSize :: int

definition RegisterList :: register_list where
  "RegisterList = \<lparr> rl_RegList = [], rl_maxCount = 0, rl_averageUsage = 0, rl_averageSize = 0 \<rparr>"

definition addRegister :: "register \<Rightarrow> register_list \<Rightarrow> register_list" where
  "addRegister r l = l\<lparr> rl_RegList := rl_RegList l @ [r] \<rparr>"

fun find_name :: "string \<Rightarrow> nat \<Rightarrow> register list \<Rightarrow> nat option" where
  "find_name name i [] = None"
| "find_name name i (r # rs) = (if reg_Name r = name then Some i else find_name name (Suc i) rs)"

definition findRegister :: "string \<Rightarrow> register_list \<Rightarrow> nat option" where
  "findRegister name l = find_name name 0 (rl_RegList l)"

definition resetAccess :: "register_list \<Rightarrow> register_list" where
  "resetAccess l = (let used = filter reg_updated (rl_RegList l); count = int (length used); sz = int (sum_list (map reg_Size used))
     in l\<lparr> rl_RegList := map (\<lambda>r. r\<lparr> reg_updated := False \<rparr>) (rl_RegList l), rl_averageSize := rl_averageSize l + sz,
           rl_averageUsage := rl_averageUsage l + count, rl_maxCount := max count (rl_maxCount l) \<rparr>)"

definition totalAccess :: "register_list \<Rightarrow> nat \<times> nat \<Rightarrow> nat \<times> nat" where
  "totalAccess l u = (fst u + sum_list (map reg_reads (rl_RegList l)), snd u + sum_list (map reg_writes (rl_RegList l)))"

section \<open>Values\<close>

lemma bit_memcpy_low:
  "memcpy_low n src dst = Inr w \<Longrightarrow> bit w i = (if i < 8 * n then bit src i else bit dst i)"
  using bit_imp_le_length [of dst i] bit_imp_le_length [of src i]
  by (auto simp: memcpy_low_def bit_or_iff bit_and_iff bit_not_iff bit_mask_iff split: if_splits)

lemma memcpy_low_take:
  assumes "memcpy_low n src dst = Inr w" and "k \<le> 8 * n"
  shows "take_bit k w = take_bit k src"
  by (rule bit_word_eqI) (use assms(2) in \<open>auto simp: bit_take_bit_iff bit_memcpy_low [OF assms(1)]\<close>)

lemma memcpy_low_ok: "n \<le> 8 \<Longrightarrow> \<exists>w. memcpy_low n src dst = Inr w"
  by (simp add: memcpy_low_def)

lemma find_name_Some: "find_name name i rs = Some j \<Longrightarrow> i \<le> j \<and> j < i + length rs \<and> reg_Name (rs ! (j - i)) = name"
  by (induction name i rs rule: find_name.induct) (auto simp: nth_Cons' split: if_splits)

lemma find_name_None: "find_name name i rs = None \<longleftrightarrow> name \<notin> reg_Name ` set rs"
  by (induction name i rs rule: find_name.induct) auto

end
