(* ===== verification/Instructions.thy ===== *)
theory Instructions
  imports Registers "HOL-Library.Signed_Division"
begin

text \<open>
  The LLVM instructions, \<open>src/hwacc/LLVMRead/src/instructions.cc\<close> and \<open>base_instruction.cc\<close>: what
  \<open>compute\<close> of each class does with the operands fetched into \<open>_Ops\<close>, and how a result reaches
  the return register.

  \<open>int64_t\<close> and \<open>uint64_t\<close> are 64-bit words; signed arithmetic wraps and shifts of negative
  values move bits, as the two's complement code of the compiler does. Divisions that trap and
  shifts by more than the width are errors. The floating-point unit of the host is a parameter
  that works on bit patterns. A \<open>load\<close> or \<open>store\<close> hands a request to the communications
  interface, which is returned as an effect.
\<close>

unbundle bit_operations_syntax

type_synonym int64 = "64 word"

section \<open>The host's floating-point unit\<close>

record fpu =
  fp_dadd :: "int64 \<Rightarrow> int64 \<Rightarrow> int64"
  fp_dsub :: "int64 \<Rightarrow> int64 \<Rightarrow> int64"
  fp_dmul :: "int64 \<Rightarrow> int64 \<Rightarrow> int64"
  fp_ddiv :: "int64 \<Rightarrow> int64 \<Rightarrow> int64"
  fp_ftod :: "32 word \<Rightarrow> int64"
  fp_dtof :: "int64 \<Rightarrow> 32 word"
  fp_itod :: "int64 \<Rightarrow> int64"
  fp_itof :: "int64 \<Rightarrow> 32 word"
  fp_dtou :: "int64 \<Rightarrow> int64"
  fp_ftou :: "32 word \<Rightarrow> int64"
  fp_deq :: "int64 \<Rightarrow> int64 \<Rightarrow> bool"
  fp_dlt :: "int64 \<Rightarrow> int64 \<Rightarrow> bool"
  fp_dle :: "int64 \<Rightarrow> int64 \<Rightarrow> bool"

section \<open>Instructions\<close>

text \<open>The operands of the two-operand classes: number of registers, immediate value, and its side.\<close>

record int_args =
  ia_regs :: nat
  ia_imm :: int64
  ia_immFirst :: bool

record fp_args =
  fa_regs :: nat
  fa_immSP :: "32 word"
  fa_immDP :: int64
  fa_immFirst :: bool

record gep_args =
  ga_Pty :: string
  ga_LLVMType :: "int option"
  ga_ImmIdx :: "int64 list"
  ga_PtrVal :: nat
  ga_Index :: nat

datatype instr_class =
    Br bool nat "string list" string
  | Ret
  | LLVMSwitch "string list" "int list"
  | Add int_args | Sub int_args | Mul int_args
  | UDiv int_args | SDiv int_args | URem int_args | SRem int_args
  | FAdd fp_args | FSub fp_args | FMul fp_args | FDiv fp_args | FRem
  | Shl int_args | LShr int_args | AShr int_args | And int_args | Or int_args | Xor int_args
  | Trunc string | ZExt string | SExt string | FPToUI string | FPToSI string
  | UIToFP string | SIToFP string | FPTrunc string | FPExt string
  | PtrToInt | IntToPtr | BitCast | AddrSpaceCast
  | Load nat
  | Store nat "nat option" bool int64
  | GetElementPtr gep_args
  | Phi "string list" "nat option list" "string list"
  | Select "bool list" "int64 list"
  | ICmp int64 nat int64
  | FCmp int64 int64
  | BadInstruction

record instr =
  in_LLVMLine :: string
  in_OpCode :: string
  in_ReturnType :: string
  in_ReturnRegister :: "nat option"
  in_MaxCycle :: nat
  in_Dependencies :: "nat option list"
  in_FunctionalUnit :: int
  in_Terminator :: bool
  in_RawCheck :: "nat option"
  in_class :: instr_class
  in_Parents :: "nat list"
  in_Children :: "nat list"
  in_ActiveParents :: int
  in_CurrCycle :: nat
  in_FinalResult :: int64
  in_Result :: int64
  in_Ops :: "int64 list"
  in_PrevBB :: string
  in_Dest :: string
  in_Global :: bool
  in_ActivePtr :: int64
  in_Req :: "nat option"

text \<open>Requests of \<open>load\<close> and \<open>store\<close>.\<close>

datatype mem_effect = NoEffect | EnqueueRead addr nat | EnqueueWrite addr "byte list"

section \<open>Results\<close>

definition reg_at :: "register_list \<Rightarrow> nat \<Rightarrow> register result" where
  "reg_at rl r = (if r < length (rl_RegList rl) then Inr (rl_RegList rl ! r) else Inl OutOfBounds)"

text \<open>\<open>setResult\<close> of an object of \<open>n\<close> bytes.\<close>

definition setResult :: "register_list \<Rightarrow> nat \<Rightarrow> int64 \<Rightarrow> instr \<Rightarrow> instr result" where
  "setResult rl n data i =
     (case in_ReturnRegister i of None \<Rightarrow> Inl OutOfBounds
      | Some r \<Rightarrow> bind_res (reg_at rl r) (\<lambda>reg.
          if n < reg_Size reg then Inl OutOfBounds
          else bind_res (memcpy_low (reg_Size reg) data (in_FinalResult i)) (\<lambda>w. Inr (i\<lparr> in_FinalResult := w \<rparr>))))"

definition store_result :: "register_list \<Rightarrow> int64 \<Rightarrow> instr \<Rightarrow> instr result" where
  "store_result rl v i = setResult rl 8 v (i\<lparr> in_Result := v \<rparr>)"

definition op_at :: "nat \<Rightarrow> instr \<Rightarrow> int64 result" where
  "op_at k i = (if k < length (in_Ops i) then Inr (in_Ops i ! k) else Inl OutOfBounds)"

definition sext32 :: "int64 \<Rightarrow> int64" where
  "sext32 w = scast (ucast w :: 32 word)"

definition zext32 :: "int64 \<Rightarrow> int64" where
  "zext32 w = ucast (ucast w :: 32 word)"

definition conv_op :: "(int64 \<Rightarrow> int64) \<Rightarrow> nat \<Rightarrow> instr \<Rightarrow> instr result" where
  "conv_op f k i = bind_res (op_at k i) (\<lambda>v. Inr (i\<lparr> in_Ops := (in_Ops i)[k := f v] \<rparr>))"

text \<open>The narrowing of the operands at the head of every integer instruction.\<close>

definition narrow_ops :: "(int64 \<Rightarrow> int64) \<Rightarrow> nat \<Rightarrow> instr \<Rightarrow> instr result" where
  "narrow_ops f n i = (if in_ReturnType i = ''i32''
     then if n = 1 then conv_op f 0 i else bind_res (conv_op f 0 i) (conv_op f 1)
     else Inr i)"

definition int_binary :: "(int64 \<Rightarrow> int64) \<Rightarrow> (int64 \<Rightarrow> int64 \<Rightarrow> int64 result) \<Rightarrow> (int64 \<Rightarrow> int64 \<Rightarrow> int64 result) \<Rightarrow>
    (int64 \<Rightarrow> int64 \<Rightarrow> int64 result) \<Rightarrow> int_args \<Rightarrow> register_list \<Rightarrow> instr \<Rightarrow> instr result" where
  "int_binary nrw imm_first imm_last regs a rl i =
     bind_res (narrow_ops nrw (ia_regs a) i) (\<lambda>i.
     bind_res (op_at 0 i) (\<lambda>x.
     bind_res (if ia_regs a = 1 then if ia_immFirst a then imm_first (ia_imm a) x else imm_last x (ia_imm a)
               else bind_res (op_at 1 i) (regs x)) (\<lambda>v. store_result rl v i)))"

section \<open>Integer arithmetic\<close>

definition pure2 :: "(int64 \<Rightarrow> int64 \<Rightarrow> int64) \<Rightarrow> int64 \<Rightarrow> int64 \<Rightarrow> int64 result" where
  "pure2 f x y = Inr (f x y)"

text \<open>The machine's division traps on a zero divisor and on an overflow of the quotient.\<close>

definition div_traps :: "int64 \<Rightarrow> int64 \<Rightarrow> bool" where
  "div_traps x y \<longleftrightarrow> y = 0 \<or> sint x = - (2 ^ 63) \<and> sint y = - 1"

definition c_sdiv :: "int64 \<Rightarrow> int64 \<Rightarrow> int64 result" where
  "c_sdiv x y = (if div_traps x y then Inl DivByZero else Inr (word_of_int (sint x sdiv sint y)))"

definition c_smod :: "int64 \<Rightarrow> int64 \<Rightarrow> int64 result" where
  "c_smod x y = (if div_traps x y then Inl DivByZero else Inr (word_of_int (sint x smod sint y)))"

definition c_udiv :: "int64 \<Rightarrow> int64 \<Rightarrow> int64 result" where
  "c_udiv x y = (if y = 0 then Inl DivByZero else Inr (x div y))"

definition c_shl :: "int64 \<Rightarrow> int64 \<Rightarrow> int64 result" where
  "c_shl x n = (if unat n < 64 then Inr (push_bit (unat n) x) else Inl (Undefined ''shift''))"

definition c_sar :: "int64 \<Rightarrow> int64 \<Rightarrow> int64 result" where
  "c_sar x n = (if unat n < 64 then Inr (signed_drop_bit (unat n) x) else Inl (Undefined ''shift''))"

definition Add_compute :: "int_args \<Rightarrow> register_list \<Rightarrow> instr \<Rightarrow> instr result" where
  "Add_compute = int_binary sext32 (pure2 (+)) (pure2 (+)) (pure2 (+))"

definition Sub_compute :: "int_args \<Rightarrow> register_list \<Rightarrow> instr \<Rightarrow> instr result" where
  "Sub_compute = int_binary sext32 (pure2 (-)) (pure2 (-)) (pure2 (-))"

definition Mul_compute :: "int_args \<Rightarrow> register_list \<Rightarrow> instr \<Rightarrow> instr result" where
  "Mul_compute = int_binary sext32 (pure2 (*)) (pure2 (*)) (pure2 (*))"

text \<open>With an immediate the division is that of \<open>uint64_t\<close>, of two registers that of \<open>int64_t\<close>.\<close>

definition UDiv_compute :: "int_args \<Rightarrow> register_list \<Rightarrow> instr \<Rightarrow> instr result" where
  "UDiv_compute = int_binary zext32 c_udiv c_udiv c_sdiv"

definition SDiv_compute :: "int_args \<Rightarrow> register_list \<Rightarrow> instr \<Rightarrow> instr result" where
  "SDiv_compute = int_binary sext32 c_sdiv c_sdiv c_sdiv"

definition URem_compute :: "int_args \<Rightarrow> register_list \<Rightarrow> instr \<Rightarrow> instr result" where
  "URem_compute = int_binary zext32 c_smod c_smod c_smod"

definition SRem_compute :: "int_args \<Rightarrow> register_list \<Rightarrow> instr \<Rightarrow> instr result" where
  "SRem_compute = int_binary sext32 c_smod c_smod c_smod"

definition Shl_compute :: "int_args \<Rightarrow> register_list \<Rightarrow> instr \<Rightarrow> instr result" where
  "Shl_compute = int_binary sext32 c_shl c_shl c_shl"

definition LShr_compute :: "int_args \<Rightarrow> register_list \<Rightarrow> instr \<Rightarrow> instr result" where
  "LShr_compute = int_binary sext32 c_sar c_sar c_sar"

definition AShr_compute :: "int_args \<Rightarrow> register_list \<Rightarrow> instr \<Rightarrow> instr result" where
  "AShr_compute = int_binary sext32 c_sar c_sar c_sar"

definition And_compute :: "int_args \<Rightarrow> register_list \<Rightarrow> instr \<Rightarrow> instr result" where
  "And_compute = int_binary sext32 (pure2 (AND)) (pure2 (AND)) (pure2 (AND))"

definition Or_compute :: "int_args \<Rightarrow> register_list \<Rightarrow> instr \<Rightarrow> instr result" where
  "Or_compute = int_binary sext32 (pure2 (OR)) (pure2 (OR)) (pure2 (OR))"

definition Xor_compute :: "int_args \<Rightarrow> register_list \<Rightarrow> instr \<Rightarrow> instr result" where
  "Xor_compute = int_binary sext32 (pure2 (XOR)) (pure2 (XOR)) (pure2 (XOR))"

section \<open>Floating-point arithmetic\<close>

definition has_prefix :: "string \<Rightarrow> string \<Rightarrow> bool" where
  "has_prefix p s \<longleftrightarrow> take (length p) s = p"

text \<open>
  A \<open>float\<close> operand is widened, the operation is done in \<open>double\<close>, and the result rounded; it is
  stored from an object of four bytes.
\<close>

definition fp_binary :: "(int64 \<Rightarrow> int64 \<Rightarrow> int64) \<Rightarrow> fpu \<Rightarrow> fp_args \<Rightarrow> register_list \<Rightarrow> instr \<Rightarrow> instr result" where
  "fp_binary f u a rl i =
     bind_res (op_at 0 i) (\<lambda>x.
       if has_prefix ''double'' (in_ReturnType i)
       then if fa_regs a = 1
            then setResult rl 8 (if fa_immFirst a then f (fa_immDP a) x else f x (fa_immDP a)) i
            else bind_res (op_at 1 i) (\<lambda>y. setResult rl 8 (f x y) i)
       else let wide = (\<lambda>w :: int64. fp_ftod u (ucast w)); narrow = (\<lambda>d. ucast (fp_dtof u d))
            in if fa_regs a = 1
               then setResult rl 4 (narrow (if fa_immFirst a then f (fp_ftod u (fa_immSP a)) (wide x) else f (wide x) (fp_ftod u (fa_immSP a)))) i
               else bind_res (op_at 1 i) (\<lambda>y. setResult rl 4 (narrow (f (wide x) (wide y))) i))"

definition FAdd_compute :: "fpu \<Rightarrow> fp_args \<Rightarrow> register_list \<Rightarrow> instr \<Rightarrow> instr result" where
  "FAdd_compute u = fp_binary (fp_dadd u) u"

definition FSub_compute :: "fpu \<Rightarrow> fp_args \<Rightarrow> register_list \<Rightarrow> instr \<Rightarrow> instr result" where
  "FSub_compute u = fp_binary (fp_dsub u) u"

definition FMul_compute :: "fpu \<Rightarrow> fp_args \<Rightarrow> register_list \<Rightarrow> instr \<Rightarrow> instr result" where
  "FMul_compute u = fp_binary (fp_dmul u) u"

definition FDiv_compute :: "fpu \<Rightarrow> fp_args \<Rightarrow> register_list \<Rightarrow> instr \<Rightarrow> instr result" where
  "FDiv_compute u = fp_binary (fp_ddiv u) u"

section \<open>Conversions\<close>

definition nonzero :: "int64 \<Rightarrow> int64" where
  "nonzero w = (if w \<noteq> 0 then 1 else 0)"

text \<open>A type that is not listed leaves \<open>_Result\<close> as it was.\<close>

definition convert_by :: "(string \<times> (int64 \<Rightarrow> int64)) list \<Rightarrow> string \<Rightarrow> register_list \<Rightarrow> instr \<Rightarrow> instr result" where
  "convert_by table ty rl i =
     (case map_of table ty of
        Some f \<Rightarrow> bind_res (op_at 0 i) (\<lambda>x. store_result rl (f x) i)
      | None \<Rightarrow> setResult rl 8 (in_Result i) i)"

definition Trunc_compute :: "string \<Rightarrow> register_list \<Rightarrow> instr \<Rightarrow> instr result" where
  "Trunc_compute = convert_by [(''i32'', \<lambda>x. 0xffffffff AND x), (''i16'', \<lambda>x. 0xffff AND x), (''i8'', \<lambda>x. 0xff AND x), (''i1'', nonzero)]"

definition ZExt_compute :: "string \<Rightarrow> register_list \<Rightarrow> instr \<Rightarrow> instr result" where
  "ZExt_compute = convert_by [(''i64'', \<lambda>x. x), (''i32'', zext32), (''i16'', \<lambda>x. ucast (ucast x :: 16 word)),
     (''i8'', \<lambda>x. ucast (ucast x :: 8 word)), (''i1'', nonzero)]"

definition SExt_compute :: "string \<Rightarrow> register_list \<Rightarrow> instr \<Rightarrow> instr result" where
  "SExt_compute = convert_by [(''i64'', \<lambda>x. x), (''i32'', sext32), (''i16'', \<lambda>x. scast (ucast x :: 16 word)),
     (''i8'', \<lambda>x. scast (ucast x :: 8 word)), (''i1'', nonzero)]"

definition FPToUI_compute :: "string \<Rightarrow> register_list \<Rightarrow> instr \<Rightarrow> instr result" where
  "FPToUI_compute = convert_by [(''i64'', \<lambda>x. x), (''i32'', zext32), (''i16'', \<lambda>x. ucast (ucast x :: 16 word)),
     (''i8'', \<lambda>x. ucast (ucast x :: 8 word)), (''i1'', nonzero)]"

definition FPToSI_compute :: "string \<Rightarrow> register_list \<Rightarrow> instr \<Rightarrow> instr result" where
  "FPToSI_compute = convert_by [(''i64'', \<lambda>x. x), (''i32'', sext32), (''i16'', \<lambda>x. scast (ucast x :: 16 word)),
     (''i8'', \<lambda>x. scast (ucast x :: 8 word)), (''i1'', nonzero)]"

text \<open>The floating-point value is converted back when it is assigned to the \<open>uint64_t\<close> \<open>_Result\<close>.\<close>

definition UIToFP_compute :: "fpu \<Rightarrow> string \<Rightarrow> register_list \<Rightarrow> instr \<Rightarrow> instr result" where
  "UIToFP_compute u = convert_by [(''double'', fp_dtou u \<circ> fp_itod u), (''float'', fp_ftou u \<circ> fp_itof u)]"

definition SIToFP_compute :: "fpu \<Rightarrow> string \<Rightarrow> register_list \<Rightarrow> instr \<Rightarrow> instr result" where
  "SIToFP_compute u = convert_by [(''double'', fp_dtou u \<circ> fp_itod u), (''float'', fp_ftou u \<circ> fp_itof u)]"

definition FPTrunc_compute :: "fpu \<Rightarrow> string \<Rightarrow> register_list \<Rightarrow> instr \<Rightarrow> instr result" where
  "FPTrunc_compute u = convert_by [(''float'', fp_ftou u \<circ> fp_itof u)]"

definition FPExt_compute :: "fpu \<Rightarrow> string \<Rightarrow> register_list \<Rightarrow> instr \<Rightarrow> instr result" where
  "FPExt_compute u = convert_by [(''double'', fp_dtou u \<circ> fp_itod u)]"

section \<open>Memory\<close>

definition set_reg :: "nat \<Rightarrow> register \<Rightarrow> register_list \<Rightarrow> register_list" where
  "set_reg r reg rl = rl\<lparr> rl_RegList := (rl_RegList rl)[r := reg] \<rparr>"

definition Load_compute :: "nat \<Rightarrow> register_list \<Rightarrow> instr \<Rightarrow> (instr \<times> register_list \<times> mem_effect) result" where
  "Load_compute ptr rl i =
     bind_res (reg_at rl ptr) (\<lambda>p.
     bind_res (op_at 0 i) (\<lambda>src.
       case in_ReturnRegister i of None \<Rightarrow> Inl OutOfBounds
       | Some r \<Rightarrow> bind_res (reg_at rl r) (\<lambda>reg. bind_res (setSize (in_ReturnType i) reg) (\<lambda>reg'.
           Inr (i\<lparr> in_Global := reg_Global p \<rparr>, set_reg r reg' rl, EnqueueRead src (reg_Size reg'))))))"

definition Store_compute :: "nat \<Rightarrow> nat option \<Rightarrow> bool \<Rightarrow> int64 \<Rightarrow> register_list \<Rightarrow> instr \<Rightarrow> (instr \<times> register_list \<times> mem_effect) result" where
  "Store_compute ptr val immVal imm rl i =
     bind_res (op_at 0 i) (\<lambda>dst.
     bind_res (reg_at rl ptr) (\<lambda>p.
     bind_res (if immVal then bind_res (stoi (tl (in_ReturnType i))) (\<lambda>n. Inr (imm, unat (word_of_int (BYTESIZE n) :: 64 word)))
               else bind_res (op_at 1 i) (\<lambda>d. case val of None \<Rightarrow> Inl OutOfBounds
                      | Some v \<Rightarrow> bind_res (reg_at rl v) (\<lambda>reg. Inr (d, reg_Size reg)))) (\<lambda>(d, sz).
       if sz \<le> 8 then Inr (i\<lparr> in_Global := reg_Global p \<rparr>, rl, EnqueueWrite dst (le_bytes sz (unat d))) else Inl OutOfBounds)))"

section \<open>Addresses\<close>

text \<open>The index at position \<open>k\<close>: an immediate where there is no register.\<close>

definition gep_index :: "gep_args \<Rightarrow> instr \<Rightarrow> nat \<Rightarrow> int64 result" where
  "gep_index g i k =
     (if k < length (in_Dependencies i)
      then case in_Dependencies i ! k of
             None \<Rightarrow> if k < length (ga_ImmIdx g) then Inr (ga_ImmIdx g ! k) else Inl OutOfBounds
           | Some _ \<Rightarrow> op_at k i
      else Inl OutOfBounds)"

fun gep_indices :: "gep_args \<Rightarrow> instr \<Rightarrow> nat list \<Rightarrow> int64 list result" where
  "gep_indices g i [] = Inr []"
| "gep_indices g i (k # ks) = bind_res (gep_index g i k) (\<lambda>v. bind_res (gep_indices g i ks) (\<lambda>vs. Inr (v # vs)))"

text \<open>A pointer to a named type: \<open>j\<close> is the position of the last index.\<close>

definition gep_struct :: "gep_args \<Rightarrow> instr \<Rightarrow> int64 result" where
  "gep_struct g i =
     (let j = (case ga_LLVMType g of None \<Rightarrow> (0 :: nat) | Some _ \<Rightarrow> 1);
          sz = (case ga_LLVMType g of None \<Rightarrow> (0 :: int64) | Some n \<Rightarrow> word_of_int n)
      in bind_res (gep_indices g i [0..<Suc j]) (\<lambda>vs.
           Inr (in_ActivePtr i + (sum_list (map (\<lambda>v. sz * v) (butlast vs)) + last vs) * (case ga_LLVMType g of None \<Rightarrow> 4 | Some _ \<Rightarrow> 8))))"

text \<open>
  The element counts of a nested array type \<open>[A x [B x ...]]\<close>, up to the first closing bracket,
  with the position of the last opening one and of the closing one.
\<close>

fun gep_scan :: "string \<Rightarrow> nat \<Rightarrow> nat \<Rightarrow> (int list \<times> nat \<times> nat option) result" where
  "gep_scan [] pos prev = Inr ([], prev, None)"
| "gep_scan (c # cs) pos prev =
     (if c = CHR ''['' then bind_res (stoi (takeWhile (\<lambda>d. d \<noteq> CHR '' '') cs))
        (\<lambda>n. bind_res (gep_scan cs (Suc pos) pos) (\<lambda>(ns, pr, cl). Inr (n # ns, pr, cl)))
      else if c = CHR '']'' then Inr ([], prev, Some pos)
      else gep_scan cs (Suc pos) prev)"

definition gep_elem_size :: "string \<Rightarrow> int64 result" where
  "gep_elem_size ty =
     (if ty \<noteq> [] \<and> hd ty = CHR ''i'' then bind_res (stoi (tl ty)) (\<lambda>n. Inr (word_of_int (BYTESIZE n)))
      else if ty = ''float'' then Inr 4
      else if ty = ''double'' then Inr 8
      else Inr 0)"

text \<open>
  The offset of the indices: index \<open>k\<close> counts blocks of as many elements as the counts after the
  first \<open>k\<close> multiply to.
\<close>

fun gep_offset :: "int64 list \<Rightarrow> int64 list \<Rightarrow> int64" where
  "gep_offset es [] = 0"
| "gep_offset [] (v # vs) = v + gep_offset [] vs"
| "gep_offset (e # es) (v # vs) = prod_list (e # es) * v + gep_offset es vs"

text \<open>The name of the element type: from two behind the \<open>x\<close> to the bracket.\<close>

definition gep_elem_type :: "string \<Rightarrow> nat \<Rightarrow> nat \<Rightarrow> string result" where
  "gep_elem_type pty prev cl =
     (let rest = drop prev pty;
          sub = (if CHR ''x'' \<in> set rest then prev + length (takeWhile (\<lambda>d. d \<noteq> CHR ''x'') rest) + 2 else 1)
      in if length pty < sub then Inl OutOfBounds
         else Inr (if cl < sub then drop sub pty else take (cl - sub) (drop sub pty)))"

definition gep_array :: "gep_args \<Rightarrow> instr \<Rightarrow> int64 result" where
  "gep_array g i =
     bind_res (gep_scan (ga_Pty g) 0 0) (\<lambda>(ns, prev, cl).
     bind_res (case cl of None \<Rightarrow> Inr (0, length ns)
               | Some c \<Rightarrow> (case ga_LLVMType g of
                   Some n \<Rightarrow> Inr (word_of_int n * 8, Suc (length ns))
                 | None \<Rightarrow> bind_res (gep_elem_type (ga_Pty g) prev c) (\<lambda>ty. bind_res (gep_elem_size ty) (\<lambda>sz. Inr (sz, length ns))))) (\<lambda>(sz, j).
       if length (in_Dependencies i) \<le> j then Inl OutOfBounds
       else bind_res (gep_indices g i [0..<Suc j]) (\<lambda>vs. Inr (in_ActivePtr i + gep_offset (map word_of_int ns) vs * sz))))"

definition gep_scalar :: "gep_args \<Rightarrow> instr \<Rightarrow> int64 result" where
  "gep_scalar g i =
     bind_res (if in_Dependencies i = [] then Inr 1
               else if hd (ga_Pty g) = CHR ''i'' then bind_res (stoi (tl (ga_Pty g))) (\<lambda>n. Inr (word_of_int (n sdiv 8)))
               else if has_prefix ''double'' (ga_Pty g) then Inr 8
               else if has_prefix ''float'' (ga_Pty g) then Inr 4 else Inr 1) (\<lambda>sz :: int64.
     bind_res (gep_indices g i [0..<ga_Index g]) (\<lambda>vs. Inr (sum_list (map (\<lambda>v. v * sz) vs) + in_ActivePtr i)))"

definition GetElementPtr_compute :: "gep_args \<Rightarrow> register_list \<Rightarrow> instr \<Rightarrow> instr result" where
  "GetElementPtr_compute g rl i =
     (if ga_Pty g = [] then Inl OutOfBounds
      else bind_res (if hd (ga_Pty g) = CHR ''%'' then gep_struct g i
                     else if hd (ga_Pty g) = CHR ''['' then gep_array g i
                     else gep_scalar g i) (\<lambda>a. setResult rl 8 a i))"

section \<open>Comparisons, control and selection\<close>

definition of_bool64 :: "bool \<Rightarrow> int64" where
  "of_bool64 b = (if b then 1 else 0)"

text \<open>The first flag that is set decides.\<close>

fun first_flag :: "int64 \<Rightarrow> (int64 \<times> bool) list \<Rightarrow> bool option" where
  "first_flag fl [] = None"
| "first_flag fl ((f, b) # fs) = (if fl AND f \<noteq> 0 then Some b else first_flag fl fs)"

definition icmp_table :: "int64 \<Rightarrow> int64 \<Rightarrow> (int64 \<times> bool) list" where
  "icmp_table x y = [(0x800, x = y), (0x1000, x \<noteq> y), (0x2000, x > y), (0x4000, x \<ge> y), (0x8000, x < y), (0x10000, x \<le> y),
     (0x20000, sint x > sint y), (0x40000, sint x \<ge> sint y), (0x80000, sint x < sint y), (0x100000, sint x \<le> sint y)]"

definition ICmp_compute :: "int64 \<Rightarrow> nat \<Rightarrow> int64 \<Rightarrow> register_list \<Rightarrow> instr \<Rightarrow> instr result" where
  "ICmp_compute fl n imm rl i =
     bind_res (narrow_ops sext32 n i) (\<lambda>i.
     bind_res (if length (in_Ops i) = 1 then bind_res (op_at 0 i) (\<lambda>x. Inr (x, imm))
               else bind_res (op_at 0 i) (\<lambda>x. bind_res (op_at 1 i) (\<lambda>y. Inr (x, y)))) (\<lambda>(x, y).
       case first_flag fl (icmp_table x y) of Some b \<Rightarrow> store_result rl (of_bool64 b) i | None \<Rightarrow> setResult rl 8 (in_Result i) i))"

text \<open>
  An integer operand is compared with the immediate after conversion to \<open>double\<close>; two registers are
  compared as integers.
\<close>

definition fcmp_table :: "(bool \<times> bool \<times> bool \<times> bool) \<Rightarrow> (int64 \<times> bool) list" where
  "fcmp_table c = (let (eq, lt, gt, both) = c in
     [(0x200000, False), (0x800000, eq), (0x1000000, gt), (0x2000000, gt \<or> eq), (0x4000000, lt), (0x8000000, lt \<or> eq), (0x10000000, \<not> eq),
      (0x20000000, both), (0x40000000, eq), (0x2000, gt), (0x4000, gt \<or> eq), (0x8000, lt), (0x10000, lt \<or> eq), (0x80000000, \<not> eq),
      (0x100000000, both), (0x400000, True)])"

definition FCmp_compute :: "fpu \<Rightarrow> int64 \<Rightarrow> int64 \<Rightarrow> register_list \<Rightarrow> instr \<Rightarrow> instr result" where
  "FCmp_compute u fl immDP rl i =
     bind_res (op_at 0 i) (\<lambda>x.
     bind_res (if length (in_Ops i) = 1
               then let d = fp_itod u x in Inr (fp_deq u d immDP, fp_dlt u d immDP, fp_dlt u immDP d, x \<noteq> 0 \<and> \<not> fp_deq u immDP 0)
               else bind_res (op_at 1 i) (\<lambda>y. Inr (x = y, sint x < sint y, sint x > sint y, x \<noteq> 0 \<and> y \<noteq> 0))) (\<lambda>c.
       case first_flag fl (fcmp_table c) of Some b \<Rightarrow> store_result rl (of_bool64 b) i | None \<Rightarrow> setResult rl 8 (in_Result i) i))"

definition str_at :: "nat \<Rightarrow> 'a list \<Rightarrow> 'a result" where
  "str_at k xs = (if k < length xs then Inr (xs ! k) else Inl OutOfBounds)"

definition Br_compute :: "bool \<Rightarrow> nat \<Rightarrow> string list \<Rightarrow> string \<Rightarrow> register_list \<Rightarrow> instr \<Rightarrow> instr result" where
  "Br_compute uncond cond branches dest rl i =
     bind_res (if uncond then Inr dest
               else bind_res (reg_at rl cond) (\<lambda>r. str_at (if reg_Value r \<noteq> 0 then 0 else 1) branches)) (\<lambda>d. Inr (i\<lparr> in_Dest := d \<rparr>))"

fun switch_find :: "int64 \<Rightarrow> nat \<Rightarrow> string list \<Rightarrow> int list \<Rightarrow> string option result" where
  "switch_find v k [] cs = Inr None"
| "switch_find v k (b # bs) cs = bind_res (str_at k cs) (\<lambda>c. if v = word_of_int c then Inr (Some b) else switch_find v (Suc k) bs cs)"

definition LLVMSwitch_compute :: "string list \<Rightarrow> int list \<Rightarrow> instr \<Rightarrow> instr result" where
  "LLVMSwitch_compute branches cases i =
     bind_res (op_at 0 i) (\<lambda>v.
     bind_res (switch_find v 1 (tl branches) cases) (\<lambda>d.
       case d of Some b \<Rightarrow> Inr (i\<lparr> in_Dest := b \<rparr>) | None \<Rightarrow> bind_res (str_at 0 branches) (\<lambda>b. Inr (i\<lparr> in_Dest := b \<rparr>))))"

fun phi_value :: "register_list \<Rightarrow> instr \<Rightarrow> string list \<Rightarrow> nat option list \<Rightarrow> string list \<Rightarrow> int64 option result" where
  "phi_value rl i [] regs labels = Inr None"
| "phi_value rl i (v # vs) regs labels =
     bind_res (str_at 0 labels) (\<lambda>l.
       if l = in_PrevBB i \<and> v = ''reg''
       then bind_res (str_at 0 regs) (\<lambda>r. case r of None \<Rightarrow> Inl OutOfBounds | Some k \<Rightarrow> bind_res (reg_at rl k) (\<lambda>reg. Inr (Some (reg_Value reg))))
       else if l = in_PrevBB i \<and> in_ReturnType i \<noteq> [] \<and> hd (in_ReturnType i) = CHR ''i''
       then bind_res (stoi v) (\<lambda>n. Inr (Some (word_of_int n)))
       else phi_value rl i vs (tl regs) (tl labels))"

definition Phi_compute :: "string list \<Rightarrow> nat option list \<Rightarrow> string list \<Rightarrow> register_list \<Rightarrow> instr \<Rightarrow> instr result" where
  "Phi_compute vals regs labels rl i =
     bind_res (phi_value rl i vals regs labels) (\<lambda>v. case v of Some x \<Rightarrow> store_result rl x i | None \<Rightarrow> setResult rl 8 (in_Result i) i)"

definition Select_compute :: "bool list \<Rightarrow> int64 list \<Rightarrow> register_list \<Rightarrow> instr \<Rightarrow> instr result" where
  "Select_compute imm vals rl i =
     (if in_ReturnType i \<noteq> [] \<and> hd (in_ReturnType i) = CHR ''i''
      then bind_res (op_at 0 i) (\<lambda>c.
           bind_res (if c \<noteq> 0
                     then bind_res (str_at 0 imm) (\<lambda>m. if m then str_at 0 vals else op_at 1 i)
                     else bind_res (str_at 1 imm) (\<lambda>m. if m then str_at 1 vals
                            else bind_res (str_at 0 imm) (\<lambda>m0. if m0 then op_at 1 i else op_at 2 i))) (\<lambda>v. store_result rl v i))
      else setResult rl 8 (in_Result i) i)"

section \<open>Dispatch\<close>

definition plain :: "register_list \<Rightarrow> instr result \<Rightarrow> (instr \<times> register_list \<times> mem_effect) result" where
  "plain rl r = bind_res r (\<lambda>i. Inr (i, rl, NoEffect))"

fun compute :: "fpu \<Rightarrow> register_list \<Rightarrow> instr_class \<Rightarrow> instr \<Rightarrow> (instr \<times> register_list \<times> mem_effect) result" where
  "compute u rl (Br un c bs d) i = plain rl (Br_compute un c bs d rl i)"
| "compute u rl (LLVMSwitch bs cs) i = plain rl (LLVMSwitch_compute bs cs i)"
| "compute u rl (Add a) i = plain rl (Add_compute a rl i)"
| "compute u rl (Sub a) i = plain rl (Sub_compute a rl i)"
| "compute u rl (Mul a) i = plain rl (Mul_compute a rl i)"
| "compute u rl (UDiv a) i = plain rl (UDiv_compute a rl i)"
| "compute u rl (SDiv a) i = plain rl (SDiv_compute a rl i)"
| "compute u rl (URem a) i = plain rl (URem_compute a rl i)"
| "compute u rl (SRem a) i = plain rl (SRem_compute a rl i)"
| "compute u rl (FAdd a) i = plain rl (FAdd_compute u a rl i)"
| "compute u rl (FSub a) i = plain rl (FSub_compute u a rl i)"
| "compute u rl (FMul a) i = plain rl (FMul_compute u a rl i)"
| "compute u rl (FDiv a) i = plain rl (FDiv_compute u a rl i)"
| "compute u rl (Shl a) i = plain rl (Shl_compute a rl i)"
| "compute u rl (LShr a) i = plain rl (LShr_compute a rl i)"
| "compute u rl (AShr a) i = plain rl (AShr_compute a rl i)"
| "compute u rl (And a) i = plain rl (And_compute a rl i)"
| "compute u rl (Or a) i = plain rl (Or_compute a rl i)"
| "compute u rl (Xor a) i = plain rl (Xor_compute a rl i)"
| "compute u rl (Trunc t) i = plain rl (Trunc_compute t rl i)"
| "compute u rl (ZExt t) i = plain rl (ZExt_compute t rl i)"
| "compute u rl (SExt t) i = plain rl (SExt_compute t rl i)"
| "compute u rl (FPToUI t) i = plain rl (FPToUI_compute t rl i)"
| "compute u rl (FPToSI t) i = plain rl (FPToSI_compute t rl i)"
| "compute u rl (UIToFP t) i = plain rl (UIToFP_compute u t rl i)"
| "compute u rl (SIToFP t) i = plain rl (SIToFP_compute u t rl i)"
| "compute u rl (FPTrunc t) i = plain rl (FPTrunc_compute u t rl i)"
| "compute u rl (FPExt t) i = plain rl (FPExt_compute u t rl i)"
| "compute u rl (Load p) i = Load_compute p rl i"
| "compute u rl (Store p v im d) i = Store_compute p v im d rl i"
| "compute u rl (GetElementPtr g) i = plain rl (GetElementPtr_compute g rl i)"
| "compute u rl (Phi vs rs ls) i = plain rl (Phi_compute vs rs ls rl i)"
| "compute u rl (Select im vs) i = plain rl (Select_compute im vs rl i)"
| "compute u rl (ICmp fl n imm) i = plain rl (ICmp_compute fl n imm rl i)"
| "compute u rl (FCmp fl d) i = plain rl (FCmp_compute u fl d rl i)"
| "compute u rl _ i = Inr (i, rl, NoEffect)"

section \<open>Arithmetic at the width of the type\<close>

text \<open>The two operands of an integer instruction, in the order of the operation.\<close>

definition int_operands :: "int_args \<Rightarrow> instr \<Rightarrow> (int64 \<times> int64) result" where
  "int_operands a i =
     (if ia_regs a = 1
      then bind_res (op_at 0 i) (\<lambda>x. Inr (if ia_immFirst a then (ia_imm a, x) else (x, ia_imm a)))
      else bind_res (op_at 0 i) (\<lambda>x. bind_res (op_at 1 i) (\<lambda>y. Inr (x, y))))"

text \<open>The return register can take \<open>n\<close> bits.\<close>

definition returns_bits :: "register_list \<Rightarrow> instr \<Rightarrow> nat \<Rightarrow> bool" where
  "returns_bits rl i n \<longleftrightarrow> (\<exists>r reg. in_ReturnRegister i = Some r \<and> reg_at rl r = Inr reg \<and> reg_Size reg \<le> 8 \<and> n \<le> 8 * reg_Size reg)"

lemma store_result_bits:
  assumes "returns_bits rl i n"
  shows "\<exists>i'. store_result rl v i = Inr i' \<and> take_bit n (in_FinalResult i') = take_bit n v"
proof -
  from assms obtain r reg where r: "in_ReturnRegister i = Some r" "reg_at rl r = Inr reg" "reg_Size reg \<le> 8" "n \<le> 8 * reg_Size reg"
    unfolding returns_bits_def by blast
  from memcpy_low_ok [OF r(3)] obtain w where w: "memcpy_low (reg_Size reg) v (in_FinalResult i) = Inr w" by blast
  then show ?thesis using r memcpy_low_take [OF w r(4)] by (simp add: store_result_def setResult_def)
qed

lemma take_bit_ext32: "n \<le> 32 \<Longrightarrow> take_bit n (sext32 x) = take_bit n x" "n \<le> 32 \<Longrightarrow> take_bit n (zext32 x) = take_bit n x"
  by (rule bit_word_eqI; auto simp: bit_take_bit_iff sext32_def zext32_def bit_simps)+

text \<open>Narrowing keeps the low bits and changes nothing else that the result depends on.\<close>

lemma narrow_ops_operands:
  assumes ops: "int_operands a i = Inr (x, y)" and w: "\<And>v. take_bit n (f v) = take_bit n v \<or> in_ReturnType i \<noteq> ''i32''"
  shows "\<exists>i' x' y'. narrow_ops f (ia_regs a) i = Inr i' \<and> int_operands a i' = Inr (x', y')
     \<and> take_bit n x' = take_bit n x \<and> take_bit n y' = take_bit n y \<and> in_ReturnRegister i' = in_ReturnRegister i"
proof (cases "in_ReturnType i = ''i32''")
  case True
  then have f: "take_bit n (f v) = take_bit n v" for v using w by blast
  have l: "0 < length (in_Ops i)" "ia_regs a \<noteq> 1 \<Longrightarrow> Suc 0 < length (in_Ops i)"
    using ops by (auto simp: int_operands_def op_at_def split: if_splits)
  show ?thesis
  proof (cases "ia_regs a = 1")
    case one: True
    then show ?thesis using ops True l(1) f by (auto simp: narrow_ops_def conv_op_def int_operands_def op_at_def split: if_splits)
  next
    case False
    then show ?thesis using ops True l f by (auto simp: narrow_ops_def conv_op_def int_operands_def op_at_def)
  qed
qed (use ops in \<open>simp add: narrow_ops_def\<close>)

lemma int_binary_steps:
  assumes "narrow_ops f (ia_regs a) i = Inr i'" and "int_operands a i' = Inr (x, y)"
  shows "int_binary f g g g a rl i = bind_res (g x y) (\<lambda>v. store_result rl v i')"
  using assms by (auto simp: int_binary_def int_operands_def bind_res_eq_Inr_iff split: if_splits)

lemma int_binary_low_bits:
  assumes ops: "int_operands a i = Inr (x, y)" and ret: "returns_bits rl i n" and n: "in_ReturnType i = ''i32'' \<Longrightarrow> n \<le> 32"
    and g: "\<And>x y. take_bit n (g x y) = take_bit n (g (take_bit n x) (take_bit n y))"
  shows "\<exists>i'. int_binary sext32 (pure2 g) (pure2 g) (pure2 g) a rl i = Inr i' \<and> take_bit n (in_FinalResult i') = take_bit n (g (take_bit n x) (take_bit n y))"
proof -
  have "take_bit n (sext32 v) = take_bit n v \<or> in_ReturnType i \<noteq> ''i32''" for v using n take_bit_ext32(1) by blast
  then obtain i1 x' y' where i1: "narrow_ops sext32 (ia_regs a) i = Inr i1" "int_operands a i1 = Inr (x', y')"
    "take_bit n x' = take_bit n x" "take_bit n y' = take_bit n y" "in_ReturnRegister i1 = in_ReturnRegister i"
    using narrow_ops_operands [OF ops] by blast
  then have "returns_bits rl i1 n" using ret by (simp add: returns_bits_def)
  from store_result_bits [OF this] obtain i' where "store_result rl (g x' y') i1 = Inr i'" "take_bit n (in_FinalResult i') = take_bit n (g x' y')" by blast
  then show ?thesis using int_binary_steps [OF i1(1,2)] g [of x' y'] i1(3,4) by (simp add: pure2_def)
qed

lemma low_bits_ops:
  "take_bit n (x + y) = take_bit n (take_bit n x + take_bit n y)" "take_bit n (x - y) = take_bit n (take_bit n x - take_bit n y)"
  "take_bit n (x * y) = take_bit n (take_bit n x * take_bit n y)" "take_bit n (x AND y) = take_bit n (take_bit n x AND take_bit n y)"
  "take_bit n (x OR y) = take_bit n (take_bit n x OR take_bit n y)" "take_bit n (x XOR y) = take_bit n (take_bit n x XOR take_bit n y)"
  for x y :: int64
proof -
  show "take_bit n (x + y) = take_bit n (take_bit n x + take_bit n y)"
    by transfer (simp add: take_bit_add take_bit_take_bit min_def)
  show "take_bit n (x * y) = take_bit n (take_bit n x * take_bit n y)"
    by transfer (simp add: take_bit_mult take_bit_take_bit min_def)
  show "take_bit n (x - y) = take_bit n (take_bit n x - take_bit n y)"
    by transfer (simp add: take_bit_diff take_bit_take_bit min_def)
  show "take_bit n (x AND y) = take_bit n (take_bit n x AND take_bit n y)" "take_bit n (x OR y) = take_bit n (take_bit n x OR take_bit n y)"
    "take_bit n (x XOR y) = take_bit n (take_bit n x XOR take_bit n y)" by (simp_all add: take_bit_and take_bit_or take_bit_xor)
qed

text \<open>
  C21. Integer addition, subtraction, multiplication and the bitwise operations compute at the
  width of their type, for every type that fits the return register: whatever garbage the
  operands carry above the \<open>n\<close> bits of the type, the \<open>n\<close> bits of the result are those of the
  operation on the \<open>n\<close> bits of the operands, modulo \<open>2\<close> to the \<open>n\<close>, with an immediate on either
  side or two registers.
\<close>

theorem integer_ops_wrap_at_width:
  assumes "int_operands a i = Inr (x, y)" and "returns_bits rl i n" and "in_ReturnType i = ''i32'' \<Longrightarrow> n \<le> 32"
  shows "(\<exists>i'. Add_compute a rl i = Inr i' \<and> take_bit n (in_FinalResult i') = take_bit n (take_bit n x + take_bit n y))
    \<and> (\<exists>i'. Sub_compute a rl i = Inr i' \<and> take_bit n (in_FinalResult i') = take_bit n (take_bit n x - take_bit n y))
    \<and> (\<exists>i'. Mul_compute a rl i = Inr i' \<and> take_bit n (in_FinalResult i') = take_bit n (take_bit n x * take_bit n y))
    \<and> (\<exists>i'. And_compute a rl i = Inr i' \<and> take_bit n (in_FinalResult i') = take_bit n (take_bit n x AND take_bit n y))
    \<and> (\<exists>i'. Or_compute a rl i = Inr i' \<and> take_bit n (in_FinalResult i') = take_bit n (take_bit n x OR take_bit n y))
    \<and> (\<exists>i'. Xor_compute a rl i = Inr i' \<and> take_bit n (in_FinalResult i') = take_bit n (take_bit n x XOR take_bit n y))"
  unfolding Add_compute_def Sub_compute_def Mul_compute_def And_compute_def Or_compute_def Xor_compute_def
  by (intro conjI int_binary_low_bits [OF assms] low_bits_ops) simp_all

definition demo_regs :: register_list where
  "demo_regs = RegisterList\<lparr> rl_RegList := [(Register ''a'' 0)\<lparr> reg_Size := 4 \<rparr>, Register ''p'' 0x1000] \<rparr>"

definition demo_instr :: "string \<Rightarrow> int64 list \<Rightarrow> instr" where
  "demo_instr ty ops = \<lparr> in_LLVMLine = ''l'', in_OpCode = ''op'', in_ReturnType = ty, in_ReturnRegister = Some 0, in_MaxCycle = 1,
     in_Dependencies = map (\<lambda>_. Some 0) ops, in_FunctionalUnit = 1, in_Terminator = False, in_RawCheck = None, in_class = BadInstruction,
     in_Parents = [], in_Children = [], in_ActiveParents = 0, in_CurrCycle = 0, in_FinalResult = 0, in_Result = 0, in_Ops = ops,
     in_PrevBB = [], in_Dest = [], in_Global = False, in_ActivePtr = 0x1000, in_Req = None \<rparr>"

abbreviation two_regs :: int_args where
  "two_regs \<equiv> \<lparr> ia_regs = 2, ia_imm = 0, ia_immFirst = False \<rparr>"

lemma demo_returns: "returns_bits demo_regs (demo_instr ty ops) 32"
  by (simp add: returns_bits_def demo_regs_def demo_instr_def RegisterList_def Register_def reg_at_def)

theorem integer_ops_wrap_at_width_witness:
  "\<exists>i'. Add_compute two_regs demo_regs (demo_instr ''i32'' [0x7fffffff, 0xabc00000001]) = Inr i'
     \<and> take_bit 32 (in_FinalResult i') = take_bit 32 0x80000000"
proof -
  have "int_operands two_regs (demo_instr ''i32'' [0x7fffffff, 0xabc00000001]) = Inr (0x7fffffff, 0xabc00000001)"
    by (simp add: int_operands_def demo_instr_def op_at_def)
  moreover have "take_bit 32 (take_bit 32 0x7fffffff + take_bit 32 0xabc00000001 :: int64) = take_bit 32 0x80000000" by code_simp
  ultimately show ?thesis using integer_ops_wrap_at_width [OF _ demo_returns, of two_regs "''i32''" "[0x7fffffff, 0xabc00000001]"] by auto
qed

section \<open>Division and comparison of 32-bit integers\<close>

lemma sint_sext32: "sint (sext32 x) = sint (ucast x :: 32 word)"
  unfolding sext32_def by (rule sint_up_scast) (simp add: is_up)

lemma uint_zext32: "uint (zext32 x) = uint (ucast x :: 32 word)"
  unfolding zext32_def by (rule uint_up_ucast) (simp add: is_up)

lemma sint_zext32: "sint (zext32 x) = uint (ucast x :: 32 word)"
proof -
  have "uint (ucast x :: 32 word) < 2 ^ 32" using uint_lt2p [of "ucast x :: 32 word"] by simp
  then show ?thesis by (simp add: sint_uint uint_zext32 signed_take_bit_int_eq_self_iff order_trans [OF _ uint_ge_0])
qed

lemma ucast32_eqI:
  fixes w v :: int64
  assumes "take_bit 32 w = take_bit 32 v" shows "(ucast w :: 32 word) = ucast v"
proof (rule bit_word_eqI)
  fix n assume "n < LENGTH(32)"
  then show "bit (ucast w :: 32 word) n = bit (ucast v :: 32 word) n"
    using arg_cong [OF assms, of "\<lambda>u. bit u n"] by (simp add: bit_take_bit_iff bit_ucast_iff)
qed

lemma narrow32_two:
  assumes "in_ReturnType i = ''i32''" and "in_Ops i = [x, y]" and "ia_regs a \<noteq> 1"
  shows "narrow_ops f (ia_regs a) i = Inr (i\<lparr> in_Ops := [f x, f y] \<rparr>)" "int_operands a (i\<lparr> in_Ops := [f x, f y] \<rparr>) = Inr (f x, f y)"
  using assms by (simp_all add: narrow_ops_def conv_op_def op_at_def int_operands_def)

lemma store_result32:
  assumes "returns_bits rl i 32"
  shows "\<exists>i'. store_result rl v (i\<lparr> in_Ops := os \<rparr>) = Inr i' \<and> (ucast (in_FinalResult i') :: 32 word) = ucast v"
proof -
  have "returns_bits rl (i\<lparr> in_Ops := os \<rparr>) 32" using assms by (simp add: returns_bits_def)
  from store_result_bits [OF this, of v] show ?thesis using ucast32_eqI by blast
qed

lemma ucast_of_int: "(ucast (word_of_int k :: int64) :: 32 word) = word_of_int k"
  by (rule bit_word_eqI) (simp add: bit_simps)

lemma c_div_sext32:
  "(ucast y :: 32 word) \<noteq> 0 \<Longrightarrow> c_sdiv (sext32 x) (sext32 y) = Inr (word_of_int (sint (ucast x :: 32 word) sdiv sint (ucast y :: 32 word)))"
  "(ucast y :: 32 word) \<noteq> 0 \<Longrightarrow> c_smod (sext32 x) (sext32 y) = Inr (word_of_int (sint (ucast x :: 32 word) smod sint (ucast y :: 32 word)))"
  "(ucast y :: 32 word) \<noteq> 0 \<Longrightarrow> c_sdiv (zext32 x) (zext32 y) = Inr (word_of_int (uint (ucast x :: 32 word) sdiv uint (ucast y :: 32 word)))"
  "(ucast y :: 32 word) \<noteq> 0 \<Longrightarrow> c_smod (zext32 x) (zext32 y) = Inr (word_of_int (uint (ucast x :: 32 word) smod uint (ucast y :: 32 word)))"
proof -
  have "sint (ucast x :: 32 word) \<noteq> - (2 ^ 63)" using sint_greater_eq [of "ucast x :: 32 word"] by simp
  moreover have "sext32 y = 0 \<longleftrightarrow> (ucast y :: 32 word) = 0" "zext32 y = 0 \<longleftrightarrow> (ucast y :: 32 word) = 0"
    using sint_sext32 [of y] uint_zext32 [of y] by (metis sint_0 signed_eq_0_iff, metis uint_0_iff)
  moreover have "0 \<le> sint (zext32 x)" using uint_ge_0 [of "ucast x :: 32 word"] unfolding sint_zext32 .
  then have "sint (zext32 x) \<noteq> - (2 ^ 63)" by auto
  ultimately have "(ucast y :: 32 word) \<noteq> 0 \<Longrightarrow> \<not> div_traps (sext32 x) (sext32 y) \<and> \<not> div_traps (zext32 x) (zext32 y)"
    by (simp add: div_traps_def sint_sext32)
  then show "(ucast y :: 32 word) \<noteq> 0 \<Longrightarrow> c_sdiv (sext32 x) (sext32 y) = Inr (word_of_int (sint (ucast x :: 32 word) sdiv sint (ucast y :: 32 word)))"
    "(ucast y :: 32 word) \<noteq> 0 \<Longrightarrow> c_smod (sext32 x) (sext32 y) = Inr (word_of_int (sint (ucast x :: 32 word) smod sint (ucast y :: 32 word)))"
    "(ucast y :: 32 word) \<noteq> 0 \<Longrightarrow> c_sdiv (zext32 x) (zext32 y) = Inr (word_of_int (uint (ucast x :: 32 word) sdiv uint (ucast y :: 32 word)))"
    "(ucast y :: 32 word) \<noteq> 0 \<Longrightarrow> c_smod (zext32 x) (zext32 y) = Inr (word_of_int (uint (ucast x :: 32 word) smod uint (ucast y :: 32 word)))"
    by (simp_all add: c_sdiv_def c_smod_def sint_sext32 sint_zext32)
qed

lemma c_div_zero: "(ucast y :: 32 word) = 0 \<Longrightarrow> c_sdiv x (sext32 y) = Inl DivByZero \<and> c_smod x (sext32 y) = Inl DivByZero
   \<and> c_sdiv x (zext32 y) = Inl DivByZero \<and> c_smod x (zext32 y) = Inl DivByZero"
  by (simp add: c_sdiv_def c_smod_def div_traps_def sext32_def zext32_def)

lemma sdiv_nonneg: "0 \<le> a \<Longrightarrow> 0 \<le> b \<Longrightarrow> a sdiv b = a div b" "0 \<le> a \<Longrightarrow> 0 \<le> b \<Longrightarrow> a smod b = a mod b" for a b :: int
proof -
  show "a sdiv b = a div b" if "0 \<le> a" "0 \<le> b"
    using that by (cases "a = 0"; cases "b = 0") (auto simp: signed_divide_int_def)
  then show "a smod b = a mod b" if "0 \<le> a" "0 \<le> b"
    using that by (cases "a = 0") (auto simp: signed_modulo_int_def)
qed



text \<open>The predicates of \<open>icmp\<close> on 32-bit values.\<close>

definition icmp32 :: "32 word \<Rightarrow> 32 word \<Rightarrow> (int64 \<times> bool) list" where
  "icmp32 x y = [(0x800, x = y), (0x1000, x \<noteq> y), (0x2000, x > y), (0x4000, x \<ge> y), (0x8000, x < y), (0x10000, x \<le> y),
     (0x20000, sint x > sint y), (0x40000, sint x \<ge> sint y), (0x80000, sint x < sint y), (0x100000, sint x \<le> sint y)]"

lemma uint_of_sint: "uint w = (if sint w < 0 then sint w + 2 ^ LENGTH('a) else sint w)" for w :: "'a::len word"
proof -
  have "uint w = sint w mod 2 ^ LENGTH('a)" by transfer (simp add: take_bit_signed_take_bit flip: take_bit_eq_mod)
  moreover have "(2 :: int) ^ (LENGTH('a) - Suc 0) \<le> 2 ^ LENGTH('a)" by (rule power_increasing) simp_all
  then have "- (2 ^ LENGTH('a)) \<le> sint w" "sint w < 2 ^ LENGTH('a)" using sint_greater_eq [of w] sint_less [of w] by linarith+
  moreover have "sint w mod 2 ^ LENGTH('a) = (sint w + 2 ^ LENGTH('a)) mod 2 ^ LENGTH('a)" by simp
  ultimately show ?thesis
    by (cases "sint w < 0") (simp_all add: mod_pos_pos_trivial [of "sint w"] mod_pos_pos_trivial [of "sint w + 2 ^ LENGTH('a)"] del: mod_add_self2)
qed

lemma sext32_compare:
  "sext32 x = sext32 y \<longleftrightarrow> (ucast x :: 32 word) = ucast y" "sext32 x < sext32 y \<longleftrightarrow> (ucast x :: 32 word) < ucast y"
proof -
  let ?x = "ucast x :: 32 word" and ?y = "ucast y :: 32 word"
  show "sext32 x = sext32 y \<longleftrightarrow> ?x = ?y" by (metis sext32_def sint_sext32 signed_word_eqI)
  have "- (2 ^ 31) \<le> sint ?x" "sint ?x < 2 ^ 31" "- (2 ^ 31) \<le> sint ?y" "sint ?y < 2 ^ 31"
    using sint_greater_eq [of ?x] sint_less [of ?x] sint_greater_eq [of ?y] sint_less [of ?y] by simp_all
  then show "sext32 x < sext32 y \<longleftrightarrow> ?x < ?y"
    unfolding word_less_def uint_of_sint sint_sext32 by simp
qed

lemma icmp_table_sext32: "icmp_table (sext32 x) (sext32 y) = icmp32 (ucast x) (ucast y)"
  using sext32_compare [of x y] sext32_compare [of y x] by (simp add: icmp_table_def icmp32_def sint_sext32 not_less [symmetric])

text \<open>
  C34. Comparison of 32-bit integers held in registers: every predicate of \<open>icmp\<close>, signed or
  unsigned, decides on the 32-bit values, although the operands are compared as 64-bit words
  after sign extension.
\<close>

theorem icmp_i32_exact:
  assumes "in_ReturnType i = ''i32''" and "in_Ops i = [x, y]" and "n \<noteq> 1" and "returns_bits rl i k"
    and "first_flag fl (icmp32 (ucast x) (ucast y)) = Some b"
  shows "\<exists>i'. ICmp_compute fl n imm rl i = Inr i' \<and> take_bit k (in_FinalResult i') = take_bit k (of_bool64 b)"
proof -
  let ?i = "i\<lparr> in_Ops := [sext32 x, sext32 y] \<rparr>"
  have "narrow_ops sext32 n i = Inr ?i" using assms(1-3) by (simp add: narrow_ops_def conv_op_def op_at_def)
  then have "ICmp_compute fl n imm rl i = store_result rl (of_bool64 b) ?i"
    unfolding ICmp_compute_def using assms(5) by (simp add: op_at_def icmp_table_sext32)
  moreover have "returns_bits rl ?i k" using assms(4) by (simp add: returns_bits_def)
  ultimately show ?thesis using store_result_bits by simp
qed

theorem icmp_i32_exact_witness:
  "\<exists>i'. ICmp_compute 0x8000 2 0 demo_regs (demo_instr ''i32'' [1, 0xffffffff]) = Inr i' \<and> take_bit 32 (in_FinalResult i') = 1"
proof -
  have "first_flag 0x8000 (icmp32 (ucast (1 :: int64)) (ucast (0xffffffff :: int64))) = Some True" by code_simp
  then show ?thesis using icmp_i32_exact [OF _ _ _ demo_returns, of "''i32''" "[1, 0xffffffff]" 1 "0xffffffff" 2 "0x8000" True 0]
    by (simp add: demo_instr_def of_bool64_def)
qed

section \<open>A shift that is not logical\<close>

text \<open>
  \<open>lshr\<close> is implemented as \<open>ashr\<close>: the two compute the same, so a 32-bit value with its top
  bit set is shifted with copies of that bit, where the logical shift of LLVM shifts in zeros.
\<close>

theorem lshr_is_arithmetic:
  "LShr_compute = AShr_compute
   \<and> (\<exists>i'. LShr_compute two_regs demo_regs (demo_instr ''i32'' [0x80000000, 4]) = Inr i'
        \<and> (ucast (in_FinalResult i') :: 32 word) = 0xf8000000 \<and> drop_bit 4 (0x80000000 :: 32 word) = 0x08000000)"
proof -
  have "\<not> isl (LShr_compute two_regs demo_regs (demo_instr ''i32'' [0x80000000, 4]))"
    "(ucast (in_FinalResult (projr (LShr_compute two_regs demo_regs (demo_instr ''i32'' [0x80000000, 4])))) :: 32 word) = 0xf8000000"
    "drop_bit 4 (0x80000000 :: 32 word) = 0x08000000" by code_simp+
  then show ?thesis by (simp add: LShr_compute_def AShr_compute_def) (metis sum.collapse(2))
qed

section \<open>Addresses of array elements\<close>

text \<open>The position of an element of a nested array in row-major order, by Horner's rule.\<close>

fun row_major :: "int64 \<Rightarrow> int64 list \<Rightarrow> int64 list \<Rightarrow> int64" where
  "row_major p (e # es) (v # vs) = row_major (p * e + v) es vs"
| "row_major p _ _ = p"

lemma row_major_add: "length ws = length es \<Longrightarrow> row_major (p + v) es ws = prod_list es * p + row_major v es ws"
proof (induction es arbitrary: p v ws)
  case (Cons e es)
  then obtain w ws' where ws: "ws = w # ws'" "length ws' = length es" by (cases ws) auto
  have "row_major (p + v) (e # es) ws = row_major (p * e + (v * e + w)) es ws'" by (simp add: ws algebra_simps)
  also have "\<dots> = prod_list es * (p * e) + row_major (v * e + w) es ws'" by (rule Cons.IH [OF ws(2)])
  finally show ?case by (simp add: ws algebra_simps)
qed simp

lemma gep_offset_row_major: "length ws = length es \<Longrightarrow> gep_offset es (v # ws) = row_major v es ws"
proof (induction es arbitrary: v ws)
  case (Cons e es)
  then obtain w ws' where ws: "ws = w # ws'" "length ws' = length es" by (cases ws) auto
  have "gep_offset (e # es) (v # ws) = prod_list es * (v * e) + row_major w es ws'" using Cons.IH [OF ws(2)] by (simp add: ws algebra_simps)
  also have "\<dots> = row_major (v * e + w) es ws'" by (rule row_major_add [OF ws(2), symmetric])
  finally show ?case by (simp add: ws)
qed simp

text \<open>
  C33. The address of an element of a nested array is its base plus the element size times the
  row-major position: the first index counts whole arrays, each further index the elements of
  its dimension.
\<close>

theorem gep_array_row_major:
  assumes "gep_scan (ga_Pty g) 0 0 = Inr (ns, prev, Some c)" and "ga_LLVMType g = None"
    and "gep_elem_type (ga_Pty g) prev c = Inr ty" and "gep_elem_size ty = Inr sz"
    and "length ns < length (in_Dependencies i)" and "gep_indices g i [0..<Suc (length ns)] = Inr (v # ws)"
  shows "gep_array g i = Inr (in_ActivePtr i + row_major v (map word_of_int ns) ws * sz)"
proof -
  have len: "gep_indices g i ks = Inr vs \<Longrightarrow> length vs = length ks" for ks vs
    by (induction ks arbitrary: vs) (auto simp: bind_res_eq_Inr_iff)
  from len [OF assms(6)] have "length ws = length (map (word_of_int :: int \<Rightarrow> int64) ns)" by simp
  from gep_offset_row_major [OF this, of v] show ?thesis unfolding gep_array_def using assms by (simp del: upt_Suc)
qed

definition demo_gep :: gep_args where
  "demo_gep = \<lparr> ga_Pty = ''[4 x [8 x i32]]'', ga_LLVMType = None, ga_ImmIdx = [0, 0, 0], ga_PtrVal = 1, ga_Index = 3 \<rparr>"

theorem gep_array_row_major_witness:
  "gep_array demo_gep (demo_instr ''i32*'' [0, 2, 3]) = Inr (0x1000 + (2 * 8 + 3) * 4)"
proof -
  let ?i = "demo_instr ''i32*'' [0, 2, 3]"
  have "gep_scan (ga_Pty demo_gep) 0 0 = Inr ([4, 8], 5, Some 13)" "gep_elem_type (ga_Pty demo_gep) 5 13 = Inr ''i32''" "gep_elem_size ''i32'' = Inr 4"
    "gep_indices demo_gep ?i [0..<Suc (length [4 :: int, 8])] = Inr [0, 2, 3]" "ga_LLVMType demo_gep = None"
    "length [4 :: int, 8] < length (in_Dependencies ?i)" "in_ActivePtr ?i = 0x1000" by code_simp+
  from gep_array_row_major [OF this(1,5,2,3,6,4)] this(7) show ?thesis by simp
qed

end
