(* ===== verification/Runtime.thy ===== *)
theory Runtime
  imports Instructions Packet
begin

text \<open>
  The runtime engine of the compute unit, \<open>src/hwacc/llvm_interface.cc\<close> with the dependency
  tracking of \<open>src/hwacc/LLVMRead/src/base_instruction.cc\<close>: basic blocks are cloned into a
  reservation table, instructions wait there for the instructions that produce their operands,
  are launched when none is left, occupy a functional unit while they compute or a memory
  request while they load or store, and commit.

  Instructions are shared by pointer between the queues and the lists of parents and children:
  they live in a store \<open>li_instrs\<close>, in the order of their creation, and are named by their position. Requests handed to the communications
  interface are recorded in order, each with its identity. Not modelled are the power and
  hardware statistics (\<open>Utilization\<close>, \<open>Hardware\<close>), which nothing here reads back, the printing
  of results; the parser that builds the basic blocks is in theory \<open>LLVM_Module\<close>.
\<close>

section \<open>Functional units\<close>

text \<open>The members of \<open>struct FunctionalUnits\<close> that count units.\<close>

datatype fu = CounterFU | IntAdder | IntMulti | IntShifter | IntBitwise | FpSpAdder | FpDpAdder | FpSpMulti | FpDpMulti
  | CompareFU | GepFU | ConversionFU | OtherFU

text \<open>The switch over the hardware units of \<open>macros.hh\<close>; the divider units have no case of their own.\<close>

definition fu_of :: "int \<Rightarrow> fu" where
  "fu_of k = (if k = 0 then CounterFU else if k = 1 then IntAdder else if k = 2 then IntMulti else if k = 3 then IntShifter
     else if k = 4 then IntBitwise else if k = 5 then FpSpAdder else if k = 6 then FpDpAdder else if k = 7 then FpSpMulti
     else if k = 9 then FpDpMulti else if k = 11 then CompareFU else if k = 12 then GepFU else if k = 13 then ConversionFU else OtherFU)"

section \<open>State\<close>

datatype occ = LoadOnly | StoreOnly | CompOnly | LoadStore | LoadComp | LoadStoreComp | StoreComp
  | LoadOnlyStall | StoreOnlyStall | CompOnlyStall | LoadStoreStall | LoadCompStall | LoadStoreCompStall | StoreCompStall | Stalls

record llvm_interface =
  li_lockstep :: bool
  li_threshold :: nat
  li_limits :: "fu \<Rightarrow> int"
  li_fp_sp_division :: int
  li_fp_dp_division :: int
  li_clock_period :: nat
  li_unlimitedFU :: bool
  li_running :: bool
  li_scheduled :: bool
  li_loadOpScheduled :: bool
  li_storeOpScheduled :: bool
  li_compOpScheduled :: bool
  li_cycle :: int
  li_loadInFlight :: nat
  li_storeInFlight :: nat
  li_compInFlight :: nat
  li_occ :: "occ \<Rightarrow> int"
  li_memory_loads :: nat
  li_memory_stores :: nat
  li_dma_loads :: nat
  li_dma_stores :: nat
  li_FU :: "fu \<Rightarrow> int"
  li_fpDivision :: int
  li_MaxFU :: "fu \<Rightarrow> int"
  li_AverageOccupancy :: "fu \<Rightarrow> int"
  li_instrs :: "instr list"
  li_reservation :: "nat list"
  li_readQueue :: "nat list"
  li_writeQueue :: "nat list"
  li_computeQueue :: "nat list"
  li_bbList :: "(string \<times> instr list) list"
  li_currBB :: "nat option"
  li_prevBB :: "nat option"
  li_regList :: register_list
  li_tickEvent :: event
  li_nextReq :: nat
  li_requests :: "(nat \<times> mem_effect) list"
  li_finishes :: nat

definition li_instr :: "llvm_interface \<Rightarrow> nat \<Rightarrow> instr result" where
  "li_instr s k = (if k < length (li_instrs s) then Inr (li_instrs s ! k) else Inl OutOfBounds)"

definition li_set :: "nat \<Rightarrow> instr \<Rightarrow> llvm_interface \<Rightarrow> llvm_interface" where
  "li_set k i s = s\<lparr> li_instrs := (li_instrs s)[k := i] \<rparr>"

section \<open>Counting functional units\<close>

definition maxFU :: "(fu \<Rightarrow> int) \<Rightarrow> llvm_interface \<Rightarrow> llvm_interface" where
  "maxFU u s = s\<lparr> li_MaxFU := (\<lambda>f. if u f > li_MaxFU s f then u f else li_MaxFU s f) \<rparr>"

definition Occupancy :: "(fu \<Rightarrow> int) \<Rightarrow> llvm_interface \<Rightarrow> llvm_interface" where
  "Occupancy u s = s\<lparr> li_AverageOccupancy := (\<lambda>f. li_AverageOccupancy s f + u f) \<rparr>"

definition clearFU :: "llvm_interface \<Rightarrow> llvm_interface" where
  "clearFU s = (Occupancy (li_FU s) (maxFU (li_FU s) s))\<lparr> li_FU := (\<lambda>_. 0), li_fpDivision := 0 \<rparr>"

definition initFU :: "llvm_interface \<Rightarrow> llvm_interface" where
  "initFU s = s\<lparr> li_FU := (\<lambda>_. 0), li_MaxFU := (\<lambda>_. 0), li_AverageOccupancy := (\<lambda>_. 0) \<rparr>"

definition updateFU :: "int \<Rightarrow> llvm_interface \<Rightarrow> llvm_interface" where
  "updateFU k s = s\<lparr> li_FU := (li_FU s)(fu_of k := li_FU s (fu_of k) + 1) \<rparr>"

text \<open>A limit of -1 is no limit; units without a case are always available and not counted.\<close>

definition limitedFU :: "int \<Rightarrow> llvm_interface \<Rightarrow> bool \<times> llvm_interface" where
  "limitedFU k s = (let f = fu_of k in
     if f = OtherFU then (True, s)
     else if li_limits s f = -1 \<or> li_FU s f < li_limits s f then (True, s\<lparr> li_FU := (li_FU s)(f := li_FU s f + 1) \<rparr>)
     else (False, s))"

text \<open>The conversion units are not asked for.\<close>

definition unlimitedMode :: "llvm_interface \<Rightarrow> bool" where
  "unlimitedMode s \<longleftrightarrow> li_limits s CounterFU = -1 \<and> li_limits s IntAdder = -1 \<and> li_limits s IntMulti = -1 \<and> li_limits s IntShifter = -1
     \<and> li_limits s IntBitwise = -1 \<and> li_limits s FpSpAdder = -1 \<and> li_limits s FpDpAdder = -1 \<and> li_limits s FpSpMulti = -1
     \<and> li_fp_sp_division s = -1 \<and> li_limits s FpDpMulti = -1 \<and> li_fp_dp_division s = -1 \<and> li_limits s CompareFU = -1 \<and> li_limits s GepFU = -1"

definition bump :: "occ \<Rightarrow> llvm_interface \<Rightarrow> llvm_interface" where
  "bump c s = s\<lparr> li_occ := (li_occ s)(c := li_occ s c + 1) \<rparr>"

definition occupancy :: "llvm_interface \<Rightarrow> llvm_interface" where
  "occupancy s =
     (if li_loadOpScheduled s
      then if li_storeOpScheduled s then if li_compOpScheduled s then bump LoadStoreComp s else bump LoadStore s
           else if li_compOpScheduled s then bump LoadComp s else bump LoadOnly s
      else if li_storeOpScheduled s then if li_compOpScheduled s then bump StoreComp s else bump StoreOnly s
      else if li_compOpScheduled s then bump CompOnly s
      else let s1 = bump Stalls s in
           if li_loadInFlight s > 0
           then if li_storeInFlight s > 0 then if li_compInFlight s > 0 then bump LoadStoreCompStall s1 else bump LoadStoreStall s1
                else if li_compInFlight s > 0 then bump LoadCompStall s1 else bump LoadOnlyStall s1
           else if li_storeInFlight s > 0 then if li_compInFlight s > 0 then bump StoreCompStall s1 else bump StoreOnlyStall s1
           else if li_compInFlight s > 0 then bump CompOnlyStall s1 else s1)"

section \<open>Dependencies\<close>

definition registerChild :: "nat \<Rightarrow> instr \<Rightarrow> instr" where
  "registerChild c i = i\<lparr> in_Children := in_Children i @ [c] \<rparr>"

definition registerParent :: "nat \<Rightarrow> instr \<Rightarrow> instr" where
  "registerParent p i = i\<lparr> in_Parents := in_Parents i @ [p], in_ActiveParents := in_ActiveParents i + 1 \<rparr>"

definition removeParents :: "instr \<Rightarrow> instr" where
  "removeParents i = i\<lparr> in_Parents := [], in_Children := [] \<rparr>"

text \<open>
  A child fetches the register of a committed parent into every operand that names it. The
  first such read of a cycle is counted.
\<close>

definition fetch_slots :: "nat \<Rightarrow> int64 \<Rightarrow> nat option list \<Rightarrow> int64 list \<Rightarrow> int64 list" where
  "fetch_slots r v deps ops = map (\<lambda>(d, x). if d = Some r then v else x) (zip deps ops)"

definition fetchDependency_reg :: "nat \<Rightarrow> nat \<Rightarrow> llvm_interface \<Rightarrow> llvm_interface result" where
  "fetchDependency_reg r c s =
     bind_res (li_instr s c) (\<lambda>i.
     bind_res (assert_that (length (in_Ops i) = length (in_Dependencies i)) ''_Ops.size()==_Dependencies.size()'') (\<lambda>_.
       if Some r \<noteq> in_ReturnRegister i
       then bind_res (reg_at (li_regList s) r) (\<lambda>reg.
            let i' = i\<lparr> in_Ops := fetch_slots r (reg_Value reg) (in_Dependencies i) (in_Ops i), in_ActiveParents := in_ActiveParents i - 1 \<rparr>;
                reg' = (if Some r \<in> set (in_Dependencies i) \<and> \<not> reg_updated reg then reg_update (reg_read reg) else reg)
            in Inr ((li_set c i' s)\<lparr> li_regList := set_reg r reg' (li_regList s) \<rparr>))
       else Inr (li_set c (i\<lparr> in_ActiveParents := in_ActiveParents i - 1 \<rparr>) s)))"

definition fetchDependency_idx :: "nat \<Rightarrow> nat \<Rightarrow> llvm_interface \<Rightarrow> llvm_interface result" where
  "fetchDependency_idx j c s =
     bind_res (li_instr s c) (\<lambda>i.
       if j < length (in_Ops i) \<and> j < length (in_Dependencies i)
       then case in_Dependencies i ! j of None \<Rightarrow> Inl OutOfBounds
            | Some r \<Rightarrow> bind_res (reg_at (li_regList s) r) (\<lambda>reg. Inr (li_set c (i\<lparr> in_Ops := (in_Ops i)[j := reg_Value reg] \<rparr>) s))
       else Inl OutOfBounds)"

definition drop_parent :: "nat \<Rightarrow> llvm_interface \<Rightarrow> llvm_interface result" where
  "drop_parent c s = bind_res (li_instr s c) (\<lambda>i. Inr (li_set c (i\<lparr> in_ActiveParents := in_ActiveParents i - 1 \<rparr>) s))"

fun signal_loop :: "(nat \<Rightarrow> llvm_interface \<Rightarrow> llvm_interface result) \<Rightarrow> nat list \<Rightarrow> llvm_interface \<Rightarrow> llvm_interface result" where
  "signal_loop f [] s = Inr s"
| "signal_loop f (c # cs) s = bind_res (f c s) (signal_loop f cs)"

definition signalChildren :: "nat \<Rightarrow> llvm_interface \<Rightarrow> llvm_interface result" where
  "signalChildren k s =
     bind_res (li_instr s k) (\<lambda>i.
       case in_ReturnRegister i of
         Some r \<Rightarrow> signal_loop (fetchDependency_reg r) (in_Children i) s
       | None \<Rightarrow> signal_loop drop_parent (in_Children i) s)"

definition commit :: "nat \<Rightarrow> llvm_interface \<Rightarrow> (bool \<times> llvm_interface) result" where
  "commit k s =
     bind_res (li_instr s k) (\<lambda>i.
       case in_ReturnRegister i of
         Some r \<Rightarrow>
           if in_MaxCycle i \<le> in_CurrCycle i
           then bind_res (reg_at (li_regList s) r) (\<lambda>reg.
                bind_res (reg_setValue (in_FinalResult i) reg) (\<lambda>reg'.
                bind_res (signalChildren k (s\<lparr> li_regList := set_reg r (reg_write (reg_commit reg')) (li_regList s) \<rparr>)) (\<lambda>s'. Inr (True, s'))))
           else Inr (False, li_set k (i\<lparr> in_CurrCycle := in_CurrCycle i + 1 \<rparr>) s)
       | None \<Rightarrow> bind_res (signalChildren k s) (\<lambda>s'. Inr (False, s')))"

text \<open>\<open>compute()\<close>, with the request of a \<open>load\<close> or \<open>store\<close> handed to the communications interface.\<close>

definition li_compute :: "fpu \<Rightarrow> nat \<Rightarrow> llvm_interface \<Rightarrow> llvm_interface result" where
  "li_compute u k s =
     bind_res (li_instr s k) (\<lambda>i.
     bind_res (compute u (li_regList s) (in_class i) i) (\<lambda>(i', rl, e).
       Inr (if e = NoEffect then (li_set k i' s)\<lparr> li_regList := rl \<rparr>
            else (li_set k (i'\<lparr> in_Req := Some (li_nextReq s) \<rparr>) s)\<lparr> li_regList := rl, li_nextReq := li_nextReq s + 1,
                    li_requests := li_requests s @ [(li_nextReq s, e)] \<rparr>)))"

definition runtimeDependencies :: "string \<Rightarrow> instr \<Rightarrow> (nat option list \<times> instr) result" where
  "runtimeDependencies prev i =
     (case in_class i of
        Phi vals regs labels \<Rightarrow>
          if length labels < length vals \<or> length regs < length vals then Inl OutOfBounds
          else Inr (map (\<lambda>(v, r, l). r) (filter (\<lambda>(v, r, l). l = prev \<and> v = ''reg'') (zip vals (zip regs labels))), i\<lparr> in_PrevBB := prev \<rparr>)
      | _ \<Rightarrow> Inr (in_Dependencies i, i))"

section \<open>Scheduling a basic block\<close>

definition sel_instr :: "llvm_interface \<Rightarrow> (instr \<Rightarrow> bool) \<Rightarrow> nat \<Rightarrow> bool" where
  "sel_instr s P k \<longleftrightarrow> k < length (li_instrs s) \<and> P (li_instrs s ! k)"

text \<open>The last instruction of a queue that satisfies \<open>P\<close>.\<close>

definition find_last :: "llvm_interface \<Rightarrow> (instr \<Rightarrow> bool) \<Rightarrow> nat list \<Rightarrow> nat option" where
  "find_last s P q = find (sel_instr s P) (rev q)"

definition or_else :: "'a option \<Rightarrow> 'a option \<Rightarrow> 'a option" where
  "or_else a b = (case a of None \<Rightarrow> b | Some x \<Rightarrow> Some x)"

text \<open>The youngest instruction of the reservation table, which is being linked, is left out.\<close>

definition findParent_reg :: "nat \<Rightarrow> llvm_interface \<Rightarrow> nat option" where
  "findParent_reg r s = (let P = (\<lambda>i. in_ReturnRegister i = Some r) in
     or_else (find_last s P (butlast (li_reservation s))) (or_else (find_last s P (li_computeQueue s)) (find_last s P (li_readQueue s))))"

definition findParent_line :: "string \<Rightarrow> llvm_interface \<Rightarrow> nat option" where
  "findParent_line l s = (let P = (\<lambda>i. in_LLVMLine i = l) in
     or_else (find_last s P (butlast (li_reservation s))) (or_else (find_last s P (li_computeQueue s)) (find_last s P (li_readQueue s))))"

definition detectRAW :: "nat option \<Rightarrow> llvm_interface \<Rightarrow> nat option" where
  "detectRAW r s = or_else (find_last s (\<lambda>i. in_OpCode i = ''store'' \<and> in_RawCheck i = r) (butlast (li_reservation s)))
     (find_last s (\<lambda>i. in_RawCheck i = r) (li_writeQueue s))"

definition link :: "nat \<Rightarrow> nat \<Rightarrow> llvm_interface \<Rightarrow> llvm_interface result" where
  "link p c s =
     bind_res (li_instr s c) (\<lambda>ci. let s1 = li_set c (registerParent p ci) s in
     bind_res (li_instr s1 p) (\<lambda>pi. Inr (li_set p (registerChild c pi) s1)))"

definition link_opt :: "nat option \<Rightarrow> nat \<Rightarrow> llvm_interface \<Rightarrow> llvm_interface result" where
  "link_opt mp c s = (case mp of None \<Rightarrow> Inr s | Some p \<Rightarrow> link p c s)"

fun link_deps :: "nat \<Rightarrow> nat \<Rightarrow> nat option list \<Rightarrow> llvm_interface \<Rightarrow> llvm_interface result" where
  "link_deps c j [] s = Inr s"
| "link_deps c j (None # ds) s = link_deps c (Suc j) ds s"
| "link_deps c j (Some r # ds) s =
     bind_res (case findParent_reg r s of Some p \<Rightarrow> link p c s | None \<Rightarrow> fetchDependency_idx j c s) (link_deps c (Suc j) ds)"

definition link_base :: "nat \<Rightarrow> llvm_interface \<Rightarrow> llvm_interface result" where
  "link_base c s =
     bind_res (li_instr s c) (\<lambda>i.
       if in_OpCode i = ''getelementptr''
       then case in_class i of
              GetElementPtr g \<Rightarrow> (case findParent_reg (ga_PtrVal g) s of
                 Some p \<Rightarrow> link p c s
               | None \<Rightarrow> bind_res (reg_at (li_regList s) (ga_PtrVal g)) (\<lambda>reg. Inr (li_set c (i\<lparr> in_ActivePtr := reg_Value reg \<rparr>) s)))
            | _ \<Rightarrow> Inl (Undefined ''static_pointer_cast'')
       else Inr s)"

definition add_node :: "instr \<Rightarrow> llvm_interface \<Rightarrow> llvm_interface" where
  "add_node i s = s\<lparr> li_instrs := li_instrs s @ [i], li_reservation := li_reservation s @ [length (li_instrs s)] \<rparr>"

definition schedule_node :: "string \<Rightarrow> instr \<Rightarrow> llvm_interface \<Rightarrow> llvm_interface result" where
  "schedule_node prev i s = (let c = length (li_instrs s); s1 = add_node i s in
     bind_res (if in_ReturnRegister i \<noteq> None then link_opt (findParent_line (in_LLVMLine i) s1) c s1 else Inr s1) (\<lambda>s2.
     bind_res (if in_OpCode i = ''load'' then link_opt (detectRAW (in_RawCheck i) s2) c s2 else Inr s2) (\<lambda>s3.
     bind_res (link_base c s3) (\<lambda>s4.
     bind_res (li_instr s4 c) (\<lambda>i4.
     bind_res (runtimeDependencies prev i4) (\<lambda>(deps, i5). link_deps c 0 deps (li_set c i5 s4)))))))"

fun schedule_nodes :: "string \<Rightarrow> instr list \<Rightarrow> llvm_interface \<Rightarrow> llvm_interface result" where
  "schedule_nodes prev [] s = Inr s"
| "schedule_nodes prev (i # is) s = bind_res (schedule_node prev i s) (schedule_nodes prev is)"

definition scheduleBB :: "nat option \<Rightarrow> llvm_interface \<Rightarrow> llvm_interface result" where
  "scheduleBB bb s =
     (case bb of None \<Rightarrow> Inl (Undefined ''null basic block'')
      | Some b \<Rightarrow> if b < length (li_bbList s)
                  then case snd (li_bbList s ! b) of
                         [] \<Rightarrow> Inr s
                       | nodes \<Rightarrow> (case li_prevBB s of None \<Rightarrow> Inl (Undefined ''null basic block'')
                           | Some p \<Rightarrow> if p < length (li_bbList s) then schedule_nodes (fst (li_bbList s ! p)) nodes s else Inl OutOfBounds)
                  else Inl OutOfBounds)"

fun find_bb :: "string \<Rightarrow> nat \<Rightarrow> (string \<times> instr list) list \<Rightarrow> nat option" where
  "find_bb name k [] = None"
| "find_bb name k (b # bs) = (if fst b = name then Some k else find_bb name (Suc k) bs)"

definition findBB :: "string \<Rightarrow> llvm_interface \<Rightarrow> nat option" where
  "findBB name s = find_bb name 0 (li_bbList s)"

fun find_entry :: "nat \<Rightarrow> (string \<times> instr list) list \<Rightarrow> nat result" where
  "find_entry k [] = Inl (Panic ''No entry basic block found!'')"
| "find_entry k (b # bs) = (if snd b \<noteq> [] then Inr k else find_entry (Suc k) bs)"

definition findEntryBB :: "llvm_interface \<Rightarrow> nat result" where
  "findEntryBB s = find_entry 0 (li_bbList s)"

section \<open>A cycle\<close>

definition erase_at :: "nat \<Rightarrow> 'a list \<Rightarrow> 'a list" where
  "erase_at n xs = take n xs @ drop (Suc n) xs"

text \<open>
  The commit loop over the instructions in flight. \<open>n\<close> is the index, the number of instructions
  passed over so far. The functional unit is looked up in the reservation table, at the index
  of the compute queue.
\<close>

fun commit_loop :: "nat \<Rightarrow> nat list \<Rightarrow> llvm_interface \<Rightarrow> (nat list \<times> llvm_interface) result" where
  "commit_loop n [] s = Inr ([], s)"
| "commit_loop n (k # ks) s =
     (if n < length (li_reservation s)
      then bind_res (li_instr s (li_reservation s ! n)) (\<lambda>r.
           let (ok, s1) = (if li_unlimitedFU s then (True, updateFU (in_FunctionalUnit r) s) else limitedFU (in_FunctionalUnit r) s)
           in bind_res (if ok then commit k s1 else Inr (False, s1)) (\<lambda>(fin, s2).
                if fin then bind_res (li_instr s2 k) (\<lambda>i. commit_loop n ks (li_set k (removeParents i) s2))
                else bind_res (commit_loop (Suc n) ks s2) (\<lambda>(rest, s3). Inr (k # rest, s3))))
      else Inl OutOfBounds)"

definition commit_queue :: "llvm_interface \<Rightarrow> llvm_interface result" where
  "commit_queue s = bind_res (commit_loop 0 (li_computeQueue s) s) (\<lambda>(q, s'). Inr (s'\<lparr> li_computeQueue := q \<rparr>))"

definition count_fu :: "instr \<Rightarrow> llvm_interface \<Rightarrow> llvm_interface" where
  "count_fu i s = (if li_unlimitedFU s then updateFU (in_FunctionalUnit i) s else s)"

definition erase_reserved :: "nat \<Rightarrow> llvm_interface \<Rightarrow> llvm_interface" where
  "erase_reserved n s = s\<lparr> li_reservation := erase_at n (li_reservation s) \<rparr>"

definition launch_load :: "fpu \<Rightarrow> nat \<Rightarrow> nat \<Rightarrow> llvm_interface \<Rightarrow> llvm_interface result" where
  "launch_load u n k s =
     bind_res (li_compute u k (s\<lparr> li_loadOpScheduled := True, li_readQueue := li_readQueue s @ [k] \<rparr>)) (\<lambda>s1.
     bind_res (li_instr s1 k) (\<lambda>i.
       let s2 = (if in_Global i then s1\<lparr> li_dma_loads := li_dma_loads s1 + 1 \<rparr> else s1\<lparr> li_memory_loads := li_memory_loads s1 + 1 \<rparr>)
       in Inr ((erase_reserved n (count_fu i s2))\<lparr> li_scheduled := True \<rparr>)))"

definition launch_store :: "fpu \<Rightarrow> nat \<Rightarrow> nat \<Rightarrow> llvm_interface \<Rightarrow> llvm_interface result" where
  "launch_store u n k s =
     bind_res (li_compute u k (s\<lparr> li_storeOpScheduled := True, li_writeQueue := li_writeQueue s @ [k] \<rparr>)) (\<lambda>s1.
     bind_res (li_instr s1 k) (\<lambda>i.
       let s2 = (if in_Global i then s1\<lparr> li_dma_stores := li_dma_stores s1 + 1 \<rparr> else s1\<lparr> li_memory_stores := li_memory_stores s1 + 1 \<rparr>)
       in Inr ((erase_reserved n (count_fu i s2))\<lparr> li_scheduled := True \<rparr>)))"

definition launch_immediate :: "fpu \<Rightarrow> nat \<Rightarrow> nat \<Rightarrow> llvm_interface \<Rightarrow> llvm_interface result" where
  "launch_immediate u n k s =
     bind_res (li_compute u k s) (\<lambda>s1.
     bind_res (commit k s1) (\<lambda>(_, s2).
     bind_res (li_instr s2 k) (\<lambda>i.
       Inr ((erase_reserved n (li_set k (removeParents i) (count_fu i s2)))\<lparr> li_scheduled := True, li_compOpScheduled := True \<rparr>))))"

definition launch_compute :: "fpu \<Rightarrow> nat \<Rightarrow> nat \<Rightarrow> llvm_interface \<Rightarrow> llvm_interface result" where
  "launch_compute u n k s =
     bind_res (li_compute u k (s\<lparr> li_computeQueue := li_computeQueue s @ [k] \<rparr>)) (\<lambda>s1.
     bind_res (commit k s1) (\<lambda>(_, s2).
     bind_res (li_instr s2 k) (\<lambda>i.
       Inr ((erase_reserved n (count_fu i s2))\<lparr> li_scheduled := True, li_compOpScheduled := True \<rparr>))))"

definition launch_branch :: "fpu \<Rightarrow> nat \<Rightarrow> nat \<Rightarrow> llvm_interface \<Rightarrow> llvm_interface result" where
  "launch_branch u n k s =
     bind_res (li_instr s k) (\<lambda>i.
     bind_res (li_compute u k ((count_fu i s)\<lparr> li_prevBB := li_currBB s \<rparr>)) (\<lambda>s1.
     bind_res (li_instr s1 k) (\<lambda>i1.
       let bb = findBB (in_Dest i1) s1 in scheduleBB bb ((erase_reserved n s1)\<lparr> li_currBB := bb \<rparr>))))"

definition at_index :: "nat \<Rightarrow> llvm_interface result \<Rightarrow> (nat \<times> llvm_interface) result" where
  "at_index n r = bind_res r (\<lambda>s. Inr (n, s))"

text \<open>Computation units: with limits, only if a unit is free.\<close>

definition launch_unit :: "fpu \<Rightarrow> nat \<Rightarrow> nat \<Rightarrow> instr \<Rightarrow> llvm_interface \<Rightarrow> (nat \<times> llvm_interface) result" where
  "launch_unit u n k i s =
     (if li_unlimitedFU s then at_index n (launch_compute u n k s)
      else case limitedFU (in_FunctionalUnit i) s of (ok, s1) \<Rightarrow>
        if ok then at_index n (launch_compute u n k (if in_OpCode i = ''fdiv'' then s1\<lparr> li_fpDivision := li_fpDivision s1 + 1 \<rparr> else s1))
        else Inr (Suc n, s1))"

definition launch_value :: "fpu \<Rightarrow> nat \<Rightarrow> nat \<Rightarrow> instr \<Rightarrow> llvm_interface \<Rightarrow> (nat \<times> llvm_interface) result" where
  "launch_value u n k i s =
     (if in_OpCode i = ''load'' then at_index n (launch_load u n k s)
      else if in_OpCode i = ''store'' then at_index n (launch_store u n k s)
      else if in_MaxCycle i = 0 then at_index n (launch_immediate u n k s)
      else launch_unit u n k i s)"

text \<open>One round of the launch loop: the next index and state.\<close>

definition launch_instr :: "fpu \<Rightarrow> nat \<Rightarrow> nat \<Rightarrow> llvm_interface \<Rightarrow> instr \<Rightarrow> (nat \<times> llvm_interface) result" where
  "launch_instr u n k s i =
     (if in_ActiveParents i = 0
      then if \<not> in_Terminator i then launch_value u n k i s
           else if in_OpCode i \<noteq> ''ret''
           then if length (li_reservation s) < li_threshold s then at_index n (launch_branch u n k s) else Inr (Suc n, s)
           else Inr (n, s)
      else if in_OpCode i = ''ret'' \<and> n = 0 \<and> li_computeQueue s = [] \<and> li_readQueue s = [] \<and> li_writeQueue s = []
      then Inr (Suc n, (erase_reserved n s)\<lparr> li_running := False, li_finishes := li_finishes s + 1 \<rparr>)
      else Inr (Suc n, s))"

definition launch_step :: "fpu \<Rightarrow> nat \<Rightarrow> llvm_interface \<Rightarrow> (nat \<times> llvm_interface) result" where
  "launch_step u n s = bind_res (li_instr s (li_reservation s ! n)) (launch_instr u n (li_reservation s ! n) s)"

partial_function (option) launch_loop :: "fpu \<Rightarrow> nat \<Rightarrow> llvm_interface \<Rightarrow> llvm_interface result option" where
  "launch_loop u n s =
     (if n < length (li_reservation s)
      then case launch_step u n s of Inl e \<Rightarrow> Some (Inl e) | Inr r \<Rightarrow> launch_loop u (fst r) (snd r)
      else Some (Inr s))"

declare launch_loop.simps [code]

definition tick_begin :: "llvm_interface \<Rightarrow> llvm_interface" where
  "tick_begin s = (clearFU (s\<lparr> li_cycle := li_cycle s + 1, li_regList := resetAccess (li_regList s) \<rparr>))
     \<lparr> li_loadOpScheduled := False, li_storeOpScheduled := False, li_compOpScheduled := False,
       li_loadInFlight := length (li_readQueue s), li_storeInFlight := length (li_writeQueue s), li_compInFlight := length (li_computeQueue s) \<rparr>"

definition tick_refill :: "llvm_interface \<Rightarrow> llvm_interface result" where
  "tick_refill s = (let s1 = s\<lparr> li_scheduled := False \<rparr> in if li_reservation s1 = [] then scheduleBB (li_currBB s1) s1 else Inr s1)"

definition tick_end :: "tick \<Rightarrow> llvm_interface \<Rightarrow> llvm_interface" where
  "tick_end now s = (let s1 = occupancy s in
     if li_running s1 \<and> li_tickEvent s1 = None then s1\<lparr> li_tickEvent := Some (now + li_clock_period s1) \<rparr> else s1)"

definition li_tick :: "fpu \<Rightarrow> tick \<Rightarrow> llvm_interface \<Rightarrow> llvm_interface result option" where
  "li_tick u now s =
     (case bind_res (commit_queue (tick_begin s)) tick_refill of
        Inl e \<Rightarrow> Some (Inl e)
      | Inr s1 \<Rightarrow>
          map_option (\<lambda>r. bind_res r (\<lambda>s2. Inr (tick_end now s2)))
            (if li_lockstep s1 \<and> (li_computeQueue s1 \<noteq> [] \<or> li_readQueue s1 \<noteq> [] \<or> li_writeQueue s1 \<noteq> []) then Some (Inr s1)
             else launch_loop u 0 s1))"

section \<open>Answers of memory\<close>

text \<open>
  The loops over the queues of loads and stores: every instruction with the answered request is
  retired by \<open>f\<close> and erased; the one after it is then passed over.
\<close>

fun request_loop :: "(nat \<Rightarrow> instr \<Rightarrow> llvm_interface \<Rightarrow> llvm_interface result) \<Rightarrow> nat \<Rightarrow> nat list \<Rightarrow> llvm_interface \<Rightarrow> (nat list \<times> llvm_interface) result" where
  "request_loop f q [] s = Inr ([], s)"
| "request_loop f q [k] s =
     bind_res (li_instr s k) (\<lambda>i. if in_Req i = Some q then bind_res (f k i s) (\<lambda>s1. Inr ([], s1)) else Inr ([k], s))"
| "request_loop f q (k # k' # ks) s =
     bind_res (li_instr s k) (\<lambda>i.
       if in_Req i = Some q then bind_res (f k i s) (\<lambda>s1. bind_res (request_loop f q ks s1) (\<lambda>(rest, s2). Inr (k' # rest, s2)))
       else bind_res (request_loop f q (k' # ks) s) (\<lambda>(rest, s1). Inr (k # rest, s1)))"

definition retire :: "nat \<Rightarrow> llvm_interface \<Rightarrow> llvm_interface result" where
  "retire k s = bind_res (commit k s) (\<lambda>(_, s1). bind_res (li_instr s1 k) (\<lambda>i. Inr (li_set k (removeParents i) s1)))"

text \<open>\<open>buf\<close> is the buffer of the request.\<close>

definition retire_load :: "byte list \<Rightarrow> nat \<Rightarrow> instr \<Rightarrow> llvm_interface \<Rightarrow> llvm_interface result" where
  "retire_load buf k i s =
     bind_res (setResult (li_regList s) (length buf) (word_of_nat (le_val buf)) i) (\<lambda>i1. retire k (li_set k i1 s))"

definition readCommit :: "nat \<Rightarrow> byte list \<Rightarrow> llvm_interface \<Rightarrow> llvm_interface result" where
  "readCommit q buf s = bind_res (request_loop (retire_load buf) q (li_readQueue s) s) (\<lambda>(rest, s'). Inr (s'\<lparr> li_readQueue := rest \<rparr>))"

definition writeCommit :: "nat \<Rightarrow> llvm_interface \<Rightarrow> llvm_interface result" where
  "writeCommit q s = bind_res (request_loop (\<lambda>k i. retire k) q (li_writeQueue s) s) (\<lambda>(rest, s'). Inr (s'\<lparr> li_writeQueue := rest \<rparr>))"

section \<open>Start\<close>

text \<open>
  \<open>initialize\<close>, with the basic blocks and registers that the parser builds as arguments; theory
  \<open>LLVM_Module\<close> has the parser.
\<close>

definition li_construct :: "(string \<times> instr list) list \<Rightarrow> register_list \<Rightarrow> llvm_interface \<Rightarrow> llvm_interface result" where
  "li_construct bbs rl s =
     (let s1 = (initFU s)\<lparr> li_bbList := bbs, li_regList := rl \<rparr>
      in bind_res (findEntryBB s1) (\<lambda>b. Inr (s1\<lparr> li_currBB := Some b, li_prevBB := Some b \<rparr>)))"

definition li_start :: "(string \<times> instr list) list \<Rightarrow> register_list \<Rightarrow> llvm_interface \<Rightarrow> llvm_interface result" where
  "li_start bbs rl s =
     bind_res (li_construct bbs rl s) (\<lambda>s1.
       Inr (s1\<lparr> li_running := True, li_cycle := 0, li_occ := (\<lambda>_. 0), li_unlimitedFU := unlimitedMode s1 \<rparr>))"

definition li_initialize :: "fpu \<Rightarrow> tick \<Rightarrow> (string \<times> instr list) list \<Rightarrow> register_list \<Rightarrow> llvm_interface \<Rightarrow> llvm_interface result option" where
  "li_initialize u now bbs rl s =
     (case li_start bbs rl s of Inl e \<Rightarrow> Some (Inl e) | Inr s1 \<Rightarrow> li_tick u now s1)"

text \<open>The constructed object; the counters \<open>initialize\<close> sets start at zero here.\<close>

definition LLVMInterface :: "bool \<Rightarrow> nat \<Rightarrow> (fu \<Rightarrow> int) \<Rightarrow> int \<Rightarrow> int \<Rightarrow> nat \<Rightarrow> llvm_interface" where
  "LLVMInterface lockstep threshold limits spdiv dpdiv period =
     \<lparr> li_lockstep = lockstep, li_threshold = threshold, li_limits = limits, li_fp_sp_division = spdiv, li_fp_dp_division = dpdiv,
       li_clock_period = period * 1000, li_unlimitedFU = False, li_running = False, li_scheduled = False,
       li_loadOpScheduled = False, li_storeOpScheduled = False, li_compOpScheduled = False, li_cycle = 0,
       li_loadInFlight = 0, li_storeInFlight = 0, li_compInFlight = 0, li_occ = (\<lambda>_. 0), li_memory_loads = 0, li_memory_stores = 0,
       li_dma_loads = 0, li_dma_stores = 0, li_FU = (\<lambda>_. 0), li_fpDivision = 0, li_MaxFU = (\<lambda>_. 0), li_AverageOccupancy = (\<lambda>_. 0),
       li_instrs = [], li_reservation = [], li_readQueue = [], li_writeQueue = [], li_computeQueue = [],
       li_bbList = [], li_currBB = None, li_prevBB = None, li_regList = RegisterList, li_tickEvent = None, li_nextReq = 0,
       li_requests = [], li_finishes = 0 \<rparr>"

end
