(* ===== verification/Runtime_Steps.thy ===== *)
theory Runtime_Steps
  imports Runtime
begin

text \<open>
  The operations of the compute unit taken apart: what each leaves unchanged, the ways each can go,
  and induction over the rounds of the launch loop.
\<close>

section \<open>What the operations leave unchanged\<close>

text \<open>The state without the store of instructions and the registers.\<close>

definition core :: "llvm_interface \<Rightarrow> llvm_interface" where
  "core s = s\<lparr> li_instrs := [], li_regList := RegisterList \<rparr>"

lemma core_fields:
  assumes "core s' = core s"
  shows "li_lockstep s' = li_lockstep s" "li_threshold s' = li_threshold s" "li_limits s' = li_limits s" "li_clock_period s' = li_clock_period s"
    "li_unlimitedFU s' = li_unlimitedFU s" "li_running s' = li_running s" "li_scheduled s' = li_scheduled s"
    "li_loadOpScheduled s' = li_loadOpScheduled s" "li_storeOpScheduled s' = li_storeOpScheduled s" "li_compOpScheduled s' = li_compOpScheduled s"
    "li_cycle s' = li_cycle s" "li_occ s' = li_occ s" "li_FU s' = li_FU s" "li_MaxFU s' = li_MaxFU s"
    "li_reservation s' = li_reservation s" "li_readQueue s' = li_readQueue s" "li_writeQueue s' = li_writeQueue s" "li_computeQueue s' = li_computeQueue s"
    "li_bbList s' = li_bbList s" "li_currBB s' = li_currBB s" "li_prevBB s' = li_prevBB s" "li_tickEvent s' = li_tickEvent s"
    "li_nextReq s' = li_nextReq s" "li_requests s' = li_requests s" "li_finishes s' = li_finishes s"
  using arg_cong [OF assms, of li_lockstep] arg_cong [OF assms, of li_threshold] arg_cong [OF assms, of li_limits] arg_cong [OF assms, of li_clock_period]
    arg_cong [OF assms, of li_unlimitedFU] arg_cong [OF assms, of li_running] arg_cong [OF assms, of li_scheduled]
    arg_cong [OF assms, of li_loadOpScheduled] arg_cong [OF assms, of li_storeOpScheduled] arg_cong [OF assms, of li_compOpScheduled]
    arg_cong [OF assms, of li_cycle] arg_cong [OF assms, of li_occ] arg_cong [OF assms, of li_FU] arg_cong [OF assms, of li_MaxFU]
    arg_cong [OF assms, of li_reservation] arg_cong [OF assms, of li_readQueue] arg_cong [OF assms, of li_writeQueue] arg_cong [OF assms, of li_computeQueue]
    arg_cong [OF assms, of li_bbList] arg_cong [OF assms, of li_currBB] arg_cong [OF assms, of li_prevBB] arg_cong [OF assms, of li_tickEvent]
    arg_cong [OF assms, of li_nextReq] arg_cong [OF assms, of li_requests] arg_cong [OF assms, of li_finishes]
  by (simp_all add: core_def)

lemma core_li_set [simp]: "core (li_set k i s) = core s"
  by (simp add: core_def li_set_def)

lemma core_regList [simp]: "core (s\<lparr> li_regList := rl \<rparr>) = core s"
  by (simp add: core_def)

text \<open>What \<open>fetchDependency\<close> does to the child: its operands and the number of its active parents.\<close>

lemma fetchDependency_reg_cases:
  assumes "fetchDependency_reg r c s = Inr s'"
  obtains (fetch) i reg reg' where "li_instr s c = Inr i" "length (in_Ops i) = length (in_Dependencies i)" "Some r \<noteq> in_ReturnRegister i"
      "reg_at (li_regList s) r = Inr reg" "reg_Value reg' = reg_Value reg"
      "s' = (li_set c (i\<lparr> in_Ops := fetch_slots r (reg_Value reg) (in_Dependencies i) (in_Ops i), in_ActiveParents := in_ActiveParents i - 1 \<rparr>) s)
        \<lparr> li_regList := set_reg r reg' (li_regList s) \<rparr>"
  | (own) i where "li_instr s c = Inr i" "length (in_Ops i) = length (in_Dependencies i)" "Some r = in_ReturnRegister i"
      "s' = li_set c (i\<lparr> in_ActiveParents := in_ActiveParents i - 1 \<rparr>) s"
proof -
  from assms obtain i where i: "li_instr s c = Inr i" "length (in_Ops i) = length (in_Dependencies i)"
    by (auto simp: fetchDependency_reg_def bind_res_eq_Inr_iff)
  show thesis
  proof (cases "Some r = in_ReturnRegister i")
    case True
    with assms i own show ?thesis by (simp add: fetchDependency_reg_def)
  next
    case False
    with assms i obtain reg where reg: "reg_at (li_regList s) r = Inr reg" by (auto simp: fetchDependency_reg_def bind_res_eq_Inr_iff)
    define reg' where "reg' = (if Some r \<in> set (in_Dependencies i) \<and> \<not> reg_updated reg then reg_update (reg_read reg) else reg)"
    have "reg_Value reg' = reg_Value reg" by (simp add: reg'_def reg_update_def reg_read_def)
    moreover have "s' = (li_set c (i\<lparr> in_Ops := fetch_slots r (reg_Value reg) (in_Dependencies i) (in_Ops i), in_ActiveParents := in_ActiveParents i - 1 \<rparr>) s)
        \<lparr> li_regList := set_reg r reg' (li_regList s) \<rparr>"
      using assms i reg False by (simp add: fetchDependency_reg_def Let_def reg'_def [symmetric])
    ultimately show ?thesis by (rule fetch [OF i False reg])
  qed
qed

lemma fetchDependency_reg_core: "fetchDependency_reg r c s = Inr s' \<Longrightarrow> core s' = core s"
  by (erule fetchDependency_reg_cases) simp_all

lemma fetchDependency_idx_core: "fetchDependency_idx j c s = Inr s' \<Longrightarrow> core s' = core s"
  by (auto simp: fetchDependency_idx_def bind_res_eq_Inr_iff split: if_splits option.splits)

lemma drop_parent_core: "drop_parent c s = Inr s' \<Longrightarrow> core s' = core s"
  by (auto simp: drop_parent_def bind_res_eq_Inr_iff)

lemma signal_loop_core:
  assumes "\<And>c s s'. f c s = Inr s' \<Longrightarrow> core s' = core s"
  shows "signal_loop f cs s = Inr s' \<Longrightarrow> core s' = core s"
proof (induction cs arbitrary: s)
  case (Cons c cs)
  then obtain s1 where "f c s = Inr s1" "signal_loop f cs s1 = Inr s'" by (auto simp: bind_res_eq_Inr_iff)
  then show ?case using Cons.IH assms by metis
qed simp

lemma signalChildren_cases:
  assumes "signalChildren k s = Inr s'"
  obtains (register) i r where "li_instr s k = Inr i" "in_ReturnRegister i = Some r" "signal_loop (fetchDependency_reg r) (in_Children i) s = Inr s'"
  | (void) i where "li_instr s k = Inr i" "in_ReturnRegister i = None" "signal_loop drop_parent (in_Children i) s = Inr s'"
proof -
  from assms obtain i where i: "li_instr s k = Inr i" by (auto simp: signalChildren_def bind_res_eq_Inr_iff)
  show thesis by (cases "in_ReturnRegister i") (use assms i register void in \<open>auto simp: signalChildren_def\<close>)
qed

lemma signalChildren_core: "signalChildren k s = Inr s' \<Longrightarrow> core s' = core s"
  by (erule signalChildren_cases) (erule signal_loop_core [rotated], erule drop_parent_core fetchDependency_reg_core)+

text \<open>The three ways a commit goes.\<close>

lemma commit_cases:
  assumes "commit k s = Inr (b, s')"
  obtains (finish) i r reg reg' where "li_instr s k = Inr i" "in_ReturnRegister i = Some r" "in_MaxCycle i \<le> in_CurrCycle i" "b"
      "reg_at (li_regList s) r = Inr reg" "reg_setValue (in_FinalResult i) reg = Inr reg'"
      "signalChildren k (s\<lparr> li_regList := set_reg r (reg_write (reg_commit reg')) (li_regList s) \<rparr>) = Inr s'"
  | (wait) i r where "li_instr s k = Inr i" "in_ReturnRegister i = Some r" "in_CurrCycle i < in_MaxCycle i" "\<not> b"
      "s' = li_set k (i\<lparr> in_CurrCycle := in_CurrCycle i + 1 \<rparr>) s"
  | (void) i where "li_instr s k = Inr i" "in_ReturnRegister i = None" "\<not> b" "signalChildren k s = Inr s'"
proof -
  from assms obtain i where i: "li_instr s k = Inr i" by (auto simp: commit_def bind_res_eq_Inr_iff)
  show thesis
  proof (cases "in_ReturnRegister i")
    case None
    with assms i void show ?thesis by (auto simp: commit_def bind_res_eq_Inr_iff)
  next
    case (Some r)
    show ?thesis
    proof (cases "in_MaxCycle i \<le> in_CurrCycle i")
      case True
      with assms i Some finish show ?thesis by (auto simp: commit_def bind_res_eq_Inr_iff)
    next
      case False
      with assms i Some wait show ?thesis by (auto simp: commit_def bind_res_eq_Inr_iff)
    qed
  qed
qed

lemma commit_core: "commit k s = Inr (b, s') \<Longrightarrow> core s' = core s"
  by (erule commit_cases) (auto dest: signalChildren_core)

lemma link_core: "link p c s = Inr s' \<Longrightarrow> core s' = core s"
  by (auto simp: link_def bind_res_eq_Inr_iff Let_def)

lemma link_opt_core: "link_opt mp c s = Inr s' \<Longrightarrow> core s' = core s"
  by (auto simp: link_opt_def link_core split: option.splits)

lemma link_deps_core: "link_deps c j ds s = Inr s' \<Longrightarrow> core s' = core s"
  by (induction c j ds s rule: link_deps.induct)
    (auto simp: bind_res_eq_Inr_iff split: option.splits dest: link_core fetchDependency_idx_core)

lemma link_base_cases:
  assumes "link_base c s = Inr s'"
  obtains (none) "s' = s"
  | (link) r p where "findParent_reg r s = Some p" "link p c s = Inr s'"
  | (base) i v where "li_instr s c = Inr i" "s' = li_set c (i\<lparr> in_ActivePtr := v \<rparr>) s"
proof -
  from assms obtain i where i: "li_instr s c = Inr i" by (auto simp: link_base_def bind_res_eq_Inr_iff)
  show thesis
  proof (cases "in_OpCode i = ''getelementptr''")
    case False
    with assms i none show ?thesis by (simp add: link_base_def)
  next
    case True
    with assms i obtain g where g: "in_class i = GetElementPtr g" by (cases "in_class i") (simp_all add: link_base_def)
    show ?thesis
    proof (cases "findParent_reg (ga_PtrVal g) s")
      case None
      with assms i True g base show ?thesis by (auto simp: link_base_def bind_res_eq_Inr_iff)
    next
      case (Some p)
      with assms i True g link show ?thesis by (auto simp: link_base_def)
    qed
  qed
qed

lemma link_base_core: "link_base c s = Inr s' \<Longrightarrow> core s' = core s"
  by (erule link_base_cases) (auto dest: link_core)

text \<open>Scheduling a basic block adds to the reservation table only.\<close>

definition core_res :: "llvm_interface \<Rightarrow> llvm_interface" where
  "core_res s = (core s)\<lparr> li_reservation := [] \<rparr>"

lemma core_resI: "core s' = core s \<Longrightarrow> core_res s' = core_res s"
  by (simp add: core_res_def)

lemma core_res_li_set: "core_res (li_set k i s) = core_res s"
  by (simp add: core_res_def)

lemma core_res_add_node: "core_res (add_node i s) = core_res s"
  by (simp add: core_res_def core_def add_node_def)

lemma schedule_node_core: "schedule_node prev i s = Inr s' \<Longrightarrow> core_res s' = core_res s"
  unfolding schedule_node_def Let_def bind_res_eq_Inr_iff
  by (elim exE conjE) (auto simp: core_res_add_node core_res_li_set dest!: link_opt_core link_base_core link_deps_core core_resI split: if_splits prod.splits)

lemma schedule_nodes_core: "schedule_nodes prev is s = Inr s' \<Longrightarrow> core_res s' = core_res s"
  by (induction prev "is" s rule: schedule_nodes.induct) (auto simp: bind_res_eq_Inr_iff dest: schedule_node_core)

lemma scheduleBB_core: "scheduleBB bb s = Inr s' \<Longrightarrow> core_res s' = core_res s"
  by (auto simp: scheduleBB_def schedule_nodes_core simp del: schedule_nodes.simps split: option.splits if_splits list.splits)

lemma core_res_fields:
  assumes "core_res s' = core_res s"
  shows "li_lockstep s' = li_lockstep s" "li_threshold s' = li_threshold s" "li_limits s' = li_limits s" "li_clock_period s' = li_clock_period s"
    "li_unlimitedFU s' = li_unlimitedFU s" "li_running s' = li_running s"
    "li_loadOpScheduled s' = li_loadOpScheduled s" "li_storeOpScheduled s' = li_storeOpScheduled s" "li_compOpScheduled s' = li_compOpScheduled s"
    "li_cycle s' = li_cycle s" "li_occ s' = li_occ s" "li_FU s' = li_FU s" "li_MaxFU s' = li_MaxFU s"
    "li_readQueue s' = li_readQueue s" "li_writeQueue s' = li_writeQueue s" "li_computeQueue s' = li_computeQueue s"
    "li_bbList s' = li_bbList s" "li_tickEvent s' = li_tickEvent s"
    "li_nextReq s' = li_nextReq s" "li_requests s' = li_requests s" "li_finishes s' = li_finishes s"
  using arg_cong [OF assms, of li_lockstep] arg_cong [OF assms, of li_threshold] arg_cong [OF assms, of li_limits] arg_cong [OF assms, of li_clock_period]
    arg_cong [OF assms, of li_unlimitedFU] arg_cong [OF assms, of li_running]
    arg_cong [OF assms, of li_loadOpScheduled] arg_cong [OF assms, of li_storeOpScheduled] arg_cong [OF assms, of li_compOpScheduled]
    arg_cong [OF assms, of li_cycle] arg_cong [OF assms, of li_occ] arg_cong [OF assms, of li_FU] arg_cong [OF assms, of li_MaxFU]
    arg_cong [OF assms, of li_readQueue] arg_cong [OF assms, of li_writeQueue] arg_cong [OF assms, of li_computeQueue]
    arg_cong [OF assms, of li_bbList] arg_cong [OF assms, of li_tickEvent]
    arg_cong [OF assms, of li_nextReq] arg_cong [OF assms, of li_requests] arg_cong [OF assms, of li_finishes]
  by (simp_all add: core_res_def core_def)

text \<open>Computing an instruction may hand a request to the communications interface.\<close>

definition core_req :: "llvm_interface \<Rightarrow> llvm_interface" where
  "core_req s = (core s)\<lparr> li_nextReq := 0, li_requests := [] \<rparr>"

lemma li_compute_core: "li_compute u k s = Inr s' \<Longrightarrow> core_req s' = core_req s"
  by (auto simp: li_compute_def bind_res_eq_Inr_iff core_req_def core_def li_set_def split: if_splits)

lemma core_reqI: "core s' = core s \<Longrightarrow> core_req s' = core_req s"
  by (simp add: core_req_def)

lemma core_req_fields:
  assumes "core_req s' = core_req s"
  shows "li_lockstep s' = li_lockstep s" "li_threshold s' = li_threshold s" "li_limits s' = li_limits s" "li_clock_period s' = li_clock_period s"
    "li_unlimitedFU s' = li_unlimitedFU s" "li_running s' = li_running s" 
    "li_loadOpScheduled s' = li_loadOpScheduled s" "li_storeOpScheduled s' = li_storeOpScheduled s" "li_compOpScheduled s' = li_compOpScheduled s"
    "li_cycle s' = li_cycle s" "li_occ s' = li_occ s" "li_FU s' = li_FU s" "li_MaxFU s' = li_MaxFU s"
    "li_reservation s' = li_reservation s" "li_readQueue s' = li_readQueue s" "li_writeQueue s' = li_writeQueue s" "li_computeQueue s' = li_computeQueue s"
    "li_bbList s' = li_bbList s" "li_currBB s' = li_currBB s" "li_prevBB s' = li_prevBB s" "li_tickEvent s' = li_tickEvent s" "li_finishes s' = li_finishes s"
  using arg_cong [OF assms, of li_lockstep] arg_cong [OF assms, of li_threshold] arg_cong [OF assms, of li_limits] arg_cong [OF assms, of li_clock_period]
    arg_cong [OF assms, of li_unlimitedFU] arg_cong [OF assms, of li_running]
    arg_cong [OF assms, of li_loadOpScheduled] arg_cong [OF assms, of li_storeOpScheduled] arg_cong [OF assms, of li_compOpScheduled]
    arg_cong [OF assms, of li_cycle] arg_cong [OF assms, of li_occ] arg_cong [OF assms, of li_FU] arg_cong [OF assms, of li_MaxFU]
    arg_cong [OF assms, of li_reservation] arg_cong [OF assms, of li_readQueue] arg_cong [OF assms, of li_writeQueue] arg_cong [OF assms, of li_computeQueue]
    arg_cong [OF assms, of li_bbList] arg_cong [OF assms, of li_currBB] arg_cong [OF assms, of li_prevBB] arg_cong [OF assms, of li_tickEvent] arg_cong [OF assms, of li_finishes]
  by (simp_all add: core_req_def core_def)


section \<open>The launch loop\<close>

lemma launch_step_cases:
  assumes "launch_step u n s = Inr (m, s')"
  obtains (load) i where "li_instr s (li_reservation s ! n) = Inr i" "in_ActiveParents i = 0" "\<not> in_Terminator i" "in_OpCode i = ''load''"
      "launch_load u n (li_reservation s ! n) s = Inr s'" "m = n"
  | (store) i where "li_instr s (li_reservation s ! n) = Inr i" "in_ActiveParents i = 0" "\<not> in_Terminator i" "in_OpCode i = ''store''"
      "launch_store u n (li_reservation s ! n) s = Inr s'" "m = n"
  | (immediate) i where "li_instr s (li_reservation s ! n) = Inr i" "in_ActiveParents i = 0" "\<not> in_Terminator i" "in_OpCode i \<noteq> ''load''" "in_OpCode i \<noteq> ''store''"
      "in_MaxCycle i = 0" "launch_immediate u n (li_reservation s ! n) s = Inr s'" "m = n"
  | (limited) i s1 fd where "li_instr s (li_reservation s ! n) = Inr i" "in_ActiveParents i = 0" "\<not> in_Terminator i" "in_OpCode i \<noteq> ''load''" "in_OpCode i \<noteq> ''store''"
      "in_MaxCycle i \<noteq> 0" "\<not> li_unlimitedFU s" "limitedFU (in_FunctionalUnit i) s = (True, s1)"
      "launch_compute u n (li_reservation s ! n) (s1\<lparr> li_fpDivision := fd \<rparr>) = Inr s'" "m = n"
  | (refused) i where "li_instr s (li_reservation s ! n) = Inr i" "in_ActiveParents i = 0" "\<not> in_Terminator i" "in_MaxCycle i \<noteq> 0" "\<not> li_unlimitedFU s"
      "limitedFU (in_FunctionalUnit i) s = (False, s')" "m = Suc n"
  | (unlimited) i where "li_instr s (li_reservation s ! n) = Inr i" "in_ActiveParents i = 0" "\<not> in_Terminator i" "in_OpCode i \<noteq> ''load''" "in_OpCode i \<noteq> ''store''"
      "in_MaxCycle i \<noteq> 0" "li_unlimitedFU s" "launch_compute u n (li_reservation s ! n) s = Inr s'" "m = n"
  | (branch) i where "li_instr s (li_reservation s ! n) = Inr i" "in_ActiveParents i = 0" "in_Terminator i" "in_OpCode i \<noteq> ''ret''"
      "length (li_reservation s) < li_threshold s" "launch_branch u n (li_reservation s ! n) s = Inr s'" "m = n"
  | (idle) "s' = s" "m = Suc n"
  | (stuck) i where "li_instr s (li_reservation s ! n) = Inr i" "in_ActiveParents i = 0" "in_OpCode i = ''ret''" "s' = s" "m = n"
  | (complete) i where "li_instr s (li_reservation s ! n) = Inr i" "in_ActiveParents i \<noteq> 0" "in_OpCode i = ''ret''" "n = 0"
      "li_computeQueue s = []" "li_readQueue s = []" "li_writeQueue s = []"
      "s' = (erase_reserved n s)\<lparr> li_running := False, li_finishes := li_finishes s + 1 \<rparr>" "m = Suc n"
proof -
  define k where "k = li_reservation s ! n"
  from assms obtain i where i: "li_instr s k = Inr i" unfolding launch_step_def bind_res_eq_Inr_iff k_def [symmetric] by (elim exE conjE) (rule that)
  have st: "launch_instr u n k s i = Inr (m, s')" using assms i by (simp add: launch_step_def k_def)
  show thesis
  proof (cases "in_ActiveParents i = 0")
    case False
    show ?thesis
    proof (cases "in_OpCode i = ''ret'' \<and> n = 0 \<and> li_computeQueue s = [] \<and> li_readQueue s = [] \<and> li_writeQueue s = []")
      case True
      with False st [unfolded launch_instr_def] have "(Suc n, (erase_reserved n s)\<lparr> li_running := False, li_finishes := li_finishes s + 1 \<rparr>) = (m, s')" by (simp only: if_False if_True refl sum.inject simp_thms)
      then have "m = Suc n" "s' = (erase_reserved n s)\<lparr> li_running := False, li_finishes := li_finishes s + 1 \<rparr>" by blast+
      with True show ?thesis by (intro complete [OF i [unfolded k_def] False]) blast+
    next
      case no: False
      from no False st [unfolded launch_instr_def] have "(Suc n, s) = (m, s')" by (simp only: if_False) (simp add: if_not_P [OF no])
      then show ?thesis by (intro idle) simp_all
    qed
  next
    case ready: True
    show ?thesis
    proof (cases "in_Terminator i")
      case True
      show ?thesis
      proof (cases "in_OpCode i \<noteq> ''ret'' \<and> length (li_reservation s) < li_threshold s")
        case go: True
        with st [unfolded launch_instr_def] True ready have "launch_branch u n k s = Inr s'" "m = n" by (auto simp: launch_value_def launch_unit_def at_index_def bind_res_eq_Inr_iff)
        then show ?thesis by (rule branch [OF i [unfolded k_def] ready True conjunct1 [OF go] conjunct2 [OF go], folded k_def])
      next
        case False
        with st [unfolded launch_instr_def] True ready have "s' = s" "in_OpCode i = ''ret'' \<and> m = n \<or> m = Suc n" by (auto split: if_splits)
        then show ?thesis using idle stuck [OF i [unfolded k_def] ready] by blast
      qed
    next
      case nt: False
      with st ready have st: "launch_value u n k i s = Inr (m, s')" by (simp add: launch_instr_def)
      consider (l) "in_OpCode i = ''load''" | (s) "in_OpCode i = ''store''" | (z) "in_OpCode i \<noteq> ''load''" "in_OpCode i \<noteq> ''store''" "in_MaxCycle i = 0"
        | (c) "in_OpCode i \<noteq> ''load''" "in_OpCode i \<noteq> ''store''" "in_MaxCycle i \<noteq> 0" by blast
      then show ?thesis
      proof cases
        case l
        with st have "launch_load u n k s = Inr s'" "m = n" by (auto simp: launch_value_def launch_unit_def at_index_def bind_res_eq_Inr_iff)
        then show ?thesis by (rule load [OF i [unfolded k_def] ready nt l, folded k_def])
      next
        case s
        with st have "launch_store u n k s = Inr s'" "m = n" by (auto simp: launch_value_def launch_unit_def at_index_def bind_res_eq_Inr_iff)
        then show ?thesis by (rule store [OF i [unfolded k_def] ready nt s, folded k_def])
      next
        case z
        with st have "launch_immediate u n k s = Inr s'" "m = n" by (auto simp: launch_value_def launch_unit_def at_index_def bind_res_eq_Inr_iff)
        then show ?thesis by (rule immediate [OF i [unfolded k_def] ready nt z, folded k_def])
      next
        case c
        show ?thesis
        proof (cases "li_unlimitedFU s")
          case True
          with st c have "launch_compute u n k s = Inr s'" "m = n" by (auto simp: launch_value_def launch_unit_def at_index_def bind_res_eq_Inr_iff)
          then show ?thesis by (rule unlimited [OF i [unfolded k_def] ready nt c True, folded k_def])
        next
          case False
          obtain ok s1 where fu: "limitedFU (in_FunctionalUnit i) s = (ok, s1)" by fastforce
          show ?thesis
          proof (cases ok)
            case True
            define fd where "fd = (if in_OpCode i = ''fdiv'' then li_fpDivision s1 + 1 else li_fpDivision s1)"
            have "(if in_OpCode i = ''fdiv'' then s1\<lparr> li_fpDivision := li_fpDivision s1 + 1 \<rparr> else s1) = s1\<lparr> li_fpDivision := fd \<rparr>"
              by (simp add: fd_def)
            with st c False fu True have "launch_compute u n k (s1\<lparr> li_fpDivision := fd \<rparr>) = Inr s'" "m = n"
              by (simp_all only: launch_value_def launch_unit_def at_index_def not_False_eq_True if_True if_False prod.case refl bind_res_eq_Inr_iff) auto
            then show ?thesis by (rule limited [OF i [unfolded k_def] ready nt c False fu [unfolded eqTrueI [OF True]], folded k_def])
          next
            case no: False
            from st c False fu no have "s' = s1" "m = Suc n" by (simp_all add: launch_value_def launch_unit_def)
            with fu no show ?thesis by (intro refused [OF i [unfolded k_def] ready nt c(3) False]) simp_all
          qed
        qed
      qed
    qed
  qed
qed

lemma launch_loop_induct [consumes 2, case_names step]:
  assumes "launch_loop u n s = Some (Inr s')" and "P s"
    and step: "\<And>u n s m s'. P s \<Longrightarrow> n < length (li_reservation s) \<Longrightarrow> launch_step u n s = Inr (m, s') \<Longrightarrow> P s'"
  shows "P s'"
proof -
  have "\<forall>t. r = Inr t \<longrightarrow> P s \<longrightarrow> P t" if "launch_loop u n s = Some r" for r
  proof (rule launch_loop.raw_induct [where P = "\<lambda>u n s r. \<forall>t. r = Inr t \<longrightarrow> P s \<longrightarrow> P t", OF _ that], goal_cases)
    case (1 loop u n s r)
    show ?case
    proof (intro allI impI)
      fix t assume t: "r = Inr t" and P: "P s"
      show "P t"
      proof (cases "n < length (li_reservation s)")
        case True
        with 1 t obtain m s1 where "launch_step u n s = Inr (m, s1)" "loop u m s1 = Some (Inr t)" by (auto split: sum.splits)
        with 1(1) [of u m s1 "Inr t"] step [OF P True, of u m s1] show ?thesis by simp
      qed (use 1 t P in simp)
    qed
  qed
  with assms show ?thesis by blast
qed

text \<open>The parts of a launch.\<close>

lemma bind_res_pair_eq_Inr_iff: "bind_res r (\<lambda>(x, y). f x y) = Inr z \<longleftrightarrow> (\<exists>x y. r = Inr (x, y) \<and> f x y = Inr z)"
  by (cases r) auto

lemma launch_load_cases:
  assumes "launch_load u n k s = Inr s'"
  obtains s1 i dl ml where "li_compute u k (s\<lparr> li_loadOpScheduled := True, li_readQueue := li_readQueue s @ [k] \<rparr>) = Inr s1" "li_instr s1 k = Inr i"
    "s' = (erase_reserved n (count_fu i (s1\<lparr> li_dma_loads := dl, li_memory_loads := ml \<rparr>)))\<lparr> li_scheduled := True \<rparr>"
proof -
  from assms obtain s1 i where c: "li_compute u k (s\<lparr> li_loadOpScheduled := True, li_readQueue := li_readQueue s @ [k] \<rparr>) = Inr s1" "li_instr s1 k = Inr i"
    and s': "s' = (erase_reserved n (count_fu i (if in_Global i then s1\<lparr> li_dma_loads := li_dma_loads s1 + 1 \<rparr> else s1\<lparr> li_memory_loads := li_memory_loads s1 + 1 \<rparr>)))\<lparr> li_scheduled := True \<rparr>"
    unfolding launch_load_def bind_res_eq_Inr_iff Let_def by (elim exE conjE) (rule that, assumption+, erule Inr_inject [symmetric])
  have "(if in_Global i then s1\<lparr> li_dma_loads := li_dma_loads s1 + 1 \<rparr> else s1\<lparr> li_memory_loads := li_memory_loads s1 + 1 \<rparr>)
    = s1\<lparr> li_dma_loads := li_dma_loads s1 + of_bool (in_Global i), li_memory_loads := li_memory_loads s1 + of_bool (\<not> in_Global i) \<rparr>" by simp
  from that [OF c s' [unfolded this]] show thesis .
qed

lemma launch_store_cases:
  assumes "launch_store u n k s = Inr s'"
  obtains s1 i dl ml where "li_compute u k (s\<lparr> li_storeOpScheduled := True, li_writeQueue := li_writeQueue s @ [k] \<rparr>) = Inr s1" "li_instr s1 k = Inr i"
    "s' = (erase_reserved n (count_fu i (s1\<lparr> li_dma_stores := dl, li_memory_stores := ml \<rparr>)))\<lparr> li_scheduled := True \<rparr>"
proof -
  from assms obtain s1 i where c: "li_compute u k (s\<lparr> li_storeOpScheduled := True, li_writeQueue := li_writeQueue s @ [k] \<rparr>) = Inr s1" "li_instr s1 k = Inr i"
    and s': "s' = (erase_reserved n (count_fu i (if in_Global i then s1\<lparr> li_dma_stores := li_dma_stores s1 + 1 \<rparr> else s1\<lparr> li_memory_stores := li_memory_stores s1 + 1 \<rparr>)))\<lparr> li_scheduled := True \<rparr>"
    unfolding launch_store_def bind_res_eq_Inr_iff Let_def by (elim exE conjE) (rule that, assumption+, erule Inr_inject [symmetric])
  have "(if in_Global i then s1\<lparr> li_dma_stores := li_dma_stores s1 + 1 \<rparr> else s1\<lparr> li_memory_stores := li_memory_stores s1 + 1 \<rparr>)
    = s1\<lparr> li_dma_stores := li_dma_stores s1 + of_bool (in_Global i), li_memory_stores := li_memory_stores s1 + of_bool (\<not> in_Global i) \<rparr>" by simp
  from that [OF c s' [unfolded this]] show thesis .
qed

lemma launch_immediate_cases:
  assumes "launch_immediate u n k s = Inr s'"
  obtains s1 b s2 i where "li_compute u k s = Inr s1" "commit k s1 = Inr (b, s2)" "li_instr s2 k = Inr i"
    "s' = (erase_reserved n (li_set k (removeParents i) (count_fu i s2)))\<lparr> li_scheduled := True, li_compOpScheduled := True \<rparr>"
  using assms unfolding launch_immediate_def bind_res_eq_Inr_iff split_paired_Ex prod.case
  by (elim exE conjE) (rule that, assumption+, erule Inr_inject [symmetric])

lemma launch_compute_cases:
  assumes "launch_compute u n k s = Inr s'"
  obtains s1 b s2 i where "li_compute u k (s\<lparr> li_computeQueue := li_computeQueue s @ [k] \<rparr>) = Inr s1" "commit k s1 = Inr (b, s2)" "li_instr s2 k = Inr i"
    "s' = (erase_reserved n (count_fu i s2))\<lparr> li_scheduled := True, li_compOpScheduled := True \<rparr>"
  using assms unfolding launch_compute_def bind_res_eq_Inr_iff split_paired_Ex prod.case
  by (elim exE conjE) (rule that, assumption+, erule Inr_inject [symmetric])

lemma launch_branch_cases:
  assumes "launch_branch u n k s = Inr s'"
  obtains i s1 i1 bb where "li_instr s k = Inr i" "li_compute u k ((count_fu i s)\<lparr> li_prevBB := li_currBB s \<rparr>) = Inr s1" "li_instr s1 k = Inr i1"
    "bb = findBB (in_Dest i1) s1" "scheduleBB bb ((erase_reserved n s1)\<lparr> li_currBB := bb \<rparr>) = Inr s'"
  using assms unfolding launch_branch_def bind_res_eq_Inr_iff Let_def
  by (elim exE conjE) (rule that, assumption+, rule refl)

lemma retire_cases:
  assumes "retire k s = Inr s'"
  obtains b s1 i where "commit k s = Inr (b, s1)" "li_instr s1 k = Inr i" "s' = li_set k (removeParents i) s1"
  using assms unfolding retire_def bind_res_eq_Inr_iff split_paired_Ex prod.case
  by (elim exE conjE) (rule that, assumption+, erule Inr_inject [symmetric])

lemma commit_loop_cases:
  assumes "commit_loop n (k # ks) s = Inr (r, s')"
  obtains i b s1 where "li_instr s (li_reservation s ! n) = Inr i" "n < length (li_reservation s)"
    "(if li_unlimitedFU s then (True, updateFU (in_FunctionalUnit i) s) else limitedFU (in_FunctionalUnit i) s) = (b, s1)"
    "(\<exists>s2 i2. b \<and> commit k s1 = Inr (True, s2) \<and> li_instr s2 k = Inr i2 \<and> commit_loop n ks (li_set k (removeParents i2) s2) = Inr (r, s')) \<or>
     (\<exists>s2 r'. (if b then commit k s1 else Inr (False, s1)) = Inr (False, s2) \<and> commit_loop (Suc n) ks s2 = Inr (r', s') \<and> r = k # r')"
proof -
  from assms have n: "n < length (li_reservation s)" by (simp split: if_splits)
  with assms obtain i where i: "li_instr s (li_reservation s ! n) = Inr i" unfolding commit_loop.simps if_P [OF n] bind_res_eq_Inr_iff by blast
  obtain b s1 where f: "(if li_unlimitedFU s then (True, updateFU (in_FunctionalUnit i) s) else limitedFU (in_FunctionalUnit i) s) = (b, s1)" by fastforce
  from assms [unfolded commit_loop.simps if_P [OF n] i bind_res_Inr f Let_def prod.case] obtain fin s2
    where c: "(if b then commit k s1 else Inr (False, s1)) = Inr (fin, s2)"
      and r: "(if fin then bind_res (li_instr s2 k) (\<lambda>i. commit_loop n ks (li_set k (removeParents i) s2))
           else bind_res (commit_loop (Suc n) ks s2) (\<lambda>(rest, s3). Inr (k # rest, s3))) = Inr (r, s')"
    unfolding bind_res_pair_eq_Inr_iff by blast
  show thesis
  proof (rule that [OF i n f], cases fin)
    case True
    with r obtain i2 where "li_instr s2 k = Inr i2" "commit_loop n ks (li_set k (removeParents i2) s2) = Inr (r, s')" by (auto simp: bind_res_eq_Inr_iff)
    with c True show "(\<exists>s2 i2. b \<and> commit k s1 = Inr (True, s2) \<and> li_instr s2 k = Inr i2 \<and> commit_loop n ks (li_set k (removeParents i2) s2) = Inr (r, s')) \<or>
     (\<exists>s2 r'. (if b then commit k s1 else Inr (False, s1)) = Inr (False, s2) \<and> commit_loop (Suc n) ks s2 = Inr (r', s') \<and> r = k # r')"
      by (cases b) auto
  next
    case False
    with r obtain r' where "commit_loop (Suc n) ks s2 = Inr (r', s')" "r = k # r'" by (auto simp: bind_res_pair_eq_Inr_iff)
    then show "(\<exists>s2 i2. b \<and> commit k s1 = Inr (True, s2) \<and> li_instr s2 k = Inr i2 \<and> commit_loop n ks (li_set k (removeParents i2) s2) = Inr (r, s')) \<or>
     (\<exists>s2 r'. (if b then commit k s1 else Inr (False, s1)) = Inr (False, s2) \<and> commit_loop (Suc n) ks s2 = Inr (r', s') \<and> r = k # r')"
      using c False by (intro disjI2 exI [of _ s2] exI [of _ r']) simp
  qed
qed

end
