(* ===== verification/Runtime_Run.thy ===== *)
theory Runtime_Run
  imports Runtime_Steps
begin

text \<open>
  Runs of the compute unit and what they keep: the limits of the functional units and the account
  of cycles.
\<close>

section \<open>Runs\<close>

text \<open>
  The states of a run: it is initialised with a parsed program, its tick event fires, and
  the communications interface commits requests.
\<close>

inductive li_run :: "fpu \<Rightarrow> (string \<times> instr list) list \<Rightarrow> llvm_interface \<Rightarrow> bool" for u bbs where
  start: "li_initialize u now bbs rl (LLVMInterface ls th limits sd dd per) = Some (Inr s) \<Longrightarrow> li_run u bbs s"
| tick: "li_run u bbs s \<Longrightarrow> li_tickEvent s = Some now \<Longrightarrow> li_tick u now (s\<lparr> li_tickEvent := None \<rparr>) = Some (Inr s') \<Longrightarrow> li_run u bbs s'"
| read: "li_run u bbs s \<Longrightarrow> readCommit q buf s = Inr s' \<Longrightarrow> li_run u bbs s'"
| store: "li_run u bbs s \<Longrightarrow> writeCommit q s = Inr s' \<Longrightarrow> li_run u bbs s'"

lemma retire_core: "retire k s = Inr s' \<Longrightarrow> core s' = core s"
  by (erule retire_cases) (auto dest: commit_core)

lemma retire_load_core: "retire_load buf k i s = Inr s' \<Longrightarrow> core s' = core s"
  unfolding retire_load_def bind_res_eq_Inr_iff by (elim exE conjE) (drule retire_core, simp)

lemma request_loop_core:
  assumes "request_loop f q ks s = Inr (r, s')" and "\<And>k i s s'. f k i s = Inr s' \<Longrightarrow> core s' = core s"
  shows "core s' = core s"
  using assms
proof (induction f q ks s arbitrary: r rule: request_loop.induct)
  case (2 f q k s)
  from 2(1) have "s' = s \<or> (\<exists>i. f k i s = Inr s')" by (auto simp: bind_res_eq_Inr_iff split: if_splits)
  with 2(2) show ?case by blast
next
  case (3 f q k k' ks s)
  from 3(3) obtain i where i: "li_instr s k = Inr i" by (auto simp: bind_res_eq_Inr_iff)
  show ?case
  proof (cases "in_Req i = Some q")
    case True
    with 3(3) i obtain s1 r1 where s1: "f k i s = Inr s1" "request_loop f q ks s1 = Inr (r1, s')" by (auto simp: bind_res_eq_Inr_iff)
    from 3(1) [OF True s1(2)] 3(4) have "core s' = core s1" by blast
    also have "\<dots> = core s" by (rule 3(4) [OF s1(1)])
    finally show ?thesis .
  next
    case False
    with 3(3) i obtain r1 where "request_loop f q (k' # ks) s = Inr (r1, s')" by (auto simp: bind_res_eq_Inr_iff)
    from 3(2) [OF False this] 3(4) show ?thesis by blast
  qed
qed simp

lemma readCommit_core:
  assumes "readCommit q buf s = Inr s'"
  obtains r s1 where "s' = s1\<lparr> li_readQueue := r \<rparr>" "core s1 = core s" "request_loop (retire_load buf) q (li_readQueue s) s = Inr (r, s1)"
proof -
  from assms obtain r s1 where l: "request_loop (retire_load buf) q (li_readQueue s) s = Inr (r, s1)" and s': "s' = s1\<lparr> li_readQueue := r \<rparr>"
    by (auto simp: readCommit_def bind_res_eq_Inr_iff)
  show thesis by (rule that [OF s' request_loop_core [OF l retire_load_core] l])
qed

lemma writeCommit_core:
  assumes "writeCommit q s = Inr s'"
  obtains r s1 where "s' = s1\<lparr> li_writeQueue := r \<rparr>" "core s1 = core s" "request_loop (\<lambda>k i. retire k) q (li_writeQueue s) s = Inr (r, s1)"
proof -
  from assms obtain r s1 where l: "request_loop (\<lambda>k i. retire k) q (li_writeQueue s) s = Inr (r, s1)" and s': "s' = s1\<lparr> li_writeQueue := r \<rparr>"
    by (auto simp: writeCommit_def bind_res_eq_Inr_iff)
  show thesis by (rule that [OF s' request_loop_core [OF l retire_core] l])
qed

section \<open>Limits of functional units\<close>

text \<open>With limits, no unit is used beyond its limit in a cycle, nor has been in an earlier one.\<close>

definition fu_ok :: "llvm_interface \<Rightarrow> bool" where
  "fu_ok s \<longleftrightarrow> (\<not> li_unlimitedFU s \<longrightarrow> (\<forall>f. 0 \<le> li_limits s f \<longrightarrow> li_FU s f \<le> li_limits s f \<and> li_MaxFU s f \<le> li_limits s f))"

lemma fu_ok_cong:
  "li_unlimitedFU s' = li_unlimitedFU s \<Longrightarrow> li_limits s' = li_limits s \<Longrightarrow> li_FU s' = li_FU s \<Longrightarrow> li_MaxFU s' = li_MaxFU s \<Longrightarrow> fu_ok s' = fu_ok s"
  by (simp add: fu_ok_def)

lemma fu_ok_core: "core s' = core s \<Longrightarrow> fu_ok s' = fu_ok s"
  by (rule fu_ok_cong; rule core_fields)

lemma fu_ok_core_res: "core_res s' = core_res s \<Longrightarrow> fu_ok s' = fu_ok s"
  by (rule fu_ok_cong; rule core_res_fields)

lemma fu_ok_core_req: "core_req s' = core_req s \<Longrightarrow> fu_ok s' = fu_ok s"
  by (rule fu_ok_cong; rule core_req_fields)

lemma limitedFU_ok: "fu_ok s \<Longrightarrow> limitedFU k s = (b, s') \<Longrightarrow> fu_ok s'"
  by (auto simp: limitedFU_def fu_ok_def Let_def split: if_splits)

lemma limitedFU_fields:
  assumes "limitedFU k s = (b, s')"
  shows "s' = s\<lparr> li_FU := li_FU s' \<rparr>"
  using assms by (auto simp: limitedFU_def Let_def split: if_splits)

lemma updateFU_ok: "li_unlimitedFU s \<Longrightarrow> fu_ok (updateFU k s)"
  by (simp add: fu_ok_def updateFU_def)

lemma count_fu_ok: "fu_ok (count_fu i s) = fu_ok s"
  by (simp add: count_fu_def fu_ok_def updateFU_def)

lemma clearFU_ok: "fu_ok s \<Longrightarrow> fu_ok (clearFU s)"
  by (auto simp: fu_ok_def clearFU_def maxFU_def Occupancy_def)


text \<open>
  The operations of the launch loop and the commit loop, seen through the fields that the
  statistics read: every quantity of the state that they leave alone, and the counts of units.
\<close>

definition stats :: "llvm_interface \<Rightarrow> bool \<times> bool \<times> (fu \<Rightarrow> int) \<times> (fu \<Rightarrow> int) \<times> int \<times> (occ \<Rightarrow> int) \<times> (string \<times> instr list) list" where
  "stats s = (li_lockstep s, li_unlimitedFU s, li_limits s, li_MaxFU s, li_cycle s, li_occ s, li_bbList s)"

lemma stats_core: "core s' = core s \<Longrightarrow> stats s' = stats s"
  by (simp add: stats_def core_fields [of s' s])

lemma stats_core_res: "core_res s' = core_res s \<Longrightarrow> stats s' = stats s"
  by (simp add: stats_def core_res_fields [of s' s])

lemma stats_core_req: "core_req s' = core_req s \<Longrightarrow> stats s' = stats s"
  by (simp add: stats_def core_req_fields [of s' s])

lemma fu_ok_stats: "stats s' = stats s \<Longrightarrow> li_FU s' = li_FU s \<Longrightarrow> fu_ok s' = fu_ok s"
  by (simp add: stats_def fu_ok_def)

lemma stats_simps [simp]:
  "stats (count_fu i s) = stats s" "stats (erase_reserved n s) = stats s" "stats (updateFU z s) = stats s" "stats (li_set k i s) = stats s"
  by (simp_all add: stats_def count_fu_def erase_reserved_def updateFU_def li_set_def)

lemma limitedFU_stats: "limitedFU k s = (b, s') \<Longrightarrow> stats s' = stats s"
  by (auto simp: limitedFU_def stats_def Let_def split: if_splits)

definition kept :: "llvm_interface \<Rightarrow> llvm_interface \<Rightarrow> bool" where
  "kept s s' \<longleftrightarrow> stats s' = stats s \<and> (fu_ok s \<longrightarrow> fu_ok s')"

lemma kept_trans: "kept s s1 \<Longrightarrow> kept s1 s2 \<Longrightarrow> kept s s2"
  by (simp add: kept_def)

lemma kept_core: "core s' = core s \<Longrightarrow> kept s s'"
  unfolding kept_def using stats_core [of s' s] fu_ok_core [of s' s] by blast

lemma kept_core_res: "core_res s' = core_res s \<Longrightarrow> kept s s'"
  unfolding kept_def using stats_core_res [of s' s] fu_ok_core_res [of s' s] by blast

lemma kept_core_req: "core_req s' = core_req s \<Longrightarrow> kept s s'"
  unfolding kept_def using stats_core_req [of s' s] fu_ok_core_req [of s' s] by blast

lemma kept_count_fu: "kept s s' \<Longrightarrow> kept s (count_fu i s')"
  by (simp add: kept_def count_fu_ok)

lemma kept_eq: "kept s s1 \<Longrightarrow> stats s' = stats s1 \<Longrightarrow> li_FU s' = li_FU s1 \<Longrightarrow> kept s s'"
  using fu_ok_stats [of s' s1] by (simp add: kept_def)

lemma kept_from: "stats s0 = stats s \<Longrightarrow> li_FU s0 = li_FU s \<Longrightarrow> kept s0 s' \<Longrightarrow> kept s s'"
  using fu_ok_stats [of s0 s] by (simp add: kept_def)

lemma stats_upd [simp]:
  "stats (s\<lparr> li_dma_loads := n1 \<rparr>) = stats s" "stats (s\<lparr> li_memory_loads := n1 \<rparr>) = stats s"
  "stats (s\<lparr> li_dma_stores := n1 \<rparr>) = stats s" "stats (s\<lparr> li_memory_stores := n1 \<rparr>) = stats s"
  "stats (s\<lparr> li_scheduled := b \<rparr>) = stats s" "stats (s\<lparr> li_compOpScheduled := b \<rparr>) = stats s"
  "stats (s\<lparr> li_loadOpScheduled := b \<rparr>) = stats s" "stats (s\<lparr> li_storeOpScheduled := b \<rparr>) = stats s"
  "stats (s\<lparr> li_readQueue := q \<rparr>) = stats s" "stats (s\<lparr> li_writeQueue := q \<rparr>) = stats s" "stats (s\<lparr> li_computeQueue := q \<rparr>) = stats s"
  "stats (s\<lparr> li_prevBB := bb \<rparr>) = stats s" "stats (s\<lparr> li_currBB := bb \<rparr>) = stats s" "stats (s\<lparr> li_fpDivision := z \<rparr>) = stats s"
  "stats (s\<lparr> li_running := b \<rparr>) = stats s" "stats (s\<lparr> li_finishes := n1 \<rparr>) = stats s" "stats (s\<lparr> li_tickEvent := e \<rparr>) = stats s"
  by (simp_all add: stats_def)

lemma FU_upd [simp]: "li_FU (erase_reserved n s) = li_FU s" "li_FU (li_set k i s) = li_FU s"
  by (simp_all add: erase_reserved_def li_set_def)

lemma kept_count: "kept s (count_fu i s') = kept s s'"
  by (simp add: kept_def count_fu_ok)

lemma kept_refl [simp]: "kept s s"
  by (simp add: kept_def)

lemma li_compute_kept: "li_compute u k s = Inr s' \<Longrightarrow> kept s s'"
  by (rule kept_core_req [OF li_compute_core])

lemma commit_kept: "commit k s = Inr (b, s') \<Longrightarrow> kept s s'"
  by (rule kept_core [OF commit_core])

lemma launch_load_kept: "launch_load u n k s = Inr s' \<Longrightarrow> kept s s'"
  by (erule launch_load_cases, drule li_compute_kept, drule kept_from [rotated 2], simp, simp)
    (rule kept_eq [OF kept_count [THEN iffD2]], rule kept_eq, simp_all)

lemma launch_store_kept: "launch_store u n k s = Inr s' \<Longrightarrow> kept s s'"
  by (erule launch_store_cases, drule li_compute_kept, drule kept_from [rotated 2], simp, simp)
    (rule kept_eq [OF kept_count [THEN iffD2]], rule kept_eq, simp_all)

lemma launch_immediate_kept: "launch_immediate u n k s = Inr s' \<Longrightarrow> kept s s'"
  by (erule launch_immediate_cases, drule li_compute_kept, drule commit_kept, drule kept_trans, assumption)
    (simp, rule kept_eq [OF kept_count [THEN iffD2]], simp_all)

lemma launch_compute_kept: "launch_compute u n k s = Inr s' \<Longrightarrow> kept s s'"
  by (erule launch_compute_cases, drule li_compute_kept, drule commit_kept, drule kept_from [rotated 2], simp, simp, drule kept_trans, assumption)
    (simp, rule kept_eq [OF kept_count [THEN iffD2]], simp_all)

lemma launch_branch_kept:
  assumes "launch_branch u n k s = Inr s'" shows "kept s s'"
  using assms
proof (rule launch_branch_cases)
  fix i s1 bb
  assume c: "li_compute u k ((count_fu i s)\<lparr> li_prevBB := li_currBB s \<rparr>) = Inr s1" "scheduleBB bb ((erase_reserved n s1)\<lparr> li_currBB := bb \<rparr>) = Inr s'"
  have "kept s ((count_fu i s)\<lparr> li_prevBB := li_currBB s \<rparr>)" by (rule kept_eq [OF kept_count [THEN iffD2]]) simp_all
  from kept_trans [OF this li_compute_kept [OF c(1)]] have "kept s ((erase_reserved n s1)\<lparr> li_currBB := bb \<rparr>)" by (rule kept_eq) simp_all
  from kept_trans [OF this kept_core_res [OF scheduleBB_core [OF c(2)]]] show ?thesis .
qed

lemma launch_step_kept:
  assumes "launch_step u n s = Inr (m, s')" shows "kept s s'"
  using assms
proof (cases rule: launch_step_cases)
  case (limited i s1 fd)
  have "kept s s1" using limitedFU_ok [OF _ limited(8)] limitedFU_stats [OF limited(8)] by (simp add: kept_def)
  then have "kept s (s1\<lparr> li_fpDivision := fd \<rparr>)" by (rule kept_eq) simp_all
  with launch_compute_kept [OF limited(9)] show ?thesis by (rule kept_trans [rotated])
next
  case (refused i)
  then show ?thesis using limitedFU_ok [OF _ refused(6)] limitedFU_stats [OF refused(6)] by (simp add: kept_def)
next
  case (complete i)
  then show ?thesis by (intro kept_eq [OF kept_refl]) simp_all
qed (auto dest: launch_load_kept launch_store_kept launch_immediate_kept launch_compute_kept launch_branch_kept)

lemma launch_loop_kept: "launch_loop u n s = Some (Inr s') \<Longrightarrow> kept s s'"
  by (erule launch_loop_induct [where P = "kept s"]) (auto simp: kept_def dest: launch_step_kept)

lemma commit_loop_kept: "commit_loop n ks s = Inr (r, s') \<Longrightarrow> kept s s'"
proof (induction ks arbitrary: n s r)
  case (Cons k ks)
  from Cons(2) show ?case
  proof (rule commit_loop_cases)
    fix i b s1
    assume f: "(if li_unlimitedFU s then (True, updateFU (in_FunctionalUnit i) s) else limitedFU (in_FunctionalUnit i) s) = (b, s1)"
      and rest: "(\<exists>s2 i2. b \<and> commit k s1 = Inr (True, s2) \<and> li_instr s2 k = Inr i2 \<and> commit_loop n ks (li_set k (removeParents i2) s2) = Inr (r, s')) \<or>
        (\<exists>s2 r'. (if b then commit k s1 else Inr (False, s1)) = Inr (False, s2) \<and> commit_loop (Suc n) ks s2 = Inr (r', s') \<and> r = k # r')"
    have s1: "kept s s1"
    proof (cases "li_unlimitedFU s")
      case True
      with f show ?thesis by (auto simp: kept_def updateFU_ok)
    next
      case False
      with f have "limitedFU (in_FunctionalUnit i) s = (b, s1)" by simp
      then show ?thesis using limitedFU_ok limitedFU_stats unfolding kept_def by blast
    qed
    from rest show "kept s s'"
    proof (elim disjE exE conjE)
      fix s2 i2
      assume c: "commit k s1 = Inr (True, s2)" "commit_loop n ks (li_set k (removeParents i2) s2) = Inr (r, s')"
      have "kept s (li_set k (removeParents i2) s2)" by (rule kept_eq [OF kept_trans [OF s1 commit_kept [OF c(1)]]]) simp_all
      from kept_trans [OF this Cons(1) [OF c(2)]] show ?thesis .
    next
      fix s2 r'
      assume c: "(if b then commit k s1 else Inr (False, s1)) = Inr (False, s2)" "commit_loop (Suc n) ks s2 = Inr (r', s')"
      have "kept s s2" using c(1) s1 kept_trans [OF s1 commit_kept] by (auto split: if_splits)
      from kept_trans [OF this Cons(1) [OF c(2)]] show ?thesis .
    qed
  qed
qed (simp add: kept_def)

section \<open>The cycle as a whole\<close>

lemma li_tick_cases:
  assumes "li_tick u now s = Some (Inr s')"
  obtains s1 s2 s3 where "commit_queue (tick_begin s) = Inr s1" "tick_refill s1 = Inr s2" "s3 = s2 \<or> launch_loop u 0 s2 = Some (Inr s3)" "s' = tick_end now s3"
proof -
  from assms obtain s2 where s2: "bind_res (commit_queue (tick_begin s)) tick_refill = Inr s2" by (auto simp: li_tick_def split: sum.splits)
  then obtain s1 where s1: "commit_queue (tick_begin s) = Inr s1" "tick_refill s1 = Inr s2" by (auto simp: bind_res_eq_Inr_iff)
  show thesis
  proof (cases "li_lockstep s2 \<and> (li_computeQueue s2 \<noteq> [] \<or> li_readQueue s2 \<noteq> [] \<or> li_writeQueue s2 \<noteq> [])")
    case True
    with assms s2 have "s' = tick_end now s2" by (simp only: li_tick_def sum.case if_True option.map) simp
    with that [OF s1, of s2] show ?thesis by simp
  next
    case False
    with assms s2 obtain r where "launch_loop u 0 s2 = Some r" "bind_res r (\<lambda>s2. Inr (tick_end now s2)) = Inr s'"
      by (simp only: li_tick_def sum.case if_False) auto
    then obtain s3 where "launch_loop u 0 s2 = Some (Inr s3)" "s' = tick_end now s3" by (auto simp: bind_res_eq_Inr_iff)
    with that [OF s1, of s3] show ?thesis by simp
  qed
qed

lemma commit_queue_cases:
  assumes "commit_queue s = Inr s'"
  obtains q s1 where "commit_loop 0 (li_computeQueue s) s = Inr (q, s1)" "s' = s1\<lparr> li_computeQueue := q \<rparr>"
  using assms unfolding commit_queue_def bind_res_eq_Inr_iff split_paired_Ex prod.case
  by (elim exE conjE) (rule that, assumption, erule Inr_inject [symmetric])

lemma commit_queue_kept: "commit_queue s = Inr s' \<Longrightarrow> kept s s'"
  by (erule commit_queue_cases) (drule commit_loop_kept, erule kept_eq, simp_all)

lemma tick_refill_kept:
  assumes "tick_refill s = Inr s'" shows "kept s s'"
proof -
  from assms have "s' = s\<lparr> li_scheduled := False \<rparr> \<or> scheduleBB (li_currBB s) (s\<lparr> li_scheduled := False \<rparr>) = Inr s'"
    by (auto simp: tick_refill_def Let_def split: if_splits)
  then have "kept (s\<lparr> li_scheduled := False \<rparr>) s'" using kept_core_res [OF scheduleBB_core] by auto
  then show ?thesis by (rule kept_from [rotated 2]) simp_all
qed

text \<open>The cycles of each kind: with work of some classes, or stalled.\<close>

definition busy_cycles :: "(occ \<Rightarrow> int) \<Rightarrow> int" where
  "busy_cycles oc = oc LoadOnly + oc StoreOnly + oc CompOnly + oc LoadStore + oc LoadComp + oc LoadStoreComp + oc StoreComp"

definition stall_kinds :: "(occ \<Rightarrow> int) \<Rightarrow> int" where
  "stall_kinds oc = oc LoadOnlyStall + oc StoreOnlyStall + oc CompOnlyStall + oc LoadStoreStall + oc LoadCompStall + oc LoadStoreCompStall + oc StoreCompStall"

lemma occupancy_counts:
  "busy_cycles (li_occ (occupancy s)) + li_occ (occupancy s) Stalls = busy_cycles (li_occ s) + li_occ s Stalls + 1"
  "stall_kinds (li_occ s) \<le> li_occ s Stalls \<Longrightarrow> stall_kinds (li_occ (occupancy s)) \<le> li_occ (occupancy s) Stalls"
  by (simp_all add: occupancy_def bump_def busy_cycles_def stall_kinds_def Let_def)

definition stat_inv :: "llvm_interface \<Rightarrow> bool" where
  "stat_inv s \<longleftrightarrow> fu_ok s \<and> busy_cycles (li_occ s) + li_occ s Stalls = li_cycle s \<and> stall_kinds (li_occ s) \<le> li_occ s Stalls"

lemma stat_inv_begin: "stat_inv s \<Longrightarrow> fu_ok (tick_begin s) \<and> stats (tick_begin s) = (let s1 = clearFU (s\<lparr> li_cycle := li_cycle s + 1 \<rparr>) in stats s1)"
  by (auto simp: stat_inv_def tick_begin_def fu_ok_def clearFU_def maxFU_def Occupancy_def stats_def Let_def)

lemma occupancy_other: "stats (occupancy s) = (case stats s of (a, b, c, d, e, f, g) \<Rightarrow> (a, b, c, d, e, li_occ (occupancy s), g))" "li_FU (occupancy s) = li_FU s"
  by (simp_all add: occupancy_def bump_def stats_def Let_def)

lemma li_tick_stat:
  assumes "li_tick u now s = Some (Inr s')" and "stat_inv s"
  shows "stat_inv s'"
  using assms(1)
proof (rule li_tick_cases)
  fix s1 s2 s3
  assume c: "commit_queue (tick_begin s) = Inr s1" "tick_refill s1 = Inr s2" "s3 = s2 \<or> launch_loop u 0 s2 = Some (Inr s3)" and s': "s' = tick_end now s3"
  have "kept s2 s3" using c(3) launch_loop_kept by auto
  with commit_queue_kept [OF c(1)] tick_refill_kept [OF c(2)] have k: "kept (tick_begin s) s3" by (blast intro: kept_trans)
  then have f: "fu_ok s3" and st: "stats s3 = stats (tick_begin s)" using stat_inv_begin [OF assms(2)] by (simp_all add: kept_def)
  from st have oc: "li_occ s3 = li_occ s" "li_cycle s3 = li_cycle s + 1"
    by (simp_all add: stats_def tick_begin_def clearFU_def maxFU_def Occupancy_def)
  define s4 where "s4 = occupancy s3"
  have s4: "li_occ s' = li_occ s4" "li_cycle s' = li_cycle s4" "fu_ok s' = fu_ok s4"
    unfolding s' tick_end_def s4_def Let_def by (simp_all add: fu_ok_def)
  have "fu_ok s4" "li_cycle s4 = li_cycle s + 1" using f oc occupancy_other [of s3]
    by (simp_all add: s4_def stats_def fu_ok_def)
  with s4 oc occupancy_counts [of s3] assms(2) show ?thesis by (simp add: stat_inv_def s4_def [symmetric])
qed

lemma li_start_cases:
  assumes "li_start bbs rl s = Inr s'"
  obtains b where "b < length bbs" "snd (bbs ! b) \<noteq> []"
    "s' = (initFU s)\<lparr> li_bbList := bbs, li_regList := rl, li_currBB := Some b, li_prevBB := Some b, li_running := True, li_cycle := 0, li_occ := (\<lambda>_. 0), li_unlimitedFU := unlimitedMode s \<rparr>"
proof -
  from assms obtain b where b: "find_entry 0 bbs = Inr b"
    and s': "s' = (initFU s)\<lparr> li_bbList := bbs, li_regList := rl, li_currBB := Some b, li_prevBB := Some b, li_running := True, li_cycle := 0, li_occ := (\<lambda>_. 0), li_unlimitedFU := unlimitedMode s \<rparr>"
    by (auto simp: li_start_def li_construct_def findEntryBB_def bind_res_eq_Inr_iff Let_def unlimitedMode_def initFU_def)
  have "find_entry k bs = Inr b \<Longrightarrow> k \<le> b \<and> b < k + length bs \<and> snd (bs ! (b - k)) \<noteq> []" for k bs
    by (induction k bs rule: find_entry.induct) (auto simp: nth_Cons' split: if_splits)
  from this [OF b] have "b < length bbs" "snd (bbs ! b) \<noteq> []" by simp_all
  from that [OF this s'] show thesis .
qed

lemma li_start_stat: "li_start bbs rl s = Inr s' \<Longrightarrow> stat_inv s'"
  by (erule li_start_cases) (simp add: stat_inv_def fu_ok_def initFU_def busy_cycles_def stall_kinds_def)

lemma stat_inv_cong: "stats s' = stats s \<Longrightarrow> li_FU s' = li_FU s \<Longrightarrow> stat_inv s' = stat_inv s"
  using fu_ok_stats [of s' s] by (simp add: stat_inv_def stats_def)

lemma li_run_stat: "li_run u bbs s \<Longrightarrow> stat_inv s"
proof (induction rule: li_run.induct)
  case (start now rl ls th limits sd dd per s)
  then obtain s1 where "li_start bbs rl (LLVMInterface ls th limits sd dd per) = Inr s1" "li_tick u now s1 = Some (Inr s)"
    by (auto simp: li_initialize_def split: sum.splits)
  then show ?case using li_start_stat li_tick_stat by blast
next
  case (tick s now s')
  then show ?case using li_tick_stat stat_inv_cong [of "s\<lparr> li_tickEvent := None \<rparr>" s] by simp
next
  case (read s q buf s')
  from read(2) show ?case
  proof (rule readCommit_core)
    fix r s1 assume "s' = s1\<lparr> li_readQueue := r \<rparr>" "core s1 = core s"
    then show ?thesis using stat_inv_cong [of s' s] stats_core [of s1 s] core_fields(13) [of s1 s] read by simp
  qed
next
  case (store s q s')
  from store(2) show ?case
  proof (rule writeCommit_core)
    fix r s1 assume "s' = s1\<lparr> li_writeQueue := r \<rparr>" "core s1 = core s"
    then show ?thesis using stat_inv_cong [of s' s] stats_core [of s1 s] core_fields(13) [of s1 s] store by simp
  qed
qed

end
