(* ===== verification/Dataflow_Graph.thy ===== *)
theory Dataflow_Graph
  imports Runtime_Run
begin

text \<open>
  Dependencies between the instructions in flight: the number of active parents of a reserved
  instruction counts its links from instructions that have not committed, links lead from older to
  younger instructions, and a register that an instruction reads has no older producer left when
  the instruction is launched.
\<close>

section \<open>What computing changes of an instruction\<close>

definition static :: "instr \<Rightarrow> instr" where
  "static i = i\<lparr> in_FinalResult := 0, in_Result := 0, in_Ops := [], in_Dest := [], in_Global := False \<rparr>"

definition keeps :: "instr \<Rightarrow> instr result \<Rightarrow> bool" where
  "keeps i r \<longleftrightarrow> (\<forall>i'. r = Inr i' \<longrightarrow> static i' = static i \<and> length (in_Ops i') = length (in_Ops i))"

lemma keeps_Inl [simp]: "keeps i (Inl e)"
  by (simp add: keeps_def)

lemma keeps_Inr [simp]: "keeps i (Inr j) \<longleftrightarrow> static j = static i \<and> length (in_Ops j) = length (in_Ops i)"
  by (simp add: keeps_def)

lemma keeps_bind: "(\<And>x. keeps i (f x)) \<Longrightarrow> keeps i (bind_res r f)"
  by (cases r) simp_all

lemma keeps_bind_instr:
  assumes "keeps i r" and f: "\<And>j. static j = static i \<Longrightarrow> length (in_Ops j) = length (in_Ops i) \<Longrightarrow> keeps j (f j)"
  shows "keeps i (bind_res r f)"
proof (cases r)
  case (Inr j)
  with assms(1) have j: "static j = static i" "length (in_Ops j) = length (in_Ops i)" by simp_all
  from f [OF j] Inr j show ?thesis by (simp add: keeps_def)
qed simp

lemma keeps_setResult: "keeps i (setResult rl n v i)"
  by (auto simp: setResult_def static_def intro!: keeps_bind split: option.split)

lemma keeps_setResult_upd: "keeps i (setResult rl n v (i\<lparr> in_Result := w \<rparr>))"
  using keeps_setResult [of "i\<lparr> in_Result := w \<rparr>" rl n v] by (simp add: keeps_def static_def)

lemma keeps_store_result: "keeps i (store_result rl v i)"
  by (simp add: store_result_def keeps_setResult_upd)

lemma keeps_conv_op: "keeps i (conv_op f k i)"
  unfolding conv_op_def by (rule keeps_bind) (simp add: static_def)

lemma keeps_narrow_ops: "keeps i (narrow_ops f n i)"
  by (auto simp: narrow_ops_def keeps_conv_op intro: keeps_bind_instr)

lemma keeps_int_binary: "keeps i (int_binary nrw f g h a rl i)"
  unfolding int_binary_def by (rule keeps_bind_instr [OF keeps_narrow_ops]) (intro keeps_bind keeps_store_result)

lemma keeps_fp_binary: "keeps i (fp_binary f u a rl i)"
  unfolding fp_binary_def by (intro keeps_bind) (simp add: Let_def keeps_setResult keeps_bind)

lemma keeps_convert_by: "keeps i (convert_by t ty rl i)"
  unfolding convert_by_def by (auto intro: keeps_bind keeps_setResult keeps_store_result split: option.split)

lemma keeps_GetElementPtr: "keeps i (GetElementPtr_compute g rl i)"
  unfolding GetElementPtr_compute_def by (auto intro: keeps_bind keeps_setResult)

lemma keeps_ICmp: "keeps i (ICmp_compute fl n imm rl i)"
  unfolding ICmp_compute_def
  by (rule keeps_bind_instr [OF keeps_narrow_ops]) (auto intro!: keeps_bind keeps_setResult keeps_store_result split: option.split prod.split)

lemma keeps_FCmp: "keeps i (FCmp_compute u fl d rl i)"
  unfolding FCmp_compute_def by (auto intro!: keeps_bind keeps_setResult keeps_store_result split: option.split)

lemma keeps_Br: "keeps i (Br_compute un c bs d rl i)"
  unfolding Br_compute_def by (rule keeps_bind) (simp add: static_def)

lemma keeps_LLVMSwitch: "keeps i (LLVMSwitch_compute bs cs i)"
  unfolding LLVMSwitch_compute_def by (auto intro!: keeps_bind simp: static_def split: option.split)

lemma keeps_Phi: "keeps i (Phi_compute vs rs ls rl i)"
  unfolding Phi_compute_def by (auto intro!: keeps_bind keeps_setResult keeps_store_result split: option.split)

lemma keeps_Select: "keeps i (Select_compute im vs rl i)"
  unfolding Select_compute_def by (auto intro!: keeps_bind keeps_setResult keeps_store_result)

lemmas keeps_compute = keeps_int_binary keeps_fp_binary keeps_convert_by keeps_GetElementPtr keeps_ICmp keeps_FCmp keeps_Br keeps_LLVMSwitch keeps_Phi keeps_Select

lemma plain_keeps: "keeps i r \<Longrightarrow> plain rl r = Inr (i', rl', e) \<Longrightarrow> static i' = static i \<and> length (in_Ops i') = length (in_Ops i) \<and> e = NoEffect"
  by (auto simp: plain_def keeps_def bind_res_eq_Inr_iff)

definition is_memory :: "instr_class \<Rightarrow> bool" where
  "is_memory c = (case c of Load _ \<Rightarrow> True | Store _ _ _ _ \<Rightarrow> True | _ \<Rightarrow> False)"

lemma Load_keeps: "Load_compute p rl i = Inr (i', rl', e) \<Longrightarrow> static i' = static i \<and> length (in_Ops i') = length (in_Ops i) \<and> e \<noteq> NoEffect"
  by (auto simp: Load_compute_def bind_res_eq_Inr_iff static_def split: option.splits)

lemma Store_keeps: "Store_compute p v im d rl i = Inr (i', rl', e) \<Longrightarrow> static i' = static i \<and> length (in_Ops i') = length (in_Ops i) \<and> e \<noteq> NoEffect"
  by (auto simp: Store_compute_def bind_res_eq_Inr_iff static_def split: option.splits if_splits prod.splits)

lemma compute_keeps:
  assumes "compute u rl c i = Inr (i', rl', e)"
  shows "static i' = static i \<and> length (in_Ops i') = length (in_Ops i) \<and> (e \<noteq> NoEffect \<longleftrightarrow> is_memory c)"
proof -
  note d = Add_compute_def Sub_compute_def Mul_compute_def UDiv_compute_def SDiv_compute_def URem_compute_def SRem_compute_def Shl_compute_def LShr_compute_def
    AShr_compute_def And_compute_def Or_compute_def Xor_compute_def FAdd_compute_def FSub_compute_def FMul_compute_def FDiv_compute_def Trunc_compute_def ZExt_compute_def
    SExt_compute_def FPToUI_compute_def FPToSI_compute_def UIToFP_compute_def SIToFP_compute_def FPTrunc_compute_def FPExt_compute_def
  show ?thesis
    using assms
    by (cases c)
      (simp_all only: compute.simps d is_memory_def instr_class.case,
       (fastforce dest: plain_keeps [rotated] Load_keeps Store_keeps intro: keeps_compute)+)
qed

section \<open>The graph of links\<close>

text \<open>
  Over the store \<open>I\<close> of instructions, the reservation table \<open>R\<close> and the set \<open>L\<close> of instructions that
  have not committed: the links that lead to \<open>c\<close>, and the parents it starts with.
\<close>

definition links :: "instr list \<Rightarrow> nat set \<Rightarrow> nat \<Rightarrow> nat" where
  "links I L c = (\<Sum>p\<in>L. count_list (in_Children (I ! p)) c)"

definition base_parents :: "instr \<Rightarrow> int" where
  "base_parents i = (if in_OpCode i = ''ret'' then 1 else 0)"

definition graph_ok :: "instr list \<Rightarrow> nat list \<Rightarrow> nat set \<Rightarrow> bool" where
  "graph_ok I R L \<longleftrightarrow> finite L \<and> (\<forall>k\<in>L. k < length I) \<and> sorted_wrt (<) R \<and> set R \<subseteq> L
     \<and> (\<forall>p\<in>L. \<forall>c\<in>set (in_Children (I ! p)). p < c \<and> c \<in> set R)
     \<and> (\<forall>c\<in>set R. in_ActiveParents (I ! c) = base_parents (I ! c) + int (links I L c))"

text \<open>The registers an instruction takes from others, with its own: it waits for its earlier instances.\<close>

definition operands :: "instr \<Rightarrow> nat option list" where
  "operands i = (case in_class i of
     Phi vals regs labels \<Rightarrow> map (\<lambda>(v, r, l). r) (filter (\<lambda>(v, r, l). l = in_PrevBB i \<and> v = ''reg'') (zip vals (zip regs labels)))
   | _ \<Rightarrow> in_Dependencies i)"

definition base_reg :: "instr \<Rightarrow> nat option" where
  "base_reg i = (if in_OpCode i = ''getelementptr'' then case in_class i of GetElementPtr g \<Rightarrow> Some (ga_PtrVal g) | _ \<Rightarrow> None else None)"

definition needs :: "instr \<Rightarrow> nat option set" where
  "needs i = insert (in_ReturnRegister i) (insert (base_reg i) (set (operands i)))"

lemma needs_cong:
  assumes e: "in_ReturnRegister i = in_ReturnRegister j" "in_OpCode i = in_OpCode j" "in_class i = in_class j" "in_PrevBB i = in_PrevBB j" "in_Dependencies i = in_Dependencies j"
  shows "needs i = needs j"
  unfolding needs_def operands_def base_reg_def e ..

lemma needs_upd [simp]:
  "needs (i\<lparr> in_Req := q \<rparr>) = needs i" "needs (i\<lparr> in_CurrCycle := n \<rparr>) = needs i" "needs (i\<lparr> in_Ops := xs \<rparr>) = needs i" "needs (i\<lparr> in_ActivePtr := w \<rparr>) = needs i"
  "needs (i\<lparr> in_FinalResult := w \<rparr>) = needs i" "needs (i\<lparr> in_Children := cs \<rparr>) = needs i" "needs (i\<lparr> in_Parents := cs \<rparr>) = needs i" "needs (i\<lparr> in_ActiveParents := z \<rparr>) = needs i"
  by (rule needs_cong; simp)+

definition older :: "instr list \<Rightarrow> nat set \<Rightarrow> nat \<Rightarrow> nat \<Rightarrow> nat set" where
  "older I L c r = {p \<in> L. p < c \<and> in_ReturnRegister (I ! p) = Some r}"

text \<open>If there is an older producer of \<open>r\<close>, the youngest one has a link to \<open>c\<close>.\<close>

definition need_ok :: "instr list \<Rightarrow> nat set \<Rightarrow> nat \<Rightarrow> nat \<Rightarrow> bool" where
  "need_ok I L c r \<longleftrightarrow> older I L c r = {} \<or> (\<exists>p\<in>older I L c r. c \<in> set (in_Children (I ! p)) \<and> (\<forall>q\<in>older I L c r. q \<le> p))"

definition raw_ok :: "instr list \<Rightarrow> nat set \<Rightarrow> nat list \<Rightarrow> nat set \<Rightarrow> bool" where
  "raw_ok I C R L \<longleftrightarrow> (\<forall>c\<in>C. \<forall>r. Some r \<in> needs (I ! c) \<longrightarrow> need_ok I L c r)
     \<and> (\<forall>c\<in>L - set R. \<forall>r. in_ReturnRegister (I ! c) = Some r \<longrightarrow> older I L c r = {})"

lemma graph_okD:
  assumes "graph_ok I R L"
  shows "finite L" "k \<in> L \<Longrightarrow> k < length I" "sorted_wrt (<) R" "set R \<subseteq> L" "distinct R"
    "p \<in> L \<Longrightarrow> c \<in> set (in_Children (I ! p)) \<Longrightarrow> p < c \<and> c \<in> set R"
    "c \<in> set R \<Longrightarrow> in_ActiveParents (I ! c) = base_parents (I ! c) + int (links I L c)"
  using assms strict_sorted_iff by (auto simp: graph_ok_def)

text \<open>Only some fields matter.\<close>

definition gview :: "instr \<Rightarrow> nat list \<times> int \<times> string \<times> nat option" where
  "gview i = (in_Children i, in_ActiveParents i, in_OpCode i, in_ReturnRegister i)"

definition same_view :: "instr list \<Rightarrow> instr list \<Rightarrow> bool" where
  "same_view I I' \<longleftrightarrow> length I' = length I \<and> (\<forall>k<length I. gview (I' ! k) = gview (I ! k))"

lemma same_viewD:
  assumes "same_view I I'" and "k < length I"
  shows "in_Children (I' ! k) = in_Children (I ! k)" "in_ActiveParents (I' ! k) = in_ActiveParents (I ! k)" "in_OpCode (I' ! k) = in_OpCode (I ! k)"
    "in_ReturnRegister (I' ! k) = in_ReturnRegister (I ! k)"
  using assms by (auto simp: same_view_def gview_def)

lemma older_cong: "(\<And>k. k \<in> L \<Longrightarrow> in_ReturnRegister (I' ! k) = in_ReturnRegister (I ! k)) \<Longrightarrow> older I' L c r = older I L c r"
  by (auto simp: older_def)

lemma graph_ok_view:
  assumes "graph_ok I R L" and "same_view I I'"
  shows "graph_ok I' R L"
proof -
  note g = graph_okD [OF assms(1)]
  have v: "in_Children (I' ! k) = in_Children (I ! k)" "in_ActiveParents (I' ! k) = in_ActiveParents (I ! k)" "base_parents (I' ! k) = base_parents (I ! k)" if "k \<in> L" for k
    using same_viewD [OF assms(2)] g(2) that by (auto simp: base_parents_def)
  have "links I' L c = links I L c" for c unfolding links_def by (rule sum.cong) (simp_all add: v)
  with g v assms(2) show ?thesis unfolding graph_ok_def same_view_def by (metis subsetD)
qed

lemma need_ok_view:
  assumes "same_view I I'" and "\<And>k. k \<in> L \<Longrightarrow> k < length I"
  shows "need_ok I' L c r = need_ok I L c r"
proof -
  note v = same_viewD [OF assms]
  have o: "older I' L c r = older I L c r" by (rule older_cong) (rule v)
  show ?thesis unfolding need_ok_def o using v by (auto simp: older_def)
qed

lemma raw_ok_view:
  assumes "raw_ok I C R L" and "same_view I I'" and "\<And>k. k \<in> L \<Longrightarrow> k < length I" and "\<And>k. k \<in> C \<Longrightarrow> needs (I' ! k) = needs (I ! k)"
  shows "raw_ok I' C R L"
proof -
  note v = same_viewD [OF assms(2) assms(3)]
  have o: "older I' L c r = older I L c r" for c r by (rule older_cong) (rule v)
  have n: "need_ok I' L c r = need_ok I L c r" for c r by (rule need_ok_view [OF assms(2,3)])
  from assms(1) v(4) show ?thesis unfolding raw_ok_def o n by (simp add: assms(4))
qed

lemma same_view_set: "k < length I \<Longrightarrow> gview i = gview (I ! k) \<Longrightarrow> same_view I (I[k := i])"
  by (auto simp: same_view_def nth_list_update)

text \<open>An instruction that nothing waits in front of.\<close>

definition unblocked :: "instr list \<Rightarrow> nat set \<Rightarrow> nat \<Rightarrow> bool" where
  "unblocked I L k \<longleftrightarrow> (\<forall>p\<in>L. k \<notin> set (in_Children (I ! p))) \<and> (\<forall>r. in_ReturnRegister (I ! k) = Some r \<longrightarrow> older I L k r = {})"

lemma links_0_iff: "finite L \<Longrightarrow> links I L c = 0 \<longleftrightarrow> (\<forall>p\<in>L. c \<notin> set (in_Children (I ! p)))"
  by (auto simp: links_def count_list_0_iff)

lemma unblocked_flight:
  assumes "graph_ok I R L" and "raw_ok I C R L" and "k \<in> L" and "k \<notin> set R"
  shows "unblocked I L k"
  using assms graph_okD(6) [OF assms(1)] unfolding unblocked_def raw_ok_def by blast

lemma unblocked_no_links:
  assumes "raw_ok I C R L" and "k \<in> C" and "\<forall>p\<in>L. k \<notin> set (in_Children (I ! p))"
  shows "unblocked I L k"
  unfolding unblocked_def
proof (intro conjI allI impI assms(3))
  fix r assume r: "in_ReturnRegister (I ! k) = Some r"
  then have "Some r \<in> needs (I ! k)" by (simp add: needs_def)
  with assms(1,2) have "need_ok I L k r" by (auto simp: raw_ok_def)
  with assms(3) show "older I L k r = {}" by (auto simp: need_ok_def older_def)
qed

lemma unblocked_ready:
  assumes "graph_ok I R L" and "raw_ok I C R L" and "k \<in> C" and "k \<in> set R" and "in_ActiveParents (I ! k) = 0"
  shows "unblocked I L k"
proof (rule unblocked_no_links [OF assms(2,3)])
  from graph_okD(7) [OF assms(1,4)] assms(5) have "links I L k = 0" by (simp add: base_parents_def split: if_splits)
  then show "\<forall>p\<in>L. k \<notin> set (in_Children (I ! p))" by (simp add: links_0_iff [OF graph_okD(1) [OF assms(1)]])
qed

subsection \<open>A new instruction\<close>

lemma graph_add:
  assumes g: "graph_ok I R L" and i: "in_Children i = []" "in_ActiveParents i = base_parents i"
  shows "graph_ok (I @ [i]) (R @ [length I]) (insert (length I) L)"
proof -
  note d = graph_okD [OF g]
  have new: "length I \<notin> L" using d(2) by blast
  have old: "(I @ [i]) ! k = I ! k" if "k \<in> L" for k using d(2) [OF that] by (simp add: nth_append)
  have "links (I @ [i]) (insert (length I) L) c = links I L c" for c
    using d(1) new i old by (simp add: links_def)
  moreover have "links I L (length I) = 0"
    unfolding links_0_iff [OF d(1)] using d(2,4,6) by (metis nat_neq_iff subsetD)
  moreover have "sorted_wrt (<) (R @ [length I])" using d(2,3,4) by (auto simp: sorted_wrt_append)
  ultimately show ?thesis
    unfolding graph_ok_def using d i old by (auto simp: nth_append less_Suc_eq)
qed

lemma raw_add:
  assumes r: "raw_ok I C R L" and d: "\<And>k. k \<in> L \<Longrightarrow> k < length I" "C \<subseteq> L"
  shows "raw_ok (I @ [i]) C (R @ [length I]) (insert (length I) L)"
proof -
  have old: "(I @ [i]) ! k = I ! k" if "k \<in> L" for k using d(1) [OF that] by (simp add: nth_append)
  have o: "older (I @ [i]) (insert (length I) L) c r = older I L c r" if "c \<in> L" for c r
    using d(1) that old by (force simp: older_def)
  have "need_ok (I @ [i]) (insert (length I) L) c r = need_ok I L c r" if "c \<in> L" for c r
    unfolding need_ok_def o [OF that] using old by (auto simp: older_def)
  with r d o old show ?thesis unfolding raw_ok_def by (auto simp: subset_iff)
qed

subsection \<open>A new link\<close>

definition linked :: "nat \<Rightarrow> nat \<Rightarrow> instr list \<Rightarrow> instr list" where
  "linked p c I = (let J = I[c := registerParent p (I ! c)] in J[p := registerChild c (J ! p)])"

lemma linked_nth:
  assumes "c < length I" and "p < length I" and "p \<noteq> c"
  shows "linked p c I ! k = (if k = p then registerChild c (I ! p) else if k = c then registerParent p (I ! c) else I ! k)"
  using assms by (simp add: linked_def Let_def nth_list_update)

lemma length_linked [simp]: "length (linked p c I) = length I"
  by (simp add: linked_def Let_def)

lemma needs_link [simp]: "needs (registerChild c i) = needs i" "needs (registerParent p i) = needs i"
  by (simp_all add: registerChild_def registerParent_def)

lemma graph_link:
  assumes g: "graph_ok I R L" and c: "c \<in> set R" "p \<in> L" "p < c"
  shows "graph_ok (linked p c I) R L"
proof -
  note d = graph_okD [OF g]
  have cp: "c < length I" "p < length I" "p \<noteq> c" using c d(2,4) by auto
  note n = linked_nth [OF cp]
  have ch: "count_list (in_Children (linked p c I ! k)) x = count_list (in_Children (I ! k)) x + of_bool (k = p \<and> x = c)" for k x
    by (simp add: n registerChild_def registerParent_def)
  have "links (linked p c I) L x = links I L x + of_bool (x = c)" for x
    using d(1) c(2) by (simp add: links_def ch sum.distrib)
  moreover have "in_ActiveParents (linked p c I ! x) = in_ActiveParents (I ! x) + of_bool (x = c)" "base_parents (linked p c I ! x) = base_parents (I ! x)" for x
    using cp by (simp_all add: n registerChild_def registerParent_def base_parents_def)
  moreover have "x \<in> set (in_Children (linked p c I ! k)) \<longleftrightarrow> x \<in> set (in_Children (I ! k)) \<or> k = p \<and> x = c" for k x
    by (auto simp: n registerChild_def registerParent_def)
  ultimately show ?thesis unfolding graph_ok_def using d c by auto
qed

lemma need_link:
  assumes "need_ok I L c' r" and cp: "c < length I" "p < length I" "p \<noteq> c"
  shows "need_ok (linked p c I) L c' r"
proof -
  note n = linked_nth [OF cp]
  have o: "older (linked p c I) L c' r = older I L c' r" by (rule older_cong) (simp add: n registerChild_def registerParent_def)
  show ?thesis using assms(1) unfolding need_ok_def o by (auto simp: n registerChild_def registerParent_def)
qed

lemma raw_link:
  assumes r: "raw_ok I C R L" and cp: "c < length I" "p < length I" "p \<noteq> c"
  shows "raw_ok (linked p c I) C R L"
proof -
  note n = linked_nth [OF cp]
  have o: "older (linked p c I) L c' r = older I L c' r" for c' r by (rule older_cong) (simp add: n registerChild_def registerParent_def)
  have "needs (linked p c I ! k) = needs (I ! k)" "in_ReturnRegister (linked p c I ! k) = in_ReturnRegister (I ! k)" for k
    by (simp_all add: n) (simp_all add: registerChild_def registerParent_def)
  with r need_link [OF _ cp] show ?thesis unfolding raw_ok_def o by auto
qed

lemma need_linked:
  assumes cp: "c < length I" "p < length I" "p \<noteq> c" and p: "p \<in> older I L c r" "\<forall>q\<in>older I L c r. q \<le> p"
  shows "need_ok (linked p c I) L c r"
proof -
  note n = linked_nth [OF cp]
  have o: "older (linked p c I) L c r = older I L c r" by (rule older_cong) (simp add: n registerChild_def registerParent_def)
  show ?thesis unfolding need_ok_def o using p by (auto simp: n registerChild_def)
qed

subsection \<open>A commit\<close>

text \<open>The children of \<open>k\<close> lose a parent for each link, and \<open>k\<close> leaves.\<close>

definition signalled :: "nat list \<Rightarrow> instr list \<Rightarrow> instr list \<Rightarrow> bool" where
  "signalled cs I I' \<longleftrightarrow> length I' = length I \<and> (\<forall>k<length I. in_ActiveParents (I' ! k) = in_ActiveParents (I ! k) - int (count_list cs k)
     \<and> (static (I' ! k))\<lparr> in_ActiveParents := 0 \<rparr> = (static (I ! k))\<lparr> in_ActiveParents := 0 \<rparr> \<and> length (in_Ops (I' ! k)) = length (in_Ops (I ! k)))"

lemma static_fields:
  assumes "(static i)\<lparr> in_ActiveParents := 0 \<rparr> = (static j)\<lparr> in_ActiveParents := 0 \<rparr>"
  shows "in_Children i = in_Children j" "in_OpCode i = in_OpCode j" "in_ReturnRegister i = in_ReturnRegister j" "needs i = needs j" "in_Terminator i = in_Terminator j"
    "in_MaxCycle i = in_MaxCycle j" "in_CurrCycle i = in_CurrCycle j" "in_Req i = in_Req j" "in_class i = in_class j" "in_LLVMLine i = in_LLVMLine j"
    "in_Dependencies i = in_Dependencies j" "in_PrevBB i = in_PrevBB j"
proof -
  show e: "in_Children i = in_Children j" "in_OpCode i = in_OpCode j" "in_ReturnRegister i = in_ReturnRegister j" "in_Terminator i = in_Terminator j"
    "in_MaxCycle i = in_MaxCycle j" "in_CurrCycle i = in_CurrCycle j" "in_Req i = in_Req j" "in_class i = in_class j" "in_LLVMLine i = in_LLVMLine j"
    "in_Dependencies i = in_Dependencies j" "in_PrevBB i = in_PrevBB j"
    using arg_cong [OF assms, of in_Children] arg_cong [OF assms, of in_OpCode] arg_cong [OF assms, of in_ReturnRegister] arg_cong [OF assms, of in_Terminator]
      arg_cong [OF assms, of in_MaxCycle] arg_cong [OF assms, of in_CurrCycle] arg_cong [OF assms, of in_Req] arg_cong [OF assms, of in_class] arg_cong [OF assms, of in_LLVMLine]
      arg_cong [OF assms, of in_Dependencies] arg_cong [OF assms, of in_PrevBB]
    by (simp_all add: static_def)
  show "needs i = needs j" by (rule needs_cong; rule e)
qed

lemma graph_retire:
  assumes g: "graph_ok I R L" and k: "k \<in> L" "unblocked I L k" and sg: "signalled (in_Children (I ! k)) I I'"
    and R': "sorted_wrt (<) R'" "set R' = set R - {k}"
  shows "graph_ok I' R' (L - {k})"
proof -
  note d = graph_okD [OF g]
  have v: "in_Children (I' ! x) = in_Children (I ! x)" "base_parents (I' ! x) = base_parents (I ! x)"
    "in_ActiveParents (I' ! x) = in_ActiveParents (I ! x) - int (count_list (in_Children (I ! k)) x)" if "x \<in> L" for x
    using sg d(2) [OF that] static_fields [of "I' ! x" "I ! x"] by (auto simp: signalled_def base_parents_def)
  have "links I L x = count_list (in_Children (I ! k)) x + links I' (L - {k}) x" for x
    unfolding links_def using v by (simp add: sum.remove [OF d(1) k(1)])
  with d k R' v sg show ?thesis unfolding graph_ok_def by (auto simp: signalled_def unblocked_def subset_iff)
qed

lemma raw_retire:
  assumes g: "graph_ok I R L" and r: "raw_ok I C R L" and k: "k \<in> L" "unblocked I L k" and C: "C \<subseteq> L"
    and s: "\<And>x. x \<in> L \<Longrightarrow> in_Children (I' ! x) = in_Children (I ! x) \<and> in_ReturnRegister (I' ! x) = in_ReturnRegister (I ! x) \<and> needs (I' ! x) = needs (I ! x)"
    and R': "set R' = set R - {k}"
  shows "raw_ok I' (C - {k}) R' (L - {k})"
proof -
  have o: "older I' (L - {k}) c x = older I L c x - {k}" for c x using s by (auto simp: older_def)
  have "need_ok I' (L - {k}) c x" if c: "c \<in> C - {k}" "Some x \<in> needs (I' ! c)" for c x
  proof (cases "older I L c x - {k} = {}")
    case False
    from c C s have "Some x \<in> needs (I ! c)" by blast
    with r c have "need_ok I L c x" by (auto simp: raw_ok_def)
    with False obtain p where p: "p \<in> older I L c x" "c \<in> set (in_Children (I ! p))" "\<forall>q\<in>older I L c x. q \<le> p" by (auto simp: need_ok_def)
    have "p \<noteq> k"
    proof
      assume "p = k"
      with p have rk: "in_ReturnRegister (I ! k) = Some x" "k < c" by (simp_all add: older_def)
      from False p(3) \<open>p = k\<close> obtain q where "q \<in> older I L c x" "q < k" by fastforce
      then have "q \<in> older I L k x" by (simp add: older_def)
      with k(2) rk show False by (auto simp: unblocked_def)
    qed
    with p s show ?thesis unfolding need_ok_def o by (intro disjI2 bexI [of _ p]) (auto simp: older_def)
  qed (simp add: need_ok_def o)
  moreover have "older I' (L - {k}) c x = {}" if "c \<in> L - {k} - set R'" "in_ReturnRegister (I' ! c) = Some x" for c x
  proof -
    from that R' s have "c \<in> L - set R" "in_ReturnRegister (I ! c) = Some x" by auto
    with r have "older I L c x = {}" by (simp add: raw_ok_def)
    then show ?thesis by (simp add: o)
  qed
  ultimately show ?thesis unfolding raw_ok_def by blast
qed

subsection \<open>A launch\<close>

lemma graph_launch:
  assumes g: "graph_ok I R L" and k: "unblocked I L k" and R': "sorted_wrt (<) R'" "set R' = set R - {k}"
  shows "graph_ok I R' L"
  using g k R' unfolding graph_ok_def unblocked_def by auto

lemma raw_launch:
  assumes r: "raw_ok I C R L" and k: "unblocked I L k" and R': "set R' = set R - {k}"
  shows "raw_ok I (C - {k}) R' L"
  using r k R' unfolding raw_ok_def unblocked_def by auto

section \<open>The operations on the store\<close>

lemma li_instr_iff: "li_instr s k = Inr i \<longleftrightarrow> k < length (li_instrs s) \<and> i = li_instrs s ! k"
  by (auto simp: li_instr_def)

lemma li_instrs_set [simp]: "li_instrs (li_set k i s) = (li_instrs s)[k := i]"
  by (simp add: li_set_def)

lemma signalled_refl: "signalled [] I I"
  by (simp add: signalled_def)

lemma signalled_trans: "signalled cs I I' \<Longrightarrow> signalled ds I' I'' \<Longrightarrow> signalled (cs @ ds) I I''"
  by (auto simp: signalled_def)

lemma signalled_one:
  assumes "c < length I" and "in_ActiveParents i = in_ActiveParents (I ! c) - 1" and "(static i)\<lparr> in_ActiveParents := 0 \<rparr> = (static (I ! c))\<lparr> in_ActiveParents := 0 \<rparr>"
    and "length (in_Ops i) = length (in_Ops (I ! c))"
  shows "signalled [c] I (I[c := i])"
  using assms by (auto simp: signalled_def nth_list_update)

lemma fetchDependency_reg_signals: "fetchDependency_reg r c s = Inr s' \<Longrightarrow> signalled [c] (li_instrs s) (li_instrs s')"
  by (erule fetchDependency_reg_cases) (auto simp: li_instr_iff static_def fetch_slots_def intro!: signalled_one)

lemma drop_parent_signals: "drop_parent c s = Inr s' \<Longrightarrow> signalled [c] (li_instrs s) (li_instrs s')"
  by (auto simp: drop_parent_def bind_res_eq_Inr_iff li_instr_iff static_def intro!: signalled_one)

lemma signal_loop_signals:
  assumes "\<And>c s s'. f c s = Inr s' \<Longrightarrow> signalled [c] (li_instrs s) (li_instrs s')"
  shows "signal_loop f cs s = Inr s' \<Longrightarrow> signalled cs (li_instrs s) (li_instrs s')"
proof (induction cs arbitrary: s)
  case (Cons c cs)
  then obtain s1 where s1: "f c s = Inr s1" "signal_loop f cs s1 = Inr s'" by (auto simp: bind_res_eq_Inr_iff)
  from signalled_trans [OF assms [OF s1(1)] Cons.IH [OF s1(2)]] show ?case by simp
qed (simp add: signalled_refl)

lemma signalChildren_signals:
  assumes "signalChildren k s = Inr s'"
  shows "k < length (li_instrs s) \<and> signalled (in_Children (li_instrs s ! k)) (li_instrs s) (li_instrs s')"
  using assms by (rule signalChildren_cases)
    (auto simp: li_instr_iff intro: signal_loop_signals fetchDependency_reg_signals drop_parent_signals)

text \<open>A commit signals the children, or is put off.\<close>

lemma commit_signals:
  assumes "commit k s = Inr (b, s')" and "in_ReturnRegister (li_instrs s ! k) = None \<or> in_MaxCycle (li_instrs s ! k) \<le> in_CurrCycle (li_instrs s ! k)"
  shows "k < length (li_instrs s)" "signalled (in_Children (li_instrs s ! k)) (li_instrs s) (li_instrs s')"
  using assms by (auto elim!: commit_cases simp: li_instr_iff dest: signalChildren_signals)

lemma commit_waits:
  assumes "commit k s = Inr (b, s')" and "in_ReturnRegister (li_instrs s ! k) \<noteq> None" and "in_CurrCycle (li_instrs s ! k) < in_MaxCycle (li_instrs s ! k)"
  shows "k < length (li_instrs s)" "\<not> b" "s' = li_set k ((li_instrs s ! k)\<lparr> in_CurrCycle := in_CurrCycle (li_instrs s ! k) + 1 \<rparr>) s"
  using assms by (auto elim!: commit_cases simp: li_instr_iff)

lemma li_compute_instrs:
  assumes "li_compute u k s = Inr s'"
  obtains i' q where "k < length (li_instrs s)" "li_instrs s' = (li_instrs s)[k := i'\<lparr> in_Req := q \<rparr>]" "static i' = static (li_instrs s ! k)"
    "length (in_Ops i') = length (in_Ops (li_instrs s ! k))"
proof -
  from assms obtain i' rl e where k: "k < length (li_instrs s)" and c: "compute u (li_regList s) (in_class (li_instrs s ! k)) (li_instrs s ! k) = Inr (i', rl, e)"
    and s': "s' = (if e = NoEffect then (li_set k i' s)\<lparr> li_regList := rl \<rparr>
            else (li_set k (i'\<lparr> in_Req := Some (li_nextReq s) \<rparr>) s)\<lparr> li_regList := rl, li_nextReq := li_nextReq s + 1,
                    li_requests := li_requests s @ [(li_nextReq s, e)] \<rparr>)"
    unfolding li_compute_def bind_res_eq_Inr_iff split_paired_Ex prod.case li_instr_iff by blast
  show thesis
  proof (cases "e = NoEffect")
    case True
    with s' have "li_instrs s' = (li_instrs s)[k := i'\<lparr> in_Req := in_Req i' \<rparr>]" by simp
    from that [OF k this] compute_keeps [OF c] show ?thesis by blast
  next
    case False
    with s' have "li_instrs s' = (li_instrs s)[k := i'\<lparr> in_Req := Some (li_nextReq s) \<rparr>]" by simp
    from that [OF k this] compute_keeps [OF c] show ?thesis by blast
  qed
qed

lemma link_instrs:
  assumes "link p c s = Inr s'" and "p \<noteq> c"
  shows "p < length (li_instrs s)" "c < length (li_instrs s)" "li_instrs s' = linked p c (li_instrs s)"
  using assms by (auto simp: link_def linked_def bind_res_eq_Inr_iff Let_def li_instr_iff)

end
