(* ===== verification/Dataflow_Inv.thy ===== *)
theory Dataflow_Inv
  imports Dataflow_Graph
begin

text \<open>
  The invariant of the runtime engine over its dependency graph, and that every operation keeps it.
\<close>

section \<open>Programs\<close>

definition nodes :: "(string \<times> instr list) list \<Rightarrow> instr set" where
  "nodes bbs = set (concat (map snd bbs))"

text \<open>
  What the constructors of the instruction classes and the parser give: no links, one parent that never
  commits for \<open>ret\<close>, an operand for each dependency, no return register for terminators and stores,
  loads that complete with their answer, and no latency for what returns nothing.
\<close>

definition wf_node :: "instr \<Rightarrow> bool" where
  "wf_node i \<longleftrightarrow> in_Children i = [] \<and> in_CurrCycle i = 0 \<and> in_ActiveParents i = base_parents i \<and> length (in_Ops i) = length (in_Dependencies i)
     \<and> (in_OpCode i = ''ret'' \<longrightarrow> in_Terminator i)
     \<and> (in_Terminator i \<longrightarrow> in_ReturnRegister i = None \<and> in_OpCode i \<noteq> ''load'' \<and> in_OpCode i \<noteq> ''store'')
     \<and> (in_OpCode i = ''load'' \<longrightarrow> in_ReturnRegister i \<noteq> None \<and> in_MaxCycle i = 0)
     \<and> (in_OpCode i = ''store'' \<longrightarrow> in_ReturnRegister i = None)
     \<and> (in_ReturnRegister i = None \<longrightarrow> in_Terminator i \<or> in_OpCode i = ''store'' \<or> in_MaxCycle i = 0)"

text \<open>Static single assignment: a register is returned to by the instructions of one line.\<close>

definition ssa :: "instr set \<Rightarrow> bool" where
  "ssa N \<longleftrightarrow> (\<forall>i\<in>N. \<forall>j\<in>N. in_ReturnRegister i \<noteq> None \<longrightarrow> (in_LLVMLine j = in_LLVMLine i \<longleftrightarrow> in_ReturnRegister j = in_ReturnRegister i))"

definition wf_program :: "(string \<times> instr list) list \<Rightarrow> bool" where
  "wf_program bbs \<longleftrightarrow> (\<forall>i\<in>nodes bbs. wf_node i) \<and> ssa (nodes bbs)"

text \<open>The part of an instruction that never changes after parsing.\<close>

definition skel :: "instr \<Rightarrow> instr" where
  "skel i = (static i)\<lparr> in_ActiveParents := 0, in_Parents := [], in_Children := [], in_CurrCycle := 0, in_ActivePtr := 0, in_PrevBB := [], in_Req := None \<rparr>"

lemma skel_fields:
  assumes "skel i = skel j"
  shows "in_OpCode i = in_OpCode j" "in_ReturnRegister i = in_ReturnRegister j" "in_Terminator i = in_Terminator j" "in_MaxCycle i = in_MaxCycle j"
    "in_class i = in_class j" "in_LLVMLine i = in_LLVMLine j" "in_Dependencies i = in_Dependencies j" "in_RawCheck i = in_RawCheck j"
  using arg_cong [OF assms, of in_OpCode] arg_cong [OF assms, of in_ReturnRegister] arg_cong [OF assms, of in_Terminator] arg_cong [OF assms, of in_MaxCycle]
    arg_cong [OF assms, of in_class] arg_cong [OF assms, of in_LLVMLine] arg_cong [OF assms, of in_Dependencies] arg_cong [OF assms, of in_RawCheck]
  by (simp_all add: skel_def static_def)

definition node_ok :: "(string \<times> instr list) list \<Rightarrow> instr \<Rightarrow> bool" where
  "node_ok bbs i \<longleftrightarrow> skel i \<in> skel ` nodes bbs \<and> (in_Terminator i \<longrightarrow> in_Children i = []) \<and> length (in_Ops i) = length (in_Dependencies i)"

lemma node_okD:
  assumes "wf_program bbs" and "node_ok bbs i"
  shows "in_OpCode i = ''ret'' \<Longrightarrow> in_Terminator i" "in_Terminator i \<Longrightarrow> in_ReturnRegister i = None" "in_Terminator i \<Longrightarrow> in_OpCode i \<noteq> ''store''"
    "in_Terminator i \<Longrightarrow> in_OpCode i \<noteq> ''load''" "in_Terminator i \<Longrightarrow> in_Children i = []"
    "in_OpCode i = ''load'' \<Longrightarrow> in_ReturnRegister i \<noteq> None" "in_OpCode i = ''load'' \<Longrightarrow> in_MaxCycle i = 0" "in_OpCode i = ''store'' \<Longrightarrow> in_ReturnRegister i = None"
    "in_ReturnRegister i = None \<Longrightarrow> in_Terminator i \<or> in_OpCode i = ''store'' \<or> in_MaxCycle i = 0"
proof -
  from assms obtain j where j: "j \<in> nodes bbs" "skel i = skel j" by (auto simp: node_ok_def)
  with assms have w: "wf_node j" by (auto simp: wf_program_def)
  note f = skel_fields [OF j(2)]
  from w f show "in_OpCode i = ''ret'' \<Longrightarrow> in_Terminator i" "in_Terminator i \<Longrightarrow> in_ReturnRegister i = None" "in_Terminator i \<Longrightarrow> in_OpCode i \<noteq> ''store''"
    "in_Terminator i \<Longrightarrow> in_OpCode i \<noteq> ''load''" "in_OpCode i = ''load'' \<Longrightarrow> in_ReturnRegister i \<noteq> None" "in_OpCode i = ''load'' \<Longrightarrow> in_MaxCycle i = 0" "in_OpCode i = ''store'' \<Longrightarrow> in_ReturnRegister i = None"
    "in_ReturnRegister i = None \<Longrightarrow> in_Terminator i \<or> in_OpCode i = ''store'' \<or> in_MaxCycle i = 0"
    unfolding wf_node_def by auto
  from assms show "in_Terminator i \<Longrightarrow> in_Children i = []" by (simp add: node_ok_def)
qed

lemma node_ok_line:
  assumes "wf_program bbs" and "node_ok bbs i" and "node_ok bbs j" and "in_ReturnRegister i \<noteq> None"
  shows "in_LLVMLine j = in_LLVMLine i \<longleftrightarrow> in_ReturnRegister j = in_ReturnRegister i"
proof -
  from assms obtain i0 j0 where i0: "i0 \<in> nodes bbs" "skel i = skel i0" and j0: "j0 \<in> nodes bbs" "skel j = skel j0" by (auto simp: node_ok_def)
  with assms(1,4) show ?thesis by (simp add: wf_program_def ssa_def skel_fields [OF i0(2)] skel_fields [OF j0(2)])
qed

section \<open>The invariant\<close>

definition flight :: "llvm_interface \<Rightarrow> nat list" where
  "flight s = li_computeQueue s @ li_readQueue s @ li_writeQueue s"

definition live :: "llvm_interface \<Rightarrow> nat set" where
  "live s = set (li_reservation s) \<union> set (flight s)"

text \<open>\<open>C\<close> are the reserved instructions whose needs have been looked up.\<close>

definition dep_inv :: "(string \<times> instr list) list \<Rightarrow> nat set \<Rightarrow> llvm_interface \<Rightarrow> bool" where
  "dep_inv bbs C s \<longleftrightarrow> li_bbList s = bbs \<and> distinct (li_reservation s @ flight s)
     \<and> graph_ok (li_instrs s) (li_reservation s) (live s) \<and> raw_ok (li_instrs s) C (li_reservation s) (live s)
     \<and> (\<forall>k\<in>live s. node_ok bbs (li_instrs s ! k))
     \<and> (\<forall>k\<in>set (li_computeQueue s). in_ReturnRegister (li_instrs s ! k) \<noteq> None)
     \<and> (\<forall>k\<in>set (li_readQueue s). in_OpCode (li_instrs s ! k) = ''load'')
     \<and> (\<forall>k\<in>set (li_writeQueue s). in_OpCode (li_instrs s ! k) = ''store'')
     \<and> (\<forall>k\<in>set (li_reservation s). in_CurrCycle (li_instrs s ! k) = 0)"

lemma dep_invD:
  assumes "dep_inv bbs C s"
  shows "li_bbList s = bbs" "distinct (li_reservation s @ flight s)"
    "graph_ok (li_instrs s) (li_reservation s) (live s)" "raw_ok (li_instrs s) C (li_reservation s) (live s)"
    "k \<in> live s \<Longrightarrow> node_ok bbs (li_instrs s ! k)"
    "k \<in> set (li_computeQueue s) \<Longrightarrow> in_ReturnRegister (li_instrs s ! k) \<noteq> None"
    "k \<in> set (li_readQueue s) \<Longrightarrow> in_OpCode (li_instrs s ! k) = ''load''"
    "k \<in> set (li_writeQueue s) \<Longrightarrow> in_OpCode (li_instrs s ! k) = ''store''"
    "k \<in> set (li_reservation s) \<Longrightarrow> in_CurrCycle (li_instrs s ! k) = 0"
    "k \<in> live s \<Longrightarrow> k < length (li_instrs s)"
  using assms graph_okD(2) by (auto simp: dep_inv_def)

text \<open>
  A step that changes the store within the static part of each instruction: the graph has to be
  looked at again, the rest follows.
\<close>

definition same_node :: "instr \<Rightarrow> instr \<Rightarrow> bool" where
  "same_node i j \<longleftrightarrow> skel i = skel j \<and> in_Children i = in_Children j \<and> length (in_Ops i) = length (in_Ops j)"

lemma node_ok_same: "same_node i j \<Longrightarrow> node_ok bbs j \<Longrightarrow> node_ok bbs i"
  using skel_fields [of i j] by (auto simp: same_node_def node_ok_def)

lemma dep_invI:
  assumes d: "dep_inv bbs C s"
    and I: "\<And>k. k \<in> live s' \<Longrightarrow> same_node (li_instrs s' ! k) (li_instrs s ! k)"
    and L: "live s' \<subseteq> live s" "distinct (li_reservation s' @ flight s')" "set (li_reservation s') \<subseteq> set (li_reservation s)"
    and q: "\<And>k. k \<in> set (li_computeQueue s') \<Longrightarrow> in_ReturnRegister (li_instrs s ! k) \<noteq> None"
      "\<And>k. k \<in> set (li_readQueue s') \<Longrightarrow> in_OpCode (li_instrs s ! k) = ''load''" "\<And>k. k \<in> set (li_writeQueue s') \<Longrightarrow> in_OpCode (li_instrs s ! k) = ''store''"
    and c: "\<And>k. k \<in> set (li_reservation s') \<Longrightarrow> in_CurrCycle (li_instrs s' ! k) = in_CurrCycle (li_instrs s ! k)"
    and g: "graph_ok (li_instrs s') (li_reservation s') (live s')" "raw_ok (li_instrs s') C' (li_reservation s') (live s')"
    and b: "li_bbList s' = li_bbList s"
  shows "dep_inv bbs C' s'"
proof -
  have f: "in_ReturnRegister (li_instrs s' ! k) = in_ReturnRegister (li_instrs s ! k)" "in_OpCode (li_instrs s' ! k) = in_OpCode (li_instrs s ! k)" if "k \<in> live s'" for k
    using I [OF that] skel_fields(1,2) [of "li_instrs s' ! k" "li_instrs s ! k"] by (simp_all add: same_node_def)
  have q': "set (li_computeQueue s') \<subseteq> live s'" "set (li_readQueue s') \<subseteq> live s'" "set (li_writeQueue s') \<subseteq> live s'" "set (li_reservation s') \<subseteq> live s'"
    by (auto simp: live_def flight_def)
  show ?thesis unfolding dep_inv_def
  proof (intro conjI ballI)
    show "li_bbList s' = bbs" using b dep_invD(1) [OF d] by simp
    show "node_ok bbs (li_instrs s' ! k)" if "k \<in> live s'" for k using node_ok_same [OF I [OF that]] dep_invD(5) [OF d] L(1) that by blast
    show "in_ReturnRegister (li_instrs s' ! k) \<noteq> None" if "k \<in> set (li_computeQueue s')" for k using q(1) [OF that] f(1) q'(1) that by auto
    show "in_OpCode (li_instrs s' ! k) = ''load''" if "k \<in> set (li_readQueue s')" for k using q(2) [OF that] f(2) q'(2) that by auto
    show "in_OpCode (li_instrs s' ! k) = ''store''" if "k \<in> set (li_writeQueue s')" for k using q(3) [OF that] f(2) q'(3) that by auto
    show "in_CurrCycle (li_instrs s' ! k) = 0" if "k \<in> set (li_reservation s')" for k using c [OF that] dep_invD(9) [OF d] L(3) that by auto
  qed (use L g in auto)
qed

lemma same_node_refl [simp]: "same_node i i"
  by (simp add: same_node_def)

lemma skel_static:
  assumes "(static i)\<lparr> in_ActiveParents := 0 \<rparr> = (static j)\<lparr> in_ActiveParents := 0 \<rparr>"
  shows "skel i = skel j"
  using arg_cong [OF assms, of "\<lambda>i. i\<lparr> in_Parents := [], in_Children := [], in_CurrCycle := 0, in_ActivePtr := 0, in_PrevBB := [], in_Req := None \<rparr>"]
  by (simp add: skel_def)

lemma signalled_node:
  assumes "signalled cs I I'" and "k < length I"
  shows "same_node (I' ! k) (I ! k)" "in_CurrCycle (I' ! k) = in_CurrCycle (I ! k)" "in_Children (I' ! k) = in_Children (I ! k)"
    "in_ReturnRegister (I' ! k) = in_ReturnRegister (I ! k)" "needs (I' ! k) = needs (I ! k)"
proof -
  from assms have e: "(static (I' ! k))\<lparr> in_ActiveParents := 0 \<rparr> = (static (I ! k))\<lparr> in_ActiveParents := 0 \<rparr>" "length (in_Ops (I' ! k)) = length (in_Ops (I ! k))"
    by (simp_all add: signalled_def)
  from e skel_static [OF e(1)] static_fields [OF e(1)] show "same_node (I' ! k) (I ! k)" "in_CurrCycle (I' ! k) = in_CurrCycle (I ! k)" "in_Children (I' ! k) = in_Children (I ! k)"
    "in_ReturnRegister (I' ! k) = in_ReturnRegister (I ! k)" "needs (I' ! k) = needs (I ! k)"
    by (simp_all add: same_node_def)
qed

text \<open>The queues without an instruction.\<close>

definition without :: "nat \<Rightarrow> llvm_interface \<Rightarrow> llvm_interface \<Rightarrow> bool" where
  "without k s s' \<longleftrightarrow> li_reservation s' = filter (\<lambda>x. x \<noteq> k) (li_reservation s) \<and> li_computeQueue s' = filter (\<lambda>x. x \<noteq> k) (li_computeQueue s)
     \<and> li_readQueue s' = filter (\<lambda>x. x \<noteq> k) (li_readQueue s) \<and> li_writeQueue s' = filter (\<lambda>x. x \<noteq> k) (li_writeQueue s) \<and> li_bbList s' = li_bbList s"

lemma without_live:
  assumes "without k s s'"
  shows "live s' = live s - {k}" "set (li_reservation s') = set (li_reservation s) - {k}" "flight s' = filter (\<lambda>x. x \<noteq> k) (flight s)"
    "sorted_wrt (<) (li_reservation s) \<Longrightarrow> sorted_wrt (<) (li_reservation s')"
  using assms by (auto simp: without_def live_def flight_def sorted_wrt_filter)

lemma retire_inv:
  assumes d: "dep_inv bbs C s" and C: "C \<subseteq> live s" and k: "k \<in> live s" "unblocked (li_instrs s) (live s) k"
    and sg: "signalled (in_Children (li_instrs s ! k)) (li_instrs s) I'" and w: "without k s s'" and I': "li_instrs s' = I' \<or> (\<exists>i. li_instrs s' = I'[k := i])"
  shows "dep_inv bbs (C - {k}) s'"
proof -
  note D = dep_invD [OF d]
  note wl = without_live [OF w]
  have nth: "li_instrs s' ! x = I' ! x" if "x \<noteq> k" for x using I' that by auto
  have len: "length (li_instrs s') = length (li_instrs s)" using I' sg by (auto simp: signalled_def)
  note sn = signalled_node [OF sg D(10)]
  have g: "graph_ok I' (li_reservation s') (live s')"
    unfolding wl(1) by (rule graph_retire [OF D(3) k sg wl(4) [OF graph_okD(3) [OF D(3)]] wl(2)])
  have r: "raw_ok I' (C - {k}) (li_reservation s') (live s')"
    unfolding wl(1) by (rule raw_retire [OF D(3,4) k C _ wl(2)]) (use sn in blast)
  show ?thesis
  proof (rule dep_invI [OF d])
    show "same_node (li_instrs s' ! x) (li_instrs s ! x)" if "x \<in> live s'" for x using that nth sn(1) by (simp add: wl(1))
    show "distinct (li_reservation s' @ flight s')" using D(2) w by (auto simp: wl(3) without_def)
    have "graph_ok (li_instrs s') (li_reservation s') (live s') = graph_ok I' (li_reservation s') (live s')"
      using len sg nth unfolding graph_ok_def links_def by (auto simp: wl(1,2) signalled_def)
    with g show "graph_ok (li_instrs s') (li_reservation s') (live s')" by simp
    have o: "older (li_instrs s') (live s') c x = older I' (live s') c x" for c x by (rule older_cong) (simp add: wl(1) nth)
    have "need_ok (li_instrs s') (live s') c x = need_ok I' (live s') c x" for c x
      unfolding need_ok_def o using nth by (auto simp: older_def wl(1))
    then show "raw_ok (li_instrs s') (C - {k}) (li_reservation s') (live s')"
      using r unfolding raw_ok_def o by (auto simp: wl(1) nth)
    show "in_CurrCycle (li_instrs s' ! x) = in_CurrCycle (li_instrs s ! x)" if "x \<in> set (li_reservation s')" for x
      using that nth sn(2) by (simp add: wl(2) live_def)
  qed (use w D(6,7,8) in \<open>auto simp: wl without_def\<close>)
qed

text \<open>Steps that leave the graph alone.\<close>

definition same_graph :: "nat set \<Rightarrow> nat set \<Rightarrow> instr list \<Rightarrow> instr list \<Rightarrow> bool" where
  "same_graph R C I I' \<longleftrightarrow> same_view I I' \<and> (\<forall>k<length I. same_node (I' ! k) (I ! k)) \<and> (\<forall>k\<in>R. in_CurrCycle (I' ! k) = in_CurrCycle (I ! k))
     \<and> (\<forall>k\<in>C. needs (I' ! k) = needs (I ! k))"

lemma same_graph_refl [simp]: "same_graph R C I I"
  by (simp add: same_graph_def same_view_def)

lemma same_graph_set:
  assumes "k < length I" and "gview i = gview (I ! k)" and "same_node i (I ! k)" and "k \<in> R \<Longrightarrow> in_CurrCycle i = in_CurrCycle (I ! k)" and "k \<in> C \<Longrightarrow> needs i = needs (I ! k)"
  shows "same_graph R C I (I[k := i])"
  using assms by (auto simp: same_graph_def same_view_def nth_list_update)

lemma same_graph_trans: "same_graph R C I I' \<Longrightarrow> same_graph R C I' I'' \<Longrightarrow> same_graph R C I I''"
  by (auto simp: same_graph_def same_view_def same_node_def)

lemma same_graph_mono: "same_graph R C I I' \<Longrightarrow> R' \<subseteq> R \<Longrightarrow> C' \<subseteq> C \<Longrightarrow> same_graph R' C' I I'"
  by (auto simp: same_graph_def)

definition same_queues :: "llvm_interface \<Rightarrow> llvm_interface \<Rightarrow> bool" where
  "same_queues s s' \<longleftrightarrow> li_reservation s' = li_reservation s \<and> li_computeQueue s' = li_computeQueue s \<and> li_readQueue s' = li_readQueue s \<and> li_writeQueue s' = li_writeQueue s
     \<and> li_bbList s' = li_bbList s"

lemma same_queuesI: "core s' = core s \<Longrightarrow> same_queues s s'"
  using core_fields [of s' s] by (simp add: same_queues_def)

lemma same_queues_live: "same_queues s s' \<Longrightarrow> live s' = live s \<and> flight s' = flight s \<and> li_reservation s' = li_reservation s"
  by (simp add: same_queues_def live_def flight_def)

lemma same_graph_inv:
  assumes d: "dep_inv bbs C s" and q: "same_queues s s'" and g: "same_graph (set (li_reservation s)) C (li_instrs s) (li_instrs s')"
  shows "dep_inv bbs C s'"
proof -
  note D = dep_invD [OF d]
  from q have l: "live s' = live s" "flight s' = flight s" "li_reservation s' = li_reservation s" by (simp_all add: same_queues_live)
  from g have v: "same_view (li_instrs s) (li_instrs s')" by (simp add: same_graph_def)
  show ?thesis
  proof (rule dep_invI [OF d])
    show "graph_ok (li_instrs s') (li_reservation s') (live s')" unfolding l by (rule graph_ok_view [OF D(3) v])
    show "raw_ok (li_instrs s') C (li_reservation s') (live s')" unfolding l using g by (intro raw_ok_view [OF D(4) v D(10)]) (simp_all add: same_graph_def)
    show "distinct (li_reservation s' @ flight s')" unfolding l by (rule D(2))
    show "same_node (li_instrs s' ! k) (li_instrs s ! k)" if "k \<in> live s'" for k using that g D(10) by (simp add: same_graph_def l)
    show "in_CurrCycle (li_instrs s' ! k) = in_CurrCycle (li_instrs s ! k)" if "k \<in> set (li_reservation s')" for k using that g by (simp add: same_graph_def l)
  qed (use q D(6,7,8) in \<open>auto simp: l same_queues_def\<close>)
qed

text \<open>A launch: an instruction that nothing waits for moves from the reservation table to a queue.\<close>

definition moved :: "nat \<Rightarrow> llvm_interface \<Rightarrow> llvm_interface \<Rightarrow> bool" where
  "moved k s s' \<longleftrightarrow> li_reservation s' = filter (\<lambda>x. x \<noteq> k) (li_reservation s) \<and> set (flight s') = insert k (set (flight s)) \<and> (distinct (k # flight s) \<longrightarrow> distinct (flight s')) \<and> li_bbList s' = li_bbList s
     \<and> set (li_computeQueue s') \<subseteq> set (li_computeQueue s) \<union> {x. x = k \<and> in_ReturnRegister (li_instrs s ! k) \<noteq> None}
     \<and> set (li_readQueue s') \<subseteq> set (li_readQueue s) \<union> {x. x = k \<and> in_OpCode (li_instrs s ! k) = ''load''}
     \<and> set (li_writeQueue s') \<subseteq> set (li_writeQueue s) \<union> {x. x = k \<and> in_OpCode (li_instrs s ! k) = ''store''}"

lemma launch_inv:
  assumes d: "dep_inv bbs C s" and k: "k \<in> set (li_reservation s)" "unblocked (li_instrs s) (live s) k" and m: "moved k s s'"
    and g: "same_graph (set (li_reservation s) - {k}) C (li_instrs s) (li_instrs s')"
  shows "dep_inv bbs (C - {k}) s'"
proof -
  note D = dep_invD [OF d]
  have fl: "set (flight s') = insert k (set (flight s))" using m by (simp add: moved_def)
  have r: "set (li_reservation s') = set (li_reservation s) - {k}" using m by (auto simp: moved_def)
  have l: "live s' = live s" using k(1) by (auto simp: live_def fl r)
  have so: "sorted_wrt (<) (li_reservation s')" using m graph_okD(3) [OF D(3)] by (simp add: moved_def sorted_wrt_filter)
  from g have v: "same_view (li_instrs s) (li_instrs s')" by (simp add: same_graph_def)
  have "distinct (flight s')"
    using m D(2) k(1) by (auto simp: moved_def)
  then have di: "distinct (li_reservation s' @ flight s')" using D(2) m by (auto simp: moved_def fl)
  show ?thesis
  proof (rule dep_invI [OF d])
    show "graph_ok (li_instrs s') (li_reservation s') (live s')" unfolding l
      by (rule graph_ok_view [OF graph_launch [OF D(3) k(2) so r] v])
    show "raw_ok (li_instrs s') (C - {k}) (li_reservation s') (live s')" unfolding l
      by (rule raw_ok_view [OF raw_launch [OF D(4) k(2) r] v D(10)]) (use g in \<open>simp_all add: same_graph_def\<close>)
    show "same_node (li_instrs s' ! k) (li_instrs s ! k)" if "k \<in> live s'" for k using that g D(10) by (simp add: same_graph_def l)
    show "in_CurrCycle (li_instrs s' ! x) = in_CurrCycle (li_instrs s ! x)" if "x \<in> set (li_reservation s')" for x using that g by (simp add: same_graph_def r)
    show "in_ReturnRegister (li_instrs s ! x) \<noteq> None" if "x \<in> set (li_computeQueue s')" for x using that m D(6) by (auto simp: moved_def)
    show "in_OpCode (li_instrs s ! x) = ''load''" if "x \<in> set (li_readQueue s')" for x using that m D(7) by (auto simp: moved_def)
    show "in_OpCode (li_instrs s ! x) = ''store''" if "x \<in> set (li_writeQueue s')" for x using that m D(8) by (auto simp: moved_def)
  qed (use m di in \<open>auto simp: l r moved_def\<close>)
qed

lemma li_compute_graph:
  assumes "li_compute u k s = Inr s'"
  shows "same_graph R C (li_instrs s) (li_instrs s')"
  using assms
proof (rule li_compute_instrs)
  fix i' q
  assume k: "k < length (li_instrs s)" and I: "li_instrs s' = (li_instrs s)[k := i'\<lparr> in_Req := q \<rparr>]" and st: "static i' = static (li_instrs s ! k)"
    and len: "length (in_Ops i') = length (in_Ops (li_instrs s ! k))"
  from st have e: "(static i')\<lparr> in_ActiveParents := 0 \<rparr> = (static (li_instrs s ! k))\<lparr> in_ActiveParents := 0 \<rparr>" by simp
  have ap: "in_ActiveParents i' = in_ActiveParents (li_instrs s ! k)" using arg_cong [OF st, of in_ActiveParents] by (simp add: static_def)
  have sk: "skel (i'\<lparr> in_Req := q \<rparr>) = skel i'" by (simp add: skel_def static_def)
  show ?thesis unfolding I
    using static_fields [OF e] skel_static [OF e] ap len
    by (intro same_graph_set [OF k]) (simp_all add: gview_def same_node_def sk)
qed

section \<open>Commits\<close>

lemma commit_true_signals:
  assumes "commit k s = Inr (True, s')"
  shows "k < length (li_instrs s)" "signalled (in_Children (li_instrs s ! k)) (li_instrs s) (li_instrs s')"
  using assms by (auto elim!: commit_cases simp: li_instr_iff dest: signalChildren_signals)

lemma commit_false_graph:
  assumes "commit k s = Inr (False, s')" and "in_ReturnRegister (li_instrs s ! k) \<noteq> None" and "k \<notin> R"
  shows "same_graph R C (li_instrs s) (li_instrs s')"
  using assms(1)
proof (rule commit_cases)
  fix i r assume "li_instr s k = Inr i" "s' = li_set k (i\<lparr> in_CurrCycle := in_CurrCycle i + 1 \<rparr>) s"
  then show ?thesis using assms(3) by (auto simp: li_instr_iff gview_def same_node_def skel_def static_def intro!: same_graph_set)
next
  fix i assume "li_instr s k = Inr i" "in_ReturnRegister i = None"
  with assms(2) show ?thesis by (simp add: li_instr_iff)
qed simp

lemma filter_neq_id: "k \<notin> set xs \<Longrightarrow> filter (\<lambda>x. x \<noteq> k) xs = xs"
  by (induction xs) auto

lemma filter_neq_mid: "distinct (xs @ k # ys) \<Longrightarrow> filter (\<lambda>x. x \<noteq> k) (xs @ k # ys) = xs @ ys"
  by (auto simp: filter_neq_id)

lemma fu_step_same:
  assumes "(if li_unlimitedFU s then (True, updateFU z s) else limitedFU z s) = (b, s1)"
  shows "li_instrs s1 = li_instrs s" "same_queues s s1"
  using assms by (auto simp: updateFU_def limitedFU_def Let_def same_queues_def split: if_splits)

lemma commit_loop_inv:
  assumes "commit_loop n ks s = Inr (r, s')" and "dep_inv bbs (set (li_reservation s)) (s\<lparr> li_computeQueue := acc @ ks \<rparr>)"
  shows "dep_inv bbs (set (li_reservation s')) (s'\<lparr> li_computeQueue := acc @ r \<rparr>)"
  using assms
proof (induction ks arbitrary: n s r acc)
  case (Cons k ks)
  note d = Cons(3)
  note D = dep_invD [OF d]
  from Cons(2) show ?case
  proof (rule commit_loop_cases)
    fix i b s1
    assume f: "(if li_unlimitedFU s then (True, updateFU (in_FunctionalUnit i) s) else limitedFU (in_FunctionalUnit i) s) = (b, s1)"
      and rest: "(\<exists>s2 i2. b \<and> commit k s1 = Inr (True, s2) \<and> li_instr s2 k = Inr i2 \<and> commit_loop n ks (li_set k (removeParents i2) s2) = Inr (r, s')) \<or>
        (\<exists>s2 r'. (if b then commit k s1 else Inr (False, s1)) = Inr (False, s2) \<and> commit_loop (Suc n) ks s2 = Inr (r', s') \<and> r = k # r')"
    note fs = fu_step_same [OF f]
    have k: "k \<in> live (s\<lparr> li_computeQueue := acc @ k # ks \<rparr>)" "k \<notin> set (li_reservation s)" "in_ReturnRegister (li_instrs s1 ! k) \<noteq> None"
      using D(2) D(6) [of k] by (auto simp: live_def flight_def fs)
    from rest show ?thesis
    proof (elim disjE exE conjE)
      fix s2 i2
      assume c: "commit k s1 = Inr (True, s2)" and l: "commit_loop n ks (li_set k (removeParents i2) s2) = Inr (r, s')"
      have q: "same_queues s s2" using fs(2) same_queuesI [OF commit_core [OF c]] by (simp add: same_queues_def)
      have "dep_inv bbs (set (li_reservation s) - {k}) ((li_set k (removeParents i2) s2)\<lparr> li_computeQueue := acc @ ks \<rparr>)"
      proof (rule retire_inv [OF d _ k(1)])
        show "unblocked (li_instrs (s\<lparr> li_computeQueue := acc @ k # ks \<rparr>)) (live (s\<lparr> li_computeQueue := acc @ k # ks \<rparr>)) k"
          by (rule unblocked_flight [OF D(3,4) k(1)]) (simp add: k)
        show "signalled (in_Children (li_instrs (s\<lparr> li_computeQueue := acc @ k # ks \<rparr>) ! k)) (li_instrs (s\<lparr> li_computeQueue := acc @ k # ks \<rparr>)) (li_instrs s2)"
          using commit_true_signals(2) [OF c] by (simp add: fs)
        show "without k (s\<lparr> li_computeQueue := acc @ k # ks \<rparr>) ((li_set k (removeParents i2) s2)\<lparr> li_computeQueue := acc @ ks \<rparr>)"
          using D(2) q k(2) by (auto simp: without_def same_queues_def flight_def li_set_def filter_neq_id)
      qed (auto simp: live_def)
      then show ?thesis using Cons(1) [OF l] k(2) q by (simp add: same_queues_def li_set_def)
    next
      fix s2 r'
      assume c: "(if b then commit k s1 else Inr (False, s1)) = Inr (False, s2)" and l: "commit_loop (Suc n) ks s2 = Inr (r', s')" and r: "r = k # r'"
      have q: "same_queues s s2" "same_graph (set (li_reservation s)) (set (li_reservation s)) (li_instrs s) (li_instrs s2)"
        using c fs commit_false_graph [OF _ k(3,2)] same_queuesI [OF commit_core [of k s1]] by (auto simp: same_queues_def split: if_splits)
      have "dep_inv bbs (set (li_reservation s)) (s2\<lparr> li_computeQueue := acc @ k # ks \<rparr>)"
        by (rule same_graph_inv [OF d]) (use q in \<open>simp_all add: same_queues_def\<close>)
      then show ?thesis using Cons(1) [OF l, of "acc @ [k]"] q(1) r by (simp add: same_queues_def)
    qed
  qed
qed simp

lemma commit_queue_inv:
  assumes "commit_queue s = Inr s'" and "dep_inv bbs (set (li_reservation s)) s"
  shows "dep_inv bbs (set (li_reservation s')) s'"
  using assms(1)
proof (rule commit_queue_cases)
  fix q s1 assume c: "commit_loop 0 (li_computeQueue s) s = Inr (q, s1)" and s': "s' = s1\<lparr> li_computeQueue := q \<rparr>"
  have "dep_inv bbs (set (li_reservation s)) (s\<lparr> li_computeQueue := [] @ li_computeQueue s \<rparr>)" using assms(2) by simp
  from commit_loop_inv [OF c this] show ?thesis by (simp add: s')
qed

text \<open>
  The commit of a request, which does not look at the queues: \<open>s\<close> is the state with the queues as
  the loop has left them so far.
\<close>

lemma retire_step:
  assumes d: "dep_inv bbs (set (li_reservation s)) s" and r: "retire k t = Inr t'"
    and g: "same_graph (set (li_reservation s)) (set (li_reservation s)) (li_instrs s) (li_instrs t)"
    and k: "k \<in> set (flight s)" "in_ReturnRegister (li_instrs s ! k) = None \<or> in_MaxCycle (li_instrs s ! k) = 0"
    and w: "without k s s'" "li_instrs s' = li_instrs t'"
  shows "dep_inv bbs (set (li_reservation s)) s'"
proof -
  define s1 where "s1 = s\<lparr> li_instrs := li_instrs t \<rparr>"
  have q: "same_queues s s1" by (simp add: s1_def same_queues_def)
  have d1: "dep_inv bbs (set (li_reservation s)) s1" by (rule same_graph_inv [OF d q]) (simp add: s1_def g)
  note D = dep_invD [OF d1]
  have kl: "k \<in> live s1" "k \<notin> set (li_reservation s1)"
    using k(1) dep_invD(2) [OF d] same_queues_live [OF q] by (auto simp: live_def)
  have kn: "in_ReturnRegister (li_instrs t ! k) = None \<or> in_MaxCycle (li_instrs t ! k) = 0"
    using k(2) g dep_invD(10) [OF d, of k] k(1) skel_fields(2,4) [of "li_instrs t ! k" "li_instrs s ! k"] by (auto simp: same_graph_def same_node_def live_def)
  from r obtain b t1 i where c: "commit k t = Inr (b, t1)" "t' = li_set k (removeParents i) t1" by (rule retire_cases)
  have sg: "signalled (in_Children (li_instrs t ! k)) (li_instrs t) (li_instrs t1)" by (rule commit_signals(2) [OF c(1)]) (use kn in auto)
  have "dep_inv bbs (set (li_reservation s) - {k}) s'"
  proof (rule retire_inv [OF d1 _ kl(1)])
    show "unblocked (li_instrs s1) (live s1) k" by (rule unblocked_flight [OF D(3,4) kl])
    show "signalled (in_Children (li_instrs s1 ! k)) (li_instrs s1) (li_instrs t1)" using sg by (simp add: s1_def)
    show "without k s1 s'" using w(1) q by (simp add: without_def same_queues_def)
    show "set (li_reservation s) \<subseteq> live s1" using q by (auto simp: live_def same_queues_def)
    show "li_instrs s' = li_instrs t1 \<or> (\<exists>i. li_instrs s' = (li_instrs t1)[k := i])" using w(2) c(2) by auto
  qed
  then show ?thesis using kl(2) q by (simp add: same_queues_def)
qed

lemma setResult_graph:
  assumes "setResult rl n v (I ! k) = Inr i'" and "k < length I"
  shows "same_graph R C I (I[k := i'])"
proof -
  from assms(1) obtain w where i': "i' = (I ! k)\<lparr> in_FinalResult := w \<rparr>"
    by (auto simp: setResult_def bind_res_eq_Inr_iff split: option.splits if_splits)
  show ?thesis by (rule same_graph_set [OF assms(2)]) (simp_all add: i' gview_def same_node_def skel_def static_def)
qed

lemma retire_load_inv:
  assumes wf: "wf_program bbs" and d: "dep_inv bbs (set (li_reservation s)) (s\<lparr> li_readQueue := acc @ k # ks \<rparr>)"
    and r: "li_instr s k = Inr i" "retire_load buf k i s = Inr s2"
  shows "dep_inv bbs (set (li_reservation s2)) (s2\<lparr> li_readQueue := acc @ ks \<rparr>)"
proof -
  let ?s = "s\<lparr> li_readQueue := acc @ k # ks \<rparr>"
  note D = dep_invD [OF d]
  from r obtain i1 where i1: "setResult (li_regList s) (length buf) (word_of_nat (le_val buf)) (li_instrs s ! k) = Inr i1" and k: "k < length (li_instrs s)"
    and rt: "retire k (li_set k i1 s) = Inr s2" by (auto simp: retire_load_def bind_res_eq_Inr_iff li_instr_iff)
  note sc = core_fields [OF retire_core [OF rt, unfolded core_li_set]]
  have kk: "k \<in> set (flight ?s)" "k \<in> live ?s" by (simp_all add: flight_def live_def)
  have mc: "in_MaxCycle (li_instrs ?s ! k) = 0" by (rule node_okD(7) [OF wf D(5) [OF kk(2)] D(7)]) simp
  have "dep_inv bbs (set (li_reservation ?s)) (s2\<lparr> li_readQueue := acc @ ks \<rparr>)"
  proof (rule retire_step [OF _ rt _ kk(1)])
    show "dep_inv bbs (set (li_reservation ?s)) ?s" using d by simp
    show "without k ?s (s2\<lparr> li_readQueue := acc @ ks \<rparr>)" using D(2) sc by (auto simp: without_def flight_def filter_neq_id)
  qed (use mc setResult_graph [OF i1 k] in auto)
  then show ?thesis by (simp add: sc)
qed

lemma retire_store_inv:
  assumes wf: "wf_program bbs" and d: "dep_inv bbs (set (li_reservation s)) (s\<lparr> li_writeQueue := acc @ k # ks \<rparr>)" and rt: "retire k s = Inr s2"
  shows "dep_inv bbs (set (li_reservation s2)) (s2\<lparr> li_writeQueue := acc @ ks \<rparr>)"
proof -
  let ?s = "s\<lparr> li_writeQueue := acc @ k # ks \<rparr>"
  note D = dep_invD [OF d]
  note sc = core_fields [OF retire_core [OF rt]]
  have kk: "k \<in> set (flight ?s)" "k \<in> live ?s" by (simp_all add: flight_def live_def)
  have rr: "in_ReturnRegister (li_instrs ?s ! k) = None" by (rule node_okD(8) [OF wf D(5) [OF kk(2)] D(8)]) simp
  have "dep_inv bbs (set (li_reservation ?s)) (s2\<lparr> li_writeQueue := acc @ ks \<rparr>)"
  proof (rule retire_step [OF _ rt _ kk(1)])
    show "dep_inv bbs (set (li_reservation ?s)) ?s" using d by simp
    show "without k ?s (s2\<lparr> li_writeQueue := acc @ ks \<rparr>)" using D(2) sc by (auto simp: without_def flight_def filter_neq_id)
  qed (use rr in auto)
  then show ?thesis by (simp add: sc)
qed

lemma request_loop_inv:
  assumes l: "request_loop f q ks s = Inr (r, s')" and d: "P s (acc @ ks)"
    and f: "\<And>k i s s' ks acc. li_instr s k = Inr i \<Longrightarrow> f k i s = Inr s' \<Longrightarrow> P s (acc @ k # ks) \<Longrightarrow> P s' (acc @ ks)"
  shows "P s' (acc @ r)"
  using l d f
proof (induction f q ks s arbitrary: r acc rule: request_loop.induct)
  case (2 f q k s)
  from 2(1) have "s' = s \<and> r = [k] \<or> r = [] \<and> (\<exists>i. li_instr s k = Inr i \<and> f k i s = Inr s')" by (auto simp: bind_res_eq_Inr_iff split: if_splits)
  then show ?case
  proof
    assume "r = [] \<and> (\<exists>i. li_instr s k = Inr i \<and> f k i s = Inr s')"
    then obtain i where "r = []" "li_instr s k = Inr i" "f k i s = Inr s'" by blast
    with 2(3) [of s k i s' acc "[]"] 2(2) show ?thesis by simp
  qed (use 2(2) in simp)
next
  case (3 f q k k' ks s)
  from 3(3) obtain i where i: "li_instr s k = Inr i" by (auto simp: bind_res_eq_Inr_iff)
  show ?case
  proof (cases "in_Req i = Some q")
    case True
    with 3(3) i obtain s1 r1 where s1: "f k i s = Inr s1" "request_loop f q ks s1 = Inr (r1, s')" "r = k' # r1" by (auto simp: bind_res_eq_Inr_iff)
    have "P s1 ((acc @ [k']) @ ks)" using 3(5) [OF i s1(1) 3(4)] by simp
    from 3(1) [OF True s1(2) this 3(5)] show ?thesis using s1(3) by simp
  next
    case False
    with 3(3) i obtain r1 where r1: "request_loop f q (k' # ks) s = Inr (r1, s')" "r = k # r1" by (auto simp: bind_res_eq_Inr_iff)
    have "P s ((acc @ [k]) @ k' # ks)" using 3(4) by simp
    from 3(2) [OF False r1(1) this 3(5)] show ?thesis using r1(2) by simp
  qed
qed simp

lemma readCommit_inv:
  assumes "wf_program bbs" and "readCommit q buf s = Inr s'" and "dep_inv bbs (set (li_reservation s)) s"
  shows "dep_inv bbs (set (li_reservation s')) s'"
  using assms(2)
proof (rule readCommit_core)
  fix r s1 assume s': "s' = s1\<lparr> li_readQueue := r \<rparr>" and l: "request_loop (retire_load buf) q (li_readQueue s) s = Inr (r, s1)"
  have "dep_inv bbs (set (li_reservation s1)) (s1\<lparr> li_readQueue := [] @ r \<rparr>)"
    by (rule request_loop_inv [OF l, where P = "\<lambda>s q. dep_inv bbs (set (li_reservation s)) (s\<lparr> li_readQueue := q \<rparr>)"])
      (use assms(3) in \<open>simp_all add: retire_load_inv [OF assms(1)]\<close>)
  then show ?thesis by (simp add: s')
qed

lemma writeCommit_inv:
  assumes "wf_program bbs" and "writeCommit q s = Inr s'" and "dep_inv bbs (set (li_reservation s)) s"
  shows "dep_inv bbs (set (li_reservation s')) s'"
  using assms(2)
proof (rule writeCommit_core)
  fix r s1 assume s': "s' = s1\<lparr> li_writeQueue := r \<rparr>" and l: "request_loop (\<lambda>k i. retire k) q (li_writeQueue s) s = Inr (r, s1)"
  have "dep_inv bbs (set (li_reservation s1)) (s1\<lparr> li_writeQueue := [] @ r \<rparr>)"
    by (rule request_loop_inv [OF l, where P = "\<lambda>s q. dep_inv bbs (set (li_reservation s)) (s\<lparr> li_writeQueue := q \<rparr>)"])
      (use assms(3) in \<open>simp_all add: retire_store_inv [OF assms(1)]\<close>)
  then show ?thesis by (simp add: s')
qed

section \<open>Launches\<close>

lemma erase_at_filter: "distinct xs \<Longrightarrow> n < length xs \<Longrightarrow> erase_at n xs = filter (\<lambda>x. x \<noteq> xs ! n) xs"
proof -
  assume d: "distinct xs" and n: "n < length xs"
  have "xs = take n xs @ xs ! n # drop (Suc n) xs" by (rule id_take_nth_drop [OF n])
  with d filter_neq_mid [of "take n xs" "xs ! n" "drop (Suc n) xs"] show ?thesis by (simp add: erase_at_def)
qed

lemma count_fu_fields [simp]:
  "li_instrs (count_fu i s) = li_instrs s" "li_reservation (count_fu i s) = li_reservation s" "li_computeQueue (count_fu i s) = li_computeQueue s"
  "li_readQueue (count_fu i s) = li_readQueue s" "li_writeQueue (count_fu i s) = li_writeQueue s" "li_bbList (count_fu i s) = li_bbList s"
  by (simp_all add: count_fu_def updateFU_def)

lemma erase_reserved_fields [simp]:
  "li_instrs (erase_reserved n s) = li_instrs s" "li_computeQueue (erase_reserved n s) = li_computeQueue s"
  "li_readQueue (erase_reserved n s) = li_readQueue s" "li_writeQueue (erase_reserved n s) = li_writeQueue s" "li_bbList (erase_reserved n s) = li_bbList s"
  "li_reservation (erase_reserved n s) = erase_at n (li_reservation s)"
  by (simp_all add: erase_reserved_def)

lemma reserved_facts:
  assumes d: "dep_inv bbs (set (li_reservation s)) s" and n: "n < length (li_reservation s)" and k: "k = li_reservation s ! n"
  shows "k \<in> set (li_reservation s)" "k \<in> live s" "k \<notin> set (flight s)" "erase_at n (li_reservation s) = filter (\<lambda>x. x \<noteq> k) (li_reservation s)"
    "in_ActiveParents (li_instrs s ! k) = 0 \<Longrightarrow> unblocked (li_instrs s) (live s) k"
proof -
  note D = dep_invD [OF d]
  show kr: "k \<in> set (li_reservation s)" using n k by simp
  then show "k \<in> live s" "k \<notin> set (flight s)" using D(2) by (auto simp: live_def)
  show "erase_at n (li_reservation s) = filter (\<lambda>x. x \<noteq> k) (li_reservation s)" using D(2) erase_at_filter [OF _ n] k by simp
  show "in_ActiveParents (li_instrs s ! k) = 0 \<Longrightarrow> unblocked (li_instrs s) (live s) k" by (rule unblocked_ready [OF D(3,4) kr kr])
qed

lemma launch_load_inv:
  assumes d: "dep_inv bbs (set (li_reservation s)) s" and n: "n < length (li_reservation s)" and k: "k = li_reservation s ! n"
    and i: "in_ActiveParents (li_instrs s ! k) = 0" "in_OpCode (li_instrs s ! k) = ''load''" and l: "launch_load u n k s = Inr s'"
  shows "dep_inv bbs (set (li_reservation s')) s'"
  using l
proof (rule launch_load_cases)
  note R = reserved_facts [OF d n k]
  fix s1 i dl ml
  assume c: "li_compute u k (s\<lparr> li_loadOpScheduled := True, li_readQueue := li_readQueue s @ [k] \<rparr>) = Inr s1"
    and s': "s' = (erase_reserved n (count_fu i (s1\<lparr> li_dma_loads := dl, li_memory_loads := ml \<rparr>)))\<lparr> li_scheduled := True \<rparr>"
  note f = core_req_fields [OF li_compute_core [OF c]]
  have q: "li_reservation s' = filter (\<lambda>x. x \<noteq> k) (li_reservation s)" "li_readQueue s' = li_readQueue s @ [k]" "li_computeQueue s' = li_computeQueue s"
    "li_writeQueue s' = li_writeQueue s" "li_bbList s' = li_bbList s" "li_instrs s' = li_instrs s1"
    unfolding s' using f R(4) by simp_all
  have "dep_inv bbs (set (li_reservation s) - {k}) s'"
  proof (rule launch_inv [OF d R(1) R(5) [OF i(1)]])
    show "moved k s s'" using i(2) R(3) by (auto simp: moved_def q flight_def)
    show "same_graph (set (li_reservation s) - {k}) (set (li_reservation s)) (li_instrs s) (li_instrs s')"
      using li_compute_graph [OF c] by (simp add: q)
  qed
  then show ?thesis by (simp add: q set_diff_eq)
qed

lemma launch_store_inv:
  assumes d: "dep_inv bbs (set (li_reservation s)) s" and n: "n < length (li_reservation s)" and k: "k = li_reservation s ! n"
    and i: "in_ActiveParents (li_instrs s ! k) = 0" "in_OpCode (li_instrs s ! k) = ''store''" and l: "launch_store u n k s = Inr s'"
  shows "dep_inv bbs (set (li_reservation s')) s'"
  using l
proof (rule launch_store_cases)
  note R = reserved_facts [OF d n k]
  fix s1 i dl ml
  assume c: "li_compute u k (s\<lparr> li_storeOpScheduled := True, li_writeQueue := li_writeQueue s @ [k] \<rparr>) = Inr s1"
    and s': "s' = (erase_reserved n (count_fu i (s1\<lparr> li_dma_stores := dl, li_memory_stores := ml \<rparr>)))\<lparr> li_scheduled := True \<rparr>"
  note f = core_req_fields [OF li_compute_core [OF c]]
  have q: "li_reservation s' = filter (\<lambda>x. x \<noteq> k) (li_reservation s)" "li_writeQueue s' = li_writeQueue s @ [k]" "li_computeQueue s' = li_computeQueue s"
    "li_readQueue s' = li_readQueue s" "li_bbList s' = li_bbList s" "li_instrs s' = li_instrs s1"
    unfolding s' using f R(4) by simp_all
  have "dep_inv bbs (set (li_reservation s) - {k}) s'"
  proof (rule launch_inv [OF d R(1) R(5) [OF i(1)]])
    show "moved k s s'" using i(2) R(3) by (auto simp: moved_def q flight_def)
    show "same_graph (set (li_reservation s) - {k}) (set (li_reservation s)) (li_instrs s) (li_instrs s')"
      using li_compute_graph [OF c] by (simp add: q)
  qed
  then show ?thesis by (simp add: q set_diff_eq)
qed

lemma launch_compute_inv:
  assumes d: "dep_inv bbs (set (li_reservation s)) s" and n: "n < length (li_reservation s)" and k: "k = li_reservation s ! n"
    and i: "in_ActiveParents (li_instrs s ! k) = 0" "in_MaxCycle (li_instrs s ! k) \<noteq> 0" "in_ReturnRegister (li_instrs s ! k) \<noteq> None" and l: "launch_compute u n k s = Inr s'"
  shows "dep_inv bbs (set (li_reservation s')) s'"
  using l
proof (rule launch_compute_cases)
  note R = reserved_facts [OF d n k]
  fix s1 b s2 i
  assume c: "li_compute u k (s\<lparr> li_computeQueue := li_computeQueue s @ [k] \<rparr>) = Inr s1" "commit k s1 = Inr (b, s2)"
    and s': "s' = (erase_reserved n (count_fu i s2))\<lparr> li_scheduled := True, li_compOpScheduled := True \<rparr>"
  note f = core_req_fields [OF li_compute_core [OF c(1)]] and f2 = core_fields [OF commit_core [OF c(2)]]
  have q: "li_reservation s' = filter (\<lambda>x. x \<noteq> k) (li_reservation s)" "li_computeQueue s' = li_computeQueue s @ [k]" "li_readQueue s' = li_readQueue s"
    "li_writeQueue s' = li_writeQueue s" "li_bbList s' = li_bbList s" "li_instrs s' = li_instrs s2"
    unfolding s' using f f2 R(4) by simp_all
  have g1: "same_graph (set (li_reservation s)) (set (li_reservation s)) (li_instrs s) (li_instrs s1)" using li_compute_graph [OF c(1)] by simp
  have kl: "k < length (li_instrs s)" by (rule dep_invD(10) [OF d R(2)])
  have kf: "in_ReturnRegister (li_instrs s1 ! k) \<noteq> None" "in_CurrCycle (li_instrs s1 ! k) < in_MaxCycle (li_instrs s1 ! k)"
    using g1 kl R(1) assms(5,6) dep_invD(9) [OF d R(1)] skel_fields(2,4) [of "li_instrs s1 ! k" "li_instrs s ! k"] by (auto simp: same_graph_def same_node_def)
  have "\<not> b" by (rule commit_waits(2) [OF c(2) kf])
  then have "same_graph (set (li_reservation s) - {k}) (set (li_reservation s)) (li_instrs s1) (li_instrs s2)"
    using commit_false_graph [OF _ kf(1), of s2] c(2) by simp
  from same_graph_trans [OF same_graph_mono [OF g1] this] have g: "same_graph (set (li_reservation s) - {k}) (set (li_reservation s)) (li_instrs s) (li_instrs s')"
    by (simp add: q)
  have "moved k s s'" using assms(6) R(3) by (auto simp: moved_def q flight_def)
  from launch_inv [OF d R(1) R(5) [OF assms(4)] this g] show ?thesis by (simp add: q set_diff_eq)
qed

lemma launch_immediate_inv:
  assumes d: "dep_inv bbs (set (li_reservation s)) s" and n: "n < length (li_reservation s)" and k: "k = li_reservation s ! n"
    and i: "in_ActiveParents (li_instrs s ! k) = 0" "in_MaxCycle (li_instrs s ! k) = 0" and l: "launch_immediate u n k s = Inr s'"
  shows "dep_inv bbs (set (li_reservation s')) s'"
  using l
proof (rule launch_immediate_cases)
  note R = reserved_facts [OF d n k]
  fix s1 b s2 i
  assume c: "li_compute u k s = Inr s1" "commit k s1 = Inr (b, s2)"
    and s': "s' = (erase_reserved n (li_set k (removeParents i) (count_fu i s2)))\<lparr> li_scheduled := True, li_compOpScheduled := True \<rparr>"
  note f = core_req_fields [OF li_compute_core [OF c(1)]] and f2 = core_fields [OF commit_core [OF c(2)]]
  have q1: "same_queues s s1" using f by (simp add: same_queues_def)
  have d1: "dep_inv bbs (set (li_reservation s1)) s1" using same_graph_inv [OF d q1 li_compute_graph [OF c(1)]] q1 by (simp add: same_queues_def)
  have n1: "n < length (li_reservation s1)" "k = li_reservation s1 ! n" using n k q1 by (simp_all add: same_queues_def)
  note R1 = reserved_facts [OF d1 n1]
  have g: "same_graph {} {} (li_instrs s) (li_instrs s1)" by (rule li_compute_graph [OF c(1)])
  have kl: "k < length (li_instrs s)" by (rule dep_invD(10) [OF d R(2)])
  have kf: "in_ActiveParents (li_instrs s1 ! k) = 0" "in_MaxCycle (li_instrs s1 ! k) = 0"
    using g kl assms(4,5) same_viewD(2) [of "li_instrs s" "li_instrs s1" k] skel_fields(4) [of "li_instrs s1 ! k" "li_instrs s ! k"] by (auto simp: same_graph_def same_node_def)
  have "dep_inv bbs (set (li_reservation s1) - {k}) s'"
  proof (rule retire_inv [OF d1 _ R1(2) R1(5) [OF kf(1)]])
    show "signalled (in_Children (li_instrs s1 ! k)) (li_instrs s1) (li_instrs s2)" by (rule commit_signals(2) [OF c(2)]) (simp add: kf)
    show "without k s1 s'" unfolding s' using f2 R1(3,4) by (auto simp: without_def li_set_def flight_def filter_neq_id)
    show "li_instrs s' = li_instrs s2 \<or> (\<exists>i. li_instrs s' = (li_instrs s2)[k := i])" unfolding s' by auto
  qed (auto simp: live_def)
  then show ?thesis unfolding s' using f2 R1(4) by (simp add: li_set_def set_diff_eq)
qed

end
