(* ===== verification/Dataflow.thy ===== *)
theory Dataflow
  imports Dataflow_Inv
begin

text \<open>
  Scheduling keeps the invariant of the dependency graph, and what the invariant says of runs.
\<close>

section \<open>The producers of a register\<close>

text \<open>The state while the needs of the youngest instruction \<open>c\<close> are looked up.\<close>

definition scheduling :: "(string \<times> instr list) list \<Rightarrow> nat \<Rightarrow> llvm_interface \<Rightarrow> bool" where
  "scheduling bbs c s \<longleftrightarrow> dep_inv bbs (set (li_reservation s) - {c}) s \<and> c \<in> set (li_reservation s) \<and> (\<forall>k\<in>live s. k \<le> c)"

lemma schedulingD:
  assumes "scheduling bbs c s"
  shows "dep_inv bbs (set (li_reservation s) - {c}) s" "c \<in> set (li_reservation s)" "c \<in> live s" "k \<in> live s \<Longrightarrow> k \<le> c" "c < length (li_instrs s)"
  using assms dep_invD(10) [of bbs _ s c] by (auto simp: scheduling_def live_def)

lemma butlast_max:
  assumes "sorted_wrt (<) xs" and "c \<in> set xs" and "\<forall>x\<in>set xs. x \<le> (c :: nat)"
  shows "xs = butlast xs @ [c]" "set (butlast xs) = set xs - {c}" "sorted_wrt (<) (butlast xs)"
proof -
  from assms(2) obtain ys z where xs: "xs = ys @ [z]" by (cases xs rule: rev_cases) auto
  with assms have "z = c" by (auto simp: sorted_wrt_append)
  with xs assms(1) show "xs = butlast xs @ [c]" "set (butlast xs) = set xs - {c}" "sorted_wrt (<) (butlast xs)"
    by (auto simp: sorted_wrt_append)
qed

lemma find_last_Some:
  assumes "find_last s P q = Some p"
  shows "p \<in> set q" "P (li_instrs s ! p)"
proof -
  from assms obtain n where "n < length (rev q)" "sel_instr s P (rev q ! n)" "p = rev q ! n" by (auto simp: find_last_def find_Some_iff)
  then show "p \<in> set q" "P (li_instrs s ! p)" by (metis nth_mem set_rev, simp add: sel_instr_def)
qed

lemma find_last_None: "find_last s P q = None \<Longrightarrow> k \<in> set q \<Longrightarrow> k < length (li_instrs s) \<Longrightarrow> \<not> P (li_instrs s ! k)"
  by (auto simp: find_last_def find_None_iff sel_instr_def)

lemma find_last_max:
  assumes "sorted_wrt (<) q" and "\<forall>k\<in>set q. k < length (li_instrs s)" and "find_last s P q = Some p" and "x \<in> set q" "P (li_instrs s ! x)"
  shows "x \<le> p"
  using assms
proof (induction q rule: rev_induct)
  case (snoc y q)
  show ?case
  proof (cases "P (li_instrs s ! y)")
    case True
    with snoc have "p = y" by (simp add: find_last_def sel_instr_def)
    with snoc show ?thesis by (auto simp: sorted_wrt_append)
  next
    case False
    with snoc have "find_last s P q = Some p" "x \<in> set q" by (auto simp: find_last_def sel_instr_def)
    with snoc show ?thesis by (auto simp: sorted_wrt_append)
  qed
qed simp

text \<open>The search over the queues, for a test that only producers of \<open>r\<close> pass.\<close>

definition find_parent :: "(instr \<Rightarrow> bool) \<Rightarrow> llvm_interface \<Rightarrow> nat option" where
  "find_parent P s = or_else (find_last s P (butlast (li_reservation s))) (or_else (find_last s P (li_computeQueue s)) (find_last s P (li_readQueue s)))"

lemma find_parent_producer:
  assumes wf: "wf_program bbs" and sch: "scheduling bbs c s" and P: "\<And>k. k \<in> live s \<Longrightarrow> P (li_instrs s ! k) \<longleftrightarrow> in_ReturnRegister (li_instrs s ! k) = Some r"
  shows "find_parent P s = None \<Longrightarrow> older (li_instrs s) (live s) c r = {}"
    and "find_parent P s = Some p \<Longrightarrow> p \<in> older (li_instrs s) (live s) c r \<and> (\<forall>q\<in>older (li_instrs s) (live s) c r. q \<le> p)"
proof -
  note S = schedulingD [OF sch]
  note D = dep_invD [OF S(1)]
  let ?R = "butlast (li_reservation s)" and ?I = "li_instrs s"
  have R: "set ?R = set (li_reservation s) - {c}" "sorted_wrt (<) ?R"
    using butlast_max [OF graph_okD(3) [OF D(3)] S(2)] S(4) by (auto simp: live_def)
  have len: "k < length ?I" if "k \<in> live s" for k using D(10) that .
  have qs: "set ?R \<subseteq> live s" "set (li_computeQueue s) \<subseteq> live s" "set (li_readQueue s) \<subseteq> live s"
    using R(1) by (auto simp: live_def flight_def)
  have store: "in_ReturnRegister (?I ! k) = None" if "k \<in> set (li_writeQueue s)" for k
    using that by (intro node_okD(8) [OF wf D(5) D(8)]) (auto simp: live_def flight_def)
  have mem: "q \<in> set ?R \<or> q \<in> set (li_computeQueue s) \<or> q \<in> set (li_readQueue s)" if "q \<in> older ?I (live s) c r" for q
    using that store [of q] R(1) by (auto simp: older_def live_def flight_def)
  have ne: "k < c" if "k \<in> set ?R \<or> k \<in> set (flight s)" for k
    using that S(2) S(4) [of k] D(2) R(1) by (auto simp: live_def order_le_less)
  have fr: "older ?I (live s) x r = {}" if "x \<in> set (flight s)" "in_ReturnRegister (?I ! x) = Some r" for x
  proof -
    from that(1) D(2) have "x \<in> live s - set (li_reservation s)" by (auto simp: live_def)
    with D(4) that(2) show ?thesis by (simp add: raw_ok_def)
  qed
  have fl: "q = p" if "q \<in> older ?I (live s) c r" "q \<in> set (flight s)" "p \<in> set (flight s)" "in_ReturnRegister (?I ! p) = Some r" for p q
  proof (rule ccontr)
    assume "q \<noteq> p"
    then consider "q < p" | "p < q" by linarith
    then show False
    proof cases
      case 1
      then have "q \<in> older ?I (live s) p r" using that(1) by (simp add: older_def)
      with fr [OF that(3,4)] show ?thesis by blast
    next
      case 2
      then have "p \<in> older ?I (live s) q r" using that by (simp add: older_def live_def)
      with fr [OF that(2)] that(1) show ?thesis by (auto simp: older_def)
    qed
  qed
  show "older ?I (live s) c r = {}" if n: "find_parent P s = None"
  proof -
    from n have n': "find_last s P ?R = None" "find_last s P (li_computeQueue s) = None" "find_last s P (li_readQueue s) = None"
      by (auto simp: find_parent_def or_else_def split: option.splits)
    have "q \<notin> older ?I (live s) c r" for q
      using mem [of q] find_last_None [OF n'(1)] find_last_None [OF n'(2)] find_last_None [OF n'(3)] P [of q] len [of q] by (auto simp: older_def)
    then show ?thesis by blast
  qed
  show "p \<in> older ?I (live s) c r \<and> (\<forall>q\<in>older ?I (live s) c r. q \<le> p)" if f: "find_parent P s = Some p"
  proof (cases "find_last s P ?R")
    case (Some p')
    with f have fp: "find_last s P ?R = Some p" by (simp add: find_parent_def or_else_def)
    note p = find_last_Some [OF fp]
    have po: "p \<in> older ?I (live s) c r" using p P [of p] qs(1) ne by (auto simp: older_def)
    moreover have "q \<le> p" if q: "q \<in> older ?I (live s) c r" for q
    proof (cases "q \<in> set ?R")
      case True
      show ?thesis by (rule find_last_max [OF R(2) _ fp True]) (use q P [of q] qs(1) len in \<open>auto simp: older_def\<close>)
    next
      case False
      with mem [OF q] have "q \<in> set (flight s)" by (auto simp: flight_def)
      with fr q have "p \<notin> older ?I (live s) q r" by (simp add: older_def)
      with po show ?thesis by (simp add: older_def)
    qed
    ultimately show ?thesis by blast
  next
    case None
    with f have "find_last s P (li_computeQueue s) = Some p \<or> find_last s P (li_readQueue s) = Some p"
      by (auto simp: find_parent_def or_else_def split: option.splits)
    then have p: "p \<in> set (flight s)" "P (?I ! p)" "p \<in> live s"
      using find_last_Some [of s P] by (auto simp: flight_def live_def)
    have pr: "in_ReturnRegister (?I ! p) = Some r" using P [OF p(3)] p(2) by simp
    have "q = p" if q: "q \<in> older ?I (live s) c r" for q
    proof (rule fl [OF q _ p(1) pr])
      have "q \<notin> set ?R" using find_last_None [OF None, of q] q P [of q] len [of q] by (auto simp: older_def)
      with mem [OF q] show "q \<in> set (flight s)" by (auto simp: flight_def)
    qed
    with p pr ne show ?thesis by (auto simp: older_def)
  qed
qed

section \<open>Scheduling\<close>

abbreviation known :: "nat \<Rightarrow> nat \<Rightarrow> llvm_interface \<Rightarrow> bool" where
  "known c r s \<equiv> need_ok (li_instrs s) (live s) c r"

text \<open>A step of scheduling keeps what is known of the needs of \<open>c\<close>.\<close>

definition sched_step :: "(string \<times> instr list) list \<Rightarrow> nat \<Rightarrow> llvm_interface \<Rightarrow> llvm_interface \<Rightarrow> bool" where
  "sched_step bbs c s s' \<longleftrightarrow> scheduling bbs c s' \<and> (\<forall>r. known c r s \<longrightarrow> known c r s') \<and> live s' = live s \<and> skel (li_instrs s' ! c) = skel (li_instrs s ! c)"

lemma sched_step_refl: "scheduling bbs c s \<Longrightarrow> sched_step bbs c s s"
  by (simp add: sched_step_def)

lemma sched_step_trans: "sched_step bbs c s s' \<Longrightarrow> sched_step bbs c s' s'' \<Longrightarrow> sched_step bbs c s s''"
  unfolding sched_step_def by metis

lemma sched_step_graph:
  assumes sch: "scheduling bbs c s" and q: "same_queues s s'" and g: "same_graph (set (li_reservation s)) (set (li_reservation s) - {c}) (li_instrs s) (li_instrs s')"
  shows "sched_step bbs c s s'"
proof -
  note S = schedulingD [OF sch]
  from q have l: "live s' = live s" "li_reservation s' = li_reservation s" by (simp_all add: same_queues_live)
  have v: "same_view (li_instrs s) (li_instrs s')" using g by (simp add: same_graph_def)
  have "known c r s' = known c r s" for r unfolding l by (rule need_ok_view [OF v dep_invD(10) [OF S(1)]])
  moreover have "scheduling bbs c s'" using same_graph_inv [OF S(1) q g] sch by (simp add: scheduling_def l)
  moreover have "skel (li_instrs s' ! c) = skel (li_instrs s ! c)" using g S(5) by (simp add: same_graph_def same_node_def)
  ultimately show ?thesis by (simp add: sched_step_def l)
qed

lemma link_step:
  assumes wf: "wf_program bbs" and sch: "scheduling bbs c s" and p: "p \<in> live s" "p < c" "\<not> in_Terminator (li_instrs s ! p)" and l: "link p c s = Inr s'"
  shows "sched_step bbs c s s'"
    and "p \<in> older (li_instrs s) (live s) c r \<Longrightarrow> \<forall>q\<in>older (li_instrs s) (live s) c r. q \<le> p \<Longrightarrow> known c r s'"
proof -
  note S = schedulingD [OF sch]
  note D = dep_invD [OF S(1)]
  have pc: "p \<noteq> c" using p(2) by simp
  note L = link_instrs [OF l pc]
  note n = linked_nth [OF L(2,1) pc]
  have q: "same_queues s s'" by (rule same_queuesI [OF link_core [OF l]])
  have lv: "live s' = live s" "flight s' = flight s" "li_reservation s' = li_reservation s" using same_queues_live [OF q] by simp_all
  have rest: "skel (li_instrs s' ! k) = skel (li_instrs s ! k)" "in_Terminator (li_instrs s' ! k) = in_Terminator (li_instrs s ! k)"
    "in_CurrCycle (li_instrs s' ! k) = in_CurrCycle (li_instrs s ! k)" "length (in_Ops (li_instrs s' ! k)) = length (in_Ops (li_instrs s ! k))"
    "in_Dependencies (li_instrs s' ! k) = in_Dependencies (li_instrs s ! k)" "k \<noteq> p \<Longrightarrow> in_Children (li_instrs s' ! k) = in_Children (li_instrs s ! k)"
    "in_ReturnRegister (li_instrs s' ! k) = in_ReturnRegister (li_instrs s ! k)" "in_OpCode (li_instrs s' ! k) = in_OpCode (li_instrs s ! k)" for k
    unfolding L(3) n by (simp_all add: registerChild_def registerParent_def skel_def static_def)
  have "dep_inv bbs (set (li_reservation s') - {c}) s'"
    unfolding dep_inv_def
  proof (intro conjI ballI)
    show "li_bbList s' = bbs" using D(1) q by (simp add: same_queues_def)
    show "distinct (li_reservation s' @ flight s')" using D(2) by (simp add: lv)
    show "graph_ok (li_instrs s') (li_reservation s') (live s')" unfolding lv L(3) by (rule graph_link [OF D(3) S(2) p(1,2)])
    show "raw_ok (li_instrs s') (set (li_reservation s') - {c}) (li_reservation s') (live s')" unfolding lv L(3) by (rule raw_link [OF D(4) L(2,1) pc])
    show "node_ok bbs (li_instrs s' ! k)" if "k \<in> live s'" for k using D(5) [of k] that p(3) rest [of k] by (cases "k = p") (auto simp: node_ok_def lv)
    show "in_ReturnRegister (li_instrs s' ! k) \<noteq> None" if "k \<in> set (li_computeQueue s')" for k using D(6) [of k] that q rest by (simp add: same_queues_def)
    show "in_OpCode (li_instrs s' ! k) = ''load''" if "k \<in> set (li_readQueue s')" for k using D(7) [of k] that q rest by (simp add: same_queues_def)
    show "in_OpCode (li_instrs s' ! k) = ''store''" if "k \<in> set (li_writeQueue s')" for k using D(8) [of k] that q rest by (simp add: same_queues_def)
    show "in_CurrCycle (li_instrs s' ! k) = 0" if "k \<in> set (li_reservation s')" for k using D(9) [of k] that rest by (simp add: lv)
  qed
  moreover have "known c r s \<Longrightarrow> known c r s'" for r unfolding lv L(3) by (rule need_link [OF _ L(2,1) pc])
  ultimately show "sched_step bbs c s s'" using sch rest(1) [of c] by (simp add: sched_step_def scheduling_def lv)
  show "p \<in> older (li_instrs s) (live s) c r \<Longrightarrow> \<forall>q\<in>older (li_instrs s) (live s) c r. q \<le> p \<Longrightarrow> known c r s'"
    unfolding lv L(3) by (rule need_linked [OF L(2,1) pc])
qed

text \<open>Linking to the producer that the search finds, or knowing that there is none.\<close>

lemma link_parent_step:
  assumes wf: "wf_program bbs" and sch: "scheduling bbs c s" and P: "\<And>k. k \<in> live s \<Longrightarrow> P (li_instrs s ! k) \<longleftrightarrow> in_ReturnRegister (li_instrs s ! k) = Some r"
    and f: "find_parent P s = Some p" and l: "link p c s = Inr s'"
  shows "sched_step bbs c s s' \<and> known c r s'"
proof -
  from find_parent_producer(2) [OF wf sch P f] have o: "p \<in> older (li_instrs s) (live s) c r" "\<forall>q\<in>older (li_instrs s) (live s) c r. q \<le> p" by blast+
  then have p: "p \<in> live s" "p < c" "in_ReturnRegister (li_instrs s ! p) = Some r" by (simp_all add: older_def)
  have "\<not> in_Terminator (li_instrs s ! p)" using node_okD(2) [OF wf dep_invD(5) [OF schedulingD(1) [OF sch] p(1)]] p(3) by auto
  from link_step [OF wf sch p(1,2) this l] o show ?thesis by blast
qed

lemma no_parent_known:
  assumes "wf_program bbs" and "scheduling bbs c s" and "\<And>k. k \<in> live s \<Longrightarrow> P (li_instrs s ! k) \<longleftrightarrow> in_ReturnRegister (li_instrs s ! k) = Some r" and "find_parent P s = None"
  shows "known c r s"
  using find_parent_producer(1) [OF assms(1,2,3)] assms(4) by (simp add: need_ok_def)

lemma findParent_reg_find: "findParent_reg r s = find_parent (\<lambda>i. in_ReturnRegister i = Some r) s"
  by (simp add: findParent_reg_def find_parent_def Let_def)

lemma findParent_line_find: "findParent_line l s = find_parent (\<lambda>i. in_LLVMLine i = l) s"
  by (simp add: findParent_line_def find_parent_def Let_def)

lemma link_deps_step:
  assumes wf: "wf_program bbs"
  shows "link_deps c j ds s = Inr s' \<Longrightarrow> scheduling bbs c s \<Longrightarrow> sched_step bbs c s s' \<and> (\<forall>r. Some r \<in> set ds \<longrightarrow> known c r s')"
proof (induction c j ds s rule: link_deps.induct)
  case (1 c j s)
  then show ?case by (simp add: sched_step_refl)
next
  case (2 c j ds s)
  then show ?case by simp
next
  case (3 c j r ds s)
  from 3(2) obtain s1 where s1: "(case findParent_reg r s of Some p \<Rightarrow> link p c s | None \<Rightarrow> fetchDependency_idx j c s) = Inr s1" "link_deps c (Suc j) ds s1 = Inr s'"
    by (auto simp: bind_res_eq_Inr_iff)
  have st: "sched_step bbs c s s1 \<and> known c r s1"
  proof (cases "findParent_reg r s")
    case (Some p)
    with s1 link_parent_step [OF wf 3(3) _ Some [unfolded findParent_reg_find]] show ?thesis by simp
  next
    case None
    then have k: "known c r s" by (intro no_parent_known [OF wf 3(3) _ None [unfolded findParent_reg_find]]) simp
    from None s1 have f: "fetchDependency_idx j c s = Inr s1" by simp
    then obtain v where "li_instrs s1 = (li_instrs s)[c := (li_instrs s ! c)\<lparr> in_Ops := (in_Ops (li_instrs s ! c))[j := v] \<rparr>]"
      by (auto simp: fetchDependency_idx_def bind_res_eq_Inr_iff li_instr_iff split: if_splits option.splits)
    then have "same_graph (set (li_reservation s)) (set (li_reservation s) - {c}) (li_instrs s) (li_instrs s1)"
      using schedulingD(5) [OF 3(3)] by (simp add: same_graph_set gview_def same_node_def skel_def static_def)
    from sched_step_graph [OF 3(3) same_queuesI [OF fetchDependency_idx_core [OF f]] this] k show ?thesis unfolding sched_step_def by blast
  qed
  then have "scheduling bbs c s1" by (simp add: sched_step_def)
  from 3(1) [OF s1(2) this] have t: "sched_step bbs c s1 s'" "\<forall>r. Some r \<in> set ds \<longrightarrow> known c r s'" by blast+
  from t(1) st have "known c r s'" unfolding sched_step_def by blast
  moreover have "sched_step bbs c s s'" using st t(1) by (blast intro: sched_step_trans)
  moreover note t(2)
  ultimately show ?case by auto
qed

lemma add_node_scheduling:
  assumes wf: "wf_program bbs" and d: "dep_inv bbs (set (li_reservation s)) s" and i: "i \<in> nodes bbs"
  shows "scheduling bbs (length (li_instrs s)) (add_node i s)" "li_instrs (add_node i s) ! length (li_instrs s) = i"
proof -
  note D = dep_invD [OF d]
  let ?c = "length (li_instrs s)" and ?t = "add_node i s"
  have w: "wf_node i" using wf i by (auto simp: wf_program_def)
  have f: "li_instrs ?t = li_instrs s @ [i]" "li_reservation ?t = li_reservation s @ [?c]" "flight ?t = flight s" "live ?t = insert ?c (live s)"
    "li_bbList ?t = li_bbList s" "li_computeQueue ?t = li_computeQueue s" "li_readQueue ?t = li_readQueue s" "li_writeQueue ?t = li_writeQueue s"
    by (auto simp: add_node_def flight_def live_def)
  have new: "?c \<notin> live s" using D(10) by blast
  have old: "(li_instrs s @ [i]) ! k = li_instrs s ! k" if "k \<in> live s" for k using D(10) [OF that] by (simp add: nth_append)
  have qs: "set (li_computeQueue s) \<subseteq> live s" "set (li_readQueue s) \<subseteq> live s" "set (li_writeQueue s) \<subseteq> live s" "set (li_reservation s) \<subseteq> live s"
    by (auto simp: live_def flight_def)
  have rs: "set (li_reservation ?t) - {?c} = set (li_reservation s)" using new qs(4) by (auto simp: f)
  have "dep_inv bbs (set (li_reservation ?t) - {?c}) ?t"
    unfolding rs unfolding dep_inv_def f
  proof (intro conjI ballI)
    show "li_bbList s = bbs" by (rule D(1))
    show "distinct ((li_reservation s @ [?c]) @ flight s)" using D(2) new by (auto simp: live_def)
    show "graph_ok (li_instrs s @ [i]) (li_reservation s @ [?c]) (insert ?c (live s))" by (rule graph_add [OF D(3)]) (use w in \<open>simp_all add: wf_node_def\<close>)
    show "raw_ok (li_instrs s @ [i]) (set (li_reservation s)) (li_reservation s @ [?c]) (insert ?c (live s))" by (rule raw_add [OF D(4) D(10) qs(4)])
    show "node_ok bbs ((li_instrs s @ [i]) ! k)" if "k \<in> insert ?c (live s)" for k
      using that D(5) [of k] old [of k] i w by (auto simp: node_ok_def wf_node_def)
    show "in_ReturnRegister ((li_instrs s @ [i]) ! k) \<noteq> None" if "k \<in> set (li_computeQueue s)" for k using D(6) [OF that] old [of k] qs that by auto
    show "in_OpCode ((li_instrs s @ [i]) ! k) = ''load''" if "k \<in> set (li_readQueue s)" for k using D(7) [OF that] old [of k] qs that by auto
    show "in_OpCode ((li_instrs s @ [i]) ! k) = ''store''" if "k \<in> set (li_writeQueue s)" for k using D(8) [OF that] old [of k] qs that by auto
    show "in_CurrCycle ((li_instrs s @ [i]) ! k) = 0" if "k \<in> set (li_reservation s @ [?c])" for k using D(9) [of k] old [of k] qs that w by (auto simp: wf_node_def)
  qed
  then show "scheduling bbs ?c ?t" using D(10) by (auto simp: scheduling_def f order_less_imp_le)
  show "li_instrs ?t ! ?c = i" by (simp add: f)
qed

lemma link_base_step:
  assumes wf: "wf_program bbs" and sch: "scheduling bbs c s" and l: "link_base c s = Inr s'"
  shows "sched_step bbs c s s' \<and> (\<forall>r. base_reg (li_instrs s ! c) = Some r \<longrightarrow> known c r s')"
proof (cases "in_OpCode (li_instrs s ! c) = ''getelementptr''")
  case False
  with l have "s' = s" by (auto simp: link_base_def bind_res_eq_Inr_iff li_instr_iff)
  with sch False show ?thesis by (simp add: sched_step_refl base_reg_def)
next
  case True
  have i: "li_instr s c = Inr (li_instrs s ! c)" using schedulingD(5) [OF sch] by (simp add: li_instr_iff)
  from l True i obtain g where g: "in_class (li_instrs s ! c) = GetElementPtr g" by (cases "in_class (li_instrs s ! c)") (simp_all add: link_base_def)
  have b: "base_reg (li_instrs s ! c) = Some (ga_PtrVal g)" by (simp add: base_reg_def True g)
  show ?thesis
  proof (cases "findParent_reg (ga_PtrVal g) s")
    case (Some p)
    with l True i g have "link p c s = Inr s'" by (simp add: link_base_def)
    from link_parent_step [OF wf sch _ Some [unfolded findParent_reg_find] this, of "ga_PtrVal g"] b show ?thesis by simp
  next
    case None
    have k: "known c (ga_PtrVal g) s" by (rule no_parent_known [OF wf sch _ None [unfolded findParent_reg_find]]) simp
    from None l True i g obtain v where s': "s' = li_set c ((li_instrs s ! c)\<lparr> in_ActivePtr := v \<rparr>) s" by (auto simp: link_base_def bind_res_eq_Inr_iff)
    have "same_graph (set (li_reservation s)) (set (li_reservation s) - {c}) (li_instrs s) (li_instrs s')"
      unfolding s' using schedulingD(5) [OF sch] by (simp add: same_graph_set gview_def same_node_def skel_def static_def)
    from sched_step_graph [OF sch same_queuesI this] k b show ?thesis unfolding sched_step_def by (auto simp: s')
  qed
qed

lemma detectRAW_step:
  assumes wf: "wf_program bbs" and sch: "scheduling bbs c s" and l: "link_opt (detectRAW r s) c s = Inr s'"
  shows "sched_step bbs c s s'"
proof (cases "detectRAW r s")
  case None
  with l sch show ?thesis by (simp add: link_opt_def sched_step_refl)
next
  case (Some p)
  note S = schedulingD [OF sch]
  note D = dep_invD [OF S(1)]
  have R: "set (butlast (li_reservation s)) = set (li_reservation s) - {c}"
    using butlast_max [OF graph_okD(3) [OF D(3)] S(2)] S(4) by (auto simp: live_def)
  consider "p \<in> set (li_reservation s) - {c}" "in_OpCode (li_instrs s ! p) = ''store''" | "p \<in> set (li_writeQueue s)"
  proof (cases "find_last s (\<lambda>i. in_OpCode i = ''store'' \<and> in_RawCheck i = r) (butlast (li_reservation s))")
    case None
    with Some have "find_last s (\<lambda>i. in_RawCheck i = r) (li_writeQueue s) = Some p" by (simp add: detectRAW_def or_else_def)
    from find_last_Some(1) [OF this] that show ?thesis by blast
  next
    case (Some p')
    with \<open>detectRAW r s = Some p\<close> have "find_last s (\<lambda>i. in_OpCode i = ''store'' \<and> in_RawCheck i = r) (butlast (li_reservation s)) = Some p" by (simp add: detectRAW_def or_else_def)
    from find_last_Some [OF this] R that show ?thesis by blast
  qed
  then have p: "p \<in> live s" "p \<noteq> c" "in_OpCode (li_instrs s ! p) = ''store''"
    using D(2) D(8) [of p] S(2) by (cases; auto simp: live_def flight_def)+
  have "\<not> in_Terminator (li_instrs s ! p)" using node_okD(3) [OF wf D(5) [OF p(1)]] p(3) by blast
  moreover have "p < c" using S(4) [OF p(1)] p(2) by simp
  ultimately show ?thesis using link_step(1) [OF wf sch p(1)] l Some by (simp add: link_opt_def)
qed

lemma runtimeDependencies_operands:
  assumes "runtimeDependencies prev i = Inr (ds, i')"
  shows "i' = i \<or> (\<exists>b. i' = i\<lparr> in_PrevBB := b \<rparr>)" "ds = operands i'"
proof -
  have "(\<exists>v r l. in_class i = Phi v r l) \<or> runtimeDependencies prev i = Inr (in_Dependencies i, i) \<and> operands i = in_Dependencies i"
    by (cases "in_class i") (simp_all add: runtimeDependencies_def operands_def)
  then have "(i' = i \<or> (\<exists>b. i' = i\<lparr> in_PrevBB := b \<rparr>)) \<and> ds = operands i'"
  proof (elim disjE exE)
    fix v r l assume "in_class i = Phi v r l"
    with assms show ?thesis by (auto simp: runtimeDependencies_def operands_def split: if_splits)
  qed (use assms in auto)
  then show "i' = i \<or> (\<exists>b. i' = i\<lparr> in_PrevBB := b \<rparr>)" "ds = operands i'" by blast+
qed

lemma link_prev: "link p c s = Inr s' \<Longrightarrow> in_PrevBB (li_instrs s' ! k) = in_PrevBB (li_instrs s ! k)"
  by (auto simp: link_def bind_res_eq_Inr_iff Let_def li_instr_iff nth_list_update registerParent_def registerChild_def)

lemma fetchDependency_idx_prev: "fetchDependency_idx j c s = Inr s' \<Longrightarrow> in_PrevBB (li_instrs s' ! k) = in_PrevBB (li_instrs s ! k)"
  by (auto simp: fetchDependency_idx_def bind_res_eq_Inr_iff li_instr_iff nth_list_update split: if_splits option.splits)

lemma link_deps_prev: "link_deps c j ds s = Inr s' \<Longrightarrow> in_PrevBB (li_instrs s' ! k) = in_PrevBB (li_instrs s ! k)"
proof (induction c j ds s rule: link_deps.induct)
  case (3 c j r ds s)
  then obtain s1 where s1: "(case findParent_reg r s of Some p \<Rightarrow> link p c s | None \<Rightarrow> fetchDependency_idx j c s) = Inr s1" "link_deps c (Suc j) ds s1 = Inr s'"
    by (auto simp: bind_res_eq_Inr_iff)
  with 3(1) link_prev fetchDependency_idx_prev show ?case by (cases "findParent_reg r s") auto
qed simp_all

lemma schedule_node_inv:
  assumes wf: "wf_program bbs" and i: "i \<in> nodes bbs" and d: "dep_inv bbs (set (li_reservation s)) s" and sc: "schedule_node prev i s = Inr s'"
  shows "dep_inv bbs (set (li_reservation s')) s'"
proof -
  define c where "c = length (li_instrs s)"
  define s1 where "s1 = add_node i s"
  have sch1: "scheduling bbs c s1" and ic: "li_instrs s1 ! c = i" using add_node_scheduling [OF wf d i] by (simp_all add: c_def s1_def)
  from sc obtain s2 s3 s4 i4 ds i5 where l2: "(if in_ReturnRegister i \<noteq> None then link_opt (findParent_line (in_LLVMLine i) s1) c s1 else Inr s1) = Inr s2"
    and l3: "(if in_OpCode i = ''load'' then link_opt (detectRAW (in_RawCheck i) s2) c s2 else Inr s2) = Inr s3" and l4: "link_base c s3 = Inr s4"
    and i4: "li_instr s4 c = Inr i4" and rd: "runtimeDependencies prev i4 = Inr (ds, i5)" and l5: "link_deps c 0 ds (li_set c i5 s4) = Inr s'"
    unfolding schedule_node_def Let_def bind_res_eq_Inr_iff split_paired_Ex prod.case s1_def [symmetric] c_def [symmetric] by (elim exE conjE) (rule that)
  have st2: "sched_step bbs c s1 s2 \<and> (\<forall>r. in_ReturnRegister i = Some r \<longrightarrow> known c r s2)"
  proof (cases "in_ReturnRegister i")
    case None
    with l2 sch1 show ?thesis by (simp add: sched_step_refl)
  next
    case (Some r)
    have P: "in_LLVMLine (li_instrs s1 ! k) = in_LLVMLine i \<longleftrightarrow> in_ReturnRegister (li_instrs s1 ! k) = Some r" if "k \<in> live s1" for k
      using node_ok_line [OF wf dep_invD(5) [OF schedulingD(1,3) [OF sch1]] dep_invD(5) [OF schedulingD(1) [OF sch1] that]] Some by (simp add: ic)
    show ?thesis
    proof (cases "findParent_line (in_LLVMLine i) s1")
      case None
      with l2 Some have "s2 = s1" by (simp add: link_opt_def)
      with Some no_parent_known [OF wf sch1 P None [unfolded findParent_line_find]] sch1 show ?thesis by (simp add: sched_step_refl)
    next
      case f: (Some p)
      with l2 Some have "link p c s1 = Inr s2" by (simp add: link_opt_def)
      from link_parent_step [OF wf sch1 P f [unfolded findParent_line_find] this] Some show ?thesis by simp
    qed
  qed
  then have sch2: "scheduling bbs c s2" by (simp add: sched_step_def)
  have st3: "sched_step bbs c s2 s3" using l3 detectRAW_step [OF wf sch2] sch2 by (auto simp: sched_step_refl split: if_splits)
  then have sch3: "scheduling bbs c s3" by (simp add: sched_step_def)
  from link_base_step [OF wf sch3 l4] have st4: "sched_step bbs c s3 s4" and b4: "\<And>r. base_reg (li_instrs s3 ! c) = Some r \<Longrightarrow> known c r s4" by blast+
  then have sch4: "scheduling bbs c s4" by (simp add: sched_step_def)
  have i4c: "i4 = li_instrs s4 ! c" using i4 by (simp add: li_instr_iff)
  have i5: "i5 = i4 \<or> (\<exists>b. i5 = i4\<lparr> in_PrevBB := b \<rparr>)" and ds: "ds = operands i5" using runtimeDependencies_operands [OF rd] by blast+
  have "same_graph (set (li_reservation s4)) (set (li_reservation s4) - {c}) (li_instrs s4) (li_instrs (li_set c i5 s4))"
    using i5 schedulingD(5) [OF sch4] by (auto simp: i4c gview_def same_node_def skel_def static_def intro!: same_graph_set)
  then have st5: "sched_step bbs c s4 (li_set c i5 s4)" by (intro sched_step_graph [OF sch4 same_queuesI]) simp_all
  then have sch5: "scheduling bbs c (li_set c i5 s4)" by (simp add: sched_step_def)
  from link_deps_step [OF wf l5 sch5] have st6: "sched_step bbs c (li_set c i5 s4) s'" and k6: "\<And>r. Some r \<in> set ds \<Longrightarrow> known c r s'" by blast+
  have sch6: "scheduling bbs c s'" using st6 by (simp add: sched_step_def)
  note S = schedulingD [OF sch6]
  have sk: "skel (li_instrs s' ! c) = skel i" "skel (li_instrs s3 ! c) = skel i" "skel (li_instrs s' ! c) = skel i5"
    using st2 st3 st4 st5 st6 ic schedulingD(5) [OF sch4] by (auto simp: sched_step_def li_set_def)
  have pv: "in_PrevBB (li_instrs s' ! c) = in_PrevBB i5" using link_deps_prev [OF l5, of c] schedulingD(5) [OF sch4] by simp
  have op: "operands (li_instrs s' ! c) = ds" unfolding ds operands_def skel_fields(5,7) [OF sk(3)] pv ..
  have br: "base_reg (li_instrs s' ! c) = base_reg (li_instrs s3 ! c)"
    unfolding base_reg_def skel_fields(1,5) [OF sk(1)] skel_fields(1,5) [OF sk(2)] ..
  have "known c r s'" if "Some r \<in> needs (li_instrs s' ! c)" for r
    using that k6 b4 st2 st3 st4 st5 st6 unfolding needs_def op br skel_fields(2) [OF sk(1)] sched_step_def by auto
  then have "raw_ok (li_instrs s') (set (li_reservation s')) (li_reservation s') (live s')"
    using dep_invD(4) [OF S(1)] unfolding raw_ok_def by blast
  then show ?thesis using S(1) by (simp add: dep_inv_def)
qed

lemma schedule_nodes_inv:
  assumes wf: "wf_program bbs"
  shows "schedule_nodes prev is s = Inr s' \<Longrightarrow> set is \<subseteq> nodes bbs \<Longrightarrow> dep_inv bbs (set (li_reservation s)) s \<Longrightarrow> dep_inv bbs (set (li_reservation s')) s'"
  by (induction prev "is" s rule: schedule_nodes.induct) (auto simp: bind_res_eq_Inr_iff intro: schedule_node_inv [OF wf])

lemma scheduleBB_inv:
  assumes wf: "wf_program bbs" and d: "dep_inv bbs (set (li_reservation s)) s" and sc: "scheduleBB bb s = Inr s'"
  shows "dep_inv bbs (set (li_reservation s')) s'"
proof -
  from sc obtain b where bb: "bb = Some b" and b: "b < length (li_bbList s)" by (auto simp: scheduleBB_def split: option.splits if_splits)
  have n: "set (snd (li_bbList s ! b)) \<subseteq> nodes bbs" using b dep_invD(1) [OF d] by (auto simp: nodes_def intro!: bexI [of _ "li_bbList s ! b"])
  show ?thesis
  proof (cases "snd (li_bbList s ! b)")
    case Nil
    with sc bb b d show ?thesis by (simp add: scheduleBB_def)
  next
    case (Cons x xs)
    with sc bb b obtain prev where "schedule_nodes prev (snd (li_bbList s ! b)) s = Inr s'"
      by (auto simp: scheduleBB_def simp del: schedule_nodes.simps split: option.splits if_splits)
    from schedule_nodes_inv [OF wf this n d] show ?thesis .
  qed
qed

section \<open>Runs\<close>

lemma launch_branch_inv:
  assumes wf: "wf_program bbs" and d: "dep_inv bbs (set (li_reservation s)) s" and n: "n < length (li_reservation s)" and k: "k = li_reservation s ! n"
    and i: "in_ActiveParents (li_instrs s ! k) = 0" "in_Terminator (li_instrs s ! k)" and l: "launch_branch u n k s = Inr s'"
  shows "dep_inv bbs (set (li_reservation s')) s'"
  using l
proof (rule launch_branch_cases)
  note R = reserved_facts [OF d n k]
  fix j s1 bb
  assume c: "li_compute u k ((count_fu j s)\<lparr> li_prevBB := li_currBB s \<rparr>) = Inr s1" and sb: "scheduleBB bb ((erase_reserved n s1)\<lparr> li_currBB := bb \<rparr>) = Inr s'"
  let ?t = "(erase_reserved n s1)\<lparr> li_currBB := bb \<rparr>"
  note f = core_req_fields [OF li_compute_core [OF c]]
  have q1: "same_queues s s1" using f by (simp add: same_queues_def)
  have g: "same_graph (set (li_reservation s)) (set (li_reservation s)) (li_instrs s) (li_instrs s1)" using li_compute_graph [OF c] by simp
  have d1: "dep_inv bbs (set (li_reservation s1)) s1" using same_graph_inv [OF d q1 g] q1 by (simp add: same_queues_def)
  have n1: "n < length (li_reservation s1)" "k = li_reservation s1 ! n" using n k q1 by (simp_all add: same_queues_def)
  note R1 = reserved_facts [OF d1 n1]
  have kl: "k < length (li_instrs s)" by (rule dep_invD(10) [OF d R(2)])
  have kf: "in_ActiveParents (li_instrs s1 ! k) = 0" "in_Children (li_instrs s1 ! k) = []"
    using g kl i same_viewD(1,2) [of "li_instrs s" "li_instrs s1" k] node_okD(5) [OF wf dep_invD(5) [OF d R(2)]] by (auto simp: same_graph_def)
  have "dep_inv bbs (set (li_reservation s1) - {k}) ?t"
  proof (rule retire_inv [OF d1 _ R1(2) R1(5) [OF kf(1)]])
    show "signalled (in_Children (li_instrs s1 ! k)) (li_instrs s1) (li_instrs s1)" by (simp add: kf signalled_refl)
    show "without k s1 ?t" using R1(3,4) by (auto simp: without_def flight_def filter_neq_id)
  qed (auto simp: live_def)
  then have "dep_inv bbs (set (li_reservation ?t)) ?t" using R1(4) by (simp add: set_diff_eq)
  from scheduleBB_inv [OF wf this sb] show ?thesis .
qed

lemma complete_inv:
  assumes wf: "wf_program bbs" and d: "dep_inv bbs (set (li_reservation s)) s" and n: "0 < length (li_reservation s)" and k: "k = li_reservation s ! 0"
    and i: "in_OpCode (li_instrs s ! k) = ''ret''" and q: "flight s = []"
  shows "dep_inv bbs (set (li_reservation (erase_reserved 0 s))) (erase_reserved 0 s)"
proof -
  note R = reserved_facts [OF d n k]
  note D = dep_invD [OF d]
  have ch: "in_Children (li_instrs s ! k) = []" using node_okD(1,5) [OF wf D(5) [OF R(2)]] i by blast
  have first: "k \<le> p" if "p \<in> live s" for p
    using that q n k graph_okD(3) [OF D(3)] by (cases "li_reservation s") (auto simp: live_def)
  have ub: "unblocked (li_instrs s) (live s) k"
  proof (rule unblocked_no_links [OF D(4) R(1)])
    show "\<forall>p\<in>live s. k \<notin> set (in_Children (li_instrs s ! p))" using graph_okD(6) [OF D(3)] first by (metis leD)
  qed
  have "dep_inv bbs (set (li_reservation s) - {k}) (erase_reserved 0 s)"
  proof (rule retire_inv [OF d _ R(2) ub])
    show "signalled (in_Children (li_instrs s ! k)) (li_instrs s) (li_instrs s)" by (simp add: ch signalled_refl)
    show "without k s (erase_reserved 0 s)" using R(3,4) q by (auto simp: without_def flight_def)
  qed (auto simp: live_def)
  then show ?thesis using R(4) by (simp add: set_diff_eq)
qed

lemma dep_inv_cong: "same_queues s s' \<Longrightarrow> li_instrs s' = li_instrs s \<Longrightarrow> dep_inv bbs C s \<Longrightarrow> dep_inv bbs C s'"
  by (erule same_graph_inv) simp_all

lemma limitedFU_same: "limitedFU z s = (b, s') \<Longrightarrow> same_queues s s' \<and> li_instrs s' = li_instrs s"
  by (auto simp: limitedFU_def Let_def same_queues_def split: if_splits)

lemma launch_step_inv:
  assumes wf: "wf_program bbs" and d: "dep_inv bbs (set (li_reservation s)) s" and n: "n < length (li_reservation s)" and l: "launch_step u n s = Inr (m, s')"
  shows "dep_inv bbs (set (li_reservation s')) s'"
proof -
  note R = reserved_facts [OF d n refl]
  have nr: "in_ReturnRegister (li_instrs s ! (li_reservation s ! n)) \<noteq> None"
    if "\<not> in_Terminator (li_instrs s ! (li_reservation s ! n))" "in_OpCode (li_instrs s ! (li_reservation s ! n)) \<noteq> ''store''" "in_MaxCycle (li_instrs s ! (li_reservation s ! n)) \<noteq> 0"
    using node_okD(9) [OF wf dep_invD(5) [OF d R(2)]] that by blast
  from l show ?thesis
  proof (cases rule: launch_step_cases)
    case (load i)
    then show ?thesis by (intro launch_load_inv [OF d n refl]) (simp_all add: li_instr_iff)
  next
    case (store i)
    then show ?thesis by (intro launch_store_inv [OF d n refl]) (simp_all add: li_instr_iff)
  next
    case (immediate i)
    then show ?thesis by (intro launch_immediate_inv [OF d n refl]) (simp_all add: li_instr_iff)
  next
    case (limited i s1 fd)
    let ?t = "s1\<lparr> li_fpDivision := fd \<rparr>"
    have t: "same_queues s ?t" "li_instrs ?t = li_instrs s" using limitedFU_same [OF limited(8)] by (simp_all add: same_queues_def)
    have dt: "dep_inv bbs (set (li_reservation ?t)) ?t" using dep_inv_cong [OF t d] t(1) by (simp add: same_queues_def)
    show ?thesis by (rule launch_compute_inv [OF dt _ _ _ _ _ limited(9)]) (use limited n nr t in \<open>simp_all add: li_instr_iff same_queues_def\<close>)
  next
    case (refused i)
    have t: "same_queues s s'" "li_instrs s' = li_instrs s" using limitedFU_same [OF refused(6)] by simp_all
    show ?thesis using dep_inv_cong [OF t d] t(1) by (simp add: same_queues_def)
  next
    case (unlimited i)
    then show ?thesis by (intro launch_compute_inv [OF d n refl]) (use nr in \<open>simp_all add: li_instr_iff\<close>)
  next
    case (branch i)
    then show ?thesis by (intro launch_branch_inv [OF wf d n refl]) (simp_all add: li_instr_iff)
  next
    case idle
    with d show ?thesis by simp
  next
    case (stuck i)
    with d show ?thesis by simp
  next
    case (complete i)
    then have "dep_inv bbs (set (li_reservation (erase_reserved 0 s))) (erase_reserved 0 s)"
      using n by (intro complete_inv [OF wf d _ refl]) (simp_all add: li_instr_iff flight_def)
    then have "dep_inv bbs (set (li_reservation (erase_reserved 0 s))) s'"
      by (rule dep_inv_cong [rotated 2]) (use complete in \<open>simp_all add: same_queues_def\<close>)
    then show ?thesis using complete by simp
  qed
qed

lemma tick_begin_same: "same_queues s (tick_begin s)" "li_instrs (tick_begin s) = li_instrs s"
  by (simp_all add: tick_begin_def clearFU_def maxFU_def Occupancy_def same_queues_def)

lemma tick_end_same: "same_queues s (tick_end now s)" "li_instrs (tick_end now s) = li_instrs s"
  by (simp_all add: tick_end_def occupancy_def bump_def Let_def same_queues_def)

lemma inv_same: "same_queues s s' \<Longrightarrow> li_instrs s' = li_instrs s \<Longrightarrow> dep_inv bbs (set (li_reservation s)) s \<Longrightarrow> dep_inv bbs (set (li_reservation s')) s'"
  using dep_inv_cong [of s s'] by (simp add: same_queues_def)

lemma tick_refill_inv:
  assumes wf: "wf_program bbs" and d: "dep_inv bbs (set (li_reservation s)) s" and t: "tick_refill s = Inr s'"
  shows "dep_inv bbs (set (li_reservation s')) s'"
proof -
  have d1: "dep_inv bbs (set (li_reservation (s\<lparr> li_scheduled := False \<rparr>))) (s\<lparr> li_scheduled := False \<rparr>)"
    by (rule inv_same [OF _ _ d]) (simp_all add: same_queues_def)
  from t have "s' = s\<lparr> li_scheduled := False \<rparr> \<or> scheduleBB (li_currBB s) (s\<lparr> li_scheduled := False \<rparr>) = Inr s'"
    by (auto simp: tick_refill_def Let_def split: if_splits)
  then show ?thesis using d1 scheduleBB_inv [OF wf d1] by auto
qed

lemma li_tick_inv:
  assumes wf: "wf_program bbs" and d: "dep_inv bbs (set (li_reservation s)) s" and t: "li_tick u now s = Some (Inr s')"
  shows "dep_inv bbs (set (li_reservation s')) s'"
  using t
proof (rule li_tick_cases)
  fix s1 s2 s3
  assume c: "commit_queue (tick_begin s) = Inr s1" "tick_refill s1 = Inr s2" "s3 = s2 \<or> launch_loop u 0 s2 = Some (Inr s3)" and s': "s' = tick_end now s3"
  have d2: "dep_inv bbs (set (li_reservation s2)) s2"
    by (rule tick_refill_inv [OF wf commit_queue_inv [OF c(1) inv_same [OF tick_begin_same d]] c(2)])
  have "dep_inv bbs (set (li_reservation s3)) s3"
    using c(3)
  proof
    assume "launch_loop u 0 s2 = Some (Inr s3)"
    then show ?thesis using d2 by (rule launch_loop_induct [where P = "\<lambda>s. dep_inv bbs (set (li_reservation s)) s"]) (rule launch_step_inv [OF wf])
  qed (use d2 in simp)
  then show ?thesis unfolding s' by (rule inv_same [OF tick_end_same])
qed

lemma li_run_inv:
  assumes wf: "wf_program bbs"
  shows "li_run u bbs s \<Longrightarrow> dep_inv bbs (set (li_reservation s)) s"
proof (induction rule: li_run.induct)
  case (start now rl ls th limits sd dd per s)
  then obtain s1 where s1: "li_start bbs rl (LLVMInterface ls th limits sd dd per) = Inr s1" "li_tick u now s1 = Some (Inr s)"
    by (auto simp: li_initialize_def split: sum.splits)
  from s1(1) have "li_reservation s1 = []" "flight s1 = []" "live s1 = {}" "li_instrs s1 = []" "li_bbList s1 = bbs"
    "li_computeQueue s1 = []" "li_readQueue s1 = []" "li_writeQueue s1 = []"
    by (auto elim!: li_start_cases simp: LLVMInterface_def initFU_def flight_def live_def)
  then have "dep_inv bbs (set (li_reservation s1)) s1" by (simp add: dep_inv_def graph_ok_def raw_ok_def)
  from li_tick_inv [OF wf this s1(2)] show ?case .
next
  case (tick s now s')
  have "dep_inv bbs (set (li_reservation (s\<lparr> li_tickEvent := None \<rparr>))) (s\<lparr> li_tickEvent := None \<rparr>)"
    by (rule inv_same [OF _ _ tick(4)]) (simp_all add: same_queues_def)
  from li_tick_inv [OF wf this tick(3)] show ?case .
next
  case (read s q buf s')
  from readCommit_inv [OF wf read(2,3)] show ?case .
next
  case (store s q s')
  from writeCommit_inv [OF wf store(2,3)] show ?case .
qed

end
