(* ===== verification/Runtime_Correct.thy ===== *)
theory Runtime_Correct
  imports Dataflow
begin

text \<open>
  What runs of the compute unit guarantee: limits of functional units, forwarding of results,
  order of dependent instructions, progress and termination of a cycle, and the index error of the
  commit loop; with a small program on which the statements are applied.
\<close>

section \<open>A small program\<close>

text \<open>
  A block that loads two \<open>i32\<close> words, doubles the first and returns, on a machine with one
  adder, for the evaluations below; its floating-point unit is not used.
\<close>

definition no_fpu :: fpu where
  "no_fpu = \<lparr> fp_dadd = (\<lambda>x y. 0), fp_dsub = (\<lambda>x y. 0), fp_dmul = (\<lambda>x y. 0), fp_ddiv = (\<lambda>x y. 0), fp_ftod = (\<lambda>x. 0), fp_dtof = (\<lambda>x. 0),
     fp_itod = (\<lambda>x. 0), fp_itof = (\<lambda>x. 0), fp_dtou = (\<lambda>x. 0), fp_ftou = (\<lambda>x. 0), fp_deq = (\<lambda>x y. False), fp_dlt = (\<lambda>x y. False), fp_dle = (\<lambda>x y. False) \<rparr>"

definition rt_instr :: "string \<Rightarrow> string \<Rightarrow> nat option \<Rightarrow> nat \<Rightarrow> nat option list \<Rightarrow> int \<Rightarrow> instr_class \<Rightarrow> instr" where
  "rt_instr line op ret cycles deps f c =
     \<lparr> in_LLVMLine = line, in_OpCode = op, in_ReturnType = ''i32'', in_ReturnRegister = ret, in_MaxCycle = cycles, in_Dependencies = deps,
       in_FunctionalUnit = f, in_Terminator = (op = ''ret'' \<or> op = ''br''), in_RawCheck = None, in_class = c, in_Parents = [], in_Children = [],
       in_ActiveParents = (if op = ''ret'' then 1 else 0), in_CurrCycle = 0, in_FinalResult = 0, in_Result = 0, in_Ops = map (\<lambda>_. 0) deps,
       in_PrevBB = [], in_Dest = [], in_Global = False, in_ActivePtr = 0, in_Req = None \<rparr>"

definition demo_program :: "(string \<times> instr list) list" where
  "demo_program = [(''0'',
     [rt_instr ''%2 = load %0'' ''load'' (Some 2) 0 [Some 0] (-1) (Load 0),
      rt_instr ''%3 = load %1'' ''load'' (Some 3) 0 [Some 1] (-1) (Load 1),
      rt_instr ''%4 = add %2, %2'' ''add'' (Some 4) 1 [Some 2, Some 2] 1 (Add \<lparr> ia_regs = 2, ia_imm = 0, ia_immFirst = False \<rparr>),
      rt_instr ''ret'' ''ret'' None 0 [] (-1) Ret])]"

definition demo_registers :: register_list where
  "demo_registers = RegisterList\<lparr> rl_RegList := [Register ''0'' 0x1000, Register ''1'' 0x2000, Register ''2'' 0, Register ''3'' 0, Register ''4'' 0] \<rparr>"

definition demo_unit :: llvm_interface where
  "demo_unit = LLVMInterface False 100 (\<lambda>f. if f = IntAdder then 1 else -1) (-1) (-1) 10"


lemmas demo_defs = demo_program_def demo_registers_def demo_unit_def rt_instr_def LLVMInterface_def li_start_def li_construct_def initFU_def findEntryBB_def unlimitedMode_def
  RegisterList_def Register_def
lemmas schedule_defs = tick_refill_def scheduleBB_def schedule_node_def add_node_def link_base_def link_opt_def link_def registerParent_def registerChild_def findParent_line_def findParent_reg_def
  detectRAW_def find_last_def sel_instr_def or_else_def li_instr_def li_set_def runtimeDependencies_def fetchDependency_idx_def reg_at_def
lemmas launch_defs = launch_step_def launch_instr_def launch_value_def launch_unit_def at_index_def launch_load_def launch_store_def launch_immediate_def launch_compute_def launch_branch_def
  li_compute_def Load_compute_def Store_compute_def set_reg_def op_at_def erase_reserved_def erase_at_def count_fu_def limitedFU_def fu_of_def commit_def signalChildren_def
lemmas tick_defs = li_tick_def tick_begin_def clearFU_def maxFU_def Occupancy_def resetAccess_def commit_queue_def tick_end_def occupancy_def bump_def

lemma setSize_i32: "setSize ''i32'' r = Inr (r\<lparr> reg_Data_Type := ''i32'', reg_Size := 4 \<rparr>)"
proof -
  have "stoi ''32'' = Inr 32" by code_simp
  then show ?thesis by (simp add: setSize_def BYTESIZE_def)
qed

lemmas retire_defs = readCommit_def retire_load_def retire_def setResult_def memcpy_low_def reg_setValue_def reg_commit_def reg_write_def reg_read_def reg_update_def
  fetchDependency_reg_def fetch_slots_def removeParents_def

lemma mask32: "mask 32 = (0xFFFFFFFF :: 64 word)"
  by (simp add: mask_eq_exp_minus_1)

lemma demo_wf: "wf_program demo_program"
  by (simp add: wf_program_def nodes_def demo_program_def rt_instr_def wf_node_def base_parents_def ssa_def)

lemma demo_start:
  "\<exists>s0. li_initialize no_fpu 0 demo_program demo_registers demo_unit = Some (Inr s0) \<and> li_reservation s0 = [2, 3] \<and> li_readQueue s0 = [0, 1] \<and> li_writeQueue s0 = []
    \<and> li_computeQueue s0 = [] \<and> li_tickEvent s0 = Some 10000 \<and> \<not> li_unlimitedFU s0 \<and> li_limits s0 IntAdder = 1 \<and> in_ActiveParents (li_instrs s0 ! 2) = 2
    \<and> in_Children (li_instrs s0 ! 0) = [2, 2] \<and> in_Children (li_instrs s0 ! 1) = []"
  by (simp add: li_initialize_def demo_defs schedule_defs launch_defs tick_defs setSize_i32 launch_loop.simps Let_def)

lemma demo_answers:
  "\<exists>s0 s1 s2. li_initialize no_fpu 0 demo_program demo_registers demo_unit = Some (Inr s0) \<and> readCommit 0 [5, 0, 0, 0] s0 = Inr s1 \<and> readCommit 1 [7, 0, 0, 0] s1 = Inr s2
    \<and> li_reservation s1 = [2, 3] \<and> li_readQueue s1 = [1] \<and> li_writeQueue s1 = [] \<and> li_computeQueue s1 = [] \<and> in_ActiveParents (li_instrs s1 ! 2) = 0 \<and> in_Ops (li_instrs s1 ! 2) = [5, 5]
    \<and> operands (li_instrs s1 ! 2) = [Some 2, Some 2] \<and> in_ReturnRegister (li_instrs s1 ! 2) = Some 4 \<and> in_ReturnRegister (li_instrs s1 ! 1) = Some 3
    \<and> li_reservation s2 = [2, 3] \<and> li_readQueue s2 = [] \<and> li_writeQueue s2 = [] \<and> li_computeQueue s2 = [] \<and> in_OpCode (li_instrs s2 ! 2) = ''add''"
  by (simp add: li_initialize_def demo_defs schedule_defs launch_defs tick_defs retire_defs setSize_i32 launch_loop.simps mask32 operands_def Let_def)

section \<open>Functional units\<close>



section \<open>What the invariant gives\<close>

text \<open>
  C7. In every state of a run, the number of active parents of a reserved instruction is the number of
  links that lead to it from instructions that have not committed, plus one for \<open>ret\<close>; every link
  leads from an older instruction to a younger one that is still reserved.
\<close>

theorem active_parents_exact:
  assumes "wf_program bbs" and "li_run u bbs s" and "c \<in> set (li_reservation s)"
  shows "in_ActiveParents (li_instrs s ! c) = (if in_OpCode (li_instrs s ! c) = ''ret'' then 1 else 0)
      + (\<Sum>p\<in>live s. int (count_list (in_Children (li_instrs s ! p)) c))
    \<and> (\<forall>p\<in>live s. \<forall>x\<in>set (in_Children (li_instrs s ! p)). p < x \<and> x \<in> set (li_reservation s))"
proof -
  note g = dep_invD(3) [OF li_run_inv [OF assms(1,2)]]
  from graph_okD(7) [OF g assms(3)] graph_okD(6) [OF g] show ?thesis by (simp add: base_parents_def links_def)
qed

theorem active_parents_exact_witness:
  "\<exists>s. li_run no_fpu demo_program s \<and> 2 \<in> set (li_reservation s) \<and> in_ActiveParents (li_instrs s ! 2) = 2
    \<and> in_ActiveParents (li_instrs s ! 2) = (if in_OpCode (li_instrs s ! 2) = ''ret'' then 1 else 0) + (\<Sum>p\<in>live s. int (count_list (in_Children (li_instrs s ! p)) 2))"
proof -
  from demo_start obtain s0 where i: "li_initialize no_fpu 0 demo_program demo_registers demo_unit = Some (Inr s0)" "li_reservation s0 = [2, 3]" "in_ActiveParents (li_instrs s0 ! 2) = 2" by blast
  have r: "li_run no_fpu demo_program s0" using i(1) unfolding demo_unit_def by (rule li_run.start)
  show ?thesis using active_parents_exact [OF demo_wf r, of 2] i r by (intro exI [of _ s0]) simp
qed

text \<open>Without active parents there is no older uncommitted instruction that returns to a register it needs.\<close>

lemma no_older_writer:
  assumes "wf_program bbs" and "li_run u bbs s" and "c \<in> set (li_reservation s)" and "in_ActiveParents (li_instrs s ! c) = 0"
    and "Some r \<in> needs (li_instrs s ! c)" and "p \<in> live s" and "p < c"
  shows "in_ReturnRegister (li_instrs s ! p) \<noteq> Some r"
proof
  assume pr: "in_ReturnRegister (li_instrs s ! p) = Some r"
  note d = dep_invD [OF li_run_inv [OF assms(1,2)]]
  have "need_ok (li_instrs s) (live s) c r" using d(4) assms(3,5) by (auto simp: raw_ok_def)
  moreover have "p \<in> older (li_instrs s) (live s) c r" using assms(6,7) pr by (simp add: older_def)
  ultimately obtain q where "q \<in> live s" "c \<in> set (in_Children (li_instrs s ! q))" by (auto simp: need_ok_def older_def)
  with unblocked_ready [OF d(3,4) assms(3,3,4)] show False by (auto simp: unblocked_def)
qed





section \<open>Forwarding\<close>

lemma reg_at_set: "reg_at rl r = Inr reg \<Longrightarrow> reg_at (set_reg r reg' rl) r = Inr reg'"
  by (auto simp: reg_at_def set_reg_def split: if_splits)

text \<open>What a child has received: register \<open>r\<close> holds \<open>v\<close>, and so do its operands that name \<open>r\<close>.\<close>

definition received :: "nat \<Rightarrow> int64 \<Rightarrow> nat \<Rightarrow> llvm_interface \<Rightarrow> bool" where
  "received r v c s \<longleftrightarrow> (in_ReturnRegister (li_instrs s ! c) \<noteq> Some r \<longrightarrow>
     (\<forall>j<length (in_Dependencies (li_instrs s ! c)). in_Dependencies (li_instrs s ! c) ! j = Some r \<longrightarrow> in_Ops (li_instrs s ! c) ! j = v))"

lemma fetch_slots_nth: "j < length deps \<Longrightarrow> length ops = length deps \<Longrightarrow> fetch_slots r v deps ops ! j = (if deps ! j = Some r then v else ops ! j)"
  by (simp add: fetch_slots_def)

lemma fetchDependency_reg_received:
  assumes f: "fetchDependency_reg r c s = Inr s'" and v: "reg_at (li_regList s) r = Inr reg" "reg_Value reg = v"
  shows "(\<exists>reg'. reg_at (li_regList s') r = Inr reg' \<and> reg_Value reg' = v) \<and> received r v c s' \<and> (\<forall>x. received r v x s \<longrightarrow> received r v x s')"
  using f
proof (cases rule: fetchDependency_reg_cases)
  case (fetch i reg1 reg')
  then have e: "i = li_instrs s ! c" "c < length (li_instrs s)" "reg_Value reg1 = v" using v by (simp_all add: li_instr_iff)
  have c: "received r v c s'" using fetch e by (simp add: received_def fetch_slots_nth)
  moreover have "received r v x s'" if "received r v x s" for x
    using that c fetch by (cases "x = c") (simp_all add: received_def)
  moreover have "reg_at (li_regList s') r = Inr reg'" unfolding fetch(6) using reg_at_set [OF v(1)] by simp
  ultimately show ?thesis using fetch(5) e(3) by blast
next
  case (own i)
  then show ?thesis using v by (auto simp: li_instr_iff received_def nth_list_update li_set_def)
qed

lemma signal_loop_received:
  assumes "signal_loop (fetchDependency_reg r) cs s = Inr s'" and "reg_at (li_regList s) r = Inr reg" and "reg_Value reg = v"
  shows "(\<exists>reg'. reg_at (li_regList s') r = Inr reg' \<and> reg_Value reg' = v) \<and> (\<forall>c\<in>set cs. received r v c s') \<and> (\<forall>x. received r v x s \<longrightarrow> received r v x s')"
  using assms
proof (induction cs arbitrary: s reg)
  case (Cons c cs)
  then obtain s1 where s1: "fetchDependency_reg r c s = Inr s1" "signal_loop (fetchDependency_reg r) cs s1 = Inr s'" by (auto simp: bind_res_eq_Inr_iff)
  from fetchDependency_reg_received [OF s1(1) Cons.prems(2,3)] obtain reg1 where r1: "reg_at (li_regList s1) r = Inr reg1" "reg_Value reg1 = v"
    and c1: "received r v c s1" "\<forall>x. received r v x s \<longrightarrow> received r v x s1" by blast
  from Cons.IH [OF s1(2) r1] c1 show ?case by auto
qed auto

text \<open>
  C18. An instruction that commits writes the low bytes of its result, as many as the register has, to
  its return register, and every operand of a child that names this register then holds the register's
  value, unless the child returns to the same register.
\<close>

theorem commit_forwards_result:
  assumes "commit k s = Inr (True, s')" and "in_ReturnRegister (li_instrs s ! k) = Some r" and "reg_at (li_regList s) r = Inr reg"
  shows "\<exists>v reg'. take_bit (8 * reg_Size reg) v = take_bit (8 * reg_Size reg) (in_FinalResult (li_instrs s ! k)) \<and> reg_at (li_regList s') r = Inr reg' \<and> reg_Value reg' = v
    \<and> (\<forall>c\<in>set (in_Children (li_instrs s ! k)). in_ReturnRegister (li_instrs s' ! c) \<noteq> Some r \<longrightarrow>
         (\<forall>j<length (in_Dependencies (li_instrs s' ! c)). in_Dependencies (li_instrs s' ! c) ! j = Some r \<longrightarrow> in_Ops (li_instrs s' ! c) ! j = v))"
  using assms(1)
proof (cases rule: commit_cases)
  case (finish i r1 reg1 reg2)
  have e: "i = li_instrs s ! k" "r1 = r" "reg1 = reg" using finish assms(2,3) by (simp_all add: li_instr_iff)
  from finish(6) e have w: "memcpy_low (reg_Size reg) (in_FinalResult (li_instrs s ! k)) (reg_Value reg) = Inr (reg_Value reg2)"
    by (auto simp: reg_setValue_def bind_res_eq_Inr_iff)
  let ?t = "s\<lparr> li_regList := set_reg r (reg_write (reg_commit reg2)) (li_regList s) \<rparr>"
  from finish(7) e have sc: "signalChildren k ?t = Inr s'" by simp
  have k: "li_instr ?t k = Inr (li_instrs s ! k)" using finish(1) e by (simp add: li_instr_def split: if_splits)
  from sc k assms(2) have l: "signal_loop (fetchDependency_reg r) (in_Children (li_instrs s ! k)) ?t = Inr s'" by (simp add: signalChildren_def)
  have "reg_at (li_regList ?t) r = Inr (reg_write (reg_commit reg2))" using reg_at_set [OF assms(3)] by simp
  from signal_loop_received [OF l this, of "reg_Value reg2"] memcpy_low_take [OF w order_refl] show ?thesis
    by (auto simp: received_def reg_write_def reg_commit_def)
next
  case (void i)
  then show ?thesis using assms(2) by (simp add: li_instr_iff)
qed simp

theorem commit_forwards_result_witness:
  "\<exists>s s'. commit 0 s = Inr (True, s') \<and> in_ReturnRegister (li_instrs s ! 0) = Some 0 \<and> in_Children (li_instrs s ! 0) = [1] \<and> in_FinalResult (li_instrs s ! 0) = 7
    \<and> (\<exists>v. take_bit 32 v = (7 :: int64) \<and> in_Ops (li_instrs s' ! 1) ! 0 = v)"
proof -
  define a where "a = (rt_instr ''a'' ''add'' (Some 0) 0 [] 1 BadInstruction)\<lparr> in_FinalResult := 7, in_Children := [1] \<rparr>"
  define b where "b = (rt_instr ''b'' ''add'' (Some 1) 0 [Some 0] 1 BadInstruction)\<lparr> in_ActiveParents := 1 \<rparr>"
  define rl where "rl = RegisterList\<lparr> rl_RegList := [(Register ''0'' 0)\<lparr> reg_Size := 4 \<rparr>, Register ''1'' 0] \<rparr>"
  define s where "s = demo_unit\<lparr> li_instrs := [a, b], li_regList := rl \<rparr>"
  have f: "in_ReturnRegister (li_instrs s ! 0) = Some 0" "in_Children (li_instrs s ! 0) = [1]" "in_FinalResult (li_instrs s ! 0) = 7" "reg_at (li_regList s) 0 = Inr ((Register ''0'' 0)\<lparr> reg_Size := 4 \<rparr>)"
    by (simp_all add: s_def a_def rl_def rt_instr_def reg_at_def)
  have "\<exists>s'. commit 0 s = Inr (True, s') \<and> in_ReturnRegister (li_instrs s' ! 1) = Some 1 \<and> in_Dependencies (li_instrs s' ! 1) = [Some 0]"
    by (simp add: s_def a_def b_def rl_def demo_defs commit_def signalChildren_def li_instr_def reg_at_def set_reg_def li_set_def retire_defs)
  then obtain s' where c: "commit 0 s = Inr (True, s')" "in_ReturnRegister (li_instrs s' ! 1) = Some 1" "in_Dependencies (li_instrs s' ! 1) = [Some 0]" by blast
  from commit_forwards_result [OF c(1) f(1,4)] f c have "\<exists>v. take_bit 32 v = (take_bit 32 7 :: int64) \<and> in_Ops (li_instrs s' ! 1) ! 0 = v"
    by (auto simp: Register_def)
  then show ?thesis using c(1) f by (intro exI [of _ s] exI [of _ s']) simp
qed

section \<open>The index of the commit loop\<close>

lemma commit_waiting:
  assumes "k < length (li_instrs s)" and "in_ReturnRegister (li_instrs s ! k) \<noteq> None" and "in_CurrCycle (li_instrs s ! k) < in_MaxCycle (li_instrs s ! k)"
  shows "commit k s = Inr (False, li_set k ((li_instrs s ! k)\<lparr> in_CurrCycle := in_CurrCycle (li_instrs s ! k) + 1 \<rparr>) s)"
  using assms by (auto simp: commit_def li_instr_def)

definition waiting :: "llvm_interface \<Rightarrow> nat \<Rightarrow> bool" where
  "waiting s k \<longleftrightarrow> k < length (li_instrs s) \<and> in_ReturnRegister (li_instrs s ! k) \<noteq> None \<and> in_CurrCycle (li_instrs s ! k) < in_MaxCycle (li_instrs s ! k)"

lemma commit_loop_out_of_bounds:
  assumes "distinct ks" and "n \<le> length (li_reservation s)" and "length (li_reservation s) - n < length ks" and "\<forall>k\<in>set (li_reservation s). k < length (li_instrs s)"
    and "\<forall>k\<in>set (take (length (li_reservation s) - n) ks). waiting s k"
  shows "commit_loop n ks s = Inl OutOfBounds"
  using assms
proof (induction ks arbitrary: n s)
  case (Cons k ks)
  show ?case
  proof (cases "n < length (li_reservation s)")
    case False
    then show ?thesis by simp
  next
    case True
    let ?m = "length (li_reservation s) - n"
    have m: "?m = Suc (length (li_reservation s) - Suc n)" using True by simp
    have w: "waiting s k" "\<forall>x\<in>set (take (length (li_reservation s) - Suc n) ks). waiting s x" using Cons.prems(5) unfolding m by auto
    obtain i where i: "li_instr s (li_reservation s ! n) = Inr i" using Cons.prems(4) True by (auto simp: li_instr_def)
    obtain b s1 where f: "(if li_unlimitedFU s then (True, updateFU (in_FunctionalUnit i) s) else limitedFU (in_FunctionalUnit i) s) = (b, s1)" by fastforce
    note fs = fu_step_same [OF f]
    define s2 where "s2 = (if b then li_set k ((li_instrs s1 ! k)\<lparr> in_CurrCycle := in_CurrCycle (li_instrs s1 ! k) + 1 \<rparr>) s1 else s1)"
    have c: "(if b then commit k s1 else Inr (False, s1)) = Inr (False, s2)"
      using commit_waiting [of k s1] w(1) by (simp add: s2_def waiting_def fs)
    have s2: "li_reservation s2 = li_reservation s" "length (li_instrs s2) = length (li_instrs s)" "\<And>x. x \<noteq> k \<Longrightarrow> li_instrs s2 ! x = li_instrs s ! x"
      using fs by (auto simp: s2_def same_queues_def li_set_def)
    have "commit_loop (Suc n) ks s2 = Inl OutOfBounds"
    proof (rule Cons.IH)
      show "\<forall>x\<in>set (take (length (li_reservation s2) - Suc n) ks). waiting s2 x"
      proof
        fix x assume x: "x \<in> set (take (length (li_reservation s2) - Suc n) ks)"
        then have "x \<noteq> k" using Cons.prems(1) by (auto dest: in_set_takeD)
        with x w(2) s2 show "waiting s2 x" by (simp add: waiting_def)
      qed
    qed (use Cons.prems True s2 in auto)
    then show ?thesis using True i f c by (simp add: Let_def)
  qed
qed simp

text \<open>
  C39. A cycle ends in an out-of-range access when more instructions are in flight than reserved and the
  first ones, as many as are reserved, have cycles left: the loop over the compute queue indexes the
  reservation table.
\<close>

theorem tick_index_out_of_range:
  assumes "distinct (li_computeQueue s)" and "length (li_reservation s) < length (li_computeQueue s)" and "\<forall>k\<in>set (li_reservation s). k < length (li_instrs s)"
    and "\<forall>k\<in>set (take (length (li_reservation s)) (li_computeQueue s)). waiting s k"
  shows "li_tick u now s = Some (Inl OutOfBounds)"
proof -
  note t = tick_begin_same [of s]
  have "commit_loop 0 (li_computeQueue (tick_begin s)) (tick_begin s) = Inl OutOfBounds"
    by (rule commit_loop_out_of_bounds) (use t assms in \<open>simp_all add: same_queues_def waiting_def\<close>)
  then show ?thesis by (simp add: li_tick_def commit_queue_def)
qed

text \<open>Two additions of two cycles each, with nothing behind them but \<open>ret\<close>, on a machine without limits.\<close>

definition overlap_program :: "(string \<times> instr list) list" where
  "overlap_program = [(''0'',
     [rt_instr ''%1 = add %0, 1'' ''add'' (Some 1) 2 [Some 0] 1 (Add \<lparr> ia_regs = 1, ia_imm = 1, ia_immFirst = False \<rparr>),
      rt_instr ''%2 = add %0, 2'' ''add'' (Some 2) 2 [Some 0] 1 (Add \<lparr> ia_regs = 1, ia_imm = 2, ia_immFirst = False \<rparr>),
      rt_instr ''ret'' ''ret'' None 0 [] (-1) Ret])]"

definition overlap_unit :: llvm_interface where
  "overlap_unit = LLVMInterface False 100 (\<lambda>f. -1) (-1) (-1) 10"

lemma overlap_start:
  "\<exists>s0. li_initialize no_fpu 0 overlap_program demo_registers overlap_unit = Some (Inr s0) \<and> li_reservation s0 = [2] \<and> li_computeQueue s0 = [0, 1]
    \<and> length (li_instrs s0) = 3 \<and> waiting s0 0 \<and> li_tickEvent s0 = Some 10000"
  by (simp add: li_initialize_def overlap_program_def overlap_unit_def demo_defs schedule_defs launch_defs tick_defs updateFU_def plain_def Add_compute_def int_binary_def narrow_ops_def conv_op_def pure2_def
      store_result_def setResult_def memcpy_low_def waiting_def launch_loop.simps Let_def)

theorem tick_index_out_of_range_witness:
  "\<exists>s. li_run no_fpu overlap_program s \<and> li_tickEvent s = Some 10000 \<and> li_tick no_fpu 10000 (s\<lparr> li_tickEvent := None \<rparr>) = Some (Inl OutOfBounds)"
proof -
  from overlap_start obtain s0 where i: "li_initialize no_fpu 0 overlap_program demo_registers overlap_unit = Some (Inr s0)" "li_reservation s0 = [2]" "li_computeQueue s0 = [0, 1]"
    "length (li_instrs s0) = 3" "waiting s0 0" "li_tickEvent s0 = Some 10000" by blast
  have r: "li_run no_fpu overlap_program s0" using i(1) unfolding overlap_unit_def by (rule li_run.start)
  have "li_tick no_fpu 10000 (s0\<lparr> li_tickEvent := None \<rparr>) = Some (Inl OutOfBounds)"
    by (rule tick_index_out_of_range) (use i in \<open>simp_all add: waiting_def\<close>)
  with r i(6) show ?thesis by blast
qed

end
