(* ===== verification/Runtime_Termination.thy ===== *)
theory Runtime_Termination
  imports Runtime_Correct
begin

text \<open>
  Termination of a cycle. The launch loop schedules the target of a branch at once and goes on with it,
  so that it ends only if the branches it can take do not form a cycle.
\<close>

section \<open>Targets of branches\<close>

definition targets :: "instr_class \<Rightarrow> string list" where
  "targets c = (case c of Br un cond bs d \<Rightarrow> d # bs | LLVMSwitch bs cs \<Rightarrow> bs | _ \<Rightarrow> [])"

definition is_branch :: "instr_class \<Rightarrow> bool" where
  "is_branch c = (case c of Br un cond bs d \<Rightarrow> True | LLVMSwitch bs cs \<Rightarrow> True | _ \<Rightarrow> False)"

definition jumps :: "instr \<Rightarrow> bool" where
  "jumps i \<longleftrightarrow> in_Terminator i \<and> in_OpCode i \<noteq> ''ret''"

text \<open>A rank of the branches, by their lines, that falls along the control flow.\<close>

definition falling :: "(string \<times> instr list) list \<Rightarrow> (string \<Rightarrow> nat) \<Rightarrow> bool" where
  "falling bbs rk \<longleftrightarrow> (\<forall>i\<in>nodes bbs. jumps i \<longrightarrow> is_branch (in_class i) \<and> (\<forall>l\<in>set (targets (in_class i)). \<forall>b. find_bb l 0 bbs = Some b \<longrightarrow>
     (\<forall>j\<in>set (snd (bbs ! b)). jumps j \<longrightarrow> rk (in_LLVMLine j) < rk (in_LLVMLine i))))"

lemma str_at_mem: "str_at k xs = Inr x \<Longrightarrow> x \<in> set xs"
  by (auto simp: str_at_def split: if_splits)

lemma switch_find_mem: "switch_find v k bs cs = Inr (Some b) \<Longrightarrow> b \<in> set bs"
  by (induction v k bs cs rule: switch_find.induct) (auto simp: bind_res_eq_Inr_iff split: if_splits)

lemma Br_compute_dest: "Br_compute un c bs d rl i = Inr i' \<Longrightarrow> in_Dest i' \<in> set (d # bs)"
  by (auto simp: Br_compute_def bind_res_eq_Inr_iff dest: str_at_mem split: if_splits)

lemma LLVMSwitch_compute_dest: "LLVMSwitch_compute bs cs i = Inr i' \<Longrightarrow> in_Dest i' \<in> set bs"
proof -
  assume a: "LLVMSwitch_compute bs cs i = Inr i'"
  then obtain v d where d: "switch_find v 1 (tl bs) cs = Inr d"
    and r: "(case d of Some b \<Rightarrow> Inr (i\<lparr> in_Dest := b \<rparr>) | None \<Rightarrow> bind_res (str_at 0 bs) (\<lambda>b. Inr (i\<lparr> in_Dest := b \<rparr>))) = Inr i'"
    unfolding LLVMSwitch_compute_def bind_res_eq_Inr_iff by blast
  show ?thesis
  proof (cases d)
    case None
    with r obtain b where "str_at 0 bs = Inr b" "i' = i\<lparr> in_Dest := b \<rparr>" by (auto simp: bind_res_eq_Inr_iff)
    with str_at_mem [of 0 bs b] show ?thesis by simp
  next
    case (Some b)
    with switch_find_mem [of v 1 "tl bs" cs b] d r show ?thesis by (cases bs) auto
  qed
qed

lemma compute_dest: "compute u rl c i = Inr (i', rl', e) \<Longrightarrow> is_branch c \<Longrightarrow> in_Dest i' \<in> set (targets c)"
  by (cases c) (simp_all add: is_branch_def targets_def plain_def bind_res_eq_Inr_iff, auto dest: Br_compute_dest LLVMSwitch_compute_dest)

lemma li_compute_dest:
  assumes "li_compute u k s = Inr s'" and "is_branch (in_class (li_instrs s ! k))"
  shows "in_Dest (li_instrs s' ! k) \<in> set (targets (in_class (li_instrs s ! k)))"
proof -
  from assms(1) obtain i' rl e where k: "k < length (li_instrs s)" and c: "compute u (li_regList s) (in_class (li_instrs s ! k)) (li_instrs s ! k) = Inr (i', rl, e)"
    and s': "s' = (if e = NoEffect then (li_set k i' s)\<lparr> li_regList := rl \<rparr>
            else (li_set k (i'\<lparr> in_Req := Some (li_nextReq s) \<rparr>) s)\<lparr> li_regList := rl, li_nextReq := li_nextReq s + 1,
                    li_requests := li_requests s @ [(li_nextReq s, e)] \<rparr>)"
    unfolding li_compute_def bind_res_eq_Inr_iff split_paired_Ex prod.case li_instr_iff by blast
  have "in_Dest (li_instrs s' ! k) = in_Dest i'" using k by (simp add: s')
  with compute_dest [OF c assms(2)] show ?thesis by simp
qed

section \<open>Weights\<close>

definition weight :: "(string \<times> instr list) list \<Rightarrow> (string \<Rightarrow> nat) \<Rightarrow> instr \<Rightarrow> nat" where
  "weight bbs rk i = (if jumps i then (length (concat (map snd bbs)) + 1) ^ Suc (rk (in_LLVMLine i)) else 1)"

definition total :: "(string \<times> instr list) list \<Rightarrow> (string \<Rightarrow> nat) \<Rightarrow> llvm_interface \<Rightarrow> nat" where
  "total bbs rk s = sum_list (map (\<lambda>k. weight bbs rk (li_instrs s ! k)) (li_reservation s))"

definition same_skel :: "instr list \<Rightarrow> instr list \<Rightarrow> bool" where
  "same_skel I I' \<longleftrightarrow> length I' = length I \<and> (\<forall>k<length I. skel (I' ! k) = skel (I ! k))"

lemma same_skel_refl [simp]: "same_skel I I"
  by (simp add: same_skel_def)

lemma same_skel_trans: "same_skel I I' \<Longrightarrow> same_skel I' I'' \<Longrightarrow> same_skel I I''"
  by (simp add: same_skel_def)

lemma same_skel_set: "k < length I \<Longrightarrow> skel i = skel (I ! k) \<Longrightarrow> same_skel I (I[k := i])"
  by (auto simp: same_skel_def nth_list_update)

lemma same_graph_skel: "same_graph R C I I' \<Longrightarrow> same_skel I I'"
  by (simp add: same_graph_def same_skel_def same_view_def same_node_def)

lemma signalled_skel: "signalled cs I I' \<Longrightarrow> same_skel I I'"
  using signalled_node(1) [of cs I I'] by (simp add: same_skel_def same_node_def signalled_def)

lemma weight_skel: "skel i = skel j \<Longrightarrow> weight bbs rk i = weight bbs rk j"
  using skel_fields [of i j] by (simp add: weight_def jumps_def)

lemma weight_pos: "0 < weight bbs rk i"
  by (simp add: weight_def)

lemma commit_skel:
  assumes "commit k s = Inr (b, s')"
  shows "same_skel (li_instrs s) (li_instrs s')"
  using assms
proof (cases rule: commit_cases)
  case (finish i r reg reg')
  from signalChildren_signals [OF finish(7)] show ?thesis by (auto dest: signalled_skel)
next
  case (wait i r)
  then show ?thesis by (auto simp: li_instr_iff skel_def static_def intro!: same_skel_set)
next
  case (void i)
  from signalChildren_signals [OF void(4)] show ?thesis by (auto dest: signalled_skel)
qed

lemma li_compute_skel: "li_compute u k s = Inr s' \<Longrightarrow> same_skel (li_instrs s) (li_instrs s')"
  by (rule same_graph_skel [OF li_compute_graph [where R = "{}" and C = "{}"]])

lemma link_skel: "link p c s = Inr s' \<Longrightarrow> same_skel (li_instrs s) (li_instrs s')"
  by (auto simp: link_def bind_res_eq_Inr_iff Let_def li_instr_iff same_skel_def nth_list_update registerParent_def registerChild_def skel_def static_def)

lemma sum_erase_at: "n < length xs \<Longrightarrow> sum_list (map f xs) = f (xs ! n) + sum_list (map f (erase_at n xs))" for f :: "'a \<Rightarrow> nat"
proof -
  assume n: "n < length xs"
  have "map f xs = map f (take n xs @ xs ! n # drop (Suc n) xs)" using id_take_nth_drop [OF n] by simp
  then show ?thesis by (simp add: erase_at_def)
qed

lemma total_erase:
  assumes "n < length (li_reservation s)" and "li_reservation s' = erase_at n (li_reservation s)" and "same_skel (li_instrs s) (li_instrs s')"
    and "\<forall>k\<in>set (li_reservation s). k < length (li_instrs s)"
  shows "total bbs rk s = weight bbs rk (li_instrs s ! (li_reservation s ! n)) + total bbs rk s'"
proof -
  have "weight bbs rk (li_instrs s' ! k) = weight bbs rk (li_instrs s ! k)" if "k \<in> set (li_reservation s)" for k
    using assms(3,4) that by (intro weight_skel) (simp add: same_skel_def)
  moreover have "set (erase_at n (li_reservation s)) \<subseteq> set (li_reservation s)" by (auto simp: erase_at_def dest: in_set_takeD in_set_dropD)
  ultimately have e: "map (\<lambda>k. weight bbs rk (li_instrs s' ! k)) (erase_at n (li_reservation s)) = map (\<lambda>k. weight bbs rk (li_instrs s ! k)) (erase_at n (li_reservation s))" by auto
  show ?thesis unfolding total_def assms(2) e by (rule sum_erase_at [OF assms(1)])
qed

section \<open>Scheduling\<close>

lemma link_opt_skel: "link_opt mp c s = Inr s' \<Longrightarrow> same_skel (li_instrs s) (li_instrs s')"
  by (auto simp: link_opt_def link_skel split: option.splits)

lemma link_base_skel: "link_base c s = Inr s' \<Longrightarrow> same_skel (li_instrs s) (li_instrs s')"
  by (erule link_base_cases) (auto simp: link_skel li_instr_iff skel_def static_def intro!: same_skel_set)

lemma fetchDependency_idx_skel: "fetchDependency_idx j c s = Inr s' \<Longrightarrow> same_skel (li_instrs s) (li_instrs s')"
  by (auto simp: fetchDependency_idx_def bind_res_eq_Inr_iff li_instr_iff skel_def static_def split: if_splits option.splits intro!: same_skel_set)

lemma link_deps_skel: "link_deps c j ds s = Inr s' \<Longrightarrow> same_skel (li_instrs s) (li_instrs s')"
proof (induction c j ds s rule: link_deps.induct)
  case (3 c j r ds s)
  then obtain s1 where s1: "(case findParent_reg r s of Some p \<Rightarrow> link p c s | None \<Rightarrow> fetchDependency_idx j c s) = Inr s1" "link_deps c (Suc j) ds s1 = Inr s'"
    by (auto simp: bind_res_eq_Inr_iff)
  have "same_skel (li_instrs s) (li_instrs s1)" using s1(1) link_skel fetchDependency_idx_skel by (cases "findParent_reg r s") auto
  from same_skel_trans [OF this 3(1) [OF s1(2)]] show ?case .
qed simp_all

lemma schedule_node_skel:
  assumes sc: "schedule_node prev i s = Inr s'"
  shows "same_skel (li_instrs s @ [i]) (li_instrs s')" "li_reservation s' = li_reservation s @ [length (li_instrs s)]"
proof -
  define c where "c = length (li_instrs s)"
  define s1 where "s1 = add_node i s"
  from sc obtain s2 s3 s4 i4 ds i5 where l2: "(if in_ReturnRegister i \<noteq> None then link_opt (findParent_line (in_LLVMLine i) s1) c s1 else Inr s1) = Inr s2"
    and l3: "(if in_OpCode i = ''load'' then link_opt (detectRAW (in_RawCheck i) s2) c s2 else Inr s2) = Inr s3" and l4: "link_base c s3 = Inr s4"
    and i4: "li_instr s4 c = Inr i4" and rd: "runtimeDependencies prev i4 = Inr (ds, i5)" and l5: "link_deps c 0 ds (li_set c i5 s4) = Inr s'"
    unfolding schedule_node_def Let_def bind_res_eq_Inr_iff split_paired_Ex prod.case s1_def [symmetric] c_def [symmetric] by (elim exE conjE) (rule that)
  have a: "same_skel (li_instrs s1) (li_instrs s2)" "core s2 = core s1" using l2 link_opt_skel link_opt_core by (auto split: if_splits)
  have b: "same_skel (li_instrs s2) (li_instrs s3)" "core s3 = core s2" using l3 link_opt_skel link_opt_core by (auto split: if_splits)
  have "skel i5 = skel i4" using runtimeDependencies_operands(1) [OF rd] by (auto simp: skel_def static_def)
  then have d: "same_skel (li_instrs s4) (li_instrs (li_set c i5 s4))" using i4 by (simp add: li_instr_iff same_skel_set)
  show "same_skel (li_instrs s @ [i]) (li_instrs s')"
    using same_skel_trans [OF same_skel_trans [OF same_skel_trans [OF same_skel_trans [OF a(1) b(1)] link_base_skel [OF l4]] d] link_deps_skel [OF l5]]
    by (simp add: s1_def add_node_def)
  have "core s' = core s1" using a(2) b(2) link_base_core [OF l4] link_deps_core [OF l5] by simp
  then have "li_reservation s' = li_reservation s1" by (rule core_fields)
  then show "li_reservation s' = li_reservation s @ [length (li_instrs s)]" by (simp add: s1_def add_node_def)
qed

lemma schedule_node_total:
  assumes "schedule_node prev i s = Inr s'" and "\<forall>k\<in>set (li_reservation s). k < length (li_instrs s)"
  shows "total bbs rk s' = total bbs rk s + weight bbs rk i" "\<forall>k\<in>set (li_reservation s'). k < length (li_instrs s')"
proof -
  note sk = schedule_node_skel [OF assms(1)]
  have w: "weight bbs rk (li_instrs s' ! k) = weight bbs rk ((li_instrs s @ [i]) ! k)" if "k \<le> length (li_instrs s)" for k
    using sk(1) that by (intro weight_skel) (simp add: same_skel_def)
  have "map (\<lambda>k. weight bbs rk (li_instrs s' ! k)) (li_reservation s) = map (\<lambda>k. weight bbs rk (li_instrs s ! k)) (li_reservation s)"
    using assms(2) w by (auto simp: nth_append)
  then show "total bbs rk s' = total bbs rk s + weight bbs rk i"
    unfolding total_def sk(2) by (simp only: map_append sum_list.append) (simp add: w)
  show "\<forall>k\<in>set (li_reservation s'). k < length (li_instrs s')" using sk assms(2) by (auto simp: same_skel_def)
qed

lemma schedule_nodes_total:
  "schedule_nodes prev is s = Inr s' \<Longrightarrow> \<forall>k\<in>set (li_reservation s). k < length (li_instrs s) \<Longrightarrow> total bbs rk s' = total bbs rk s + sum_list (map (weight bbs rk) is)"
proof (induction prev "is" s rule: schedule_nodes.induct)
  case (2 prev i "is" s)
  then obtain s1 where s1: "schedule_node prev i s = Inr s1" "schedule_nodes prev is s1 = Inr s'" by (auto simp: bind_res_eq_Inr_iff)
  from 2(1) [OF s1(2)] schedule_node_total [OF s1(1) 2(3)] show ?case by simp
qed simp

lemma scheduleBB_total:
  assumes "scheduleBB (Some b) s = Inr s'" and "\<forall>k\<in>set (li_reservation s). k < length (li_instrs s)"
  shows "total bbs rk s' = total bbs rk s + sum_list (map (weight bbs rk) (snd (li_bbList s ! b)))" "b < length (li_bbList s)"
proof -
  from assms(1) show b: "b < length (li_bbList s)" by (simp add: scheduleBB_def split: if_splits)
  show "total bbs rk s' = total bbs rk s + sum_list (map (weight bbs rk) (snd (li_bbList s ! b)))"
  proof (cases "snd (li_bbList s ! b)")
    case Nil
    with assms(1) b show ?thesis by (simp add: scheduleBB_def)
  next
    case (Cons x xs)
    with assms(1) b obtain prev where "schedule_nodes prev (snd (li_bbList s ! b)) s = Inr s'"
      by (auto simp: scheduleBB_def simp del: schedule_nodes.simps split: option.splits if_splits)
    from schedule_nodes_total [OF this assms(2)] show ?thesis .
  qed
qed

text \<open>The instructions of a target weigh less than the branch to it.\<close>

lemma block_weight:
  assumes "falling bbs rk" and "i \<in> nodes bbs" and "jumps i" and "l \<in> set (targets (in_class i))" and "find_bb l 0 bbs = Some b" and "b < length bbs"
  shows "sum_list (map (weight bbs rk) (snd (bbs ! b))) < weight bbs rk i"
proof -
  let ?N = "length (concat (map snd bbs))"
  have "weight bbs rk j \<le> (?N + 1) ^ rk (in_LLVMLine i)" if j: "j \<in> set (snd (bbs ! b))" for j
  proof (cases "jumps j")
    case True
    with assms j have "rk (in_LLVMLine j) < rk (in_LLVMLine i)" by (auto simp: falling_def)
    then have "(?N + 1) ^ Suc (rk (in_LLVMLine j)) \<le> (?N + 1) ^ rk (in_LLVMLine i)" by (intro power_increasing) simp_all
    with True show ?thesis by (simp add: weight_def)
  qed (simp add: weight_def)
  then have "sum_list (map (weight bbs rk) (snd (bbs ! b))) \<le> sum_list (map (\<lambda>_. (?N + 1) ^ rk (in_LLVMLine i)) (snd (bbs ! b)))" by (intro sum_list_mono) auto
  also have "\<dots> = length (snd (bbs ! b)) * (?N + 1) ^ rk (in_LLVMLine i)" by (simp add: sum_list_triv)
  also have "\<dots> \<le> ?N * (?N + 1) ^ rk (in_LLVMLine i)"
  proof (rule mult_right_mono)
    have "length (snd (bbs ! b)) \<in> set (map length (map snd bbs))" using assms(6) by auto
    then show "length (snd (bbs ! b)) \<le> ?N" unfolding length_concat by (rule member_le_sum_list) simp
  qed simp
  also have "\<dots> < (?N + 1) ^ Suc (rk (in_LLVMLine i))" by simp
  finally show ?thesis using assms(3) by (simp add: weight_def)
qed

lemma find_bb_bound: "find_bb name k bs = Some b \<Longrightarrow> k \<le> b \<and> b < k + length bs"
  by (induction name k bs rule: find_bb.induct) (auto split: if_splits)

section \<open>The loop\<close>

lemma launch_branch_total:
  assumes d: "dep_inv bbs (set (li_reservation s)) s" and f: "falling bbs rk" and n: "n < length (li_reservation s)" and k: "k = li_reservation s ! n"
    and j: "jumps (li_instrs s ! k)" and l: "launch_branch u n k s = Inr s'"
  shows "total bbs rk s' < total bbs rk s"
  using l
proof (rule launch_branch_cases)
  note R = reserved_facts [OF d n k]
  fix i s1 i1 bb
  assume c: "li_compute u k ((count_fu i s)\<lparr> li_prevBB := li_currBB s \<rparr>) = Inr s1" and i1: "li_instr s1 k = Inr i1" and bb: "bb = findBB (in_Dest i1) s1"
    and sb: "scheduleBB bb ((erase_reserved n s1)\<lparr> li_currBB := bb \<rparr>) = Inr s'"
  let ?t = "(erase_reserved n s1)\<lparr> li_currBB := bb \<rparr>"
  note fl = core_req_fields [OF li_compute_core [OF c]]
  have sk: "same_skel (li_instrs s) (li_instrs ?t)" using li_compute_skel [OF c] by simp
  have len: "\<forall>k\<in>set (li_reservation s). k < length (li_instrs s)" using dep_invD(10) [OF d] by (auto simp: live_def)
  have rt: "li_reservation ?t = erase_at n (li_reservation s)" using fl by simp
  have tt: "total bbs rk s = weight bbs rk (li_instrs s ! k) + total bbs rk ?t" unfolding k by (rule total_erase [OF n rt sk len])
  have lt: "\<forall>k\<in>set (li_reservation ?t). k < length (li_instrs ?t)" using len sk R(4) by (auto simp: rt same_skel_def)
  from sb obtain b where b: "bb = Some b" by (cases bb) (simp_all add: scheduleBB_def)
  note sbt = scheduleBB_total(1) [OF sb [unfolded b] lt [unfolded b], of bbs rk]
  have lb: "li_bbList s1 = bbs" using fl dep_invD(1) [OF d] by simp
  from dep_invD(5) [OF d R(2)] obtain i0 where i0: "i0 \<in> nodes bbs" "skel (li_instrs s ! k) = skel i0" by (auto simp: node_ok_def)
  note e = skel_fields [OF i0(2)]
  have j0: "jumps i0" using j e by (simp add: jumps_def)
  have "is_branch (in_class i0)" using f i0(1) j0 by (simp add: falling_def)
  then have "in_Dest i1 \<in> set (targets (in_class i0))" using li_compute_dest [OF c] i1 e by (simp add: li_instr_iff)
  moreover have fb: "find_bb (in_Dest i1) 0 bbs = Some b" using bb b lb by (simp add: findBB_def)
  moreover have "b < length bbs" using find_bb_bound [OF fb] by simp
  ultimately have "sum_list (map (weight bbs rk) (snd (bbs ! b))) < weight bbs rk i0" by (intro block_weight [OF f i0(1) j0])
  then show ?thesis using sbt tt lb weight_skel [OF i0(2)] b by simp
qed

lemma launch_step_decreases:
  assumes wf: "wf_program bbs" and f: "falling bbs rk" and d: "dep_inv bbs (set (li_reservation s)) s" and n: "n < length (li_reservation s)" and l: "launch_step u n s = Inr (m, s')"
  shows "total bbs rk s' < total bbs rk s \<or> total bbs rk s' = total bbs rk s \<and> length (li_reservation s') - m < length (li_reservation s) - n"
proof -
  let ?k = "li_reservation s ! n"
  have len: "\<forall>k\<in>set (li_reservation s). k < length (li_instrs s)" using dep_invD(10) [OF d] by (auto simp: live_def)
  have er: "total bbs rk s' < total bbs rk s" if "li_reservation s' = erase_at n (li_reservation s)" "same_skel (li_instrs s) (li_instrs s')" for s'
    using total_erase [OF n that len, of bbs rk] weight_pos [of bbs rk "li_instrs s ! ?k"] by simp
  have cp: "total bbs rk s' < total bbs rk s" if "launch_compute u n ?k t = Inr s'" "li_instrs t = li_instrs s" "li_reservation t = li_reservation s" for t
    using that(1)
  proof (rule launch_compute_cases)
    fix s1 b s2 i
    assume c: "li_compute u ?k (t\<lparr> li_computeQueue := li_computeQueue t @ [?k] \<rparr>) = Inr s1" "commit ?k s1 = Inr (b, s2)"
      and s': "s' = (erase_reserved n (count_fu i s2))\<lparr> li_scheduled := True, li_compOpScheduled := True \<rparr>"
    show ?thesis by (rule er)
      (use s' core_req_fields [OF li_compute_core [OF c(1)]] core_fields [OF commit_core [OF c(2)]] same_skel_trans [OF li_compute_skel [OF c(1)] commit_skel [OF c(2)]] that in simp_all)
  qed
  from l show ?thesis
  proof (cases rule: launch_step_cases)
    case (load i)
    from load(5) show ?thesis
    proof (rule launch_load_cases)
      fix s1 j dl ml
      assume c: "li_compute u ?k (s\<lparr> li_loadOpScheduled := True, li_readQueue := li_readQueue s @ [?k] \<rparr>) = Inr s1"
        and s': "s' = (erase_reserved n (count_fu j (s1\<lparr> li_dma_loads := dl, li_memory_loads := ml \<rparr>)))\<lparr> li_scheduled := True \<rparr>"
      show ?thesis by (rule disjI1, rule er) (use s' core_req_fields [OF li_compute_core [OF c]] li_compute_skel [OF c] in simp_all)
    qed
  next
    case (store i)
    from store(5) show ?thesis
    proof (rule launch_store_cases)
      fix s1 j dl ml
      assume c: "li_compute u ?k (s\<lparr> li_storeOpScheduled := True, li_writeQueue := li_writeQueue s @ [?k] \<rparr>) = Inr s1"
        and s': "s' = (erase_reserved n (count_fu j (s1\<lparr> li_dma_stores := dl, li_memory_stores := ml \<rparr>)))\<lparr> li_scheduled := True \<rparr>"
      show ?thesis by (rule disjI1, rule er) (use s' core_req_fields [OF li_compute_core [OF c]] li_compute_skel [OF c] in simp_all)
    qed
  next
    case (immediate i)
    from immediate(7) show ?thesis
    proof (rule launch_immediate_cases)
      fix s1 b s2 j
      assume c: "li_compute u ?k s = Inr s1" "commit ?k s1 = Inr (b, s2)" "li_instr s2 ?k = Inr j"
        and s': "s' = (erase_reserved n (li_set ?k (removeParents j) (count_fu j s2)))\<lparr> li_scheduled := True, li_compOpScheduled := True \<rparr>"
      have "same_skel (li_instrs s2) ((li_instrs s2)[?k := removeParents j])"
        using c(3) by (intro same_skel_set) (simp_all add: li_instr_iff removeParents_def skel_def static_def)
      then have "same_skel (li_instrs s) (li_instrs s')"
        using same_skel_trans [OF li_compute_skel [OF c(1)] commit_skel [OF c(2)]] same_skel_trans by (simp add: s')
      then show ?thesis by (intro disjI1 er) (use s' core_req_fields [OF li_compute_core [OF c(1)]] core_fields [OF commit_core [OF c(2)]] in \<open>simp_all add: li_set_def\<close>)
    qed
  next
    case (limited i s1 fd)
    have "same_queues s s1 \<and> li_instrs s1 = li_instrs s" by (rule limitedFU_same [OF limited(8)])
    then show ?thesis using cp [OF limited(9)] by (simp add: same_queues_def)
  next
    case (refused i)
    have "same_queues s s' \<and> li_instrs s' = li_instrs s" by (rule limitedFU_same [OF refused(6)])
    then show ?thesis using n refused(7) by (simp add: total_def same_queues_def)
  next
    case (unlimited i)
    then show ?thesis using cp [of s] by simp
  next
    case (branch i)
    then show ?thesis using launch_branch_total [OF d f n refl _ branch(6)] by (simp add: jumps_def li_instr_iff)
  next
    case idle
    then show ?thesis using n by simp
  next
    case (stuck i)
    have "in_ActiveParents (li_instrs s ! ?k) = base_parents (li_instrs s ! ?k) + int (links (li_instrs s) (live s) ?k)"
      using graph_okD(7) [OF dep_invD(3) [OF d]] n by simp
    with stuck show ?thesis by (simp add: li_instr_iff base_parents_def)
  next
    case (complete i)
    then show ?thesis by (intro disjI1 er) simp_all
  qed
qed

lemma launch_loop_returns:
  assumes wf: "wf_program bbs" and f: "falling bbs rk"
  shows "dep_inv bbs (set (li_reservation s)) s \<Longrightarrow> \<exists>r. launch_loop u n s = Some r"
proof (induction "(total bbs rk s, length (li_reservation s) - n)" arbitrary: n s rule: wf_induct_rule [OF wf_lex_prod [OF wf_less_than wf_less_than]])
  case 1
  show ?case
  proof (cases "n < length (li_reservation s)")
    case False
    then show ?thesis by (subst launch_loop.simps) simp
  next
    case True
    show ?thesis
    proof (cases "launch_step u n s")
      case (Inl e)
      with True show ?thesis by (subst launch_loop.simps) simp
    next
      case (Inr r)
      then obtain m s1 where l: "launch_step u n s = Inr (m, s1)" by (cases r) auto
      have "((total bbs rk s1, length (li_reservation s1) - m), (total bbs rk s, length (li_reservation s) - n)) \<in> less_than <*lex*> less_than"
        using launch_step_decreases [OF wf f 1(2) True l] by auto
      from 1(1) [OF this launch_step_inv [OF wf 1(2) True l]] True l show ?thesis by (subst launch_loop.simps) simp
    qed
  qed
qed

lemma li_tick_returns:
  assumes wf: "wf_program bbs" and f: "falling bbs rk" and d: "dep_inv bbs (set (li_reservation s)) s"
  shows "\<exists>r. li_tick u now s = Some r"
proof (cases "bind_res (commit_queue (tick_begin s)) tick_refill")
  case (Inl e)
  then show ?thesis by (simp add: li_tick_def)
next
  case (Inr s1)
  then obtain s0 where c: "commit_queue (tick_begin s) = Inr s0" "tick_refill s0 = Inr s1" by (auto simp: bind_res_eq_Inr_iff)
  have "dep_inv bbs (set (li_reservation s1)) s1" by (rule tick_refill_inv [OF wf commit_queue_inv [OF c(1) inv_same [OF tick_begin_same d]] c(2)])
  from launch_loop_returns [OF wf f this] obtain r where "launch_loop u 0 s1 = Some r" by blast
  with Inr show ?thesis by (simp add: li_tick_def)
qed

text \<open>
  C17. If the branches of the program do not form a cycle, every cycle of a run returns, with a state or an
  error: the launch loop, which goes on into the blocks it branches to, comes to an end.
\<close>

theorem tick_returns:
  assumes "wf_program bbs" and "falling bbs rk" and "li_run u bbs s"
  shows "\<exists>r. li_tick u now (s\<lparr> li_tickEvent := None \<rparr>) = Some r"
  by (rule li_tick_returns [OF assms(1,2)], rule inv_same [OF _ _ li_run_inv [OF assms(1,3)]]) (simp_all add: same_queues_def)

text \<open>Two blocks, the first of which jumps to the second.\<close>

definition jump_program :: "(string \<times> instr list) list" where
  "jump_program = [(''0'', [rt_instr ''br 1'' ''br'' None 0 [] (-1) (Br True 0 [] ''1'')]), (''1'', [rt_instr ''ret'' ''ret'' None 0 [] (-1) Ret])]"

lemma jump_start: "\<exists>s0. li_initialize no_fpu 0 jump_program demo_registers overlap_unit = Some (Inr s0)"
  by (simp add: li_initialize_def jump_program_def overlap_unit_def demo_defs schedule_defs launch_defs tick_defs updateFU_def plain_def Br_compute_def findBB_def launch_loop.simps Let_def)

theorem tick_returns_witness:
  "falling jump_program (\<lambda>_. 0) \<and> (\<exists>s r. li_run no_fpu jump_program s \<and> li_tick no_fpu 10000 (s\<lparr> li_tickEvent := None \<rparr>) = Some r)"
proof -
  from jump_start obtain s0 where i: "li_initialize no_fpu 0 jump_program demo_registers overlap_unit = Some (Inr s0)" by blast
  have r: "li_run no_fpu jump_program s0" using i unfolding overlap_unit_def by (rule li_run.start)
  have w: "wf_program jump_program" by (simp add: wf_program_def nodes_def jump_program_def rt_instr_def wf_node_def base_parents_def ssa_def)
  have f: "falling jump_program (\<lambda>_. 0)" by (simp add: falling_def nodes_def jump_program_def rt_instr_def jumps_def is_branch_def targets_def)
  from tick_returns [OF w f r] r f show ?thesis by blast
qed

end
