(* ===== verification/Parse_Line.thy ===== *)
theory Parse_Line
  imports Registers
begin

text \<open>
  The lexical part of the parser of LLVM lines, \<open>BasicBlock::parse\<close> in
  \<open>src/hwacc/LLVMRead/src/basic_block.cc\<close>: the members of \<open>std::string\<close> it uses, the cut of a line into
  return register, opcode and the rest, and the cut of the rest into parameters.

  Positions are integers, with -1 for \<open>npos\<close>: the code keeps them in \<open>int\<close> or lets \<open>size_t\<close> wrap, and both
  agree as long as lines are shorter than \<open>2\<close> to the 31. A negative count is larger than every string.
\<close>

section \<open>Strings\<close>

fun str_index :: "string \<Rightarrow> string \<Rightarrow> nat option" where
  "str_index pat [] = (if pat = [] then Some 0 else None)"
| "str_index pat (c # cs) = (if take (length pat) (c # cs) = pat then Some 0 else map_option Suc (str_index pat cs))"

definition str_find :: "string \<Rightarrow> string \<Rightarrow> int" where
  "str_find pat s = (case str_index pat s of None \<Rightarrow> -1 | Some n \<Rightarrow> int n)"

definition str_find_from :: "string \<Rightarrow> int \<Rightarrow> string \<Rightarrow> int" where
  "str_find_from pat pos s =
     (if pos < 0 \<or> int (length s) < pos then -1
      else case str_index pat (drop (nat pos) s) of None \<Rightarrow> -1 | Some n \<Rightarrow> pos + int n)"

definition contains_str :: "string \<Rightarrow> string \<Rightarrow> bool" where
  "contains_str pat s \<longleftrightarrow> str_index pat s \<noteq> None"

definition substr :: "int \<Rightarrow> int \<Rightarrow> string \<Rightarrow> string result" where
  "substr pos n s =
     (if pos < 0 \<or> int (length s) < pos then Inl (Uncaught ''out_of_range'')
      else Inr (if n < 0 then drop (nat pos) s else take (nat n) (drop (nat pos) s)))"

definition suffix_at :: "int \<Rightarrow> string \<Rightarrow> string result" where
  "suffix_at pos s = substr pos (-1) s"

text \<open>\<open>atol\<close>: blanks, a sign, the longest run of digits; no digits give 0, and the value saturates.\<close>

definition strtol10 :: "string \<Rightarrow> int option" where
  "strtol10 s = (let s1 = dropWhile is_blank s;
       neg = (s1 \<noteq> [] \<and> hd s1 = CHR ''-'');
       s2 = (if s1 \<noteq> [] \<and> hd s1 \<in> set ''-+'' then tl s1 else s1)
     in if s2 = [] \<or> digit_val (hd s2) = None then None
        else let n = int (digits_val 0 s2) in Some (if neg then - n else n))"

definition atol :: "string \<Rightarrow> int" where
  "atol s = (case strtol10 s of None \<Rightarrow> 0 | Some v \<Rightarrow> max (- (2 ^ 63)) (min (2 ^ 63 - 1) v))"

definition stol :: "string \<Rightarrow> int result" where
  "stol s = (case strtol10 s of None \<Rightarrow> Inl (Uncaught ''stol'')
     | Some v \<Rightarrow> if v < - (2 ^ 63) \<or> 2 ^ 63 \<le> v then Inl (Uncaught ''stol'') else Inr v)"

text \<open>The words an \<open>istringstream\<close> yields.\<close>

function blank_words :: "string \<Rightarrow> string list" where
  "blank_words s = (case dropWhile is_blank s of [] \<Rightarrow> []
     | c # cs \<Rightarrow> (c # takeWhile (\<lambda>x. \<not> is_blank x) cs) # blank_words (dropWhile (\<lambda>x. \<not> is_blank x) cs))"
  by auto
termination
proof (relation "measure length", simp_all)
  fix s cs :: string and c
  assume "dropWhile is_blank s = c # cs"
  then have "length (c # cs) \<le> length s" by (metis length_dropWhile_le)
  then show "length (dropWhile (\<lambda>x. \<not> is_blank x) cs) < length s" using length_dropWhile_le [of "\<lambda>x. \<not> is_blank x" cs] by simp
qed

declare blank_words.simps [simp del]

section \<open>The head of a line\<close>

text \<open>
  With a return register, \<open>  %name = op rest\<close>; otherwise the opcode is the first word, and only the
  first blank of the line is dropped, so that the opcode is also the first parameter.
\<close>

definition ret_check :: "string \<Rightarrow> int" where
  "ret_check line = str_find '' = '' line"

definition head_return :: "string \<Rightarrow> (string \<times> string \<times> string) result" where
  "head_return line =
     bind_res (substr (str_find ''%'' line + 1) (ret_check line - 3) line) (\<lambda>name.
     bind_res (suffix_at (ret_check line + 3) line) (\<lambda>l1.
     bind_res (substr 0 (str_find '' '' l1) l1) (\<lambda>op.
     bind_res (suffix_at (str_find '' '' l1) l1) (\<lambda>l2. Inr (name, op, l2)))))"

definition head_plain :: "string \<Rightarrow> (string \<times> string) result" where
  "head_plain line = (let i = length (takeWhile (\<lambda>c. c = CHR '' '') line) in
     if i = length line then Inr ([], line)
     else bind_res (substr (int i) (str_find_from '' '' (int i) line - 2) line) (\<lambda>op.
          bind_res (suffix_at (str_find '' '' line + 1) line) (\<lambda>l. Inr (op, l))))"

definition parse_head :: "string \<Rightarrow> (string option \<times> string \<times> string) result" where
  "parse_head line =
     (if 0 < ret_check line then bind_res (head_return line) (\<lambda>(name, op, l). Inr (Some name, op, l))
      else bind_res (head_plain line) (\<lambda>(op, l). Inr (None, op, l)))"

section \<open>Parameters\<close>

text \<open>The position of the first \<open>c\<close>.\<close>

definition find_char :: "char \<Rightarrow> string \<Rightarrow> nat option" where
  "find_char c s = (if c \<in> set s then Some (length (takeWhile (\<lambda>x. x \<noteq> c) s)) else None)"

definition closing :: "char \<Rightarrow> char option" where
  "closing c = (if c = CHR ''('' then Some CHR '')'' else if c = CHR ''['' then Some CHR '']''
     else if c = CHR ''{'' then Some CHR ''}'' else if c = CHR ''<'' then Some CHR ''>'' else None)"

text \<open>
  The loop that looks for the bracket that closes the one at the start of \<open>s\<close>: \<open>left\<close> and \<open>right\<close> go from
  one opening and one closing bracket to the next until the opening one is behind the closing one, or
  there is none left.
\<close>

function match_close :: "char \<Rightarrow> char \<Rightarrow> string \<Rightarrow> nat \<Rightarrow> nat \<Rightarrow> nat" where
  "match_close op cl s left right =
     (if left < right
      then let right' = (case find_char cl (drop (Suc right) s) of None \<Rightarrow> right | Some m \<Rightarrow> Suc right + m)
           in case find_char op (drop (Suc left) s) of None \<Rightarrow> right' | Some k \<Rightarrow> match_close op cl s (Suc left + k) right'
      else right)"
  by auto
termination
proof (relation "measure (\<lambda>(op, cl, s, left, right). length s - left)", simp_all)
  fix op :: char and s :: string and left k :: nat
  assume "find_char op (drop (Suc left) s) = Some k"
  then have "drop (Suc left) s \<noteq> []" by (auto simp: find_char_def split: if_splits)
  then show "length s - Suc (left + k) < length s - left" by simp
qed

declare match_close.simps [simp del]

definition bracket_end :: "char \<Rightarrow> char \<Rightarrow> string \<Rightarrow> nat option" where
  "bracket_end op cl s =
     (case find_char cl s of None \<Rightarrow> None
      | Some r \<Rightarrow> Some (match_close op cl s (case find_char op (tl s) of None \<Rightarrow> 0 | Some k \<Rightarrow> Suc k) r))"

text \<open>A word ends before the next blank or comma.\<close>

definition word_end :: "string \<Rightarrow> nat option" where
  "word_end s = (case find_char CHR '' '' s of None \<Rightarrow> find_char CHR '','' s
     | Some b \<Rightarrow> (case find_char CHR '','' s of None \<Rightarrow> Some b | Some k \<Rightarrow> Some (if k < b then k else b)))"

text \<open>
  The loop over the line, from the current position on. An opening bracket that is never closed makes
  the loop of the source push empty parameters forever; here it is an error.
\<close>

function tokens :: "string \<Rightarrow> string list \<Rightarrow> string list result" where
  "tokens [] ps = Inr ps"
| "tokens (c # cs) ps =
     (if c = CHR '' '' then tokens cs ps
      else case closing c of
        Some cl \<Rightarrow>
          (case bracket_end c cl (c # cs) of
             None \<Rightarrow> Inl (Undefined ''the loop over the line does not end'')
           | Some r \<Rightarrow> tokens (drop r cs) (ps @ [c # take r cs]))
      | None \<Rightarrow>
          if c = CHR ''='' then tokens cs ps
          else if c = CHR ''*'' then (if ps = [] then Inl (Undefined ''parameters[-1]'') else tokens cs (butlast ps @ [last ps @ ''*'']))
          else if c = CHR '','' then tokens cs ps
          else (case word_end cs of
                 Some n \<Rightarrow> tokens (drop (Suc n) cs) (ps @ [c # take n cs])
               | None \<Rightarrow> Inr (ps @ [c # cs])))"
  by pat_completeness auto
termination by (relation "measure (\<lambda>(s, ps). length s)") auto

end
