(* ===== verification/Parse_Brackets.thy ===== *)
theory Parse_Brackets
  imports Parse_Line
begin

text \<open>
  The search for the bracket that closes a group agrees with the definition of a matching bracket by
  depth, so that a bracketed group, with everything nested in it, is one parameter of its line.
\<close>

section \<open>Matching by depth\<close>

text \<open>The position of the bracket that closes \<open>d\<close> groups and the one it starts in.\<close>

fun close_at :: "char \<Rightarrow> char \<Rightarrow> nat \<Rightarrow> string \<Rightarrow> nat option" where
  "close_at op cl d [] = None"
| "close_at op cl d (c # cs) =
     (if c = cl then (case d of 0 \<Rightarrow> Some 0 | Suc d' \<Rightarrow> map_option Suc (close_at op cl d' cs))
      else map_option Suc (close_at op cl (if c = op then Suc d else d) cs))"

abbreviation before :: "char \<Rightarrow> nat \<Rightarrow> string \<Rightarrow> nat" where
  "before c i s \<equiv> count_list (take i s) c"

lemma close_at_Some:
  assumes "close_at op cl d cs = Some r" and "op \<noteq> cl"
  shows "r < length cs \<and> cs ! r = cl \<and> before cl r cs = d + before op r cs \<and> (\<forall>j<r. cs ! j = cl \<longrightarrow> before cl j cs < d + before op j cs)"
  using assms
proof (induction op cl d cs arbitrary: r rule: close_at.induct)
  case (2 op cl d c cs)
  show ?case
  proof (cases r)
    case 0
    with 2 show ?thesis by (auto split: if_splits nat.splits)
  next
    case (Suc q)
    have step: "(\<forall>j<Suc q. (c # cs) ! j = cl \<longrightarrow> before cl j (c # cs) < d + before op j (c # cs))"
      if "\<forall>j<q. cs ! j = cl \<longrightarrow> before cl (Suc j) (c # cs) < d + before op (Suc j) (c # cs)" and "c = cl \<Longrightarrow> 0 < d"
    proof (intro allI impI)
      fix j
      assume "j < Suc q" "(c # cs) ! j = cl"
      with that show "before cl j (c # cs) < d + before op j (c # cs)" by (cases j) auto
    qed
    show ?thesis
    proof (cases "c = cl")
      case True
      with 2(3) Suc obtain d' where d: "d = Suc d'" "close_at op cl d' cs = Some q" by (auto split: nat.splits)
      from 2(1) [OF True d(1) d(2) 2(4)] True d(1) Suc step 2(4) show ?thesis by simp
    next
      case False
      with 2(3) Suc have "close_at op cl (if c = op then Suc d else d) cs = Some q" by auto
      from 2(2) [OF False this 2(4)] False Suc step show ?thesis by auto
    qed
  qed
qed simp

section \<open>Positions\<close>

lemma find_char_Some: "find_char c xs = Some m \<Longrightarrow> m < length xs \<and> xs ! m = c \<and> c \<notin> set (take m xs)"
proof -
  assume "find_char c xs = Some m"
  then have c: "c \<in> set xs" and m: "m = length (takeWhile (\<lambda>x. x \<noteq> c) xs)" by (auto simp: find_char_def split: if_splits)
  have "takeWhile (\<lambda>x. x \<noteq> c) xs \<noteq> xs" using c by (auto simp: takeWhile_eq_all_conv)
  then have l: "m < length xs" unfolding m by (metis takeWhile_eq_take take_all not_le)
  have "take m xs = takeWhile (\<lambda>x. x \<noteq> c) xs" unfolding m by (metis takeWhile_eq_take)
  moreover have "xs ! m = c" using nth_length_takeWhile [of "\<lambda>x. x \<noteq> c" xs] l unfolding m by simp
  ultimately show ?thesis using l by (auto dest: set_takeWhileD)
qed

lemma find_char_None: "find_char c xs = None \<longleftrightarrow> c \<notin> set xs"
  by (simp add: find_char_def)

lemma before_le: "i \<le> j \<Longrightarrow> before c i s \<le> before c j s"
  by (metis count_list_append le_add1 le_add_diff_inverse take_add)

lemma before_less: "i < j \<Longrightarrow> i < length s \<Longrightarrow> s ! i = c \<Longrightarrow> before c i s < before c j s"
  using before_le [of "Suc i" j s c] by (simp add: take_Suc_conv_app_nth)

text \<open>The next occurrence of \<open>c\<close> after position \<open>i\<close>, if there is one.\<close>

lemma next_Some:
  assumes "find_char c (drop (Suc i) s) = Some m" and "i < length s" "s ! i = c"
  shows "Suc i + m < length s \<and> s ! (Suc i + m) = c \<and> before c (Suc i + m) s = Suc (before c i s)"
proof -
  note f = find_char_Some [OF assms(1)]
  have "before c (Suc i + m) s = before c (Suc i) s + count_list (take m (drop (Suc i) s)) c" by (simp only: take_add count_list_append)
  moreover have "count_list (take m (drop (Suc i) s)) c = 0" using f by (simp add: count_list_0_iff)
  ultimately show ?thesis using f assms(2,3) by (auto simp: take_Suc_conv_app_nth)
qed

lemma next_None: "find_char c (drop (Suc i) s) = None \<Longrightarrow> before c j s \<le> before c (Suc i) s"
proof -
  assume "find_char c (drop (Suc i) s) = None"
  then have n: "c \<notin> set (drop (Suc i) s)" by (simp add: find_char_None)
  have "before c j s \<le> count_list s c" using before_le [of j "max j (length s)" s c] by simp
  also have "count_list s c = before c (Suc i) s + count_list (drop (Suc i) s) c" by (metis append_take_drop_id count_list_append)
  finally show ?thesis using n by (simp add: count_list_0_iff)
qed

lemma next_le:
  assumes "find_char c (drop (Suc i) s) = Some m" and "i < j" "j < length s" "s ! j = c"
  shows "Suc i + m \<le> j"
proof (rule ccontr)
  assume "\<not> Suc i + m \<le> j"
  then have "j - Suc i < m" using assms(2) by simp
  moreover have "take m (drop (Suc i) s) ! (j - Suc i) = c" using calculation assms(2-4) by simp
  ultimately have "c \<in> set (take m (drop (Suc i) s))" using find_char_Some [OF assms(1)] by (metis length_take min.absorb2 nth_mem order_less_imp_le)
  then show False using find_char_Some [OF assms(1)] by blast
qed

section \<open>The search\<close>

text \<open>
  \<open>R\<close> closes the group that starts \<open>s\<close>: it is the first closing bracket with as many opening brackets after
  the start as closing ones before it.
\<close>

definition closes :: "char \<Rightarrow> char \<Rightarrow> string \<Rightarrow> nat \<Rightarrow> bool" where
  "closes op cl s R \<longleftrightarrow> R < length s \<and> s ! R = cl \<and> before op R s = Suc (before cl R s) \<and> (\<forall>j<R. s ! j = cl \<longrightarrow> Suc (before cl j s) < before op j s)"

lemma closes_close_at:
  assumes "close_at op cl 0 cs = Some r" and "op \<noteq> cl"
  shows "closes op cl (op # cs) (Suc r)"
proof -
  note c = close_at_Some [OF assms]
  have "Suc (before cl j (op # cs)) < before op j (op # cs)" if j: "j < Suc r" "(op # cs) ! j = cl" for j
  proof (cases j)
    case (Suc q)
    then show ?thesis using c j assms(2) by auto
  qed (use j assms(2) in simp)
  then show ?thesis using c assms(2) by (simp add: closes_def)
qed

lemma match_close_closes:
  assumes "closes op cl s R" and "op \<noteq> cl" and "left < length s" "s ! left = op" and "right \<le> R" "s ! right = cl" and "before op left s = Suc (before cl right s)"
  shows "match_close op cl s left right = R"
  using assms
proof (induction op cl s left right rule: match_close.induct)
  case (1 op cl s left right)
  have R: "R < length s" "s ! R = cl" and far: "\<And>j. j < R \<Longrightarrow> s ! j = cl \<Longrightarrow> Suc (before cl j s) < before op j s" and eq: "before op R s = Suc (before cl R s)"
    using 1(2) by (simp_all add: closes_def)
  show ?case
  proof (cases "left < right")
    case False
    then have "before op right s \<le> Suc (before cl right s)" using before_le [of right left s op] 1(8) by simp
    then have "right = R" using far [of right] 1(6,7) by (metis le_neq_implies_less linorder_not_less)
    with False show ?thesis by (simp add: match_close.simps)
  next
    case True
    have "Suc (before cl right s) < before op right s" using before_less [OF True 1(4,5)] 1(8) by simp
    then have lt: "right < R" using eq 1(6) by (metis le_neq_implies_less less_irrefl)
    have "drop (Suc right) s ! (R - Suc right) = cl" "R - Suc right < length (drop (Suc right) s)" using lt R by simp_all
    then have "cl \<in> set (drop (Suc right) s)" by (metis nth_mem)
    then obtain m where m: "find_char cl (drop (Suc right) s) = Some m" by (auto simp: find_char_def)
    have r: "Suc right + m < length s" "s ! (Suc right + m) = cl" "before cl (Suc right + m) s = Suc (before cl right s)" "Suc right + m \<le> R"
      using next_Some [OF m _ 1(7)] next_le [OF m lt R] lt R(1) by simp_all
    show ?thesis
    proof (cases "find_char op (drop (Suc left) s)")
      case None
      have "before op (Suc right + m) s \<le> before op (Suc left) s" by (rule next_None [OF None])
      then have "before op (Suc right + m) s \<le> Suc (before cl (Suc right + m) s)" using 1(4,5,8) r(3) by (simp add: take_Suc_conv_app_nth)
      then have "Suc right + m = R" using far [of "Suc right + m"] r(2,4) by (metis le_neq_implies_less linorder_not_less)
      with True m None show ?thesis by (simp add: match_close.simps)
    next
      case (Some k)
      have l: "Suc left + k < length s \<and> s ! (Suc left + k) = op \<and> before op (Suc left + k) s = Suc (before op left s)" by (rule next_Some [OF Some 1(4,5)])
      have "match_close op cl s (Suc left + k) (Suc right + m) = R" using 1(1) [OF True _ Some 1(2,3)] l m r 1(8) by simp
      with True m Some show ?thesis by (simp add: match_close.simps)
    qed
  qed
qed

lemma bracket_end_closes:
  assumes "closes op cl (op # cs) R" and "op \<noteq> cl" and "op \<in> set cs \<or> cl \<notin> set (drop (Suc R) (op # cs))"
  shows "bracket_end op cl (op # cs) = Some R"
proof -
  let ?s = "op # cs"
  have R: "R < length ?s" "?s ! R = cl" using assms(1) by (simp_all add: closes_def)
  then have "cl \<in> set ?s" by (metis nth_mem)
  then obtain q where q: "find_char cl ?s = Some q" by (auto simp: find_char_def)
  note fq = find_char_Some [OF q]
  have q0: "before cl q ?s = 0" using fq by (simp add: count_list_0_iff)
  have qR: "q \<le> R" using fq R by (metis in_set_conv_nth length_take less_le_not_le linorder_le_less_linear min.absorb2 nth_take)
  show ?thesis
  proof (cases "find_char op cs")
    case None
    then have n: "op \<notin> set cs" by (simp add: find_char_None)
    with assms(3) have "find_char cl (drop R cs) = None" by (simp add: find_char_None)
    moreover have "q = R"
    proof (rule ccontr)
      assume "q \<noteq> R"
      with qR have "q < R" by simp
      with assms(1) fq have "Suc (before cl q ?s) < before op q ?s" unfolding closes_def by blast
      with q0 have "1 < before op q ?s" by simp
      moreover have "before op q ?s \<le> count_list ?s op" using before_le [of q "max q (length ?s)" ?s op] by simp
      ultimately show False using n by (simp add: count_list_0_iff)
    qed
    moreover have "0 < q" using fq assms(2) by (cases q) auto
    ultimately show ?thesis using None q by (simp add: bracket_end_def match_close.simps)
  next
    case (Some k)
    note fk = find_char_Some [OF Some]
    have "match_close op cl ?s (Suc k) q = R"
      by (rule match_close_closes [OF assms(1,2) _ _ qR]) (use fk fq q0 in \<open>simp_all add: count_list_0_iff\<close>)
    with Some q show ?thesis by (simp add: bracket_end_def)
  qed
qed

text \<open>
  C22. A bracketed group is one parameter: from an opening bracket, the loop over the line takes the text up to
  the bracket that closes it by depth, whatever is nested in between, and goes on behind it, provided that
  a group without inner brackets of its kind at the end of a line is not followed by a stray closing one.
\<close>

theorem bracket_group_is_one_parameter:
  assumes "closing c = Some cl" and "close_at c cl 0 cs = Some r" and "c \<in> set cs \<or> cl \<notin> set (drop (Suc r) cs)"
  shows "tokens (c # cs) ps = tokens (drop (Suc r) cs) (ps @ [c # take (Suc r) cs])"
proof -
  have n: "c \<noteq> cl" "c \<noteq> CHR '' ''" using assms(1) by (auto simp: closing_def split: if_splits)
  have "bracket_end c cl (c # cs) = Some (Suc r)"
    by (rule bracket_end_closes [OF closes_close_at [OF assms(2) n(1)] n(1)]) (use assms(3) in simp)
  with assms(1) n(2) show ?thesis by simp
qed

theorem bracket_group_is_one_parameter_witness:
  "tokens ''[2 x [3 x i32]]* %p, i64 0'' [] = tokens ''* %p, i64 0'' [''[2 x [3 x i32]]'']"
proof -
  have c: "closing CHR ''['' = Some CHR '']''" by (simp add: closing_def)
  have r: "close_at CHR ''['' CHR '']'' 0 ''2 x [3 x i32]]* %p, i64 0'' = Some 13" by code_simp
  show ?thesis using bracket_group_is_one_parameter [OF c r, of "[]"] by simp
qed

end
