(* ===== verification/Basic_Block.thy ===== *)
theory Basic_Block
  imports Parse_Line Instructions
begin

text \<open>
  The parser of one LLVM line, \<open>BasicBlock::parse\<close> in \<open>src/hwacc/LLVMRead/src/basic_block.cc\<close>: the
  parameters of the line become an object of one of the instruction classes, and the registers the line
  names are looked up in the register list or added to it. Types are named in \<open>llvm_types.cc\<close>, cycle counts
  in \<open>cycle_count.cc\<close>.

  What the parser does with uninitialised pointers, null registers and parameters that are not there is
  undefined behaviour, an error here. Members that the constructors leave unset hold \<open>g\<close>, whatever was in
  memory. \<open>to_string\<close> and \<open>stod\<close> of the host's floating-point numbers are parameters.
\<close>

section \<open>Tables\<close>

text \<open>An opcode that the table does not have is \<open>evNotDefined\<close>, the value 0 of the enumeration.\<close>

datatype opValue =
    evNotDefined | IR_Move | IR_Ret | IR_Br | IR_Switch | IR_IndirectBr | IR_Invoke | IR_Resume | IR_Unreachable
  | IR_Add | IR_FAdd | IR_Sub | IR_FSub | IR_Mul | IR_FMul | IR_UDiv | IR_SDiv | IR_FDiv | IR_URem | IR_SRem | IR_FRem
  | IR_Shl | IR_LShr | IR_AShr | IR_And | IR_Or | IR_Xor
  | IR_Alloca | IR_Load | IR_Store | IR_GetElementPtr | IR_Fence | IR_AtomicCmpXchg | IR_AtomicRMW
  | IR_Trunc | IR_ZExt | IR_SExt | IR_FPToUI | IR_FPToSI | IR_UIToFP | IR_SIToFP | IR_FPTrunc | IR_FPExt
  | IR_PtrToInt | IR_IntToPtr | IR_BitCast | IR_AddrSpaceCast | IR_ICmp | IR_FCmp | IR_PHI | IR_Call | IR_Select | IR_VAArg
  | IR_ExtractElement | IR_InsertElement | IR_ShuffleVector | IR_ExtractValue | IR_InsertValue | IR_LandingPad
  | IR_DMAFence | IR_DMAStore | IR_DMALoad | IR_IndexAdd | IR_SilentStore | IR_Sine | IR_Cosine

definition switch_opMap :: "(string \<times> opValue) list" where
  "switch_opMap =
     [(''move'', IR_Move), (''ret'', IR_Ret), (''br'', IR_Br), (''switch'', IR_Switch), (''indirectbr'', IR_IndirectBr),
      (''invoke'', IR_Invoke), (''resume'', IR_Resume), (''unreachable'', IR_Unreachable), (''add'', IR_Add), (''fadd'', IR_FAdd),
      (''sub'', IR_Sub), (''fsub'', IR_FSub), (''mul'', IR_Mul), (''fmul'', IR_FMul), (''udiv'', IR_UDiv), (''sdiv'', IR_SDiv),
      (''fdiv'', IR_FDiv), (''urem'', IR_URem), (''srem'', IR_SRem), (''frem'', IR_FRem), (''shl'', IR_Shl), (''lshr'', IR_LShr),
      (''ashr'', IR_AShr), (''and'', IR_And), (''or'', IR_Or), (''xor'', IR_Xor), (''alloca'', IR_Alloca), (''load'', IR_Load),
      (''store'', IR_Store), (''getelementptr'', IR_GetElementPtr), (''fence'', IR_Fence), (''cmpxchg'', IR_AtomicCmpXchg),
      (''atomicrmw'', IR_AtomicRMW), (''trunc'', IR_Trunc), (''zext'', IR_ZExt), (''sext'', IR_SExt), (''fptoui'', IR_FPToUI),
      (''fptosi'', IR_FPToSI), (''uitofp'', IR_UIToFP), (''sitofp'', IR_SIToFP), (''fptrunc'', IR_FPTrunc), (''fpext'', IR_FPExt),
      (''ptrtoint'', IR_PtrToInt), (''inttoptr'', IR_IntToPtr), (''bitcast'', IR_BitCast), (''addrspacecast'', IR_AddrSpaceCast),
      (''icmp'', IR_ICmp), (''fcmp'', IR_FCmp), (''phi'', IR_PHI), (''call'', IR_Call), (''select'', IR_Select), (''va_arg'', IR_VAArg),
      (''extractelement'', IR_ExtractElement), (''insertelement'', IR_InsertElement), (''shufflevector'', IR_ShuffleVector),
      (''extractvalue'', IR_ExtractValue), (''insertvalue'', IR_InsertValue), (''landingpad'', IR_LandingPad), (''dmafence'', IR_DMAFence),
      (''dmastore'', IR_DMAStore), (''dmaload'', IR_DMALoad), (''indexadd'', IR_IndexAdd), (''silentstore'', IR_SilentStore),
      (''sine'', IR_Sine), (''cosine'', IR_Cosine)]"

text \<open>The named types, with their numbers of elements, in the order of their definition.\<close>

type_synonym type_list = "(string \<times> int) list"

definition addType :: "string \<Rightarrow> int \<Rightarrow> type_list \<Rightarrow> type_list" where
  "addType name n ts = ts @ [(name, n)]"

definition findType :: "string \<Rightarrow> type_list \<Rightarrow> int option" where
  "findType name ts = map_of ts name"

text \<open>The host's conversions between floating-point numbers and text, on bit patterns of \<open>double\<close>.\<close>

record fp_text =
  ft_to_string :: "int64 \<Rightarrow> string"
  ft_stod :: "string \<Rightarrow> int64 result"

text \<open>
  What the parser of a line is given: the line, its opcode and return register, the parameters, the cycle
  count of every opcode (\<open>CycleCounts\<close>, by the name of the member without \<open>_inst\<close>), whether units are
  pipelined, the named types, and the host.
\<close>

record parse_ctx =
  pc_line :: string
  pc_op :: string
  pc_ret :: "nat option"
  pc_ps :: "string list"
  pc_cycles :: "string \<Rightarrow> nat"
  pc_pipelined :: bool
  pc_types :: type_list
  pc_fpu :: fpu
  pc_text :: fp_text
  pc_junk :: int64

section \<open>Construction of instructions\<close>

definition is_terminator :: "instr_class \<Rightarrow> bool" where
  "is_terminator c = (case c of Br un cond bs d \<Rightarrow> True | Ret \<Rightarrow> True | LLVMSwitch bs cs \<Rightarrow> True | _ \<Rightarrow> False)"

definition raw_pointer :: "instr_class \<Rightarrow> nat option" where
  "raw_pointer c = (case c of Load p \<Rightarrow> Some p | Store p v im d \<Rightarrow> Some p | _ \<Rightarrow> None)"

text \<open>
  The constructors: \<open>InstructionBase\<close> with one operand per dependency; terminators are marked as such,
  \<open>Ret\<close> counts one active parent, and \<open>Load\<close> and \<open>Store\<close> set \<open>_RawCheck\<close> to their pointer.
\<close>

definition new_instr :: "parse_ctx \<Rightarrow> string \<Rightarrow> nat \<Rightarrow> nat option list \<Rightarrow> int \<Rightarrow> instr_class \<Rightarrow> instr" where
  "new_instr x rty cyc deps f c =
     \<lparr> in_LLVMLine = pc_line x, in_OpCode = pc_op x, in_ReturnType = rty, in_ReturnRegister = pc_ret x, in_MaxCycle = cyc,
       in_Dependencies = deps, in_FunctionalUnit = f, in_Terminator = is_terminator c, in_RawCheck = raw_pointer c, in_class = c,
       in_Parents = [], in_Children = [], in_ActiveParents = (if c = Ret then 1 else 0), in_CurrCycle = 0,
       in_FinalResult = pc_junk x, in_Result = pc_junk x, in_Ops = replicate (length deps) 0, in_PrevBB = [], in_Dest = [],
       in_Global = False, in_ActivePtr = pc_junk x, in_Req = None \<rparr>"

section \<open>Registers and parameters\<close>

definition par :: "parse_ctx \<Rightarrow> int \<Rightarrow> string result" where
  "par x k = (if 0 \<le> k \<and> k < int (length (pc_ps x)) then Inr (pc_ps x ! nat k) else Inl (Undefined ''parameters[]''))"

definition last_par :: "parse_ctx \<Rightarrow> int" where
  "last_par x = int (length (pc_ps x)) - 1"

definition isRegister :: "string \<Rightarrow> bool" where
  "isRegister data \<longleftrightarrow> data \<noteq> [] \<and> hd data = CHR ''%''"

definition get_register :: "string \<Rightarrow> register_list \<Rightarrow> nat \<times> register_list" where
  "get_register name rl =
     (case findRegister name rl of Some k \<Rightarrow> (k, rl) | None \<Rightarrow> (length (rl_RegList rl), addRegister (Register name 0) rl))"

text \<open>The register list and the dependencies collected so far.\<close>

type_synonym deps_state = "register_list \<times> nat option list"

definition setRegister :: "string \<Rightarrow> deps_state \<Rightarrow> (nat \<times> deps_state) result" where
  "setRegister data st =
     bind_res (suffix_at 1 data) (\<lambda>name.
       case get_register name (fst st) of (k, rl) \<Rightarrow> Inr (k, rl, snd st @ [Some k]))"

definition upd_reg :: "(register \<Rightarrow> register result) \<Rightarrow> nat \<Rightarrow> register_list \<Rightarrow> register_list result" where
  "upd_reg f r rl = bind_res (reg_at rl r) (\<lambda>reg. bind_res (f reg) (\<lambda>reg'. Inr (set_reg r reg' rl)))"

definition size_return :: "parse_ctx \<Rightarrow> string \<Rightarrow> register_list \<Rightarrow> register_list result" where
  "size_return x ty rl = (case pc_ret x of None \<Rightarrow> Inl (Undefined ''null register'') | Some r \<Rightarrow> upd_reg (setSize ty) r rl)"

definition reg_operand :: "string \<Rightarrow> deps_state \<Rightarrow> (nat list \<times> deps_state) result" where
  "reg_operand a st = (if isRegister a then bind_res (setRegister a st) (\<lambda>(k, st'). Inr ([k], st')) else Inr ([], st))"

text \<open>\<open>initializeReturnRegister\<close>, \<open>setRegOperands\<close>, \<open>setImmOperands\<close> and \<open>immPosition\<close> for binary and bitwise operations.\<close>

definition initializeReturnRegister :: "parse_ctx \<Rightarrow> register_list \<Rightarrow> (string \<times> register_list) result" where
  "initializeReturnRegister x rl = bind_res (par x (last_par x - 2)) (\<lambda>ty. bind_res (size_return x ty rl) (\<lambda>rl'. Inr (ty, rl')))"

definition setRegOperands :: "parse_ctx \<Rightarrow> deps_state \<Rightarrow> (nat list \<times> deps_state) result" where
  "setRegOperands x st =
     bind_res (par x (last_par x - 1)) (\<lambda>a.
     bind_res (reg_operand a st) (\<lambda>(ra, st1).
     bind_res (par x (last_par x)) (\<lambda>b.
     bind_res (reg_operand b st1) (\<lambda>(rb, st2). Inr (ra @ rb, st2)))))"

definition setImmOperands :: "parse_ctx \<Rightarrow> string list result" where
  "setImmOperands x =
     bind_res (par x (last_par x - 1)) (\<lambda>a. bind_res (par x (last_par x)) (\<lambda>b. Inr (filter (\<lambda>p. \<not> isRegister p) [a, b])))"

definition immPosition :: "parse_ctx \<Rightarrow> bool result" where
  "immPosition x = bind_res (par x (last_par x - 1)) (\<lambda>a. Inr (\<not> isRegister a))"

text \<open>\<open>pipelined()\<close> divides by the number of cycles of a stage, a third of the cycles.\<close>

definition pipelined :: "parse_ctx \<Rightarrow> nat \<Rightarrow> unit result" where
  "pipelined x cyc = (if pc_pipelined x \<and> cyc div 3 = 0 then Inl DivByZero else Inr ())"

section \<open>Floating-point immediates\<close>

text \<open>
  The position of the last occurrence of \<open>c\<close> before the last character, or 0. The digits behind the
  decimal point are moved over it, one for each power of ten.
\<close>

definition last_pos :: "char \<Rightarrow> string \<Rightarrow> nat" where
  "last_pos c s = foldl (\<lambda>p i. if s ! i = c then i else p) 0 [0..<length s - 1]"

fun shift_left :: "nat \<Rightarrow> nat \<Rightarrow> string \<Rightarrow> string" where
  "shift_left i 0 s = s"
| "shift_left i (Suc n) s = shift_left (Suc i) n (s[i := s ! Suc i])"

definition sciToDecimal :: "string \<Rightarrow> string result" where
  "sciToDecimal s =
     (if s = [] then Inl (Undefined ''immediateValue[]'')
      else let d = last_pos CHR ''.'' s; e = last_pos CHR ''e'' s
      in bind_res (suffix_at (int e + 2) s) (\<lambda>t.
         let m = s32 (atol t) in
         if m < 0 \<and> int d + m < 0 \<or> int (length s) \<le> int d + m then Inl (Undefined ''immediateValue[]'')
         else Inr (take e ((shift_left d (nat m) s)[nat (int d + m) := CHR ''.'']))))"

definition hex_val :: "char \<Rightarrow> nat option" where
  "hex_val c = (let n = of_char c :: nat in
     if 48 \<le> n \<and> n \<le> 57 then Some (n - 48) else if 97 \<le> n \<and> n \<le> 102 then Some (n - 87) else if 65 \<le> n \<and> n \<le> 70 then Some (n - 55) else None)"

fun hex_digits :: "nat \<Rightarrow> string \<Rightarrow> nat" where
  "hex_digits acc [] = acc"
| "hex_digits acc (c # cs) = (case hex_val c of None \<Rightarrow> acc | Some d \<Rightarrow> hex_digits (16 * acc + d) cs)"

text \<open>\<open>strtol\<close> of a text whose second character is \<open>x\<close>, to the base 16 and to the base the text names; it saturates.\<close>

definition strtol16 :: "string \<Rightarrow> int64" where
  "strtol16 s = word_of_nat (min (2 ^ 63 - 1) (if hd s = CHR ''0'' then hex_digits 0 (drop 2 s) else hex_digits 0 s))"

definition strtol0 :: "string \<Rightarrow> int64" where
  "strtol0 s = word_of_nat (min (2 ^ 63 - 1) (if hd s = CHR ''0'' then hex_digits 0 (drop 2 s) else digits_val 0 s))"

function show_nat :: "nat \<Rightarrow> string" where
  "show_nat n = (if n < 10 then [char_of (48 + n)] else show_nat (n div 10) @ [char_of (48 + n mod 10)])"
  by auto
termination by (relation "measure id") auto

declare show_nat.simps [simp del]

definition show_int :: "int \<Rightarrow> string" where
  "show_int k = (if k < 0 then CHR ''-'' # show_nat (nat (- k)) else show_nat (nat k))"

definition convertImmediate :: "fpu \<Rightarrow> fp_text \<Rightarrow> string \<Rightarrow> string \<Rightarrow> string result" where
  "convertImmediate u t ty s =
     (if 1 < length s \<and> s ! 1 = CHR ''x''
      then Inr (if ty = ''double'' then ft_to_string t (fp_dtou u (fp_itod u (strtol16 s)))
                else if ty = ''float'' then ft_to_string t (fp_ftod u (fp_itof u (strtol16 s)))
                else show_int (sint (ucast (strtol0 s) :: 32 word)))
      else sciToDecimal s)"

definition fp_immediate :: "parse_ctx \<Rightarrow> string \<Rightarrow> string \<Rightarrow> int64 result" where
  "fp_immediate x ty s = bind_res (convertImmediate (pc_fpu x) (pc_text x) ty s) (ft_stod (pc_text x))"

section \<open>Integer, bitwise and floating-point operations\<close>

type_synonym parsed = "(instr option \<times> register_list) result"

text \<open>An addition with an immediate is a counter.\<close>

definition parse_int :: "parse_ctx \<Rightarrow> (int_args \<Rightarrow> instr_class) \<Rightarrow> nat \<Rightarrow> int \<Rightarrow> (nat \<times> int) option \<Rightarrow> register_list \<Rightarrow> parsed" where
  "parse_int x mk cyc f counter rl =
     bind_res (initializeReturnRegister x rl) (\<lambda>(ty, rl1).
     bind_res (setRegOperands x (rl1, [])) (\<lambda>(ops, rl2, deps).
     bind_res (setImmOperands x) (\<lambda>imms.
     bind_res (immPosition x) (\<lambda>first.
       let imm = (if imms = [] then 0 else word_of_int (atol (hd imms)));
           (cyc', f') = (case counter of Some cf \<Rightarrow> if imms \<noteq> [] then cf else (cyc, f) | None \<Rightarrow> (cyc, f))
       in Inr (Some (new_instr x ty cyc' deps f' (mk \<lparr> ia_regs = length ops, ia_imm = imm, ia_immFirst = first \<rparr>)), rl2)))))"

text \<open>\<open>fd\<close> is the unit for \<open>double\<close>, \<open>fs\<close> the one for every other type.\<close>

definition parse_fp :: "parse_ctx \<Rightarrow> (fp_args \<Rightarrow> instr_class) \<Rightarrow> nat \<Rightarrow> int \<Rightarrow> int \<Rightarrow> register_list \<Rightarrow> parsed" where
  "parse_fp x mk cyc fd fs rl =
     bind_res (initializeReturnRegister x rl) (\<lambda>(ty, rl1).
     bind_res (setRegOperands x (rl1, [])) (\<lambda>(ops, rl2, deps).
     bind_res (setImmOperands x) (\<lambda>imms.
     bind_res (immPosition x) (\<lambda>first.
     bind_res (if imms = [] then Inr 0 else fp_immediate x ty (hd imms)) (\<lambda>imm.
     bind_res (pipelined x cyc) (\<lambda>_.
       Inr (Some (new_instr x ty cyc deps (if ty = ''double'' then fd else fs)
                   (mk \<lparr> fa_regs = length ops, fa_immSP = fp_dtof (pc_fpu x) imm, fa_immDP = imm, fa_immFirst = first \<rparr>)), rl2)))))))"

text \<open>One operation per opcode, with its cycle count and its functional unit.\<close>

definition parse_add :: "parse_ctx \<Rightarrow> register_list \<Rightarrow> parsed" where
  "parse_add x rl = parse_int x Add (pc_cycles x ''add'') 1 (Some (pc_cycles x ''counter'', 0)) rl"

definition parse_sub :: "parse_ctx \<Rightarrow> register_list \<Rightarrow> parsed" where
  "parse_sub x rl = parse_int x Sub (pc_cycles x ''sub'') 1 None rl"

definition parse_mul :: "parse_ctx \<Rightarrow> register_list \<Rightarrow> parsed" where
  "parse_mul x rl = parse_int x Mul (pc_cycles x ''mul'') 2 None rl"

definition parse_udiv :: "parse_ctx \<Rightarrow> register_list \<Rightarrow> parsed" where
  "parse_udiv x rl = parse_int x UDiv (pc_cycles x ''udiv'') 2 None rl"

definition parse_sdiv :: "parse_ctx \<Rightarrow> register_list \<Rightarrow> parsed" where
  "parse_sdiv x rl = parse_int x SDiv (pc_cycles x ''sdiv'') 2 None rl"

definition parse_urem :: "parse_ctx \<Rightarrow> register_list \<Rightarrow> parsed" where
  "parse_urem x rl = parse_int x URem (pc_cycles x ''urem'') 2 None rl"

definition parse_srem :: "parse_ctx \<Rightarrow> register_list \<Rightarrow> parsed" where
  "parse_srem x rl = parse_int x SRem (pc_cycles x ''srem'') 2 None rl"

definition parse_shl :: "parse_ctx \<Rightarrow> register_list \<Rightarrow> parsed" where
  "parse_shl x rl = parse_int x Shl (pc_cycles x ''shl'') 3 None rl"

definition parse_lshr :: "parse_ctx \<Rightarrow> register_list \<Rightarrow> parsed" where
  "parse_lshr x rl = parse_int x LShr (pc_cycles x ''lshr'') 3 None rl"

definition parse_ashr :: "parse_ctx \<Rightarrow> register_list \<Rightarrow> parsed" where
  "parse_ashr x rl = parse_int x AShr (pc_cycles x ''ashr'') 3 None rl"

definition parse_and :: "parse_ctx \<Rightarrow> register_list \<Rightarrow> parsed" where
  "parse_and x rl = parse_int x And (pc_cycles x ''and'') 4 None rl"

definition parse_or :: "parse_ctx \<Rightarrow> register_list \<Rightarrow> parsed" where
  "parse_or x rl = parse_int x Or (pc_cycles x ''or'') 4 None rl"

definition parse_xor :: "parse_ctx \<Rightarrow> register_list \<Rightarrow> parsed" where
  "parse_xor x rl = parse_int x Xor (pc_cycles x ''xor'') 4 None rl"

definition parse_fadd :: "parse_ctx \<Rightarrow> register_list \<Rightarrow> parsed" where
  "parse_fadd x rl = parse_fp x FAdd (pc_cycles x ''fadd'') 6 5 rl"

definition parse_fsub :: "parse_ctx \<Rightarrow> register_list \<Rightarrow> parsed" where
  "parse_fsub x rl = parse_fp x FSub (pc_cycles x ''fsub'') 6 5 rl"

definition parse_fmul :: "parse_ctx \<Rightarrow> register_list \<Rightarrow> parsed" where
  "parse_fmul x rl = parse_fp x FMul (pc_cycles x ''fmul'') 9 7 rl"

definition parse_fdiv :: "parse_ctx \<Rightarrow> register_list \<Rightarrow> parsed" where
  "parse_fdiv x rl = parse_fp x FDiv (pc_cycles x ''fdiv'') 10 8 rl"

definition parse_frem :: "parse_ctx \<Rightarrow> register_list \<Rightarrow> parsed" where
  "parse_frem x rl = parse_fp x (\<lambda>_. FRem) (pc_cycles x ''frem'') 10 8 rl"

section \<open>Terminators\<close>

definition parse_ret :: "parse_ctx \<Rightarrow> register_list \<Rightarrow> parsed" where
  "parse_ret x rl =
     bind_res (par x (last_par x)) (\<lambda>p.
       Inr (Some (new_instr x (if str_find ''void'' p \<noteq> 0 then ''void'' else []) (pc_cycles x ''ret'') [] (-1) Ret), rl))"

definition parse_br :: "parse_ctx \<Rightarrow> register_list \<Rightarrow> parsed" where
  "parse_br x rl =
     (if length (pc_ps x) = 3
      then bind_res (par x 2) (\<lambda>p. bind_res (suffix_at 1 p) (\<lambda>d.
             Inr (Some (new_instr x ''void'' (pc_cycles x ''br'') [] (-1) (Br True 0 [] d)), rl)))
      else bind_res (par x 1) (\<lambda>ty.
           bind_res (par x 4) (\<lambda>p4. bind_res (suffix_at 1 p4) (\<lambda>b0.
           bind_res (par x 6) (\<lambda>p6. bind_res (suffix_at 1 p6) (\<lambda>b1.
           bind_res (par x 2) (\<lambda>p2. bind_res (setRegister p2 (rl, [])) (\<lambda>(c, rl1, deps).
           bind_res (upd_reg (setSize ty) c rl1) (\<lambda>rl2.
             Inr (Some (new_instr x ty (pc_cycles x ''br'') deps 11 (Br False c [b0, b1] [])), rl2))))))))))"

text \<open>
  The cases of a switch: after the type, which starts with the next \<open>i\<close>, a value up to the comma, and a
  label from the \<open>%\<close> to the next blank. \<open>n\<close> is the number of cases to go.
\<close>

fun switch_cases :: "string \<Rightarrow> nat \<Rightarrow> int \<Rightarrow> (int list \<times> string list) result" where
  "switch_cases p 0 loc = Inr ([], [])"
| "switch_cases p (Suc n) loc =
     (let l1 = str_find_from '' '' (str_find_from ''i'' loc p) p + 1 in
      bind_res (substr l1 (str_find_from '','' l1 p - l1) p) (\<lambda>v.
      let l2 = str_find_from ''%'' l1 p + 1 in
      bind_res (substr l2 (str_find_from '' '' l2 p - l2) p) (\<lambda>b.
      bind_res (switch_cases p n l2) (\<lambda>(vs, bs). Inr (s32 (atol v) # vs, b # bs)))))"

definition parse_switch :: "parse_ctx \<Rightarrow> register_list \<Rightarrow> parsed" where
  "parse_switch x rl =
     bind_res (par x 1) (\<lambda>ty.
     bind_res (par x 4) (\<lambda>p4. bind_res (suffix_at 1 p4) (\<lambda>b0.
     bind_res (par x 2) (\<lambda>p2. bind_res (setRegister p2 (rl, [])) (\<lambda>(c, rl1, deps).
     bind_res (par x 5) (\<lambda>p5.
     bind_res (switch_cases p5 (count_list p5 CHR ''%'') 0) (\<lambda>(vs, bs).
       Inr (Some (new_instr x ty (pc_cycles x ''switch'') deps 11 (LLVMSwitch (b0 # bs) (0 # vs))), rl1))))))))"

text \<open>\<open>resume\<close> creates no instruction, but registers its operand; \<open>invoke\<close> falls through to it.\<close>

definition parse_resume :: "parse_ctx \<Rightarrow> register_list \<Rightarrow> parsed" where
  "parse_resume x rl =
     bind_res (par x 0) (\<lambda>_. bind_res (par x 1) (\<lambda>p. bind_res (setRegister p (rl, [])) (\<lambda>(_, rl1, _). Inr (None, rl1))))"

section \<open>Memory operations\<close>

text \<open>An address given as a constant: the register \<open>global_<address>\<close>, set to the second word of \<open>p\<close>.\<close>

definition second_word :: "string \<Rightarrow> string result" where
  "second_word p = (let ws = blank_words p in if 1 < length ws then Inr (ws ! 1) else Inl (Undefined ''substring[1]''))"

definition set_address :: "string \<Rightarrow> nat \<Rightarrow> register_list \<Rightarrow> register_list result" where
  "set_address w k rl = upd_reg (reg_setValue (word_of_int (atol w))) k rl"

definition global_pointer :: "string \<Rightarrow> deps_state \<Rightarrow> (nat \<times> deps_state) result" where
  "global_pointer p st =
     bind_res (second_word p) (\<lambda>w.
     bind_res (setRegister (''%global_'' @ w) st) (\<lambda>(k, rl, deps).
     bind_res (set_address w k rl) (\<lambda>rl'. Inr (k, rl', deps))))"

definition find_align :: "parse_ctx \<Rightarrow> int result" where
  "find_align x = (let n = length (takeWhile (\<lambda>p. p \<noteq> ''align'') (pc_ps x))
     in if n < length (pc_ps x) then Inr (int n) else Inl (Undefined ''parameters[]''))"

definition parse_load :: "parse_ctx \<Rightarrow> register_list \<Rightarrow> parsed" where
  "parse_load x rl =
     bind_res (par x 0) (\<lambda>p0.
     bind_res (par x (if p0 = ''volatile'' then 1 else 0)) (\<lambda>ty.
     bind_res (size_return x ty rl) (\<lambda>rl1.
     bind_res (find_align x) (\<lambda>al.
     bind_res (par x (al - 2)) (\<lambda>q.
     bind_res (par x (al - 1)) (\<lambda>p.
     bind_res (if contains_str ''inttoptr'' q then global_pointer p (rl1, [])
               else if isRegister p then setRegister p (rl1, []) else Inl (Undefined ''uninitialised pointer'')) (\<lambda>(k, rl2, deps).
     bind_res (par x (al + 1)) (\<lambda>_.
       Inr (Some (new_instr x ty (pc_cycles x ''load'') deps (-1) (Load k)), rl2)))))))))"

text \<open>The parameters of a store are counted from its type, at \<open>index\<close>.\<close>

definition store_pointer :: "parse_ctx \<Rightarrow> int \<Rightarrow> register_list \<Rightarrow> (nat \<times> deps_state) result" where
  "store_pointer x index rl =
     bind_res (par x (index + 3)) (\<lambda>q.
       if contains_str ''inttoptr'' q
       then bind_res (par x (index + 4)) (\<lambda>p. bind_res (global_pointer p (rl, [])) (\<lambda>r. bind_res (par x (index + 6)) (\<lambda>_. Inr r)))
       else if isRegister q then bind_res (setRegister q (rl, [])) (\<lambda>r. bind_res (par x (index + 5)) (\<lambda>_. Inr r))
       else Inl (Undefined ''uninitialised pointer''))"

definition store_value :: "parse_ctx \<Rightarrow> string \<Rightarrow> string \<Rightarrow> nat \<Rightarrow> deps_state \<Rightarrow> parsed" where
  "store_value x ty v k st =
     (if isRegister v
      then bind_res (setRegister v st) (\<lambda>(kv, rl, deps).
           bind_res (upd_reg (setSize ty) kv rl) (\<lambda>rl1.
             Inr (Some (new_instr x ty (pc_cycles x ''store'') deps (-1) (Store k (Some kv) False (pc_junk x))), rl1)))
      else Inr (Some (new_instr x ty (pc_cycles x ''store'') (snd st) (-1)
             (if ty \<noteq> [] \<and> hd ty = CHR ''i'' then Store k None True (word_of_int (atol v)) else Store k None False (pc_junk x))), fst st))"

definition parse_store :: "parse_ctx \<Rightarrow> register_list \<Rightarrow> parsed" where
  "parse_store x rl =
     bind_res (par x 1) (\<lambda>p1. let index = (if p1 = ''volatile'' then 2 else 1) in
     bind_res (par x index) (\<lambda>ty.
     bind_res (store_pointer x index rl) (\<lambda>(k, st).
     bind_res (par x (index + 1)) (\<lambda>v. store_value x ty v k st))))"

text \<open>
  The base of an address computation. A base that is not in the list is added to it under its parameter
  with the \<open>%\<close>, and without \<open>inbounds\<close> under the parameter after it. The result is the base register, the
  type, the return type and the index of the last parameter before the indices.
\<close>

definition append_register :: "string \<Rightarrow> register_list \<Rightarrow> nat \<times> register_list" where
  "append_register name rl = (length (rl_RegList rl), addRegister (Register name 0) rl)"

definition gep_base :: "string \<Rightarrow> string result \<Rightarrow> string result \<Rightarrow> register_list \<Rightarrow> (nat \<times> register_list) result" where
  "gep_base p words missing rl =
     (if contains_str ''inttoptr'' p
      then bind_res words (\<lambda>q. bind_res (second_word q) (\<lambda>w.
           case append_register (''%global_'' @ w) rl of (k, rl1) \<Rightarrow> bind_res (set_address w k rl1) (\<lambda>rl2. Inr (k, rl2))))
      else bind_res (suffix_at 1 p) (\<lambda>name.
           case findRegister name rl of
             Some k \<Rightarrow> Inr (k, rl)
           | None \<Rightarrow> bind_res missing (\<lambda>m. Inr (append_register m rl))))"

definition ends_star :: "string \<Rightarrow> bool result" where
  "ends_star s = (if s = [] then Inl (Undefined ''back() of an empty string'') else Inr (last s = CHR ''*''))"

definition gep_head :: "parse_ctx \<Rightarrow> register_list \<Rightarrow> (nat \<times> register_list \<times> string \<times> string \<times> int) result" where
  "gep_head x rl =
     bind_res (par x 0) (\<lambda>p0.
       if p0 = ''inbounds''
       then bind_res (par x 1) (\<lambda>pty. bind_res (par x 3) (\<lambda>p3.
            bind_res (gep_base p3 (par x 4) (Inr p3) rl) (\<lambda>(k, rl1).
            bind_res (ends_star pty) (\<lambda>st.
              Inr (k, rl1, pty, pty, (if st then 2 else 3) + (if contains_str ''inttoptr'' p3 then 1 else 0))))))
       else bind_res (par x 2) (\<lambda>p2.
            bind_res (gep_base p2 (par x 3) (par x 3) rl) (\<lambda>(k, rl1).
            bind_res (ends_star p0) (\<lambda>st. Inr (k, rl1, p0, [], if st then 1 else 2)))))"

text \<open>The named type of an array or of a pointer, if it is known.\<close>

definition gep_type :: "type_list \<Rightarrow> string \<Rightarrow> int option result" where
  "gep_type ts pty =
     (if pty \<noteq> [] \<and> (hd pty = CHR ''['' \<or> hd pty = CHR ''%'')
      then let pc = str_find ''%'' pty; stop = str_find (if hd pty = CHR ''['' then '']'' else '' '') pty
           in bind_res (substr (pc + 1) (stop - pc - 1) pty) (\<lambda>name. Inr (findType name ts))
      else Inr None)"

text \<open>The indices, pairs of a type and a value from position \<open>k\<close> on.\<close>

fun gep_operands :: "string list \<Rightarrow> deps_state \<Rightarrow> (int64 list \<times> deps_state) result" where
  "gep_operands [] st = Inr ([], st)"
| "gep_operands [ty] st = Inl (Undefined ''parameters[]'')"
| "gep_operands (ty # v # ps) st =
     bind_res (if isRegister v then bind_res (setRegister v st) (\<lambda>(k, st1). Inr (0, st1))
               else Inr (word_of_int (atol v), fst st, snd st @ [None])) (\<lambda>(im, st1).
     bind_res (gep_operands ps st1) (\<lambda>(ims, st2). Inr (im # ims, st2)))"

definition parse_gep :: "parse_ctx \<Rightarrow> register_list \<Rightarrow> parsed" where
  "parse_gep x rl =
     bind_res (size_return x ''pointer'' rl) (\<lambda>rl0.
     bind_res (gep_head x rl0) (\<lambda>(k, rl1, pty, rty, index).
     bind_res (reg_at rl1 k) (\<lambda>base.
     bind_res (case pc_ret x of Some r \<Rightarrow> if reg_Global base then upd_reg (\<lambda>reg. Inr (reg\<lparr> reg_Global := True \<rparr>)) r rl1 else Inr rl1
               | None \<Rightarrow> Inl (Undefined ''null register'')) (\<lambda>rl2.
     bind_res (gep_type (pc_types x) pty) (\<lambda>lt.
     bind_res (gep_operands (drop (nat index + 1) (pc_ps x)) (rl2, [])) (\<lambda>(ims, rl3, deps).
       Inr (Some (new_instr x rty (pc_cycles x ''gep'') deps 12
              (GetElementPtr \<lparr> ga_Pty = pty, ga_LLVMType = lt, ga_ImmIdx = ims, ga_PtrVal = k, ga_Index = length ims \<rparr>)), rl3)))))))"

section \<open>Conversions, comparisons, phi and select\<close>

definition parse_conversion :: "parse_ctx \<Rightarrow> (string \<Rightarrow> instr_class) \<Rightarrow> nat \<Rightarrow> register_list \<Rightarrow> parsed" where
  "parse_conversion x mk cyc rl =
     bind_res (par x 0) (\<lambda>ty. bind_res (par x 3) (\<lambda>orig. bind_res (par x 1) (\<lambda>v.
     bind_res (reg_operand v (rl, [])) (\<lambda>(_, rl1, deps). Inr (Some (new_instr x ty cyc deps 13 (mk orig)), rl1)))))"

definition parse_trunc :: "parse_ctx \<Rightarrow> register_list \<Rightarrow> parsed" where
  "parse_trunc x rl = parse_conversion x Trunc (pc_cycles x ''trunc'') rl"

definition parse_zext :: "parse_ctx \<Rightarrow> register_list \<Rightarrow> parsed" where
  "parse_zext x rl = parse_conversion x ZExt (pc_cycles x ''zext'') rl"

definition parse_sext :: "parse_ctx \<Rightarrow> register_list \<Rightarrow> parsed" where
  "parse_sext x rl = parse_conversion x SExt (pc_cycles x ''sext'') rl"

definition parse_fptoui :: "parse_ctx \<Rightarrow> register_list \<Rightarrow> parsed" where
  "parse_fptoui x rl = parse_conversion x FPToUI (pc_cycles x ''fptoui'') rl"

definition parse_fptosi :: "parse_ctx \<Rightarrow> register_list \<Rightarrow> parsed" where
  "parse_fptosi x rl = parse_conversion x FPToSI (pc_cycles x ''fptosi'') rl"

definition parse_uitofp :: "parse_ctx \<Rightarrow> register_list \<Rightarrow> parsed" where
  "parse_uitofp x rl = parse_conversion x UIToFP (pc_cycles x ''uitofp'') rl"

definition parse_sitofp :: "parse_ctx \<Rightarrow> register_list \<Rightarrow> parsed" where
  "parse_sitofp x rl = parse_conversion x SIToFP (pc_cycles x ''uitofp'') rl"

definition parse_fptrunc :: "parse_ctx \<Rightarrow> register_list \<Rightarrow> parsed" where
  "parse_fptrunc x rl = parse_conversion x FPTrunc (pc_cycles x ''fptrunc'') rl"

definition parse_fpext :: "parse_ctx \<Rightarrow> register_list \<Rightarrow> parsed" where
  "parse_fpext x rl = parse_conversion x FPExt (pc_cycles x ''fpext'') rl"

definition parse_ptrtoint :: "parse_ctx \<Rightarrow> register_list \<Rightarrow> parsed" where
  "parse_ptrtoint x rl = parse_conversion x (\<lambda>_. PtrToInt) (pc_cycles x ''ptrtoint'') rl"

definition parse_inttoptr :: "parse_ctx \<Rightarrow> register_list \<Rightarrow> parsed" where
  "parse_inttoptr x rl = parse_conversion x (\<lambda>_. IntToPtr) (pc_cycles x ''inttoptr'') rl"

definition parse_bitcast :: "parse_ctx \<Rightarrow> register_list \<Rightarrow> parsed" where
  "parse_bitcast x rl = parse_conversion x (\<lambda>_. BitCast) (pc_cycles x ''bitcast'') rl"

definition parse_addrspacecast :: "parse_ctx \<Rightarrow> register_list \<Rightarrow> parsed" where
  "parse_addrspacecast x rl = parse_conversion x (\<lambda>_. AddrSpaceCast) (pc_cycles x ''addrspacecast'') rl"

definition icmp_flags :: "(string \<times> int64) list" where
  "icmp_flags = [(''eq'', 0x800), (''ne'', 0x1000), (''ugt'', 0x2000), (''uge'', 0x4000), (''ult'', 0x8000), (''ule'', 0x10000),
     (''sgt'', 0x20000), (''sge'', 0x40000), (''slt'', 0x80000), (''sle'', 0x100000)]"

definition fcmp_flags :: "(string \<times> int64) list" where
  "fcmp_flags = [(''false'', 0x200000), (''oeq'', 0x800000), (''ogt'', 0x1000000), (''oge'', 0x2000000), (''olt'', 0x4000000), (''ole'', 0x8000000),
     (''one'', 0x10000000), (''ord'', 0x20000000), (''ueq'', 0x40000000), (''ugt'', 0x2000), (''uge'', 0x4000), (''ult'', 0x8000), (''ule'', 0x10000),
     (''une'', 0x80000000), (''uno'', 0x100000000), (''true'', 0x400000)]"

definition flag_of :: "(string \<times> int64) list \<Rightarrow> string \<Rightarrow> int64" where
  "flag_of tab cond = (case map_of tab cond of None \<Rightarrow> 0 | Some f \<Rightarrow> f)"

text \<open>Of two immediates the second is kept.\<close>

definition parse_icmp :: "parse_ctx \<Rightarrow> register_list \<Rightarrow> parsed" where
  "parse_icmp x rl =
     bind_res (par x 0) (\<lambda>cond. bind_res (par x 1) (\<lambda>ty.
     bind_res (par x (last_par x - 1)) (\<lambda>a. bind_res (reg_operand a (rl, [])) (\<lambda>(ra, st1).
     bind_res (par x (last_par x)) (\<lambda>b. bind_res (reg_operand b st1) (\<lambda>(rb, rl2, deps).
       let imm = (if \<not> isRegister b then word_of_int (atol b) else if \<not> isRegister a then word_of_int (atol a) else 0)
       in Inr (Some (new_instr x ty (pc_cycles x ''icmp'') deps 11 (ICmp (flag_of icmp_flags cond) (length (ra @ rb)) imm)), rl2)))))))"

definition parse_fcmp :: "parse_ctx \<Rightarrow> register_list \<Rightarrow> parsed" where
  "parse_fcmp x rl =
     bind_res (par x 0) (\<lambda>cond. bind_res (par x 1) (\<lambda>ty.
     bind_res (par x (last_par x - 1)) (\<lambda>a. bind_res (reg_operand a (rl, [])) (\<lambda>(ra, st1).
     bind_res (par x (last_par x)) (\<lambda>b. bind_res (reg_operand b st1) (\<lambda>(rb, rl2, deps).
     bind_res (if isRegister b then Inr 0 else fp_immediate x ty b) (\<lambda>imm.
       Inr (Some (new_instr x ty (pc_cycles x ''fcmp'') deps 11 (FCmp (flag_of fcmp_flags cond) imm)), rl2))))))))"

text \<open>One incoming value, \<open>[ value, %label ]\<close>.\<close>

definition phi_pair :: "string \<Rightarrow> (string \<times> string) result" where
  "phi_pair v = (let comma = str_find '','' v in
     bind_res (substr 2 (comma - 2) v) (\<lambda>val.
     bind_res (substr (comma + 3) (str_find '']'' v - comma - 4) v) (\<lambda>label. Inr (val, label))))"

fun phi_pairs :: "string list \<Rightarrow> deps_state \<Rightarrow> (string list \<times> nat option list \<times> string list \<times> deps_state) result" where
  "phi_pairs [] st = Inr ([], [], [], st)"
| "phi_pairs (v # vs) st =
     bind_res (phi_pair v) (\<lambda>(val, label).
     bind_res (if isRegister val then bind_res (setRegister val st) (\<lambda>(k, st1). Inr (''reg'', Some k, st1))
               else Inr (if val = ''true'' then ''1'' else if val = ''false'' then ''0'' else val, None, st)) (\<lambda>(pv, pr, st1).
     bind_res (phi_pairs vs st1) (\<lambda>(pvs, prs, ls, st2). Inr (pv # pvs, pr # prs, label # ls, st2))))"

definition parse_phi :: "parse_ctx \<Rightarrow> register_list \<Rightarrow> parsed" where
  "parse_phi x rl =
     bind_res (par x 0) (\<lambda>ty. bind_res (size_return x ty rl) (\<lambda>rl1.
     bind_res (phi_pairs (tl (pc_ps x)) (rl1, [])) (\<lambda>(vs, rs, ls, rl2, deps).
       Inr (Some (new_instr x ty (pc_cycles x ''phi'') deps 11 (Phi vs rs ls)), rl2))))"

text \<open>A constant condition leaves no operand: the condition is then not read.\<close>

definition parse_select :: "parse_ctx \<Rightarrow> register_list \<Rightarrow> parsed" where
  "parse_select x rl =
     bind_res (par x 2) (\<lambda>ty. bind_res (size_return x ty rl) (\<lambda>rl1.
     bind_res (par x 1) (\<lambda>c. bind_res (reg_operand c (rl1, [])) (\<lambda>(_, st1).
     bind_res (par x 3) (\<lambda>a. bind_res (reg_operand a st1) (\<lambda>(_, st2).
     bind_res (par x 5) (\<lambda>b. bind_res (reg_operand b st2) (\<lambda>(_, rl3, deps).
     bind_res (if isRegister b then Inr 0 else stol b) (\<lambda>ib.
       let ia = (if isRegister a then 0 else atol a)
       in Inr (Some (new_instr x ty (pc_cycles x ''select'') deps 11
                (Select [\<not> isRegister a, \<not> isRegister b] [word_of_int ia, word_of_int ib])), rl3))))))))))"

section \<open>One line\<close>

fun parse_case :: "opValue \<Rightarrow> parse_ctx \<Rightarrow> register_list \<Rightarrow> parsed" where
  "parse_case IR_Ret x rl = parse_ret x rl"
| "parse_case IR_Br x rl = parse_br x rl"
| "parse_case IR_Switch x rl = parse_switch x rl"
| "parse_case IR_Invoke x rl = parse_resume x rl"
| "parse_case IR_Resume x rl = parse_resume x rl"
| "parse_case IR_Add x rl = parse_add x rl"
| "parse_case IR_FAdd x rl = parse_fadd x rl"
| "parse_case IR_Sub x rl = parse_sub x rl"
| "parse_case IR_FSub x rl = parse_fsub x rl"
| "parse_case IR_Mul x rl = parse_mul x rl"
| "parse_case IR_FMul x rl = parse_fmul x rl"
| "parse_case IR_UDiv x rl = parse_udiv x rl"
| "parse_case IR_SDiv x rl = parse_sdiv x rl"
| "parse_case IR_FDiv x rl = parse_fdiv x rl"
| "parse_case IR_URem x rl = parse_urem x rl"
| "parse_case IR_SRem x rl = parse_srem x rl"
| "parse_case IR_FRem x rl = parse_frem x rl"
| "parse_case IR_Shl x rl = parse_shl x rl"
| "parse_case IR_LShr x rl = parse_lshr x rl"
| "parse_case IR_AShr x rl = parse_ashr x rl"
| "parse_case IR_And x rl = parse_and x rl"
| "parse_case IR_Or x rl = parse_or x rl"
| "parse_case IR_Xor x rl = parse_xor x rl"
| "parse_case IR_Load x rl = parse_load x rl"
| "parse_case IR_Store x rl = parse_store x rl"
| "parse_case IR_GetElementPtr x rl = parse_gep x rl"
| "parse_case IR_Trunc x rl = parse_trunc x rl"
| "parse_case IR_ZExt x rl = parse_zext x rl"
| "parse_case IR_SExt x rl = parse_sext x rl"
| "parse_case IR_FPToUI x rl = parse_fptoui x rl"
| "parse_case IR_FPToSI x rl = parse_fptosi x rl"
| "parse_case IR_UIToFP x rl = parse_uitofp x rl"
| "parse_case IR_SIToFP x rl = parse_sitofp x rl"
| "parse_case IR_FPTrunc x rl = parse_fptrunc x rl"
| "parse_case IR_FPExt x rl = parse_fpext x rl"
| "parse_case IR_PtrToInt x rl = parse_ptrtoint x rl"
| "parse_case IR_IntToPtr x rl = parse_inttoptr x rl"
| "parse_case IR_BitCast x rl = parse_bitcast x rl"
| "parse_case IR_AddrSpaceCast x rl = parse_addrspacecast x rl"
| "parse_case IR_ICmp x rl = parse_icmp x rl"
| "parse_case IR_FCmp x rl = parse_fcmp x rl"
| "parse_case IR_PHI x rl = parse_phi x rl"
| "parse_case IR_Select x rl = parse_select x rl"
| "parse_case _ x rl = Inr (None, rl)"

lemmas parse_ops =
  parse_add_def parse_fadd_def parse_sub_def parse_fsub_def parse_mul_def parse_fmul_def parse_udiv_def parse_sdiv_def parse_fdiv_def parse_urem_def parse_srem_def parse_frem_def parse_shl_def parse_lshr_def parse_ashr_def parse_and_def parse_or_def parse_xor_def parse_trunc_def parse_zext_def parse_sext_def parse_fptoui_def parse_fptosi_def parse_uitofp_def parse_sitofp_def parse_fptrunc_def parse_fpext_def parse_ptrtoint_def parse_inttoptr_def parse_bitcast_def parse_addrspacecast_def

text \<open>
  What is the same for all lines of a file: cycle counts, pipelining, the host, and the memory that new
  objects are created in.
\<close>

record parse_env =
  pe_cycles :: "string \<Rightarrow> nat"
  pe_pipelined :: bool
  pe_fpu :: fpu
  pe_text :: fp_text
  pe_junk :: int64

text \<open>The return register is looked up or created before anything else.\<close>

definition return_register :: "string option \<Rightarrow> register_list \<Rightarrow> nat option \<times> register_list" where
  "return_register name rl = (case name of None \<Rightarrow> (None, rl) | Some n \<Rightarrow> map_prod Some id (get_register n rl))"

definition line_ctx :: "parse_env \<Rightarrow> type_list \<Rightarrow> string \<Rightarrow> string \<Rightarrow> nat option \<Rightarrow> string list \<Rightarrow> parse_ctx" where
  "line_ctx e ts line op ret ps =
     \<lparr> pc_line = line, pc_op = op, pc_ret = ret, pc_ps = ps, pc_cycles = pe_cycles e, pc_pipelined = pe_pipelined e,
       pc_types = ts, pc_fpu = pe_fpu e, pc_text = pe_text e, pc_junk = pe_junk e \<rparr>"

definition parse :: "parse_env \<Rightarrow> type_list \<Rightarrow> string \<Rightarrow> register_list \<Rightarrow> parsed" where
  "parse e ts line rl =
     bind_res (parse_head line) (\<lambda>(name, op, l).
       let st = return_register name rl in
       bind_res (tokens l []) (\<lambda>ps.
         case map_of switch_opMap op of None \<Rightarrow> Inr (None, snd st)
         | Some v \<Rightarrow> parse_case v (line_ctx e ts line op (fst st) ps) (snd st)))"

end
