(* ===== verification/LLVM_Module.thy ===== *)
theory LLVM_Module
  imports Basic_Block Runtime
begin

text \<open>
  The parser of an LLVM file, \<open>LLVMInterface::constructBBList\<close> in \<open>src/hwacc/llvm_interface.cc\<close>: named types
  and the header of the first function, then its basic blocks, whose lines \<open>BasicBlock::parse\<close> turns into
  instructions. The file is the list of its lines. The arguments of the function are the global variables
  of the communications interface: \<open>gv\<close> gives the one at an offset.
\<close>

lemma bind_res_cong [fundef_cong]: "r = r' \<Longrightarrow> (\<And>x. r' = Inr x \<Longrightarrow> f x = g x) \<Longrightarrow> bind_res r f = bind_res r' g"
  by (cases r') auto

record llvm_module =
  lm_types :: type_list
  lm_regs :: register_list
  lm_bbs :: "(string \<times> instr list) list"

section \<open>Types and function header\<close>

definition parse_struct :: "string \<Rightarrow> type_list \<Rightarrow> type_list result" where
  "parse_struct line ts = (let pos = str_find ''='' line in
     bind_res (substr 1 (pos - 2) line) (\<lambda>name.
       Inr (addType name (1 + (if pos < 0 then 0 else int (count_list (drop (nat pos) line) CHR '',''))) ts)))"

lemma str_find_from_bounds: "str_find_from pat pos s = k \<Longrightarrow> k \<noteq> -1 \<Longrightarrow> pos \<le> k \<and> 0 \<le> pos \<and> pos \<le> int (length s)"
  by (auto simp: str_find_from_def split: option.splits if_splits)

text \<open>
  The loop over the parameters of the function: every \<open>%\<close> that does not start a type is the name of one, up
  to the next comma, or up to the first closing parenthesis of the line.
\<close>

function global_params :: "(nat \<Rightarrow> addr result) \<Rightarrow> string \<Rightarrow> int \<Rightarrow> int \<Rightarrow> nat \<Rightarrow> register_list \<Rightarrow> register_list result" where
  "global_params gv line linePos percPos off rl =
     (if percPos < 0 then Inr rl
      else if str_find_from ''%struct'' linePos line = percPos
      then global_params gv line (percPos + 1) (str_find_from ''%'' (percPos + 1) line) off rl
      else let p = percPos + 1; c = str_find_from '','' p line; commaPos = (if c < 0 then str_find '')'' line else c)
           in bind_res (substr p (commaPos - p) line) (\<lambda>name. bind_res (gv off) (\<lambda>v.
                global_params gv line (p + 1) (str_find_from ''%'' (p + 1) line) (off + 8) (addRegister (Register name v) rl))))"
  by auto
termination
proof (relation "measure (\<lambda>(gv, line, linePos, percPos, off, rl). if percPos < 0 then 0 else nat (int (length line) - percPos) + 1)", simp, goal_cases)
  case (1 gv line linePos percPos off rl)
  then show ?case using str_find_from_bounds [of "''%''" "percPos + 1" line, OF refl] by auto
next
  case (2 gv line linePos percPos off rl p c commaPos name v)
  then show ?case using str_find_from_bounds [of "''%''" "percPos + 1 + 1" line, OF refl] by auto
qed

declare global_params.simps [simp del]

section \<open>Basic blocks\<close>

definition new_block :: "string \<Rightarrow> llvm_module \<Rightarrow> llvm_module" where
  "new_block name m = m\<lparr> lm_bbs := lm_bbs m @ [(name, [])] \<rparr>"

text \<open>Instructions go to the block created last.\<close>

definition addNode :: "instr \<Rightarrow> llvm_module \<Rightarrow> llvm_module result" where
  "addNode i m = (if lm_bbs m = [] then Inl (Undefined ''null basic block'')
     else Inr (m\<lparr> lm_bbs := butlast (lm_bbs m) @ [(fst (last (lm_bbs m)), snd (last (lm_bbs m)) @ [i])] \<rparr>))"

definition starts_with :: "string \<Rightarrow> string \<Rightarrow> bool" where
  "starts_with pat s \<longleftrightarrow> take (length pat) s = pat"

text \<open>The label in \<open>; <label>:5:\<close>, whose second colon newer versions of LLVM added.\<close>

definition label_name :: "string \<Rightarrow> string result" where
  "label_name line = (let labelEnd = str_find_from '' '' 10 line in
     bind_res (substr 10 (labelEnd - 10) line) (\<lambda>v.
       if v = [] then Inl (Undefined ''back() of an empty string'')
       else if last v = CHR '':'' then substr 10 (labelEnd - 11) line else Inr v))"

text \<open>The lines of a switch are joined; the last one is replaced by a bracket. A switch that does not end is read forever.\<close>

fun join_switch :: "string \<Rightarrow> string \<Rightarrow> string list \<Rightarrow> (string \<times> string list) result" where
  "join_switch acc line [] = (if contains_str '' ]'' line then Inr (acc @ '' ]'', []) else Inl (Undefined ''the loop over the switch does not end''))"
| "join_switch acc line (l # ls) = (if contains_str '' ]'' line then Inr (acc @ '' ]'', l # ls) else join_switch (acc @ line) l ls)"

lemma join_switch_length: "join_switch acc line ls = Inr (l, rest) \<Longrightarrow> length rest \<le> length ls"
  by (induction acc line ls rule: join_switch.induct) (auto split: if_splits)

definition join_line :: "string \<Rightarrow> string list \<Rightarrow> (string \<times> string list) result" where
  "join_line line ls = (if contains_str ''switch'' line then join_switch [] line ls else Inr (line, ls))"

lemma join_line_length: "join_line line ls = Inr (l, rest) \<Longrightarrow> length rest \<le> length ls"
  by (auto simp: join_line_def dest: join_switch_length split: if_splits)

definition add_line :: "parse_env \<Rightarrow> string \<Rightarrow> llvm_module \<Rightarrow> llvm_module result" where
  "add_line e line m =
     bind_res (parse e (lm_types m) line (lm_regs m)) (\<lambda>(node, rl).
       case node of None \<Rightarrow> Inr (m\<lparr> lm_regs := rl \<rparr>) | Some i \<Rightarrow> addNode i (m\<lparr> lm_regs := rl \<rparr>))"

function function_body :: "parse_env \<Rightarrow> string list \<Rightarrow> llvm_module \<Rightarrow> llvm_module result" where
  "function_body e [] m = Inr m"
| "function_body e (l # ls) m =
     (if starts_with ''; <label>:'' l then bind_res (label_name l) (\<lambda>name. function_body e ls (new_block name m))
      else if contains_str ''; preds'' l then bind_res (substr 0 (str_find '' '' l - 1) l) (\<lambda>name. function_body e ls (new_block name m))
      else if starts_with ''}'' l then Inr m
      else if (\<forall>c\<in>set l. c = CHR '' '') then function_body e ls m
      else bind_res (join_line l ls) (\<lambda>r. bind_res (add_line e (fst r) m) (\<lambda>m1. function_body e (snd r) m1)))"
  by pat_completeness auto
termination by (relation "measure (\<lambda>(e, ls, m). length ls)") (auto dest: join_line_length)

text \<open>The line after the header may be the label of the first block, which is called \<open>0\<close> otherwise.\<close>

fun parse_module :: "parse_env \<Rightarrow> (nat \<Rightarrow> addr result) \<Rightarrow> string list \<Rightarrow> llvm_module \<Rightarrow> llvm_module result" where
  "parse_module e gv [] m = Inr m"
| "parse_module e gv (l # ls) m =
     (if starts_with ''%struct'' l then bind_res (parse_struct l (lm_types m)) (\<lambda>ts. parse_module e gv ls (m\<lparr> lm_types := ts \<rparr>))
      else if starts_with ''define'' l
      then bind_res (global_params gv l 0 (str_find ''%'' l) 0 (lm_regs m)) (\<lambda>rl.
           let m1 = m\<lparr> lm_regs := rl \<rparr> in
           case ls of
             [] \<Rightarrow> Inr (new_block ''0'' m1)
           | l2 # ls2 \<Rightarrow> if contains_str '':'' l2
                         then bind_res (substr 0 (str_find '':'' l2) l2) (\<lambda>name. function_body e ls2 (new_block name m1))
                         else function_body e ls (new_block ''0'' m1))
      else parse_module e gv ls m)"

text \<open>The register list starts with the two constants.\<close>

definition empty_module :: llvm_module where
  "empty_module = \<lparr> lm_types = [], lm_regs = addRegister (Register ''alwaysFalse'' 0) (addRegister (Register ''alwaysTrue'' 1) RegisterList), lm_bbs = [] \<rparr>"

text \<open>\<open>None\<close> is a file that cannot be opened.\<close>

definition constructBBList :: "parse_env \<Rightarrow> (nat \<Rightarrow> addr result) \<Rightarrow> string list option \<Rightarrow> llvm_interface \<Rightarrow> llvm_interface result" where
  "constructBBList e gv file s =
     (case file of None \<Rightarrow> Inl (Panic ''Unable to open LLVM file!'')
      | Some ls \<Rightarrow> bind_res (parse_module e gv ls empty_module) (\<lambda>m. li_construct (lm_bbs m) (lm_regs m) s))"

text \<open>\<open>initialize\<close>, from the file.\<close>

definition initialize :: "parse_env \<Rightarrow> (nat \<Rightarrow> addr result) \<Rightarrow> tick \<Rightarrow> string list option \<Rightarrow> llvm_interface \<Rightarrow> llvm_interface result option" where
  "initialize e gv now file s =
     (case constructBBList e gv file s of
        Inl err \<Rightarrow> Some (Inl err)
      | Inr s1 \<Rightarrow> li_tick (pe_fpu e) now (s1\<lparr> li_running := True, li_cycle := 0, li_occ := (\<lambda>_. 0), li_unlimitedFU := unlimitedMode s1 \<rparr>))"

end
