(* ===== verification/Parser_Correct.thy ===== *)
theory Parser_Correct
  imports LLVM_Module Dataflow_Inv
begin

text \<open>
  What the parser builds. The register list only grows, and registers keep their names, so that a name
  stands for the same register throughout a file; every line becomes at most one fresh instruction, whose
  class, opcode and return register fit together. For a text in static single assignment form the program
  is therefore well formed in the sense the runtime engine relies on.
\<close>

section \<open>Growth of the register list\<close>

definition names :: "register_list \<Rightarrow> string list" where
  "names rl = map reg_Name (rl_RegList rl)"

definition grows :: "register_list \<Rightarrow> register_list \<Rightarrow> bool" where
  "grows rl rl' \<longleftrightarrow> (\<exists>zs. names rl' = names rl @ zs)"

named_theorems parser_grow "every operation of the parser keeps and extends the names of the registers"

lemma growsI: "names rl' = names rl @ zs \<Longrightarrow> grows rl rl'"
  by (auto simp: grows_def)

lemma grows_refl: "grows rl rl"
  by (rule growsI [of _ _ "[]"]) simp

lemma grows_trans: "grows a b \<Longrightarrow> grows b c \<Longrightarrow> grows a c"
  by (auto simp: grows_def)

lemma find_name_append: "find_name n i rs = Some k \<Longrightarrow> map reg_Name rs' = map reg_Name rs @ zs \<Longrightarrow> find_name n i rs' = Some k"
  by (induction n i rs arbitrary: rs' rule: find_name.induct) (auto simp: Cons_eq_append_conv map_eq_Cons_conv split: if_splits)

lemma findRegister_grows: "findRegister n rl = Some k \<Longrightarrow> grows rl rl' \<Longrightarrow> findRegister n rl' = Some k"
  by (auto simp: findRegister_def grows_def names_def intro: find_name_append)

lemma findRegister_name: "findRegister n rl = Some k \<Longrightarrow> k < length (names rl) \<and> names rl ! k = n"
  using find_name_Some [of n 0 "rl_RegList rl" k] by (auto simp: findRegister_def names_def)

lemma findRegister_inj: "findRegister n rl = Some k \<Longrightarrow> findRegister m rl = Some k \<Longrightarrow> n = m"
  by (metis findRegister_name)

lemma setSize_name: "setSize ty r = Inr r' \<Longrightarrow> reg_Name r' = reg_Name r"
  by (auto simp: setSize_def Let_def bind_res_eq_Inr_iff split: if_splits)

lemma reg_setValue_name: "reg_setValue v r = Inr r' \<Longrightarrow> reg_Name r' = reg_Name r"
  by (auto simp: reg_setValue_def bind_res_eq_Inr_iff)

lemma upd_reg_names:
  assumes "upd_reg f r rl = Inr rl'" and "\<And>reg reg'. f reg = Inr reg' \<Longrightarrow> reg_Name reg' = reg_Name reg"
  shows "names rl' = names rl"
proof -
  from assms(1) obtain reg reg' where r: "r < length (rl_RegList rl)" "reg = rl_RegList rl ! r" "f reg = Inr reg'" "rl' = set_reg r reg' rl"
    by (auto simp: upd_reg_def reg_at_def bind_res_eq_Inr_iff split: if_splits)
  then show ?thesis using assms(2) [OF r(3)] by (simp add: names_def set_reg_def map_update list_update_same_conv [of r "map reg_Name (rl_RegList rl)", simplified])
qed

lemma size_names [parser_grow]: "upd_reg (setSize ty) r rl = Inr rl' \<Longrightarrow> names rl' = names rl"
  by (erule upd_reg_names) (rule setSize_name)

lemma set_address_names [parser_grow]: "set_address w k rl = Inr rl' \<Longrightarrow> names rl' = names rl"
  unfolding set_address_def by (erule upd_reg_names) (rule reg_setValue_name)

lemma size_return_names [parser_grow]: "size_return x ty rl = Inr rl' \<Longrightarrow> names rl' = names rl"
  by (auto simp: size_return_def dest: size_names split: option.splits)

lemma set_global_names [parser_grow]: "upd_reg (\<lambda>reg. Inr (reg\<lparr> reg_Global := True \<rparr>)) r rl = Inr rl' \<Longrightarrow> names rl' = names rl"
  by (erule upd_reg_names) auto

lemma names_addRegister: "names (addRegister r rl) = names rl @ [reg_Name r]"
  by (simp add: names_def addRegister_def)

lemma append_register_names [parser_grow]: "append_register n rl = (k, rl') \<Longrightarrow> names rl' = names rl @ [n]"
  by (auto simp: append_register_def names_addRegister Register_def)

lemma get_register_names: "get_register n rl = (k, rl') \<Longrightarrow> (\<exists>zs. names rl' = names rl @ zs) \<and> findRegister n rl' = Some k"
proof (cases "findRegister n rl")
  case None
  assume "get_register n rl = (k, rl')"
  with None have k: "k = length (rl_RegList rl)" "rl' = addRegister (Register n 0) rl" by (simp_all add: get_register_def)
  have "find_name n i (rs @ [Register n 0]) = Some (i + length rs)" if "n \<notin> reg_Name ` set rs" for i rs
    using that by (induction rs arbitrary: i) (auto simp: Register_def)
  from this [of "rl_RegList rl" 0] None show ?thesis by (auto simp: k findRegister_def find_name_None names_def addRegister_def)
qed (auto simp: get_register_def)

lemma get_register_grow: "\<exists>zs. names (snd (get_register n rl)) = names rl @ zs"
  using get_register_names [OF prod.collapse [symmetric]] by blast

lemma setRegister_names [parser_grow]: "setRegister d (rl, ds) = Inr (k, rl', ds') \<Longrightarrow> \<exists>zs. names rl' = names rl @ zs"
  by (auto simp: setRegister_def bind_res_eq_Inr_iff case_prod_beta get_register_grow)

lemma reg_operand_names [parser_grow]: "reg_operand d (rl, ds) = Inr (ks, rl', ds') \<Longrightarrow> \<exists>zs. names rl' = names rl @ zs"
  by (auto simp: reg_operand_def bind_res_eq_Inr_iff dest: setRegister_names split: if_splits)

lemma setRegOperands_names [parser_grow]: "setRegOperands x (rl, ds) = Inr (ks, rl', ds') \<Longrightarrow> \<exists>zs. names rl' = names rl @ zs"
  by (auto simp: setRegOperands_def bind_res_eq_Inr_iff dest!: reg_operand_names)

lemma initializeReturnRegister_names [parser_grow]: "initializeReturnRegister x rl = Inr (ty, rl') \<Longrightarrow> names rl' = names rl"
  by (auto simp: initializeReturnRegister_def bind_res_eq_Inr_iff dest: size_return_names)

lemma global_pointer_names [parser_grow]: "global_pointer p (rl, ds) = Inr (k, rl', ds') \<Longrightarrow> \<exists>zs. names rl' = names rl @ zs"
  by (auto simp: global_pointer_def bind_res_eq_Inr_iff dest!: setRegister_names set_address_names)

lemma gep_base_names [parser_grow]: "gep_base p w q rl = Inr (k, rl') \<Longrightarrow> \<exists>zs. names rl' = names rl @ zs"
  by (auto simp: gep_base_def bind_res_eq_Inr_iff append_register_def names_addRegister dest!: set_address_names split: if_splits option.splits)

lemma gep_head_names [parser_grow]: "gep_head x rl = Inr (k, rl', pty, rty, n) \<Longrightarrow> \<exists>zs. names rl' = names rl @ zs"
  by (auto simp: gep_head_def bind_res_eq_Inr_iff dest!: gep_base_names split: if_splits)

lemma gep_operands_names [parser_grow]: "gep_operands ps (rl, ds) = Inr (ims, rl', ds') \<Longrightarrow> \<exists>zs. names rl' = names rl @ zs"
proof (induction ps "(rl, ds)" arbitrary: rl ds ims rule: gep_operands.induct)
  case (3 ty v ps)
  then show ?case by (fastforce simp: bind_res_eq_Inr_iff dest!: setRegister_names split: if_splits)
qed auto

lemma phi_pairs_names [parser_grow]: "phi_pairs vs (rl, ds) = Inr (a, b, c, rl', ds') \<Longrightarrow> \<exists>zs. names rl' = names rl @ zs"
proof (induction vs "(rl, ds)" arbitrary: rl ds a b c rule: phi_pairs.induct)
  case (2 v vs)
  then show ?case by (fastforce simp: bind_res_eq_Inr_iff dest!: setRegister_names split: if_splits)
qed auto

section \<open>The instruction of a line\<close>

text \<open>At most one instruction was built, of a class and with cycles that satisfy \<open>P\<close>, and the registers only grew.\<close>

definition built :: "parse_ctx \<Rightarrow> (instr_class \<Rightarrow> nat \<Rightarrow> bool) \<Rightarrow> register_list \<Rightarrow> instr option \<Rightarrow> register_list \<Rightarrow> bool" where
  "built x P rl node rl' \<longleftrightarrow> grows rl rl' \<and> (\<forall>i. node = Some i \<longrightarrow> (\<exists>ty cyc deps f c. i = new_instr x ty cyc deps f c \<and> P c cyc))"

lemma built_Some: "\<exists>zs. names rl' = names rl @ zs \<Longrightarrow> P c cyc \<Longrightarrow> built x P rl (Some (new_instr x ty cyc deps f c)) rl'"
  unfolding built_def grows_def by blast

lemma built_None: "\<exists>zs. names rl' = names rl @ zs \<Longrightarrow> built x P rl None rl'"
  by (simp add: built_def grows_def)

lemmas names_steps = size_names set_address_names size_return_names set_global_names append_register_names setRegister_names reg_operand_names
  setRegOperands_names initializeReturnRegister_names global_pointer_names gep_base_names gep_head_names gep_operands_names phi_pairs_names

lemma parse_int_built:
  assumes "\<And>a n. P (mk a) n" and "parse_int x mk cyc f counter rl = Inr (node, rl')"
  shows "built x P rl node rl'"
  using assms(2) unfolding parse_int_def bind_res_eq_Inr_iff
  by (auto simp: Let_def bind_res_eq_Inr_iff case_prod_beta dest!: names_steps intro!: built_Some assms(1))

lemma parse_fp_built:
  assumes "\<And>a n. P (mk a) n" and "parse_fp x mk cyc fd fs rl = Inr (node, rl')"
  shows "built x P rl node rl'"
  using assms(2) unfolding parse_fp_def bind_res_eq_Inr_iff
  by (auto simp: bind_res_eq_Inr_iff dest!: names_steps intro!: built_Some assms(1))

lemma parse_conversion_built:
  assumes "\<And>a n. P (mk a) n" and "parse_conversion x mk cyc rl = Inr (node, rl')"
  shows "built x P rl node rl'"
  using assms(2) unfolding parse_conversion_def bind_res_eq_Inr_iff
  by (auto simp: bind_res_eq_Inr_iff dest!: names_steps intro!: built_Some assms(1))

lemma parse_ret_built: "P Ret (pc_cycles x ''ret'') \<Longrightarrow> parse_ret x rl = Inr (node, rl') \<Longrightarrow> built x P rl node rl'"
  by (auto simp: parse_ret_def bind_res_eq_Inr_iff intro!: built_Some)

lemma parse_br_built:
  assumes "\<And>u c bs d n. P (Br u c bs d) n" and "parse_br x rl = Inr (node, rl')"
  shows "built x P rl node rl'"
  using assms(2) unfolding parse_br_def
  by (auto simp: bind_res_eq_Inr_iff dest!: names_steps intro!: built_Some assms(1) split: if_splits)

lemma parse_switch_built:
  assumes "\<And>bs cs n. P (LLVMSwitch bs cs) n" and "parse_switch x rl = Inr (node, rl')"
  shows "built x P rl node rl'"
  using assms(2) unfolding parse_switch_def
  by (auto simp: bind_res_eq_Inr_iff dest!: names_steps intro!: built_Some assms(1))

lemma parse_resume_built: "parse_resume x rl = Inr (node, rl') \<Longrightarrow> built x P rl node rl'"
  by (auto simp: parse_resume_def bind_res_eq_Inr_iff dest!: names_steps intro!: built_None)

lemma parse_load_built:
  assumes "\<And>p. P (Load p) (pc_cycles x ''load'')" and "parse_load x rl = Inr (node, rl')"
  shows "built x P rl node rl'"
  using assms(2) unfolding parse_load_def
  by (auto simp: bind_res_eq_Inr_iff dest!: names_steps intro!: built_Some assms(1) split: if_splits)

lemma store_pointer_names: "store_pointer x n rl = Inr (k, rl', ds) \<Longrightarrow> \<exists>zs. names rl' = names rl @ zs"
  unfolding store_pointer_def by (auto simp: bind_res_eq_Inr_iff dest!: names_steps split: if_splits)

lemma store_value_built:
  assumes "\<And>p v im d n. P (Store p v im d) n" and "store_value x ty v k (rl1, ds) = Inr (node, rl')" and "\<exists>zs. names rl1 = names rl @ zs"
  shows "built x P rl node rl'"
  using assms(2,3) unfolding store_value_def
  by (auto simp: bind_res_eq_Inr_iff dest!: names_steps intro!: built_Some assms(1) split: if_splits)

lemma parse_store_built:
  assumes P: "\<And>p v im d n. P (Store p v im d) n" and "parse_store x rl = Inr (node, rl')"
  shows "built x P rl node rl'"
proof -
  from assms(2) obtain n k rl1 ds ty v where "store_pointer x n rl = Inr (k, rl1, ds)" "store_value x ty v k (rl1, ds) = Inr (node, rl')"
    unfolding parse_store_def Let_def bind_res_eq_Inr_iff split_paired_Ex prod.case by blast
  from store_value_built [of P, OF P this(2) store_pointer_names [OF this(1)]] show ?thesis .
qed

lemma parse_gep_built:
  assumes "\<And>g n. P (GetElementPtr g) n" and "parse_gep x rl = Inr (node, rl')"
  shows "built x P rl node rl'"
  using assms(2) unfolding parse_gep_def
  by (auto simp: bind_res_eq_Inr_iff dest!: names_steps intro!: built_Some assms(1) split: if_splits option.splits)

lemma parse_icmp_built:
  assumes "\<And>f k m n. P (ICmp f k m) n" and "parse_icmp x rl = Inr (node, rl')"
  shows "built x P rl node rl'"
  using assms(2) unfolding parse_icmp_def Let_def
  by (auto simp: bind_res_eq_Inr_iff dest!: names_steps intro!: built_Some assms(1))

lemma parse_fcmp_built:
  assumes "\<And>f m n. P (FCmp f m) n" and "parse_fcmp x rl = Inr (node, rl')"
  shows "built x P rl node rl'"
  using assms(2) unfolding parse_fcmp_def
  by (auto simp: bind_res_eq_Inr_iff dest!: names_steps intro!: built_Some assms(1))

lemma parse_phi_built:
  assumes "\<And>vs rs ls n. P (Phi vs rs ls) n" and "parse_phi x rl = Inr (node, rl')"
  shows "built x P rl node rl'"
  using assms(2) unfolding parse_phi_def
  by (auto simp: bind_res_eq_Inr_iff dest!: names_steps intro!: built_Some assms(1))

lemma parse_select_built:
  assumes "\<And>im vs n. P (Select im vs) n" and "parse_select x rl = Inr (node, rl')"
  shows "built x P rl node rl'"
  using assms(2) unfolding parse_select_def Let_def
  by (auto simp: bind_res_eq_Inr_iff dest!: names_steps intro!: built_Some assms(1))

lemmas parse_built = parse_ret_built parse_br_built parse_switch_built parse_resume_built parse_load_built parse_store_built parse_gep_built
  parse_icmp_built parse_fcmp_built parse_phi_built parse_select_built parse_int_built parse_fp_built parse_conversion_built

text \<open>How the class and the cycles of an instruction go with its opcode.\<close>

definition fits :: "parse_ctx \<Rightarrow> opValue \<Rightarrow> instr_class \<Rightarrow> nat \<Rightarrow> bool" where
  "fits x v c n \<longleftrightarrow> (c = Ret \<longleftrightarrow> v = IR_Ret) \<and> (is_terminator c \<longleftrightarrow> v \<in> {IR_Ret, IR_Br, IR_Switch}) \<and> (v = IR_Load \<longrightarrow> n = pc_cycles x ''load'')"

lemma parse_case_built: "parse_case v x rl = Inr (node, rl') \<Longrightarrow> built x (fits x v) rl node rl'"
proof (cases v)
qed ((simp only: parse_case.simps parse_ops, erule parse_built [rotated]; simp add: fits_def is_terminator_def; fail) | (simp only: parse_case.simps, erule parse_resume_built; fail) | simp add: built_None)+

section \<open>Nodes\<close>

lemma opMap_iff:
  assumes "map_of switch_opMap op = Some v"
  shows "v = IR_Ret \<longleftrightarrow> op = ''ret''" "v = IR_Br \<longleftrightarrow> op = ''br''" "v = IR_Switch \<longleftrightarrow> op = ''switch''" "v = IR_Load \<longleftrightarrow> op = ''load''"
proof -
  have m: "(op, v) \<in> set switch_opMap" by (rule map_of_SomeD [OF assms])
  have 1: "v = IR_Ret \<Longrightarrow> op = ''ret''" using m by (simp add: switch_opMap_def)
  have 2: "v = IR_Br \<Longrightarrow> op = ''br''" using m by (simp add: switch_opMap_def)
  have 3: "v = IR_Switch \<Longrightarrow> op = ''switch''" using m by (simp add: switch_opMap_def)
  have 4: "v = IR_Load \<Longrightarrow> op = ''load''" using m by (simp add: switch_opMap_def)
  have c: "map_of switch_opMap ''ret'' = Some IR_Ret" "map_of switch_opMap ''br'' = Some IR_Br" "map_of switch_opMap ''switch'' = Some IR_Switch"
    "map_of switch_opMap ''load'' = Some IR_Load" by (simp_all add: switch_opMap_def)
  show "v = IR_Ret \<longleftrightarrow> op = ''ret''" using 1 c(1) assms by fastforce
  show "v = IR_Br \<longleftrightarrow> op = ''br''" using 2 c(2) assms by fastforce
  show "v = IR_Switch \<longleftrightarrow> op = ''switch''" using 3 c(3) assms by fastforce
  show "v = IR_Load \<longleftrightarrow> op = ''load''" using 4 c(4) assms by fastforce
qed

text \<open>The name of the register a line returns to.\<close>

definition dest :: "string \<Rightarrow> string option" where
  "dest line = (case parse_head line of Inl e \<Rightarrow> None | Inr h \<Rightarrow> fst h)"

definition returns_to :: "string option \<Rightarrow> nat option \<Rightarrow> register_list \<Rightarrow> bool" where
  "returns_to d ret rl \<longleftrightarrow> (case d of None \<Rightarrow> ret = None | Some n \<Rightarrow> (\<exists>k. ret = Some k \<and> findRegister n rl = Some k))"

lemma returns_to_grows: "returns_to d ret rl \<Longrightarrow> grows rl rl' \<Longrightarrow> returns_to d ret rl'"
  by (auto simp: returns_to_def split: option.splits intro: findRegister_grows)

lemma returns_to_None: "returns_to d ret rl \<Longrightarrow> ret = None \<longleftrightarrow> d = None"
  by (auto simp: returns_to_def split: option.splits)

lemma returns_to_same: "returns_to d ret rl \<Longrightarrow> returns_to d' ret' rl \<Longrightarrow> ret' = ret \<longleftrightarrow> d' = d"
  by (auto simp: returns_to_def dest: findRegister_inj split: option.splits)

definition line_node :: "parse_env \<Rightarrow> register_list \<Rightarrow> instr \<Rightarrow> bool" where
  "line_node e rl i \<longleftrightarrow> in_Children i = [] \<and> in_CurrCycle i = 0 \<and> in_ActiveParents i = base_parents i \<and> length (in_Ops i) = length (in_Dependencies i)
     \<and> (in_Terminator i \<longleftrightarrow> in_OpCode i \<in> {''ret'', ''br'', ''switch''}) \<and> (in_OpCode i = ''load'' \<longrightarrow> in_MaxCycle i = pe_cycles e ''load'')
     \<and> returns_to (dest (in_LLVMLine i)) (in_ReturnRegister i) rl"

lemma line_node_grows: "line_node e rl i \<Longrightarrow> grows rl rl' \<Longrightarrow> line_node e rl' i"
  unfolding line_node_def using returns_to_grows by blast

lemma return_register_names:
  assumes "return_register name rl = (ret, rl')"
  shows "grows rl rl'" and "returns_to name ret rl'"
proof -
  have "grows rl rl' \<and> returns_to name ret rl'"
  proof (cases name)
    case None
    with assms show ?thesis by (simp add: return_register_def grows_refl returns_to_def)
  next
    case (Some n)
    obtain k r where g: "get_register n rl = (k, r)" by fastforce
    with assms Some get_register_names [OF g] show ?thesis by (auto simp: return_register_def returns_to_def grows_def)
  qed
  then show "grows rl rl'" and "returns_to name ret rl'" by simp_all
qed

lemma parse_node:
  assumes "parse e ts line rl = Inr (node, rl')"
  shows "grows rl rl' \<and> (\<forall>i. node = Some i \<longrightarrow> line_node e rl' i \<and> in_LLVMLine i = line)"
proof -
  from assms obtain name op l ps ret rl1 where h: "parse_head line = Inr (name, op, l)" and st: "return_register name rl = (ret, rl1)"
    and c: "(case map_of switch_opMap op of None \<Rightarrow> Inr (None, rl1) | Some v \<Rightarrow> parse_case v (line_ctx e ts line op ret ps) rl1) = Inr (node, rl')"
    unfolding parse_def Let_def bind_res_eq_Inr_iff split_paired_Ex prod.case by (metis prod.collapse)
  note g = return_register_names [OF st]
  show ?thesis
  proof (cases "map_of switch_opMap op")
    case None
    with c g(1) show ?thesis by simp
  next
    case (Some v)
    let ?x = "line_ctx e ts line op ret ps"
    from Some c parse_case_built have b: "built ?x (fits ?x v) rl1 node rl'" by simp
    then have g2: "grows rl1 rl'" by (simp add: built_def)
    have "line_node e rl' i \<and> in_LLVMLine i = line" if "node = Some i" for i
    proof -
      from b that obtain ty cyc deps f c where i: "i = new_instr ?x ty cyc deps f c" and ft: "fits ?x v c cyc" by (auto simp: built_def)
      with opMap_iff [OF Some] returns_to_grows [OF g(2) g2] show ?thesis
        by (auto simp: new_instr_def line_node_def base_parents_def fits_def dest_def h line_ctx_def)
    qed
    with g(1) g2 show ?thesis by (blast intro: grows_trans)
  qed
qed

section \<open>Files\<close>

lemma global_params_grows: "global_params gv line linePos percPos off rl = Inr rl' \<Longrightarrow> grows rl rl'"
proof (induction gv line linePos percPos off rl rule: global_params.induct)
  case (1 gv line linePos percPos off rl)
  show ?case
  proof (cases "percPos < 0 \<or> str_find_from ''%struct'' linePos line = percPos")
    case True
    with 1(1,3) show ?thesis by (subst (asm) global_params.simps) (auto simp: grows_refl split: if_splits)
  next
    case False
    then have n: "\<not> percPos < 0" "str_find_from ''%struct'' linePos line \<noteq> percPos" by simp_all
    from False 1(3) obtain name v c where s: "substr (percPos + 1) c line = Inr name" "gv off = Inr v"
      and c: "c = (if str_find_from '','' (percPos + 1) line < 0 then str_find '')'' line else str_find_from '','' (percPos + 1) line) - (percPos + 1)"
      and g: "global_params gv line (percPos + 1 + 1) (str_find_from ''%'' (percPos + 1 + 1) line) (off + 8) (addRegister (Register name v) rl) = Inr rl'"
      by (subst (asm) global_params.simps) (simp only: if_False Let_def bind_res_eq_Inr_iff de_Morgan_disj, blast)
    from 1(2) [OF n refl refl refl s(1) [unfolded c] s(2) g] show ?thesis by (simp add: grows_def names_addRegister) blast
  qed
qed

text \<open>Every instruction of the module comes from its line, with the registers as they are now.\<close>

definition module_ok :: "parse_env \<Rightarrow> llvm_module \<Rightarrow> bool" where
  "module_ok e m \<longleftrightarrow> (\<forall>i\<in>nodes (lm_bbs m). line_node e (lm_regs m) i)"

lemma nodes_new_block: "nodes (lm_bbs (new_block name m)) = nodes (lm_bbs m)" "lm_regs (new_block name m) = lm_regs m"
  by (auto simp: nodes_def new_block_def)

lemma nodes_addNode: "addNode i m = Inr m' \<Longrightarrow> nodes (lm_bbs m') = insert i (nodes (lm_bbs m)) \<and> lm_regs m' = lm_regs m"
  by (cases "lm_bbs m" rule: rev_cases) (force simp: nodes_def addNode_def)+

lemma add_line_ok:
  assumes "add_line e line m = Inr m'" and "module_ok e m"
  shows "module_ok e m'"
proof -
  from assms(1) obtain node rl where p: "parse e (lm_types m) line (lm_regs m) = Inr (node, rl)"
    and c: "(case node of None \<Rightarrow> Inr (m\<lparr> lm_regs := rl \<rparr>) | Some i \<Rightarrow> addNode i (m\<lparr> lm_regs := rl \<rparr>)) = Inr m'"
    by (auto simp: add_line_def bind_res_eq_Inr_iff)
  note n = parse_node [OF p]
  have "\<forall>i\<in>nodes (lm_bbs m). line_node e rl i" using n assms(2) line_node_grows by (auto simp: module_ok_def)
  with c n show ?thesis by (cases node) (auto simp: module_ok_def dest!: nodes_addNode)
qed

lemma function_body_ok: "function_body e ls m = Inr m' \<Longrightarrow> module_ok e m \<Longrightarrow> module_ok e m'"
proof (induction e ls m rule: function_body.induct)
  case (2 e l ls m)
  have b: "module_ok e (new_block name m)" for name using 2(6) by (simp add: module_ok_def nodes_new_block)
  consider name where "starts_with ''; <label>:'' l" "label_name l = Inr name" "function_body e ls (new_block name m) = Inr m'"
    | name where "\<not> starts_with ''; <label>:'' l" "contains_str ''; preds'' l" "substr 0 (str_find '' '' l - 1) l = Inr name" "function_body e ls (new_block name m) = Inr m'"
    | "m' = m"
    | "\<not> starts_with ''; <label>:'' l" "\<not> contains_str ''; preds'' l" "\<not> starts_with ''}'' l" "\<forall>c\<in>set l. c = CHR '' ''" "function_body e ls m = Inr m'"
    | r m1 where "\<not> starts_with ''; <label>:'' l" "\<not> contains_str ''; preds'' l" "\<not> starts_with ''}'' l" "\<not> (\<forall>c\<in>set l. c = CHR '' '')"
        "join_line l ls = Inr r" "add_line e (fst r) m = Inr m1" "function_body e (snd r) m1 = Inr m'"
    using 2(5) unfolding function_body.simps by (auto simp: bind_res_eq_Inr_iff simp del: split_paired_Ex split: if_splits)
  then show ?case
  proof cases
    case 1
    then show ?thesis using 2(1) b by blast
  next
    case 2
    then show ?thesis using "2.IH"(2) b by blast
  next
    case 3
    then show ?thesis using "2.prems"(2) by simp
  next
    case 4
    then show ?thesis using "2.IH"(3) "2.prems"(2) by blast
  next
    case (5 r m1)
    from "2.IH"(4) [OF 5(1-7)] add_line_ok [OF 5(6) "2.prems"(2)] show ?thesis by blast
  qed
qed auto

lemma parse_module_ok: "parse_module e gv ls m = Inr m' \<Longrightarrow> lm_bbs m = [] \<Longrightarrow> module_ok e m'"
proof (induction e gv ls m rule: parse_module.induct)
  case (1 e gv m)
  then show ?case by (simp add: module_ok_def nodes_def)
next
  case (2 e gv l ls m)
  have b: "module_ok e (new_block name (m\<lparr> lm_regs := rl \<rparr>))" for name rl using 2(4) by (simp add: module_ok_def nodes_new_block) (simp add: nodes_def)
  have f: "function_body e ls' (new_block name (m\<lparr> lm_regs := rl \<rparr>)) = Inr m' \<Longrightarrow> module_ok e m'" for ls' name rl by (rule function_body_ok [OF _ b])
  show ?case
  proof (cases "starts_with ''%struct'' l \<or> \<not> starts_with ''define'' l")
    case True
    with 2(3,4) show ?thesis by (auto simp: bind_res_eq_Inr_iff split: if_splits intro: 2(1) 2(2))
  next
    case False
    with 2(3) show ?thesis
      by (cases ls) (auto simp: bind_res_eq_Inr_iff Let_def simp del: function_body.simps split: if_splits intro: f b)
  qed
qed

section \<open>Well-formed programs\<close>

text \<open>
  What LLVM guarantees of its text: exactly the terminators and \<open>store\<close> return nothing, and no register is
  returned to by two different lines.
\<close>

definition ssa_text :: "(string \<times> instr list) list \<Rightarrow> bool" where
  "ssa_text bbs \<longleftrightarrow> (\<forall>i\<in>nodes bbs. (dest (in_LLVMLine i) = None \<longleftrightarrow> in_OpCode i \<in> {''ret'', ''br'', ''switch'', ''store''})
     \<and> (\<forall>j\<in>nodes bbs. dest (in_LLVMLine i) \<noteq> None \<and> dest (in_LLVMLine j) = dest (in_LLVMLine i) \<longrightarrow> in_LLVMLine j = in_LLVMLine i))"

lemma line_node_wf:
  assumes "line_node e rl i" and "pe_cycles e ''load'' = 0" and "dest (in_LLVMLine i) = None \<longleftrightarrow> in_OpCode i \<in> {''ret'', ''br'', ''switch'', ''store''}"
  shows "wf_node i"
proof -
  have r: "in_ReturnRegister i = None \<longleftrightarrow> in_OpCode i \<in> {''ret'', ''br'', ''switch'', ''store''}"
    using returns_to_None [of "dest (in_LLVMLine i)" "in_ReturnRegister i" rl] assms(1,3) by (simp add: line_node_def)
  from assms(1,2) show ?thesis unfolding wf_node_def r by (auto simp: line_node_def)
qed

lemma parsed_nodes: "parse_module e gv ls empty_module = Inr m \<Longrightarrow> i \<in> nodes (lm_bbs m) \<Longrightarrow> line_node e (lm_regs m) i"
  using parse_module_ok [of e gv ls empty_module m] by (simp add: module_ok_def empty_module_def)

lemma line_nodes_ssa:
  assumes "\<forall>i\<in>nodes bbs. line_node e rl i" and "ssa_text bbs"
  shows "ssa (nodes bbs)"
  unfolding ssa_def
proof (intro ballI impI)
  fix i j
  assume ij: "i \<in> nodes bbs" "j \<in> nodes bbs" and n: "in_ReturnRegister i \<noteq> None"
  then have r: "returns_to (dest (in_LLVMLine i)) (in_ReturnRegister i) rl" "returns_to (dest (in_LLVMLine j)) (in_ReturnRegister j) rl"
    using assms(1) by (auto simp: line_node_def)
  have "dest (in_LLVMLine i) \<noteq> None" using returns_to_None [OF r(1)] n by simp
  with assms(2) ij have "in_LLVMLine j = in_LLVMLine i \<longleftrightarrow> dest (in_LLVMLine j) = dest (in_LLVMLine i)" unfolding ssa_text_def by metis
  then show "in_LLVMLine j = in_LLVMLine i \<longleftrightarrow> in_ReturnRegister j = in_ReturnRegister i" using returns_to_same [OF r] by simp
qed

lemma line_nodes_wf:
  assumes "\<forall>i\<in>nodes bbs. line_node e rl i" and "pe_cycles e ''load'' = 0" and "ssa_text bbs"
  shows "wf_program bbs"
proof -
  have "wf_node i" if "i \<in> nodes bbs" for i
    using line_node_wf [OF _ assms(2), of rl i] assms(1,3) that by (simp add: ssa_text_def)
  with line_nodes_ssa [OF assms(1,3)] show ?thesis by (simp add: wf_program_def)
qed

text \<open>
  C10. The program the parser builds from a text in static single assignment form is well formed, provided
  that loads take no cycles of their own: its instructions are fresh, terminators and stores return nothing,
  loads return something, and a register is returned to by the instructions of one line only. Every
  instruction returns to the register that its line names.
\<close>

theorem parsed_program_wf:
  assumes "parse_module e gv ls empty_module = Inr m" and "pe_cycles e ''load'' = 0" and "ssa_text (lm_bbs m)"
  shows "wf_program (lm_bbs m) \<and> (\<forall>i\<in>nodes (lm_bbs m). returns_to (dest (in_LLVMLine i)) (in_ReturnRegister i) (lm_regs m))"
  using line_nodes_wf [OF _ assms(2,3)] parsed_nodes [OF assms(1)] by (auto simp: line_node_def)

definition text_env :: parse_env where
  "text_env = \<lparr> pe_cycles = (\<lambda>op. if op = ''load'' \<or> op = ''store'' \<or> op = ''ret'' then 0 else 1), pe_pipelined = False,
     pe_fpu = \<lparr> fp_dadd = (\<lambda>x y. x), fp_dsub = (\<lambda>x y. x), fp_dmul = (\<lambda>x y. x), fp_ddiv = (\<lambda>x y. x), fp_ftod = (\<lambda>x. 0), fp_dtof = (\<lambda>x. 0),
       fp_itod = (\<lambda>x. x), fp_itof = (\<lambda>x. 0), fp_dtou = (\<lambda>x. x), fp_ftou = (\<lambda>x. 0), fp_deq = (=), fp_dlt = (<), fp_dle = (\<le>) \<rparr>,
     pe_text = \<lparr> ft_to_string = (\<lambda>x. []), ft_stod = (\<lambda>s. Inr 0) \<rparr>, pe_junk = 0 \<rparr>"

definition text_file :: "string list" where
  "text_file = [''define void @top(i32* %a, i32* %b) {'', ''  %1 = load i32, i32* %a, align 4'', ''  %2 = load i32, i32* %b, align 4'', ''  %3 = add i32 %1, 7'', ''  store i32 %3, i32* %b, align 4'', ''  ret void'', ''}'']"

text \<open>The program and the registers of this file.\<close>

definition text_instr :: "string \<Rightarrow> string \<Rightarrow> nat option \<Rightarrow> string \<Rightarrow> nat \<Rightarrow> nat option list \<Rightarrow> int \<Rightarrow> instr_class \<Rightarrow> instr" where
  "text_instr line op ret = new_instr (line_ctx text_env [] line op ret [])"

definition text_program :: "(string \<times> instr list) list" where
  "text_program = [(''0'',
     [text_instr ''  %1 = load i32, i32* %a, align 4'' ''load'' (Some 4) ''i32'' 0 [Some 2] (-1) (Load 2),
      text_instr ''  %2 = load i32, i32* %b, align 4'' ''load'' (Some 5) ''i32'' 0 [Some 3] (-1) (Load 3),
      text_instr ''  %3 = add i32 %1, 7'' ''add'' (Some 6) ''i32'' 1 [Some 4] 0 (Add \<lparr> ia_regs = 1, ia_imm = 7, ia_immFirst = False \<rparr>),
      text_instr ''  store i32 %3, i32* %b, align 4'' ''store'' None ''i32'' 0 [Some 3, Some 6] (-1) (Store 3 (Some 6) False 0),
      text_instr ''  ret void'' ''ret'' None [] 0 [] (-1) Ret])]"

definition text_registers :: register_list where
  "text_registers = RegisterList\<lparr> rl_RegList := [Register ''alwaysTrue'' 1, Register ''alwaysFalse'' 0, Register ''a'' 4096, Register ''b'' 4096]
     @ map (\<lambda>n. (Register n 0)\<lparr> reg_Data_Type := ''i32'', reg_Size := 4 \<rparr>) [''1'', ''2'', ''3''] \<rparr>"

lemma text_parsed: "parse_module text_env (\<lambda>n. Inr 4096) text_file empty_module = Inr \<lparr> lm_types = [], lm_regs = text_registers, lm_bbs = text_program \<rparr>"
  by code_simp

lemma text_ssa: "ssa_text text_program"
  by code_simp

theorem parsed_program_wf_witness:
  "parse_module text_env (\<lambda>n. Inr 4096) text_file empty_module = Inr \<lparr> lm_types = [], lm_regs = text_registers, lm_bbs = text_program \<rparr>
     \<and> pe_cycles text_env ''load'' = 0 \<and> ssa_text text_program \<and> wf_program text_program"
proof -
  have "pe_cycles text_env ''load'' = 0" by (simp add: text_env_def)
  with parsed_program_wf [OF text_parsed this] text_parsed text_ssa show ?thesis by simp
qed

end
