(* ===== verification/Parse_Print.thy ===== *)
theory Parse_Print
  imports Parser_Correct
begin

text \<open>
  The parser reads back what LLVM prints. Lines with a return register are printed as \<open>  %r = op\<close> followed
  by words, each after a blank and with or without a comma; numbers are printed in decimal. The cut into
  parameters gives the words back, and the line of an integer operation becomes the instruction of that
  class, on the registers and constants that were printed.
\<close>

section \<open>Numbers\<close>

lemma show_nat_chars: "c \<in> set (show_nat n) \<Longrightarrow> \<exists>d<10. c = char_of (48 + d :: nat)"
proof (induction n rule: show_nat.induct)
  case (1 n)
  show ?case
  proof (cases "n < 10")
    case True
    with 1(2) show ?thesis by (subst (asm) show_nat.simps) auto
  next
    case False
    then have "show_nat n = show_nat (n div 10) @ [char_of (48 + n mod 10)]" by (subst show_nat.simps) simp
    with 1(2) consider "c \<in> set (show_nat (n div 10))" | "c = char_of (48 + n mod 10)" by auto
    then show ?thesis by cases (use 1(1) [OF False] in blast, intro exI [of _ "n mod 10"], simp)
  qed
qed

lemma show_nat_Nil [simp]: "show_nat n \<noteq> []"
  by (subst show_nat.simps) simp

lemma digit_val_char: "d < 10 \<Longrightarrow> digit_val (char_of (48 + d :: nat)) = Some d"
  by (simp add: digit_val_def)

lemma digits_val_append: "(\<forall>c\<in>set xs. digit_val c \<noteq> None) \<Longrightarrow> digits_val acc (xs @ ys) = digits_val (digits_val acc xs) ys"
  by (induction xs arbitrary: acc) auto

lemma show_nat_digits: "c \<in> set (show_nat n) \<Longrightarrow> digit_val c \<noteq> None"
  using show_nat_chars digit_val_char by fastforce

lemma digits_val_show: "digits_val 0 (show_nat n) = n"
proof (induction n rule: show_nat.induct)
  case (1 n)
  show ?case
  proof (cases "n < 10")
    case True
    then show ?thesis by (subst show_nat.simps) (simp add: digit_val_char)
  next
    case False
    then have "show_nat n = show_nat (n div 10) @ [char_of (48 + n mod 10)]" by (subst show_nat.simps) simp
    then show ?thesis using 1 [OF False] by (simp add: digits_val_append show_nat_digits digit_val_char)
  qed
qed

lemma digit_char_plain: "digit_val c \<noteq> None \<Longrightarrow> \<not> is_blank c \<and> c \<notin> set ''([{<=*, -+%''"
  by (auto simp: digit_val_def is_blank_def split: if_splits)

lemma show_nat_plain: "c \<in> set (show_nat n) \<Longrightarrow> \<not> is_blank c \<and> c \<notin> set ''([{<=*, -+%''"
  using digit_char_plain [OF show_nat_digits] .

lemma hd_show_nat: "hd (show_nat n) \<in> set (show_nat n)"
  by simp

lemma dropWhile_show: "dropWhile is_blank (show_nat n) = show_nat n"
  using show_nat_plain [OF hd_show_nat, of n] by (cases "show_nat n") auto

lemma strtol10_show: "strtol10 (show_int k) = Some k"
proof -
  have h: "hd (show_nat n) \<notin> set ''-+''" "hd (show_nat n) \<noteq> CHR ''-''" "digit_val (hd (show_nat n)) \<noteq> None" for n
    using show_nat_plain [OF hd_show_nat, of n] show_nat_digits [OF hd_show_nat, of n] by auto
  show ?thesis
  proof (cases "k < 0")
    case True
    moreover have "\<not> is_blank CHR ''-''" by (simp add: is_blank_def)
    ultimately show ?thesis using h(3) by (simp add: strtol10_def show_int_def digits_val_show Let_def)
  next
    case False
    then show ?thesis using h by (simp add: strtol10_def show_int_def dropWhile_show digits_val_show Let_def)
  qed
qed

lemma atol_show: "- (2 ^ 63) \<le> k \<Longrightarrow> k < 2 ^ 63 \<Longrightarrow> atol (show_int k) = k"
  by (simp add: atol_def strtol10_show)

lemma stoi_show:
  assumes "n < 2 ^ 31"
  shows "stoi (show_nat n) = Inr (int n)"
proof -
  have h: "hd (show_nat n) \<notin> set ''-+''" "hd (show_nat n) \<noteq> CHR ''-''" "digit_val (hd (show_nat n)) \<noteq> None"
    using show_nat_plain [OF hd_show_nat, of n] show_nat_digits [OF hd_show_nat, of n] by auto
  have "int n < 2 ^ 31" using assms by simp
  then show ?thesis using h by (simp add: stoi_def dropWhile_show digits_val_show Let_def)
qed

section \<open>Words\<close>

definition plain_word :: "string \<Rightarrow> bool" where
  "plain_word w \<longleftrightarrow> w \<noteq> [] \<and> hd w \<notin> set ''([{<=*'' \<and> CHR '' '' \<notin> set w \<and> CHR '','' \<notin> set w"

definition print_word :: "string \<times> bool \<Rightarrow> string" where
  "print_word w = '' '' @ fst w @ (if snd w then '','' else [])"

definition print_params :: "(string \<times> bool) list \<Rightarrow> string" where
  "print_params ws = concat (map print_word ws)"

lemma find_char_append: "c \<notin> set xs \<Longrightarrow> find_char c (xs @ ys) = map_option ((+) (length xs)) (find_char c ys)"
proof -
  assume "c \<notin> set xs"
  moreover from this have "takeWhile (\<lambda>x. x \<noteq> c) (xs @ ys) = xs @ takeWhile (\<lambda>x. x \<noteq> c) ys" by (intro takeWhile_append2) auto
  ultimately show ?thesis by (simp add: find_char_def)
qed

lemma find_char_Cons: "find_char c (x # xs) = (if x = c then Some 0 else map_option Suc (find_char c xs))"
  by (auto simp: find_char_def)

lemma tokens_word:
  assumes "plain_word w" and "rest = [] \<or> hd rest = CHR '' ''"
  shows "tokens (w @ rest) ps = tokens rest (ps @ [w])"
proof -
  from assms(1) obtain c cs where w: "w = c # cs" by (cases w) (auto simp: plain_word_def)
  have n: "CHR '' '' \<notin> set cs" "CHR '','' \<notin> set cs" "c \<noteq> CHR '' ''" "c \<noteq> CHR '',''" "closing c = None" "c \<noteq> CHR ''=''" "c \<noteq> CHR ''*''"
    using assms(1) by (auto simp: plain_word_def w closing_def)
  show ?thesis
  proof (cases rest)
    case Nil
    have "word_end cs = None" using n by (simp add: word_end_def find_char_def)
    with n Nil show ?thesis by (simp add: w)
  next
    case (Cons b r)
    with assms(2) have b: "b = CHR '' ''" by simp
    have "word_end (cs @ b # r) = Some (length cs)"
      using n by (auto simp: word_end_def find_char_append find_char_Cons b split: option.splits)
    with n show ?thesis by (simp add: w Cons b)
  qed
qed

lemma tokens_comma:
  assumes "plain_word w"
  shows "tokens (w @ CHR '','' # rest) ps = tokens rest (ps @ [w])"
proof -
  from assms obtain c cs where w: "w = c # cs" by (cases w) (auto simp: plain_word_def)
  have n: "CHR '' '' \<notin> set cs" "CHR '','' \<notin> set cs" "c \<noteq> CHR '' ''" "c \<noteq> CHR '',''" "closing c = None" "c \<noteq> CHR ''=''" "c \<noteq> CHR ''*''"
    using assms by (auto simp: plain_word_def w closing_def)
  have "word_end (cs @ CHR '','' # rest) = Some (length cs)"
    using n by (auto simp: word_end_def find_char_append split: option.splits) (auto simp: find_char_def split: if_splits)
  with n show ?thesis by (simp add: w)
qed

lemma print_params_start: "print_params ws = [] \<or> hd (print_params ws) = CHR '' ''"
  by (cases ws) (auto simp: print_params_def print_word_def)

lemma tokens_print: "\<forall>w\<in>set ws. plain_word (fst w) \<Longrightarrow> tokens (print_params ws) ps = Inr (ps @ map fst ws)"
proof (induction ws arbitrary: ps)
  case (Cons w ws)
  have p: "print_params (w # ws) = CHR '' '' # fst w @ (if snd w then '','' else []) @ print_params ws" by (simp add: print_params_def print_word_def)
  show ?case using Cons tokens_comma [of "fst w"] tokens_word [OF _ print_params_start, of "fst w"] by (simp add: p)
qed (simp add: print_params_def)

section \<open>Heads\<close>

definition print_line :: "string \<Rightarrow> string \<Rightarrow> (string \<times> bool) list \<Rightarrow> string" where
  "print_line r op ws = ''  %'' @ r @ '' = '' @ op @ print_params ws"

lemma str_index_append: "pat \<noteq> [] \<Longrightarrow> hd pat \<notin> set xs \<Longrightarrow> str_index pat (xs @ ys) = map_option ((+) (length xs)) (str_index pat ys)"
proof (induction xs)
  case Nil
  then show ?case by (simp add: map_option.identity [unfolded id_def] map_option_idI)
next
  case (Cons x xs)
  have "take (length pat) ((x # xs) @ ys) \<noteq> pat" using Cons(2,3) by (cases pat) auto
  then show ?case using Cons by (simp add: option.map_comp o_def)
qed

lemma parse_head_print:
  assumes "CHR '' '' \<notin> set r" and "CHR '' '' \<notin> set op" and "ws \<noteq> []"
  shows "parse_head (print_line r op ws) = Inr (Some r, op, print_params ws)"
proof -
  obtain q where q: "print_params ws = CHR '' '' # q" using assms(3) by (cases ws) (auto simp: print_params_def print_word_def)
  have "str_index '' = '' ((CHR ''%'' # r) @ '' = '' @ op @ print_params ws) = Some (Suc (length r))"
    using assms(1) by (subst str_index_append) auto
  then have c: "ret_check (print_line r op ws) = int (length r) + 3" by (simp add: ret_check_def str_find_def print_line_def)
  have f: "str_find ''%'' (print_line r op ws) = 2" by (simp add: str_find_def print_line_def)
  have b: "str_find '' '' (op @ print_params ws) = int (length op)" using assms(2) by (simp add: str_find_def str_index_append q)
  have s1: "substr 3 (int (length r)) (print_line r op ws) = Inr r" by (simp add: substr_def print_line_def)
  have l: "print_line r op ws = (''  %'' @ r @ '' = '') @ op @ print_params ws" by (simp add: print_line_def)
  have n: "length r + 6 = length (''  %'' @ r @ '' = '')" by simp
  have "drop (length r + 6) (print_line r op ws) = op @ print_params ws" unfolding l n by (metis append_eq_conv_conj)
  then have s2: "suffix_at (6 + int (length r)) (print_line r op ws) = Inr (op @ print_params ws)"
    by (simp add: suffix_at_def substr_def nat_add_distrib add.commute) (simp add: print_line_def)
  have s3: "substr 0 (int (length op)) (op @ print_params ws) = Inr op" "suffix_at (int (length op)) (op @ print_params ws) = Inr (print_params ws)"
    by (simp_all add: suffix_at_def substr_def)
  show ?thesis by (simp add: parse_head_def head_return_def c f s1 s2 b s3)
qed

lemma parse_print:
  assumes "CHR '' '' \<notin> set r" and "CHR '' '' \<notin> set op" and "ws \<noteq> []" and "\<forall>w\<in>set ws. plain_word (fst w)" and "map_of switch_opMap op = Some v"
  shows "parse e ts (print_line r op ws) rl =
    (case get_register r rl of (k, rl1) \<Rightarrow> parse_case v (line_ctx e ts (print_line r op ws) op (Some k) (map fst ws)) rl1)"
  using assms by (simp add: parse_def parse_head_print tokens_print return_register_def case_prod_beta Let_def)

section \<open>Operands\<close>

datatype operand = Opd_Reg string | Opd_Imm int

primrec print_operand :: "operand \<Rightarrow> string" where
  "print_operand (Opd_Reg n) = CHR ''%'' # n"
| "print_operand (Opd_Imm k) = show_int k"

primrec operand_ok :: "operand \<Rightarrow> bool" where
  "operand_ok (Opd_Reg n) \<longleftrightarrow> CHR '' '' \<notin> set n \<and> CHR '','' \<notin> set n"
| "operand_ok (Opd_Imm k) \<longleftrightarrow> - (2 ^ 63) \<le> k \<and> k < 2 ^ 63"

primrec opd_names :: "operand \<Rightarrow> string list" where
  "opd_names (Opd_Reg n) = [n]"
| "opd_names (Opd_Imm k) = []"

primrec opd_imms :: "operand \<Rightarrow> int list" where
  "opd_imms (Opd_Reg n) = []"
| "opd_imms (Opd_Imm k) = [k]"

text \<open>What an integer operation on two operands reads: its registers, and the first constant.\<close>

definition printed_args :: "operand \<Rightarrow> operand \<Rightarrow> int_args" where
  "printed_args a b = \<lparr> ia_regs = length (opd_names a @ opd_names b), ia_imm = (case opd_imms a @ opd_imms b of [] \<Rightarrow> 0 | k # ks \<Rightarrow> word_of_int k),
     ia_immFirst = (opd_imms a \<noteq> []) \<rparr>"

lemma show_int_plain: "show_int k \<noteq> [] \<and> hd (show_int k) \<notin> set ''([{<=*%'' \<and> CHR '' '' \<notin> set (show_int k) \<and> CHR '','' \<notin> set (show_int k)"
  using show_nat_plain [OF hd_show_nat, of "nat k"] by (auto simp: show_int_def dest: show_nat_plain)

lemma plain_operand: "operand_ok a \<Longrightarrow> plain_word (print_operand a)"
  using show_int_plain by (cases a) (auto simp: plain_word_def)

lemma isRegister_operand: "isRegister (print_operand a) \<longleftrightarrow> opd_imms a = []"
  using show_int_plain by (cases a) (auto simp: isRegister_def)

lemma get_register_list: "get_register n rl = (k, rl') \<Longrightarrow> \<exists>zs. rl_RegList rl' = rl_RegList rl @ zs"
  by (auto simp: get_register_def addRegister_def split: option.splits)

lemma list_grows: "rl_RegList rl' = rl_RegList rl @ zs \<Longrightarrow> grows rl rl'"
  by (auto simp: grows_def names_def)

lemma reg_operand_printed:
  "\<exists>ks rl' zs. reg_operand (print_operand a) (rl, ds) = Inr (ks, rl', ds @ map (\<lambda>n. findRegister n rl') (opd_names a)) \<and> length ks = length (opd_names a)
     \<and> rl_RegList rl' = rl_RegList rl @ zs \<and> (\<forall>n\<in>set (opd_names a). findRegister n rl' \<noteq> None)"
proof (cases a)
  case (Opd_Reg n)
  obtain k rl' where g: "get_register n rl = (k, rl')" by fastforce
  with get_register_names [OF g] get_register_list [OF g] show ?thesis
    by (auto simp: Opd_Reg reg_operand_def isRegister_def setRegister_def suffix_at_def substr_def)
next
  case (Opd_Imm k)
  then show ?thesis using isRegister_operand [of a] by (simp add: reg_operand_def)
qed

lemma setRegOperands_printed:
  assumes "pc_ps x = [ty, print_operand a, print_operand b]"
  shows "\<exists>ks rl' zs. setRegOperands x (rl, []) = Inr (ks, rl', map (\<lambda>n. findRegister n rl') (opd_names a @ opd_names b)) \<and> length ks = length (opd_names a @ opd_names b)
     \<and> rl_RegList rl' = rl_RegList rl @ zs \<and> (\<forall>n\<in>set (opd_names a @ opd_names b). findRegister n rl' \<noteq> None)"
proof -
  let ?f = "\<lambda>rl. map (\<lambda>n. findRegister n rl)"
  from reg_operand_printed [of a rl "[]"] obtain ka rla za
    where A: "reg_operand (print_operand a) (rl, []) = Inr (ka, rla, ?f rla (opd_names a))" "length ka = length (opd_names a)"
      "rl_RegList rla = rl_RegList rl @ za" "\<forall>n\<in>set (opd_names a). findRegister n rla \<noteq> None" by auto
  from reg_operand_printed [of b rla "?f rla (opd_names a)"] obtain kb rlb zb
    where B: "reg_operand (print_operand b) (rla, ?f rla (opd_names a)) = Inr (kb, rlb, ?f rla (opd_names a) @ ?f rlb (opd_names b))" "length kb = length (opd_names b)"
      "rl_RegList rlb = rl_RegList rla @ zb" "\<forall>n\<in>set (opd_names b). findRegister n rlb \<noteq> None" by auto
  have "findRegister n rlb = findRegister n rla" if "n \<in> set (opd_names a)" for n
    using A(4) that findRegister_grows [OF _ list_grows [OF B(3)], of n] by fastforce
  then have "?f rla (opd_names a) = ?f rlb (opd_names a)" "\<forall>n\<in>set (opd_names a). findRegister n rlb \<noteq> None" using A(4) by simp_all
  moreover have "setRegOperands x (rl, []) = Inr (ka @ kb, rlb, ?f rla (opd_names a) @ ?f rlb (opd_names b))"
    using assms by (simp add: setRegOperands_def par_def last_par_def A(1) B(1))
  ultimately show ?thesis using A(2,3) B(2-4) by auto
qed

lemma imms_printed:
  assumes "pc_ps x = [ty, print_operand a, print_operand b]" and "operand_ok a" "operand_ok b"
  shows "\<exists>imms. setImmOperands x = Inr imms \<and> map atol imms = opd_imms a @ opd_imms b" and "immPosition x = Inr (opd_imms a \<noteq> [])"
proof -
  have i: "map atol (filter (\<lambda>p. \<not> isRegister p) [print_operand c]) = opd_imms c" if "operand_ok c" for c
    using that isRegister_operand [of c] by (cases c) (auto simp: atol_show)
  show "\<exists>imms. setImmOperands x = Inr imms \<and> map atol imms = opd_imms a @ opd_imms b"
    using i [OF assms(2)] i [OF assms(3)] by (simp add: setImmOperands_def par_def last_par_def assms(1) split: if_splits)
  show "immPosition x = Inr (opd_imms a \<noteq> [])" by (simp add: immPosition_def par_def last_par_def assms(1) isRegister_operand)
qed

section \<open>Integer operations\<close>

lemma setSize_int:
  assumes "0 < w" and "w < 2 ^ 31"
  shows "setSize (CHR ''i'' # show_nat w) r = Inr (r\<lparr> reg_Data_Type := CHR ''i'' # show_nat w, reg_Size := (w + 7) div 8 \<rparr>)"
proof -
  have "last (show_nat w) \<noteq> CHR ''*''" using show_nat_plain [OF last_in_set, of w] by simp
  moreover have "unat (word_of_int (BYTESIZE (int w)) :: 64 word) = (w + 7) div 8"
  proof -
    have "BYTESIZE (int w) = int ((w + 7) div 8)" using assms(1) by (simp add: BYTESIZE_def zdiv_int)
    moreover have "(w + 7) div 8 < 2 ^ 64" using assms(2) by simp
    ultimately show ?thesis by (simp add: unat_of_nat)
  qed
  ultimately show ?thesis using stoi_show [OF assms(2)] by (simp add: setSize_def)
qed

definition int_ops :: "(string \<times> (int_args \<Rightarrow> instr_class)) list" where
  "int_ops = [(''add'', Add), (''sub'', Sub), (''mul'', Mul), (''udiv'', UDiv), (''sdiv'', SDiv), (''urem'', URem), (''srem'', SRem),
     (''shl'', Shl), (''lshr'', LShr), (''ashr'', AShr), (''and'', And), (''or'', Or), (''xor'', Xor)]"

lemma int_ops_parse:
  assumes "map_of int_ops op = Some mk"
  shows "CHR '' '' \<notin> set op \<and> (\<exists>v. map_of switch_opMap op = Some v \<and> (\<forall>x rl. \<exists>cyc f cnt. parse_case v x rl = parse_int x mk cyc f cnt rl))"
proof -
  from map_of_SomeD [OF assms] have "(op, mk) \<in> set int_ops" .
  then show ?thesis unfolding int_ops_def
    by (simp only: list.set insert_iff empty_iff prod.inject simp_thms) (elim disjE conjE; hypsubst, simp add: switch_opMap_def parse_ops, blast)
qed

lemma parse_int_printed:
  assumes "pc_ps x = [CHR ''i'' # show_nat w, print_operand a, print_operand b]" and "operand_ok a" "operand_ok b" and "0 < w" "w < 2 ^ 31"
    and "pc_ret x = Some k" and "k < length (rl_RegList rl)"
  shows "\<exists>cyc' f' rl'. parse_int x mk cyc f cnt rl = Inr (Some (new_instr x (CHR ''i'' # show_nat w) cyc' (map (\<lambda>n. findRegister n rl') (opd_names a @ opd_names b)) f' (mk (printed_args a b))), rl')
    \<and> grows rl rl' \<and> (\<forall>n\<in>set (opd_names a @ opd_names b). findRegister n rl' \<noteq> None) \<and> reg_Size (rl_RegList rl' ! k) = (w + 7) div 8"
proof -
  let ?ty = "CHR ''i'' # show_nat w"
  define rl1 where "rl1 = set_reg k ((rl_RegList rl ! k)\<lparr> reg_Data_Type := ?ty, reg_Size := (w + 7) div 8 \<rparr>) rl"
  have u: "upd_reg (setSize ?ty) k rl = Inr rl1" using assms(7) setSize_int [OF assms(4,5)] by (simp add: upd_reg_def reg_at_def rl1_def)
  have i: "initializeReturnRegister x rl = Inr (?ty, rl1)" by (simp add: initializeReturnRegister_def par_def last_par_def assms(1,6) size_return_def u)
  from setRegOperands_printed [OF assms(1), of rl1] obtain ks rl2 zs
    where o: "setRegOperands x (rl1, []) = Inr (ks, rl2, map (\<lambda>n. findRegister n rl2) (opd_names a @ opd_names b))" "length ks = length (opd_names a @ opd_names b)"
      "rl_RegList rl2 = rl_RegList rl1 @ zs" "\<forall>n\<in>set (opd_names a @ opd_names b). findRegister n rl2 \<noteq> None" by blast
  from imms_printed(1) [OF assms(1-3)] obtain imms where m: "setImmOperands x = Inr imms" "map atol imms = opd_imms a @ opd_imms b" by blast
  have im: "(if imms = [] then 0 else word_of_int (atol (hd imms))) = ia_imm (printed_args a b)"
    using m(2) by (cases imms) (auto simp: printed_args_def split: list.splits)
  have g: "grows rl rl2" using o(3) size_names [OF u] by (simp add: grows_def names_def)
  have sz: "reg_Size (rl_RegList rl2 ! k) = (w + 7) div 8" using o(3) assms(7) by (simp add: rl1_def set_reg_def nth_append)
  show ?thesis using g sz o(4) imms_printed(2) [OF assms(1-3)]
    by (simp add: parse_int_def i o(1) m(1) Let_def im o(2) case_prod_beta) (simp add: printed_args_def, blast)
qed


lemma printed_add:
  "print_line ''3'' ''add'' [(CHR ''i'' # show_nat 32, False), (print_operand (Opd_Reg ''1''), True), (print_operand (Opd_Imm (-7)), False)] = ''  %3 = add i32 %1, -7''"
  by code_simp


end
