(* ===== verification/File_Run.thy ===== *)
theory File_Run
  imports Parser_Correct Runtime_Correct
begin

text \<open>
  The runtime engine on a file: \<open>initialize\<close> parses the file and starts the first cycle, and the run goes
  on with ticks and answers of memory. What the runtime promises of well-formed programs holds of the
  lines of the file and the names in them.
\<close>

inductive file_run :: "parse_env \<Rightarrow> (nat \<Rightarrow> addr result) \<Rightarrow> string list \<Rightarrow> llvm_interface \<Rightarrow> bool" for e gv ls where
  boot: "initialize e gv now (Some ls) (LLVMInterface lck th limits sd dd per) = Some (Inr s) \<Longrightarrow> file_run e gv ls s"
| cycle: "file_run e gv ls s \<Longrightarrow> li_tickEvent s = Some now \<Longrightarrow> li_tick (pe_fpu e) now (s\<lparr> li_tickEvent := None \<rparr>) = Some (Inr s') \<Longrightarrow> file_run e gv ls s'"
| read: "file_run e gv ls s \<Longrightarrow> readCommit q buf s = Inr s' \<Longrightarrow> file_run e gv ls s'"
| store: "file_run e gv ls s \<Longrightarrow> writeCommit q s = Inr s' \<Longrightarrow> file_run e gv ls s'"

lemma initialize_parsed:
  assumes "initialize e gv now (Some ls) s = Some (Inr s')"
  obtains m where "parse_module e gv ls empty_module = Inr m" and "li_initialize (pe_fpu e) now (lm_bbs m) (lm_regs m) s = Some (Inr s')"
proof -
  from assms obtain s1 where c: "constructBBList e gv (Some ls) s = Inr s1"
    and t: "li_tick (pe_fpu e) now (s1\<lparr> li_running := True, li_cycle := 0, li_occ := (\<lambda>_. 0), li_unlimitedFU := unlimitedMode s1 \<rparr>) = Some (Inr s')"
    by (auto simp: initialize_def split: sum.splits)
  from c obtain m where m: "parse_module e gv ls empty_module = Inr m" "li_construct (lm_bbs m) (lm_regs m) s = Inr s1"
    by (auto simp: constructBBList_def bind_res_eq_Inr_iff)
  from m(2) t have "li_initialize (pe_fpu e) now (lm_bbs m) (lm_regs m) s = Some (Inr s')" by (simp add: li_initialize_def li_start_def)
  with m(1) show ?thesis by (rule that)
qed

lemma parsed_initialize:
  assumes "parse_module e gv ls empty_module = Inr m" and "li_initialize (pe_fpu e) now (lm_bbs m) (lm_regs m) s = Some (Inr s')"
  shows "initialize e gv now (Some ls) s = Some (Inr s')"
  using assms by (auto simp: initialize_def constructBBList_def li_initialize_def li_start_def bind_res_eq_Inr_iff split: sum.splits)

lemma file_run_li_run: "file_run e gv ls s \<Longrightarrow> \<exists>m. parse_module e gv ls empty_module = Inr m \<and> li_run (pe_fpu e) (lm_bbs m) s"
proof (induction rule: file_run.induct)
  case (boot now lck th limits sd dd per s)
  then show ?case by (elim initialize_parsed) (blast intro: li_run.start)
qed (blast intro: li_run.tick li_run.read li_run.store)+

lemma live_line:
  assumes "parse_module e gv ls empty_module = Inr m" and "wf_program (lm_bbs m)" and "li_run u (lm_bbs m) s" and "p \<in> live s"
  shows "returns_to (dest (in_LLVMLine (li_instrs s ! p))) (in_ReturnRegister (li_instrs s ! p)) (lm_regs m)"
proof -
  from dep_invD(5) [OF li_run_inv [OF assms(2,3)] assms(4)] obtain j where j: "j \<in> nodes (lm_bbs m)" "skel (li_instrs s ! p) = skel j"
    by (auto simp: node_ok_def)
  from parsed_nodes [OF assms(1) j(1)] have "returns_to (dest (in_LLVMLine j)) (in_ReturnRegister j) (lm_regs m)" by (simp add: line_node_def)
  with skel_fields(2,6) [OF j(2)] show ?thesis by simp
qed

text \<open>
  C6. From the file to the launch: in every state of a run of a file in static single assignment form, an
  instruction without active parents neither reads nor writes a register that the line of an older
  uncommitted instruction assigns to.
\<close>

theorem file_launch_after_producers:
  assumes "file_run e gv ls s" and "parse_module e gv ls empty_module = Inr m" and "pe_cycles e ''load'' = 0" and "ssa_text (lm_bbs m)"
    and "c \<in> set (li_reservation s)" and "in_ActiveParents (li_instrs s ! c) = 0" and "p \<in> live s" and "p < c"
    and "dest (in_LLVMLine (li_instrs s ! p)) = Some n"
  shows "findRegister n (lm_regs m) \<noteq> None \<and> findRegister n (lm_regs m) \<notin> insert (in_ReturnRegister (li_instrs s ! c)) (set (operands (li_instrs s ! c)))"
proof -
  have wf: "wf_program (lm_bbs m)" using line_nodes_wf [OF _ assms(3,4)] parsed_nodes [OF assms(2)] by blast
  have run: "li_run (pe_fpu e) (lm_bbs m) s" using file_run_li_run [OF assms(1)] assms(2) by auto
  from live_line [OF assms(2) wf run assms(7)] assms(9) obtain k where k: "in_ReturnRegister (li_instrs s ! p) = Some k" "findRegister n (lm_regs m) = Some k"
    by (auto simp: returns_to_def)
  have "Some k \<notin> needs (li_instrs s ! c)" using no_older_writer [OF wf run assms(5,6) _ assms(7,8)] k(1) by blast
  with k(2) show ?thesis by (auto simp: needs_def)
qed

definition text_unit :: llvm_interface where
  "text_unit = LLVMInterface False 100 (\<lambda>f. -1) (-1) (-1) 10"

lemma text_junk: "pe_junk text_env = 0"
  by (simp add: text_env_def)

lemmas text_defs = text_junk text_program_def text_instr_def new_instr_def line_ctx_def text_registers_def text_unit_def is_terminator_def raw_pointer_def Register_def RegisterList_def
  LLVMInterface_def li_start_def li_construct_def initFU_def findEntryBB_def unlimitedMode_def

lemma text_boots:
  "\<exists>s0 s1. li_initialize (pe_fpu text_env) 0 text_program text_registers text_unit = Some (Inr s0) \<and> readCommit 0 [5, 0, 0, 0] s0 = Inr s1
    \<and> li_reservation s1 = [2, 3, 4] \<and> in_ActiveParents (li_instrs s1 ! 2) = 0 \<and> li_readQueue s1 = [1] \<and> in_LLVMLine (li_instrs s1 ! 1) = ''  %2 = load i32, i32* %b, align 4''"
  by (simp add: li_initialize_def text_defs demo_defs schedule_defs launch_defs tick_defs updateFU_def retire_defs setSize_i32 launch_loop.simps mask32 Let_def)

theorem file_launch_after_producers_witness:
  "\<exists>s. file_run text_env (\<lambda>n. Inr 4096) text_file s \<and> 2 \<in> set (li_reservation s) \<and> in_ActiveParents (li_instrs s ! 2) = 0 \<and> 1 \<in> live s
     \<and> dest (in_LLVMLine (li_instrs s ! 1)) = Some ''2'' \<and> findRegister ''2'' text_registers = Some 5 \<and> Some 5 \<notin> set (operands (li_instrs s ! 2))"
proof -
  from text_boots obtain s0 s1 where b: "li_initialize (pe_fpu text_env) 0 text_program text_registers text_unit = Some (Inr s0)" and c: "readCommit 0 [5, 0, 0, 0] s0 = Inr s1"
    and s: "li_reservation s1 = [2, 3, 4]" "in_ActiveParents (li_instrs s1 ! 2) = 0" "li_readQueue s1 = [1]" "in_LLVMLine (li_instrs s1 ! 1) = ''  %2 = load i32, i32* %b, align 4''"
    by blast
  have "initialize text_env (\<lambda>n. Inr 4096) 0 (Some text_file) text_unit = Some (Inr s0)" by (rule parsed_initialize [OF text_parsed, simplified, OF b])
  then have r: "file_run text_env (\<lambda>n. Inr 4096) text_file s1" unfolding text_unit_def using file_run.read [OF file_run.boot c] by blast
  have d: "dest (in_LLVMLine (li_instrs s1 ! 1)) = Some ''2''" unfolding s(4) by code_simp
  have f: "findRegister ''2'' text_registers = Some 5" by code_simp
  have "pe_cycles text_env ''load'' = 0" "1 \<in> live s1" by (simp_all add: text_env_def live_def flight_def s(3))
  with file_launch_after_producers [OF r text_parsed, of 2 1 "''2''"] text_ssa s(1,2) d f r show ?thesis by (intro exI [of _ s1]) simp
qed

end
