(* ===== verification/Spec2Isabelle.thy ===== *)
theory Spec2Isabelle
  imports Dma_Port Stream_Dma Comm_Requests Runtime_Termination Parse_Brackets Parse_Print File_Run
begin

text \<open>
  Verification of the accelerator components of gem5-SALAM (\<open>src/hwacc\<close>), with the parts of
  gem5 they are built on.

  \<^bold>\<open>The program.\<close> An accelerator is a compute unit that executes the basic blocks of an LLVM
  function (\<open>llvm_interface.cc\<close>, \<open>LLVMRead/src\<close>), a communications interface between it and the
  memory system (\<open>comm_interface.cc\<close>), and private memories and DMA engines around it: scratchpads
  with ready bits (\<open>scratchpad_memory.cc\<close>), stream buffers (\<open>stream_buffer.cc\<close>, \<open>stream_port.hh\<close>), a
  memory-to-memory DMA (\<open>noncoherent_dma.cc\<close>) and a streaming DMA (\<open>stream_dma.cc\<close>), both on the FIFOs
  of \<open>dma_device.cc\<close> and \<open>dma_write_fifo.cc\<close>. The compute unit hands loads and stores to the
  communications interface, which cuts them into packets of a cache line, routes them to its ports
  and reports the completed requests back; the host programs the devices through their registers and
  is told of the end by interrupts.

  \<^bold>\<open>Conventions.\<close> Objects are records, their methods functions on the record; a method that can
  fail returns \<open>error + 'a\<close> (theory \<open>Prelude\<close>), with a constructor for a failed assertion, a panic, a
  fatal error, an access out of bounds and undefined behaviour. Asynchrony is explicit: a device has
  an inductive relation of its reachable states, whose steps are the calls it can receive (ticks,
  requests, answers in any order, retries), and the properties hold in every reachable state. Machine
  words are words where wrap-around matters and numbers where the code only counts. An event is the
  time at which it is scheduled, if it is. What is not under the accelerators' control is a parameter:
  the memory that answers, the host's floating-point unit.

  \<^bold>\<open>Theories.\<close>
  \<^item> \<open>Prelude\<close>: results, bytes and little-endian numbers, lists of arrays, events.
  \<^item> \<open>Fifo_Spec\<close>, \<open>Circular_Queue\<close>: a bounded queue as a locale, and \<open>base/circular_queue.hh\<close> with the
    \<open>Fifo\<close> of \<open>base/circlebuf.hh\<close> as its interpretation: the ring buffer refines a list.
  \<^item> \<open>Addr_Range\<close>: \<open>base/addr_range.hh\<close>, plain and interleaved ranges.
  \<^item> \<open>Packet\<close>: the command table and payload of \<open>mem/packet.hh\<close>.
  \<^item> \<open>Stream_Buffer\<close>: \<open>stream_buffer.cc\<close> and the flow control of \<open>stream_port.hh\<close>, over a locale of stream
    devices which the stream buffer and the streaming DMA interpret.
  \<^item> \<open>Dma_Port\<close>: \<open>base/chunk_generator.hh\<close> and \<open>DmaPort\<close>: requests are cut into chunks that cover them,
    sent, retried and completed once.
  \<^item> \<open>Dma_Fifo\<close>, \<open>Dma_Read_Fifo\<close>, \<open>Dma_Write_Fifo\<close>: the two DMA FIFOs; every order of memory's
    answers gives the bytes in order, and a FIFO that waits has a request in flight.
  \<^item> \<open>Dma_Copy\<close>: a byte source, a byte sink and the copy between them as locales, with the proof that the
    sink receives what the source holds; interpreted on the FIFOs in \<open>Noncoherent_Dma\<close>.
  \<^item> \<open>Noncoherent_Dma\<close>, \<open>Stream_Dma\<close>: the two DMA engines: register file, state machine of a transfer,
    frames and interrupts.
  \<^item> \<open>Abstract_Mem\<close>, \<open>Scratchpad_Memory\<close>: load-locked and store-conditional of \<open>mem/abstract_mem.cc\<close>, and
    the scratchpad: ready bits as full and empty cells, response queue, retries.
  \<^item> \<open>Comm_Interface\<close>, \<open>Comm_Requests\<close>: \<open>comm_interface.cc\<close> with \<open>mem_request.cc\<close>: operations and routing; runs,
    in which requests are served exactly once and with the contents of memory.
  \<^item> \<open>Registers\<close>, \<open>Instructions\<close>: \<open>registers.cc\<close> and \<open>instructions.cc\<close>: what every instruction
    computes, at the width of its type.
  \<^item> \<open>Runtime\<close>: \<open>llvm_interface.cc\<close> and \<open>base_instruction.cc\<close>: scheduling of basic blocks, dependencies,
    functional units, commit. \<open>Runtime_Steps\<close> gives the elimination rules of its operations,
    \<open>Runtime_Run\<close> the runs and the invariant of the counters.
  \<^item> \<open>Dataflow_Graph\<close>, \<open>Dataflow_Inv\<close>, \<open>Dataflow\<close>: the graph of parents and children: operations on it,
    the invariant, and its preservation by scheduling, launching, committing and the answers of memory.
  \<^item> \<open>Runtime_Correct\<close>, \<open>Runtime_Termination\<close>: what the invariants give for a run, and that a cycle
    returns.
  \<^item> \<open>Parse_Line\<close>, \<open>Basic_Block\<close>, \<open>LLVM_Module\<close>: the parser. \<open>Parse_Line\<close> has the members of \<open>std::string\<close> that
    \<open>BasicBlock::parse\<close> uses and its cut of a line into return register, opcode and parameters; \<open>Basic_Block\<close>
    one function per opcode, from parameters to an instruction and the registers it names;
    \<open>LLVM_Module\<close> the loop of \<open>constructBBList\<close> over a file, and \<open>initialize\<close>.
  \<^item> \<open>Parser_Correct\<close>: registers keep their names while a file is parsed, every line becomes at most one
    fresh instruction that returns to the register it names, and a text in static single assignment form
    becomes a well-formed program. \<open>Parse_Brackets\<close>: the search for a closing bracket agrees with matching by
    depth. \<open>Parse_Print\<close>: the parser reads back printed integer operations.
  \<^item> \<open>File_Run\<close>: runs that start from a file; the order of dependent instructions in terms of its lines.

  \<^bold>\<open>Loops.\<close> All loops are total functions except the launch loop of \<open>LLVMInterface::tick\<close>, which
  follows branches into the blocks they lead to and does not end on a cycle of branches that wait
  for nothing: it is a partial function into \<open>option\<close>, and \<open>tick_returns\<close> shows that it returns when the
  branches of the program carry a rank that falls along the control flow. No fuel is used elsewhere.

  Two loops of the parser do not end on malformed text, a bracket that is never closed and a switch without
  its closing line: reaching them is an error of the model.

  \<^bold>\<open>Hypotheses of the runtime.\<close> \<open>wf_program\<close> states what the runtime relies on: instructions are fresh and have
  an operand for each dependency, only \<open>ret\<close> starts with an active parent, terminators and stores return
  nothing, loads return something and take no cycles of their own, other instructions without a result take
  none, and a register is returned to by the instructions of one line. \<open>parsed_program_wf\<close> proves it of
  every file the parser accepts, given static single assignment (\<open>ssa_text\<close>), which LLVM guarantees, and the
  cycle count 0 for loads, which \<open>CycleCounts.py\<close> demands.

  \<^bold>\<open>Not modelled.\<close> The cycle counts are a table of the configuration, a parameter of the parser, as are
  \<open>to_string\<close> and \<open>stod\<close> of floating-point numbers. The power model, utilisation and result collection, which
  are statistics that nothing reads back into the simulation. \<open>io_acc.cc\<close>, which is not built. Constructors
  that only wire ports, and debug output. Of gem5 itself only what the accelerators use; time advances by the
  scheduled events only, and addresses are not translated.
\<close>

end
